(* ===== verification/Prelude.thy ===== *)
theory Prelude
  imports Main "HOL-Library.Word" "HOL-Library.Monad_Syntax"
begin

text \<open>
  Shared vocabulary of the development.

  \<^item> C integer types as words: \<open>u8\<close>, \<open>u16\<close>, \<open>u32\<close> (\<open>unsigned\<close>) and \<open>u64\<close>
    (\<open>uintptr_t\<close> on the LP64 targets); addresses are natural numbers, because pointer
    arithmetic in C never wraps inside an object.
  \<^item> \<open>assert()\<close>, \<open>AN()\<close>, \<open>AZ()\<close> and \<open>xxxassert()\<close> of include/vas.h abort the process.
    A routine that can abort returns an \<open>option\<close>: \<open>None\<close> is the abort, and
    \<open>vassert\<close> is the statement that may cause it.  A theorem that a routine returns
    \<open>Some\<close> value is therefore a theorem that no assertion in it fails.
  \<^item> C strings: \<open>cchar\<close> reads a byte of a NUL terminated buffer, \<open>cstr\<close> is the part
    a string routine sees, \<open>strncasecmp_eq\<close> and \<open>strcasecmp_eq\<close> are the ASCII
    case-insensitive comparisons.
  \<^item> \<open>vas\<close> is the collection of facts with which calls in the option monad are
    evaluated symbolically.
\<close>

named_theorems vas \<open>symbolic evaluation of asserting routines\<close>

unbundle bit_operations_syntax

type_synonym u8 = "8 word"
type_synonym u16 = "16 word"
type_synonym u32 = "32 word"
type_synonym u64 = "64 word"
type_synonym addr = nat

section \<open>Assertions\<close>

definition vassert :: "bool \<Rightarrow> unit option" where
  "vassert b = (if b then Some () else None)"

lemma vassert_True [simp]: "vassert True = Some ()"
  by (simp add: vassert_def)

lemma vassert_False [simp]: "vassert False = None"
  by (simp add: vassert_def)

lemma vassert_bind_Some [vas]:
  "(vassert b \<bind> f = Some y) \<longleftrightarrow> b \<and> f () = Some y"
  by (simp add: vassert_def)

lemma vassert_bind_None [vas]:
  "(vassert b \<bind> f = None) \<longleftrightarrow> (b \<longrightarrow> f () = None)"
  by (simp add: vassert_def)

lemma vassert_eq_Some [vas]: "(vassert b = Some u) \<longleftrightarrow> b"
  by (simp add: vassert_def)

lemma vassert_bind_ok: "b \<Longrightarrow> vassert b \<bind> f = f ()"
  by simp

declare Option.bind_eq_Some_conv [vas]

section \<open>C strings\<close>

abbreviation NUL :: char where "NUL \<equiv> CHR 0x00"
abbreviation CR :: char where "CR \<equiv> CHR 0x0D"
abbreviation LF :: char where "LF \<equiv> CHR 0x0A"
abbreviation HTAB :: char where "HTAB \<equiv> CHR 0x09"

text \<open>The byte at offset \<open>i\<close> of a buffer whose text is followed by a NUL.\<close>

definition cchar :: "string \<Rightarrow> nat \<Rightarrow> char" where
  "cchar s i = (if i < length s then s ! i else NUL)"

definition cstr :: "string \<Rightarrow> string" where
  "cstr s = takeWhile (\<lambda>c. c \<noteq> NUL) s"

definition c_tolower :: "char \<Rightarrow> char" where
  "c_tolower c =
     (let n = of_char c :: nat
      in if 65 \<le> n \<and> n \<le> 90 then char_of (n + 32) else c)"

definition strncasecmp_eq :: "string \<Rightarrow> string \<Rightarrow> nat \<Rightarrow> bool" where
  "strncasecmp_eq a b n =
     (map c_tolower (take n (cstr a)) = map c_tolower (take n (cstr b)))"

definition strcasecmp_eq :: "string \<Rightarrow> string \<Rightarrow> bool" where
  "strcasecmp_eq a b = (map c_tolower (cstr a) = map c_tolower (cstr b))"

lemma cchar_Nil [simp]: "cchar [] i = NUL"
  by (simp add: cchar_def)

lemma cchar_Cons_0 [simp]: "cchar (c # s) 0 = c"
  by (simp add: cchar_def)

lemma cchar_Cons_Suc [simp]: "cchar (c # s) (Suc i) = cchar s i"
  by (simp add: cchar_def)

lemma cstr_Nil [simp]: "cstr [] = []"
  by (simp add: cstr_def)

lemma cstr_Cons [simp]: "cstr (c # s) = (if c = NUL then [] else c # cstr s)"
  by (simp add: cstr_def)

lemma NUL_notin_cstr [simp]: "NUL \<notin> set (cstr s)"
  by (auto simp: cstr_def dest: set_takeWhileD)

lemma cstr_id: "NUL \<notin> set s \<Longrightarrow> cstr s = s"
  by (auto simp: cstr_def takeWhile_eq_all_conv)

lemma cstr_idem [simp]: "cstr (cstr s) = cstr s"
  by (rule cstr_id) simp

lemma cstr_append: "NUL \<notin> set s \<Longrightarrow> cstr (s @ t) = s @ cstr t"
  by (induction s) auto

lemma strncasecmp_eq_refl [simp]: "strncasecmp_eq a a n"
  by (simp add: strncasecmp_eq_def)

lemma strncasecmp_eq_sym: "strncasecmp_eq a b n = strncasecmp_eq b a n"
  by (auto simp: strncasecmp_eq_def)

lemma strncasecmp_eq_trans:
  "strncasecmp_eq a b n \<Longrightarrow> strncasecmp_eq b c n \<Longrightarrow> strncasecmp_eq a c n"
  by (simp add: strncasecmp_eq_def)

section \<open>Alignment arithmetic\<close>

text \<open>
  \<open>PALGN\<close>, \<open>PAOK\<close>, \<open>PRNDDN\<close> and \<open>PRNDUP\<close> of bin/varnishd/cache.h on 64-bit values.
\<close>

definition PALGN :: u64 where
  "PALGN = 7"

definition PAOK :: "u64 \<Rightarrow> bool" where
  "PAOK p \<longleftrightarrow> p AND PALGN = 0"

definition PRNDDN :: "u64 \<Rightarrow> u64" where
  "PRNDDN p = p AND NOT PALGN"

definition PRNDUP :: "u64 \<Rightarrow> u64" where
  "PRNDUP p = (p + PALGN) AND NOT PALGN"

lemma PALGN_mask: "PALGN = mask 3"
  by (simp add: PALGN_def mask_eq_exp_minus_1)

lemma unat_PRNDDN: "unat (PRNDDN p) = 8 * (unat p div 8)"
proof -
  have "PRNDDN p = push_bit 3 (drop_bit 3 p)"
    unfolding PRNDDN_def PALGN_mask
    by (rule bit_eqI) (auto simp: bit_simps)
  moreover have "push_bit 3 (drop_bit 3 p) = (p div 8) * 8"
    by (simp add: push_bit_eq_mult drop_bit_eq_div)
  moreover have "unat ((p div 8) * 8) = 8 * (unat p div 8)"
  proof -
    have d: "unat (p div 8) = unat p div 8"
      by (simp add: unat_div)
    have "unat p div 8 * 8 \<le> unat p" by simp
    also have "unat p < 2 ^ LENGTH(64)" by (rule unsigned_less)
    finally show ?thesis
      by (simp only: unat_word_ariths d) simp
  qed
  ultimately show ?thesis by simp
qed

lemma PAOK_unat: "PAOK p \<longleftrightarrow> unat p mod 8 = 0"
proof -
  have "p AND PALGN = p mod 8"
    unfolding PALGN_mask by (simp flip: take_bit_eq_mask add: take_bit_eq_mod)
  then have "PAOK p \<longleftrightarrow> p mod 8 = 0"
    by (simp add: PAOK_def)
  also have "\<dots> \<longleftrightarrow> unat (p mod 8) = 0"
    by (simp add: unat_eq_0)
  finally show ?thesis
    by (simp add: unat_mod)
qed

lemma unat_PRNDUP:
  assumes "unat p + 7 < 2 ^ 64"
  shows "unat (PRNDUP p) = 8 * ((unat p + 7) div 8)"
proof -
  have "PRNDUP p = PRNDDN (p + PALGN)"
    by (simp add: PRNDUP_def PRNDDN_def)
  moreover have "unat (p + PALGN) = unat p + 7"
    using assms by (simp add: PALGN_def unat_word_ariths)
  ultimately show ?thesis
    by (simp add: unat_PRNDDN)
qed

text \<open>Conversions from addresses to the \<open>uintptr_t\<close> the macros work on.\<close>

definition p_ok :: "addr \<Rightarrow> bool" where
  "p_ok a = PAOK (of_nat a)"

lemma p_ok_iff: "p_ok a \<longleftrightarrow> a mod 8 = 0"
proof -
  have "a mod 2 ^ 64 mod 8 = a mod 8"
    by (rule mod_mod_cancel) simp
  then show ?thesis
    by (simp add: p_ok_def PAOK_unat unat_of_nat)
qed

text \<open>
  Rounding an \<open>unsigned\<close> byte count: \<open>PRNDUP\<close> and \<open>PRNDDN\<close> compute in
  \<open>uintptr_t\<close>, and the assignment back truncates to 32 bits.
\<close>

definition prndup32 :: "u32 \<Rightarrow> u32" where
  "prndup32 b = ucast (PRNDUP (ucast b))"

definition prnddn32 :: "u32 \<Rightarrow> u32" where
  "prnddn32 b = ucast (PRNDDN (ucast b))"

lemma unat_lt_2p32: "unat (b :: u32) < 2 ^ 32"
  using unsigned_less [of b] by simp

lemma unat_ucast_32_64 [simp]: "unat (ucast (b :: u32) :: u64) = unat b"
  using unat_lt_2p32 [of b] by (simp add: unsigned_ucast_eq take_bit_eq_mod)

lemma unat_prndup32_gen: "unat (prndup32 b) = 8 * ((unat b + 7) div 8) mod 2 ^ 32"
proof -
  have "unat (PRNDUP (ucast b)) = 8 * ((unat b + 7) div 8)"
    using unat_lt_2p32 [of b] by (simp add: unat_PRNDUP)
  then show ?thesis
    by (simp add: prndup32_def unsigned_ucast_eq take_bit_eq_mod)
qed

lemma unat_prndup32:
  assumes "unat b \<le> 2 ^ 32 - 8"
  shows "unat (prndup32 b) = 8 * ((unat b + 7) div 8)"
  using assms by (simp add: unat_prndup32_gen)

lemma unat_prnddn32: "unat (prnddn32 b) = 8 * (unat b div 8)"
proof -
  have "8 * (unat b div 8) \<le> unat b"
    by simp
  also have "\<dots> < 2 ^ 32"
    by (rule unat_lt_2p32)
  finally show ?thesis
    by (simp add: prnddn32_def unsigned_ucast_eq take_bit_eq_mod unat_PRNDDN)
qed

end
