(* ===== verification/Workspace.thy ===== *)
theory Workspace
  imports Prelude
begin

text \<open>
  bin/varnishd/cache_ws.c: the bump allocator every session, worker and object carries
  (\<open>struct ws\<close> of cache.h).  The four pointers are addresses, \<open>overflow\<close> counts failed
  allocations at its C width, and byte counts are 32-bit \<open>unsigned\<close> values whose
  rounding is computed in \<open>uintptr_t\<close> and truncated on assignment.  The contents of the
  buffer are not part of this state: the callers carry the bytes they store.
\<close>

record ws =
  ws_overflow :: u32
  ws_s :: addr
  ws_f :: addr
  ws_r :: "addr option"
  ws_e :: addr

definition WS_Assert :: "ws \<Rightarrow> unit option" where
  "WS_Assert ws = do {
     vassert (ws_s ws \<noteq> 0);
     vassert (p_ok (ws_s ws));
     vassert (ws_e ws \<noteq> 0);
     vassert (p_ok (ws_e ws));
     vassert (ws_s ws < ws_e ws);
     vassert (ws_f ws \<ge> ws_s ws);
     vassert (ws_f ws \<le> ws_e ws);
     vassert (p_ok (ws_f ws));
     (case ws_r ws of
        None \<Rightarrow> Some ()
      | Some r \<Rightarrow> do {
          vassert (r > ws_s ws);
          vassert (r \<le> ws_e ws);
          vassert (p_ok r)
        })
   }"

definition WS_Init :: "addr \<Rightarrow> u32 \<Rightarrow> ws option" where
  "WS_Init space len = do {
     vassert (space \<noteq> 0);
     vassert (p_ok space);
     let ws = \<lparr>ws_overflow = 0, ws_s = space, ws_f = space, ws_r = None,
               ws_e = space + unat len\<rparr>;
     vassert (PAOK (ucast len));
     WS_Assert ws;
     Some ws
   }"

definition WS_Reset :: "ws \<Rightarrow> addr option \<Rightarrow> ws option" where
  "WS_Reset ws p = do {
     WS_Assert ws;
     vassert (ws_r ws = None);
     ws' \<leftarrow> (case p of
        None \<Rightarrow> Some (ws\<lparr>ws_f := ws_s ws\<rparr>)
      | Some q \<Rightarrow> do {
          vassert (q \<ge> ws_s ws);
          vassert (q < ws_e ws);
          Some (ws\<lparr>ws_f := q\<rparr>)
        });
     WS_Assert ws';
     Some ws'
   }"

definition WS_Alloc :: "ws \<Rightarrow> u32 \<Rightarrow> (ws \<times> addr option) option" where
  "WS_Alloc ws bytes0 = do {
     WS_Assert ws;
     let bytes = prndup32 bytes0;
     vassert (ws_r ws = None);
     if ws_f ws + unat bytes > ws_e ws then do {
       let ws' = ws\<lparr>ws_overflow := ws_overflow ws + 1\<rparr>;
       WS_Assert ws';
       Some (ws', None)
     } else do {
       let r = ws_f ws;
       let ws' = ws\<lparr>ws_f := ws_f ws + unat bytes\<rparr>;
       WS_Assert ws';
       Some (ws', Some r)
     }
   }"

text \<open>
  \<open>WS_Dup\<close> copies the string and its NUL into the block it allocates; the pointer is
  returned with the bytes that were stored there.
\<close>

definition WS_Dup :: "ws \<Rightarrow> string \<Rightarrow> (ws \<times> (addr \<times> string) option) option" where
  "WS_Dup ws s = do {
     WS_Assert ws;
     let l = (of_nat (length (cstr s)) :: u32) + 1;
     (ws', p) \<leftarrow> WS_Alloc ws l;
     WS_Assert ws';
     Some (ws', map_option (\<lambda>a. (a, cstr s @ [NUL])) p)
   }"

definition WS_Free :: "ws \<Rightarrow> u32 option" where
  "WS_Free ws = do {
     WS_Assert ws;
     Some (of_nat (ws_e ws - ws_f ws))
   }"

definition WS_Snapshot :: "ws \<Rightarrow> addr option" where
  "WS_Snapshot ws = do {
     WS_Assert ws;
     vassert (ws_r ws = None);
     Some (ws_f ws)
   }"

definition WS_Reserve :: "ws \<Rightarrow> u32 \<Rightarrow> (ws \<times> u32) option" where
  "WS_Reserve ws bytes = do {
     WS_Assert ws;
     vassert (ws_r ws = None);
     let b2 = (if bytes = 0 then of_nat (ws_e ws - ws_f ws)
               else if unat bytes > ws_e ws - ws_f ws then of_nat (ws_e ws - ws_f ws)
               else bytes);
     let b3 = prnddn32 b2;
     vassert (ws_f ws + unat b3 \<le> ws_e ws);
     let ws' = ws\<lparr>ws_r := Some (ws_f ws + unat b3)\<rparr>;
     WS_Assert ws';
     Some (ws', of_nat (ws_f ws + unat b3 - ws_f ws))
   }"

definition WS_Release :: "ws \<Rightarrow> u32 \<Rightarrow> ws option" where
  "WS_Release ws bytes0 = do {
     WS_Assert ws;
     let bytes = prndup32 bytes0;
     vassert (unat bytes \<le> ws_e ws - ws_f ws);
     r \<leftarrow> ws_r ws;
     vassert (ws_f ws + unat bytes \<le> r);
     let ws' = ws\<lparr>ws_f := ws_f ws + unat bytes, ws_r := None\<rparr>;
     WS_Assert ws';
     Some ws'
   }"

definition WS_ReleaseP :: "ws \<Rightarrow> addr \<Rightarrow> ws option" where
  "WS_ReleaseP ws ptr = do {
     WS_Assert ws;
     r \<leftarrow> ws_r ws;
     vassert (ptr \<ge> ws_f ws);
     vassert (ptr \<le> r);
     let ws' = ws\<lparr>ws_f := ws_f ws + unat (PRNDUP (of_nat (ptr - ws_f ws))),
                  ws_r := None\<rparr>;
     WS_Assert ws';
     Some ws'
   }"

section \<open>The invariant\<close>

text \<open>What \<open>WS_Assert\<close> checks, and that the workspace is smaller than 4 GB.\<close>

definition ws_ok :: "ws \<Rightarrow> bool" where
  "ws_ok ws \<longleftrightarrow>
     0 < ws_s ws \<and> ws_s ws < ws_e ws \<and> ws_s ws \<le> ws_f ws \<and> ws_f ws \<le> ws_e ws \<and>
     8 dvd ws_s ws \<and> 8 dvd ws_f ws \<and> 8 dvd ws_e ws \<and>
     (case ws_r ws of None \<Rightarrow> True
      | Some r \<Rightarrow> ws_s ws < r \<and> r \<le> ws_e ws \<and> 8 dvd r)"

definition ws_inv :: "ws \<Rightarrow> bool" where
  "ws_inv ws \<longleftrightarrow> ws_ok ws \<and> ws_e ws - ws_s ws < 2 ^ 32 \<and>
     (case ws_r ws of None \<Rightarrow> True | Some r \<Rightarrow> ws_f ws \<le> r)"

lemma WS_Assert_iff [vas]: "WS_Assert ws = Some u \<longleftrightarrow> ws_ok ws"
  by (auto simp: WS_Assert_def ws_ok_def vas p_ok_iff mod_eq_0_iff_dvd
      split: option.splits)

lemma WS_Assert_ok: "ws_ok ws \<Longrightarrow> WS_Assert ws = Some ()"
  by (simp add: WS_Assert_iff)

lemma WS_Assert_bind [vas]:
  "(WS_Assert ws \<bind> f = Some y) \<longleftrightarrow> ws_ok ws \<and> f () = Some y"
  by (simp add: Option.bind_eq_Some_conv WS_Assert_iff)

lemma ws_inv_ok [simp]: "ws_inv ws \<Longrightarrow> ws_ok ws"
  by (simp add: ws_inv_def)

lemma dvd8_roundup [simp]: "8 dvd unat (prndup32 b)"
  by (auto simp: unat_prndup32_gen dvd_mod)

lemma dvd8_rounddn [simp]: "8 dvd unat (prnddn32 b)"
  by (simp add: unat_prnddn32)

section \<open>Functional behaviour of the operations\<close>

definition prnd :: "nat \<Rightarrow> nat" where
  "prnd n = 8 * ((n + 7) div 8)"

lemma prnd_ge: "n \<le> prnd n"
  by (simp add: prnd_def)

lemma prnd_le: "8 dvd m \<Longrightarrow> n \<le> m \<Longrightarrow> prnd n \<le> m"
  by (auto simp: prnd_def elim!: dvdE)

lemma dvd8_prnd [simp]: "8 dvd prnd n"
  by (simp add: prnd_def)

lemma ws_ok_move_f:
  assumes "ws_ok ws" and "8 dvd n" and "ws_f ws + n \<le> ws_e ws"
  shows "ws_ok (ws\<lparr>ws_f := ws_f ws + n\<rparr>)"
  using assms by (auto simp: ws_ok_def split: option.splits)

lemma ws_ok_overflow [simp]: "ws_ok (ws\<lparr>ws_overflow := n\<rparr>) = ws_ok ws"
  by (simp add: ws_ok_def split: option.splits)

lemma WS_Init_spec:
  assumes "0 < space" and "8 dvd space" and "8 dvd unat len" and "len \<noteq> 0"
  shows "WS_Init space len =
    Some \<lparr>ws_overflow = 0, ws_s = space, ws_f = space, ws_r = None,
          ws_e = space + unat len\<rparr>"
proof -
  have "0 < unat len"
    using assms(4) by (simp add: unat_gt_0)
  moreover have "PAOK (ucast len)"
    using assms(3) by (simp add: PAOK_unat mod_eq_0_iff_dvd)
  ultimately show ?thesis
    using assms
    by (simp add: WS_Init_def WS_Assert_ok ws_ok_def p_ok_iff mod_eq_0_iff_dvd)
qed

lemma WS_Init_inv: "WS_Init space len = Some ws \<Longrightarrow> ws_inv ws"
  by (auto simp: WS_Init_def vas ws_inv_def Let_def unat_lt_2p32 [simplified])

lemma WS_Alloc_eq:
  assumes "ws_ok ws" and "ws_r ws = None"
  shows "WS_Alloc ws b =
    Some (if ws_f ws + unat (prndup32 b) \<le> ws_e ws
          then (ws\<lparr>ws_f := ws_f ws + unat (prndup32 b)\<rparr>, Some (ws_f ws))
          else (ws\<lparr>ws_overflow := ws_overflow ws + 1\<rparr>, None))"
  using assms by (simp add: WS_Alloc_def WS_Assert_ok ws_ok_move_f not_le)

lemma WS_Alloc_SomeD:
  "WS_Alloc ws b = Some (ws', r) \<Longrightarrow> ws_ok ws \<and> ws_r ws = None"
  by (auto simp: WS_Alloc_def vas Let_def)

lemma WS_Alloc_inv:
  assumes "ws_inv ws" and "WS_Alloc ws b = Some (ws', r)"
  shows "ws_inv ws'"
proof -
  from WS_Alloc_SomeD [OF assms(2)] have "ws_r ws = None" by simp
  then show ?thesis
    using assms WS_Alloc_eq [of ws b] ws_ok_move_f [of ws "unat (prndup32 b)"]
    by (auto simp: ws_inv_def split: if_splits)
qed

lemma WS_Reserve_eq:
  assumes "ws_inv ws" and "ws_r ws = None"
    and "ws_f ws \<noteq> ws_s ws \<or> bytes = 0 \<or> 8 \<le> unat bytes"
  shows "\<exists>n. WS_Reserve ws bytes = Some (ws\<lparr>ws_r := Some (ws_f ws + unat n)\<rparr>, n)
    \<and> unat n = (if bytes = 0 then ws_e ws - ws_f ws
                else 8 * (min (unat bytes) (ws_e ws - ws_f ws) div 8))"
proof -
  let ?sp = "ws_e ws - ws_f ws"
  let ?b2 = "if bytes = 0 then of_nat ?sp else if unat bytes > ?sp then of_nat ?sp else bytes"
  have sp: "?sp < 2 ^ 32" and dv: "8 dvd ?sp"
    using assms(1) by (auto simp: ws_inv_def ws_ok_def)
  have b2: "unat (?b2 :: u32) = (if bytes = 0 then ?sp else min (unat bytes) ?sp)"
    using sp by (auto simp: unat_of_nat min_def)
  define n where "n = prnddn32 ?b2"
  have n: "unat n = 8 * (unat (?b2 :: u32) div 8)"
    by (simp add: n_def unat_prnddn32)
  have n0: "unat n = (if bytes = 0 then ?sp else 8 * (min (unat bytes) ?sp div 8))"
    unfolding n b2 using dv by auto
  have le: "unat n \<le> ?sp"
    unfolding n0 by (auto simp: min_def intro: order_trans [OF _ less_imp_le])
  have pos: "ws_s ws < ws_f ws + unat n"
  proof (cases "ws_f ws = ws_s ws")
    case True
    then have "0 < ?sp" using assms(1) by (auto simp: ws_inv_def ws_ok_def)
    with dv have "8 \<le> ?sp" by (auto simp: dvd_imp_le)
    with True assms(3) have "0 < unat n" unfolding n0 by (auto simp: min_def)
    with True show ?thesis by simp
  next
    case False
    then show ?thesis using assms(1) by (auto simp: ws_inv_def ws_ok_def)
  qed
  have ok: "ws_ok (ws\<lparr>ws_r := Some (ws_f ws + unat n)\<rparr>)"
    using assms(1,2) pos le dvd8_rounddn [of ?b2, folded n_def]
    by (auto simp: ws_inv_def ws_ok_def)
  have "WS_Reserve ws bytes = Some (ws\<lparr>ws_r := Some (ws_f ws + unat n)\<rparr>, n)"
    unfolding WS_Reserve_def Let_def n_def [symmetric]
    using assms(1,2) ok le by (simp add: WS_Assert_ok ws_inv_def ws_ok_def)
  with n0 show ?thesis by blast
qed

lemma WS_Reserve_SomeD:
  assumes "WS_Reserve ws bytes = Some (ws', n)"
  shows "ws_ok ws" "ws_r ws = None" "\<exists>m. ws' = ws\<lparr>ws_r := Some (ws_f ws + m)\<rparr>"
    "ws_ok ws'"
  using assms by (auto simp: WS_Reserve_def vas Let_def)

lemma WS_Release_SomeD:
  assumes "WS_Release ws b = Some ws'"
  shows "\<exists>r. ws_ok ws \<and> ws_r ws = Some r \<and> ws_f ws + unat (prndup32 b) \<le> r
     \<and> ws' = ws\<lparr>ws_f := ws_f ws + unat (prndup32 b), ws_r := None\<rparr>"
  using assms by (auto simp: WS_Release_def vas Let_def)

lemma WS_Release_eq:
  assumes "ws_inv ws" and "ws_r ws = Some r" and "ws_f ws + unat (prndup32 b) \<le> r"
  shows "WS_Release ws b = Some (ws\<lparr>ws_f := ws_f ws + unat (prndup32 b), ws_r := None\<rparr>)"
proof -
  have "ws_ok (ws\<lparr>ws_f := ws_f ws + unat (prndup32 b), ws_r := None\<rparr>)"
    using assms by (auto simp: ws_inv_def ws_ok_def)
  moreover have "unat (prndup32 b) \<le> ws_e ws - ws_f ws"
    using assms by (auto simp: ws_inv_def ws_ok_def)
  ultimately show ?thesis
    using assms by (simp add: WS_Release_def WS_Assert_ok)
qed

lemma unat_PRNDUP_ptr:
  assumes "n < 2 ^ 32"
  shows "unat (PRNDUP (of_nat n)) = prnd n"
proof -
  have "unat (of_nat n :: u64) = n"
    using assms by (simp add: unat_of_nat)
  then show ?thesis
    using assms by (simp add: unat_PRNDUP prnd_def)
qed

lemma WS_ReleaseP_SomeD:
  assumes "WS_ReleaseP ws ptr = Some ws'"
  shows "\<exists>r. ws_ok ws \<and> ws_r ws = Some r \<and> ws_f ws \<le> ptr \<and> ptr \<le> r \<and> ws_ok ws'
     \<and> ws' = ws\<lparr>ws_f := ws_f ws + unat (PRNDUP (of_nat (ptr - ws_f ws))), ws_r := None\<rparr>"
  using assms by (auto simp: WS_ReleaseP_def vas Let_def)

lemma WS_ReleaseP_eq:
  assumes "ws_inv ws" and "ws_r ws = Some r" and "ws_f ws \<le> ptr" and "ptr \<le> r"
  shows "WS_ReleaseP ws ptr = Some (ws\<lparr>ws_f := ws_f ws + prnd (ptr - ws_f ws), ws_r := None\<rparr>)"
    and "ws_f ws + prnd (ptr - ws_f ws) \<le> r"
proof -
  have len: "ptr - ws_f ws < 2 ^ 32"
    using assms by (auto simp: ws_inv_def ws_ok_def)
  have dv: "8 dvd ws_f ws" "8 dvd r"
    using assms by (auto simp: ws_inv_def ws_ok_def)
  then have "prnd (ptr - ws_f ws) \<le> r - ws_f ws"
    using assms(3,4) by (intro prnd_le) auto
  then show le: "ws_f ws + prnd (ptr - ws_f ws) \<le> r"
    using assms(3,4) by simp
  have "ws_ok (ws\<lparr>ws_f := ws_f ws + prnd (ptr - ws_f ws), ws_r := None\<rparr>)"
    using assms le by (auto simp: ws_inv_def ws_ok_def)
  then show "WS_ReleaseP ws ptr =
      Some (ws\<lparr>ws_f := ws_f ws + prnd (ptr - ws_f ws), ws_r := None\<rparr>)"
    using assms len by (simp add: WS_ReleaseP_def WS_Assert_ok unat_PRNDUP_ptr del: of_nat_diff)
qed

section \<open>The allocation interface\<close>

text \<open>
  What the clients of a workspace rely on: a successful allocation returns the old top
  of the arena and moves the top at least \<open>n\<close> bytes up, never past the limit; a failed
  one moves nothing; neither aborts.
\<close>

locale arena =
  fixes inv :: "'w \<Rightarrow> bool"
    and top :: "'w \<Rightarrow> nat"
    and lim :: "'w \<Rightarrow> nat"
    and fits :: "nat \<Rightarrow> bool"
    and alloc :: "'w \<Rightarrow> nat \<Rightarrow> ('w \<times> nat option) option"
  assumes alloc_total: "inv w \<Longrightarrow> fits n \<Longrightarrow> alloc w n \<noteq> None"
    and alloc_inv: "inv w \<Longrightarrow> fits n \<Longrightarrow> alloc w n = Some (w', r) \<Longrightarrow> inv w'"
    and alloc_lim: "inv w \<Longrightarrow> fits n \<Longrightarrow> alloc w n = Some (w', r) \<Longrightarrow> lim w' = lim w"
    and alloc_ok: "inv w \<Longrightarrow> fits n \<Longrightarrow> alloc w n = Some (w', Some p) \<Longrightarrow>
          p = top w \<and> p + n \<le> top w'"
    and alloc_fail: "inv w \<Longrightarrow> fits n \<Longrightarrow> alloc w n = Some (w', None) \<Longrightarrow> top w' = top w"
    and top_lim: "inv w \<Longrightarrow> top w \<le> lim w"

text \<open>A sequence of allocations, and the blocks it handed out.\<close>

fun alloc_seq ::
  "('w \<Rightarrow> nat \<Rightarrow> ('w \<times> nat option) option) \<Rightarrow> 'w \<Rightarrow> nat list \<Rightarrow> ('w \<times> (nat \<times> nat) list) option"
where
  "alloc_seq alloc w [] = Some (w, [])"
| "alloc_seq alloc w (n # ns) = do {
     (w1, p) \<leftarrow> alloc w n;
     (w2, bs) \<leftarrow> alloc_seq alloc w1 ns;
     Some (w2, (case p of None \<Rightarrow> bs | Some a \<Rightarrow> (a, n) # bs))
   }"

definition blocks_up :: "(nat \<times> nat) list \<Rightarrow> bool" where
  "blocks_up bs = sorted_wrt (\<lambda>(a, n) (b, m). a + n \<le> b) bs"

context arena
begin

lemma alloc_mono: "inv w \<Longrightarrow> fits n \<Longrightarrow> alloc w n = Some (w', r) \<Longrightarrow> top w \<le> top w'"
  using alloc_ok alloc_fail by (cases r) fastforce+

lemma alloc_seq_blocks:
  assumes "inv w" and "list_all fits ns"
  shows "\<exists>w' bs. alloc_seq alloc w ns = Some (w', bs) \<and> inv w' \<and> lim w' = lim w
    \<and> top w \<le> top w' \<and> blocks_up bs
    \<and> (\<forall>(a, n) \<in> set bs. top w \<le> a \<and> a + n \<le> top w')"
  using assms
proof (induction ns arbitrary: w)
  case Nil
  then show ?case by (simp add: blocks_up_def)
next
  case (Cons n ns)
  from Cons.prems alloc_total obtain w1 p where a: "alloc w n = Some (w1, p)"
    by fastforce
  with Cons.prems have i: "inv w1" "lim w1 = lim w" "top w \<le> top w1"
    by (auto intro: alloc_inv alloc_lim alloc_mono)
  from Cons.IH [OF i(1)] Cons.prems obtain w2 bs where
    r: "alloc_seq alloc w1 ns = Some (w2, bs)" "inv w2" "lim w2 = lim w1" "top w1 \<le> top w2"
      "blocks_up bs" "\<forall>(a, n) \<in> set bs. top w1 \<le> a \<and> a + n \<le> top w2"
    by auto
  show ?case
  proof (cases p)
    case None
    with a r i show ?thesis by fastforce
  next
    case (Some q)
    with alloc_ok a Cons.prems have "q = top w \<and> q + n \<le> top w1" by auto
    with Some a r i show ?thesis by (fastforce simp: blocks_up_def)
  qed
qed

end

abbreviation ws_idle :: "ws \<Rightarrow> bool" where
  "ws_idle w \<equiv> ws_inv w \<and> ws_r w = None"

abbreviation ws_fits :: "nat \<Rightarrow> bool" where
  "ws_fits n \<equiv> n \<le> 2 ^ 32 - 8"

lemma ws_fits_word:
  "ws_fits n \<Longrightarrow> unat (prndup32 (of_nat n)) = prnd n"
  by (simp add: unat_prndup32 unat_of_nat prnd_def)

interpretation wsa: arena ws_idle ws_f ws_e ws_fits "\<lambda>w n. WS_Alloc w (of_nat n)"
proof unfold_locales
  fix w n w' p
  assume w: "ws_idle w" and n: "ws_fits n" and a: "WS_Alloc w (of_nat n) = Some (w', Some p)"
  then show "p = ws_f w \<and> p + n \<le> ws_f w'"
    using prnd_ge [of n] by (auto simp: WS_Alloc_eq ws_fits_word split: if_splits)
qed (auto simp: WS_Alloc_eq ws_inv_def ws_ok_def split: if_splits)

section \<open>Runs of a workspace\<close>

text \<open>
  All histories of a workspace: the operations of cache_ws.c with any arguments and in any order
  their own assertions allow, with the blocks that are in the callers' hands (newest first): where a block
  starts, how many bytes were asked for and how many the workspace has set aside for it.
  Resetting to a snapshot takes back the blocks above it.
\<close>

inductive ws_run :: "ws \<Rightarrow> (addr \<times> nat \<times> nat) list \<Rightarrow> bool" where
  init: "WS_Init space len = Some ws \<Longrightarrow> ws_run ws []"
| alloc: "ws_run ws bs \<Longrightarrow> WS_Alloc ws b = Some (ws', Some p) \<Longrightarrow> ws_run ws' ((p, unat b, ws_f ws' - ws_f ws) # bs)"
| overflow: "ws_run ws bs \<Longrightarrow> WS_Alloc ws b = Some (ws', None) \<Longrightarrow> ws_run ws' bs"
| reserve: "ws_run ws bs \<Longrightarrow> WS_Reserve ws b = Some (ws', n) \<Longrightarrow> ws_run ws' bs"
| release: "ws_run ws bs \<Longrightarrow> WS_Release ws b = Some ws' \<Longrightarrow> ws_run ws' ((ws_f ws, unat b, ws_f ws' - ws_f ws) # bs)"
| releasep: "ws_run ws bs \<Longrightarrow> WS_ReleaseP ws p = Some ws' \<Longrightarrow> ws_run ws' ((ws_f ws, p - ws_f ws, ws_f ws' - ws_f ws) # bs)"
| reset: "ws_run ws bs \<Longrightarrow> WS_Reset ws q = Some ws' \<Longrightarrow>
    ws_run ws' (filter (\<lambda>(a, r, n). a + n \<le> ws_f ws') bs)"

definition blocks_in :: "ws \<Rightarrow> (addr \<times> nat \<times> nat) list \<Rightarrow> bool" where
  "blocks_in ws bs \<longleftrightarrow>
     sorted_wrt (\<lambda>(a, r, n) (b, q, m). b + m \<le> a) bs \<and>
     (\<forall>(a, r, n) \<in> set bs. ws_s ws \<le> a \<and> a + n \<le> ws_f ws \<and> (ws_fits r \<longrightarrow> r \<le> n))"

lemma blocks_in_push:
  assumes "blocks_in ws bs" and "ws_s ws' = ws_s ws" and "ws_s ws \<le> ws_f ws"
    and "ws_f ws \<le> ws_f ws'" and "ws_fits r \<Longrightarrow> ws_f ws + r \<le> ws_f ws'"
  shows "blocks_in ws' ((ws_f ws, r, ws_f ws' - ws_f ws) # bs)"
  using assms by (fastforce simp: blocks_in_def)

lemma blocks_in_filter:
  assumes "blocks_in ws bs" and "ws_s ws' = ws_s ws"
  shows "blocks_in ws' (filter (\<lambda>(a, r, n). a + n \<le> ws_f ws') bs)"
  using assms by (auto simp: blocks_in_def sorted_wrt_filter)

lemma blocks_in_frame:
  assumes "blocks_in ws bs" and "ws_s ws' = ws_s ws" and "ws_f ws' = ws_f ws"
  shows "blocks_in ws' bs"
  using assms by (simp add: blocks_in_def)

lemma WS_Reset_SomeD:
  assumes "WS_Reset ws q = Some ws'"
  shows "ws_ok ws'" "\<exists>f. ws' = ws\<lparr>ws_f := f\<rparr> \<and> ws_r ws = None"
  using assms by (auto simp: WS_Reset_def vas split: option.splits)

lemma ws_run_sound: "ws_run ws bs \<Longrightarrow> ws_inv ws \<and> blocks_in ws bs"
proof (induction rule: ws_run.induct)
  case (init space len ws)
  then show ?case by (simp add: WS_Init_inv blocks_in_def)
next
  case (alloc ws bs b ws' p)
  from WS_Alloc_SomeD [OF alloc.hyps(2)] have idle: "ws_idle ws" using alloc.IH by simp
  then have "p = ws_f ws" "ws_s ws' = ws_s ws" "ws_f ws \<le> ws_f ws'" "ws_fits (unat b) \<Longrightarrow> ws_f ws + unat b \<le> ws_f ws'"
    using alloc.hyps(2) prnd_ge [of "unat b"]
    by (auto simp: WS_Alloc_eq unat_prndup32 prnd_def split: if_splits)
  moreover have "ws_inv ws'"
    using idle alloc.hyps(2) by (auto intro: WS_Alloc_inv)
  moreover have "ws_s ws \<le> ws_f ws"
    using idle by (simp add: ws_inv_def ws_ok_def)
  ultimately show ?case
    using alloc.IH blocks_in_push [of ws bs ws' "unat b"] by simp
next
  case (overflow ws bs b ws')
  with WS_Alloc_SomeD [OF overflow.hyps(2)] show ?case
    by (auto intro: WS_Alloc_inv blocks_in_frame simp: WS_Alloc_eq split: if_splits)
next
  case (reserve ws bs b ws' n)
  from WS_Reserve_SomeD [OF reserve.hyps(2)] reserve.IH show ?case
    by (auto simp: ws_inv_def intro: blocks_in_frame)
next
  case (release ws bs b ws')
  from WS_Release_SomeD [OF release.hyps(2)] obtain r where
    r: "ws_r ws = Some r" "ws_f ws + unat (prndup32 b) \<le> r"
      "ws' = ws\<lparr>ws_f := ws_f ws + unat (prndup32 b), ws_r := None\<rparr>" by blast
  have "unat b \<le> unat (prndup32 b)" if "ws_fits (unat b)"
    using that prnd_ge [of "unat b"] by (simp add: unat_prndup32 prnd_def)
  then show ?case
    using r release.IH blocks_in_push [of ws bs ws' "unat b"]
    by (auto simp: ws_inv_def ws_ok_def)
next
  case (releasep ws bs p ws')
  from WS_ReleaseP_SomeD [OF releasep.hyps(2)] obtain r where
    r: "ws_r ws = Some r" "ws_f ws \<le> p" "p \<le> r" by blast
  with releasep WS_ReleaseP_eq [of ws r p] have
    w: "ws' = ws\<lparr>ws_f := ws_f ws + prnd (p - ws_f ws), ws_r := None\<rparr>"
      "ws_f ws + prnd (p - ws_f ws) \<le> r" by auto
  then show ?case
    using r releasep.IH prnd_ge [of "p - ws_f ws"] blocks_in_push [of ws bs ws' "p - ws_f ws"]
    by (auto simp: ws_inv_def ws_ok_def)
next
  case (reset ws bs q ws')
  from WS_Reset_SomeD [OF reset.hyps(2)] reset.IH show ?case
    by (auto simp: ws_inv_def intro!: blocks_in_filter)
qed

lemma WS_Reserve_Release_ok:
  assumes "ws_inv ws" and "ws_r ws = None"
    and "ws_f ws \<noteq> ws_s ws \<or> bytes = 0 \<or> 8 \<le> unat bytes"
  shows "\<exists>ws1 n. WS_Reserve ws bytes = Some (ws1, n)
    \<and> unat n = (if bytes = 0 then ws_e ws - ws_f ws
                else 8 * (min (unat bytes) (ws_e ws - ws_f ws) div 8))
    \<and> (\<forall>k. k \<le> n \<longrightarrow> WS_Release ws1 k = Some (ws\<lparr>ws_f := ws_f ws + prnd (unat k)\<rparr>))
    \<and> (\<forall>p. ws_f ws \<le> p \<and> p \<le> ws_f ws + unat n \<longrightarrow>
          WS_ReleaseP ws1 p = Some (ws\<lparr>ws_f := ws_f ws + prnd (p - ws_f ws)\<rparr>))"
proof -
  from WS_Reserve_eq [OF assms] obtain n where
    n: "WS_Reserve ws bytes = Some (ws\<lparr>ws_r := Some (ws_f ws + unat n)\<rparr>, n)"
      "unat n = (if bytes = 0 then ws_e ws - ws_f ws
                 else 8 * (min (unat bytes) (ws_e ws - ws_f ws) div 8))"
    by blast
  let ?w = "ws\<lparr>ws_r := Some (ws_f ws + unat n)\<rparr>"
  have i: "ws_inv ?w"
    using WS_Reserve_SomeD(4) [OF n(1)] assms(1) by (simp add: ws_inv_def)
  have idle: "ws\<lparr>ws_r := None\<rparr> = ws"
    using assms(2) by (cases ws) simp
  then have upd: "ws\<lparr>ws_f := x, ws_r := None\<rparr> = ws\<lparr>ws_f := x\<rparr>" for x
    using assms(2) by (cases ws) simp
  have dv: "8 dvd unat n"
    using assms(1) unfolding n(2) by (auto simp: ws_inv_def ws_ok_def)
  { fix k :: u32
    assume "k \<le> n"
    then have k: "unat k \<le> unat n" by (simp add: word_le_nat_alt)
    with dv have "prnd (unat k) \<le> unat n" by (intro prnd_le)
    moreover have "unat n \<le> 2 ^ 32 - 8"
      using dv unat_lt_2p32 [of n] by (auto elim!: dvdE)
    ultimately have "unat (prndup32 k) = prnd (unat k)" "prnd (unat k) \<le> unat n"
      using k by (simp_all add: unat_prndup32 prnd_def)
    with WS_Release_eq [OF i, of _ k] have
      "WS_Release ?w k = Some (ws\<lparr>ws_f := ws_f ws + prnd (unat k)\<rparr>)" by (simp add: upd) }
  moreover
  { fix p
    assume "ws_f ws \<le> p \<and> p \<le> ws_f ws + unat n"
    with WS_ReleaseP_eq(1) [OF i, of _ p] have
      "WS_ReleaseP ?w p = Some (ws\<lparr>ws_f := ws_f ws + prnd (p - ws_f ws)\<rparr>)" by (simp add: upd) }
  ultimately show ?thesis using n by blast
qed

section \<open>Properties\<close>

text \<open>
  C13.  Whatever sequence of workspace operations has run, with whatever arguments, the workspace still satisfies
  every condition \<open>WS_Assert\<close> checks, the memory set aside for the blocks handed out lies between the start of the
  buffer and the free pointer, no two blocks overlap (newer ones lie above older ones), and each has the
  bytes that were asked for, provided these were at most \<open>2 ^ 32 - 8\<close>.  (A larger request wraps to zero bytes
  in the 32-bit rounding, so nothing is promised for its size.)
\<close>

theorem ws_run_safe:
  assumes "ws_run ws bs"
  shows "WS_Assert ws = Some ()
    \<and> (\<forall>(a, r, n) \<in> set bs. ws_s ws \<le> a \<and> a + n \<le> ws_f ws \<and> ws_f ws \<le> ws_e ws \<and> (r \<le> 2 ^ 32 - 8 \<longrightarrow> r \<le> n))
    \<and> sorted_wrt (\<lambda>(a, r, n) (b, q, m). b + m \<le> a) bs"
proof -
  from ws_run_sound [OF assms] have "ws_inv ws" "blocks_in ws bs" by auto
  then show ?thesis
    by (auto simp: WS_Assert_ok blocks_in_def ws_inv_def ws_ok_def)
qed

theorem ws_run_safe_witness:
  "ws_run \<lparr>ws_overflow = 0, ws_s = 4096, ws_f = 4112, ws_r = None, ws_e = 4160\<rparr> [(4096, 10, 16)]
   \<and> WS_Assert \<lparr>ws_overflow = 0, ws_s = 4096, ws_f = 4112, ws_r = None, ws_e = 4160\<rparr> = Some ()"
proof -
  have "WS_Init 4096 64 =
      Some \<lparr>ws_overflow = 0, ws_s = 4096, ws_f = 4096, ws_r = None, ws_e = 4160\<rparr>"
    using WS_Init_spec [of 4096 64] by simp
  then have i: "ws_run \<lparr>ws_overflow = 0, ws_s = 4096, ws_f = 4096, ws_r = None, ws_e = 4160\<rparr> []"
    by (rule ws_run.init)
  have "WS_Alloc \<lparr>ws_overflow = 0, ws_s = 4096, ws_f = 4096, ws_r = None, ws_e = 4160\<rparr> 10 =
      Some (\<lparr>ws_overflow = 0, ws_s = 4096, ws_f = 4112, ws_r = None, ws_e = 4160\<rparr>, Some 4096)"
    by (subst WS_Alloc_eq) (simp_all add: ws_ok_def unat_prndup32)
  from ws_run.alloc [OF i this] have
    "ws_run \<lparr>ws_overflow = 0, ws_s = 4096, ws_f = 4112, ws_r = None, ws_e = 4160\<rparr> [(4096, 10, 16)]"
    by simp
  with ws_run_safe [OF this] show ?thesis by simp
qed

text \<open>
  C18.  \<open>WS_Alloc\<close> on an idle workspace never aborts.  For a request of at most
  \<open>2 ^ 32 - 8\<close> bytes it either returns the old free pointer and advances it by the
  request rounded up to the next multiple of eight, or, exactly when that does not fit,
  counts an overflow and returns NULL.  For a larger request the 64-bit rounding is
  truncated to zero: the call succeeds without reserving a single byte.
\<close>

theorem WS_Alloc_behaviour:
  assumes "ws_inv ws" and "ws_r ws = None"
  shows "WS_Alloc ws b = Some (
     if unat b \<le> 2 ^ 32 - 8 then
       (if ws_f ws + 8 * ((unat b + 7) div 8) \<le> ws_e ws
        then (ws\<lparr>ws_f := ws_f ws + 8 * ((unat b + 7) div 8)\<rparr>, Some (ws_f ws))
        else (ws\<lparr>ws_overflow := ws_overflow ws + 1\<rparr>, None))
     else (ws, Some (ws_f ws)))"
proof (cases "unat b \<le> 2 ^ 32 - 8")
  case True
  then show ?thesis using assms by (simp add: WS_Alloc_eq unat_prndup32)
next
  case False
  then have "(unat b + 7) div 8 = 2 ^ 29"
    using unat_lt_2p32 [of b] by simp
  then have "unat (prndup32 b) = 0"
    by (simp add: unat_prndup32_gen)
  moreover have "ws_f ws \<le> ws_e ws"
    using assms(1) by (simp add: ws_inv_def ws_ok_def)
  ultimately show ?thesis using assms False by (simp add: WS_Alloc_eq)
qed

theorem WS_Alloc_behaviour_witness:
  "WS_Alloc \<lparr>ws_overflow = 0, ws_s = 64, ws_f = 72, ws_r = None, ws_e = 96\<rparr> 12 =
     Some (\<lparr>ws_overflow = 0, ws_s = 64, ws_f = 88, ws_r = None, ws_e = 96\<rparr>, Some 72)
   \<and> WS_Alloc \<lparr>ws_overflow = 0, ws_s = 64, ws_f = 72, ws_r = None, ws_e = 96\<rparr> 0xFFFFFFFA =
     Some (\<lparr>ws_overflow = 0, ws_s = 64, ws_f = 72, ws_r = None, ws_e = 96\<rparr>, Some 72)"
  using WS_Alloc_behaviour [of "\<lparr>ws_overflow = 0, ws_s = 64, ws_f = 72, ws_r = None, ws_e = 96\<rparr>" 12]
    WS_Alloc_behaviour [of "\<lparr>ws_overflow = 0, ws_s = 64, ws_f = 72, ws_r = None, ws_e = 96\<rparr>" "0xFFFFFFFA"]
  by (simp add: ws_inv_def ws_ok_def)

lemma WS_Reserve_abort:
  assumes "ws_inv ws" and "ws_f ws = ws_s ws" and "bytes \<noteq> 0" and "unat bytes < 8"
  shows "WS_Reserve ws bytes = None"
proof -
  have sp: "ws_e ws - ws_f ws < 2 ^ 32"
    using assms(1) by (auto simp: ws_inv_def ws_ok_def)
  have "unat (prnddn32 (if unat bytes > ws_e ws - ws_f ws then of_nat (ws_e ws - ws_f ws)
      else bytes)) = 0"
    using assms(4) sp by (auto simp: unat_prnddn32 unat_of_nat simp del: of_nat_diff)
  then have "\<not> ws_ok (ws\<lparr>ws_r := Some (ws_f ws + unat (prnddn32
      (if unat bytes > ws_e ws - ws_f ws then of_nat (ws_e ws - ws_f ws) else bytes)))\<rparr>)"
    using assms(2) by (simp add: ws_ok_def)
  then show ?thesis
    using assms(3) by (auto simp: WS_Reserve_def Let_def vas simp flip: not_Some_eq)
qed

text \<open>
  C19.  Reserving space on an idle workspace and releasing any part of the reservation
  never aborts and advances the free pointer by exactly the rounded-up size released;
  the one exception is a reservation of one to seven bytes on an empty workspace, which
  is rounded down to nothing and trips \<open>assert(ws->r > ws->s)\<close>.
\<close>

theorem WS_Reserve_Release:
  assumes "ws_inv ws" and "ws_r ws = None"
  shows "if ws_f ws = ws_s ws \<and> bytes \<noteq> 0 \<and> unat bytes < 8 then WS_Reserve ws bytes = None
    else \<exists>ws1 n. WS_Reserve ws bytes = Some (ws1, n)
    \<and> unat n = (if bytes = 0 then ws_e ws - ws_f ws
                else 8 * (min (unat bytes) (ws_e ws - ws_f ws) div 8))
    \<and> (\<forall>k. k \<le> n \<longrightarrow> WS_Release ws1 k = Some (ws\<lparr>ws_f := ws_f ws + prnd (unat k)\<rparr>))
    \<and> (\<forall>p. ws_f ws \<le> p \<and> p \<le> ws_f ws + unat n \<longrightarrow>
          WS_ReleaseP ws1 p = Some (ws\<lparr>ws_f := ws_f ws + prnd (p - ws_f ws)\<rparr>))"
  using WS_Reserve_abort [OF assms(1), of bytes] WS_Reserve_Release_ok [OF assms, of bytes]
  by (cases "ws_f ws = ws_s ws \<and> bytes \<noteq> 0 \<and> unat bytes < 8") auto

theorem WS_Reserve_Release_witness:
  "\<exists>ws1 n. WS_Reserve \<lparr>ws_overflow = 0, ws_s = 64, ws_f = 72, ws_r = None, ws_e = 96\<rparr> 0 = Some (ws1, n)
    \<and> unat n = 24
    \<and> WS_Release ws1 5 = Some \<lparr>ws_overflow = 0, ws_s = 64, ws_f = 80, ws_r = None, ws_e = 96\<rparr>"
  using WS_Reserve_Release [of "\<lparr>ws_overflow = 0, ws_s = 64, ws_f = 72, ws_r = None, ws_e = 96\<rparr>" 0]
  by (force simp: ws_inv_def ws_ok_def prnd_def word_le_nat_alt)

end
