(* ===== verification/Binheap_Index.thy ===== *)
theory Binheap_Index
  imports Prelude
begin

text \<open>
  lib/libvarnish/binary_heap.c, first half: the index arithmetic of the page-aware
  binary heap.  A page holds \<open>2 ^ page_shift\<close> slots; inside a page the tree is laid out
  as usual, the two first slots of every page but the first are single-child roots, and
  each bottom slot of a page has a page of its own below it.  \<open>parent\<close> and \<open>child\<close> are
  translated on 32-bit words; the theory shows that they are inverse to each other.
\<close>

record pages =
  page_size :: u32
  page_mask :: u32
  page_shift :: u32

definition UINT_MAX :: u32 where
  "UINT_MAX = 0xFFFFFFFF"

definition parent :: "('x) pages_scheme \<Rightarrow> u32 \<Rightarrow> u32 option" where
  "parent bh u = do {
     vassert (u \<noteq> UINT_MAX);
     let po = u AND page_mask bh;
     Some
      (if u < page_size bh \<or> po > 3 then
         (u AND NOT (page_mask bh)) OR drop_bit 1 po
       else if po < 2 then
         (let v = drop_bit (unat (page_shift bh)) (u - page_size bh);
              v = v + (v AND NOT (drop_bit 1 (page_mask bh)))
          in v OR (page_size bh div 2))
       else u - 2)
   }"

definition child :: "('x) pages_scheme \<Rightarrow> u32 \<Rightarrow> u32 \<times> u32" where
  "child bh u =
     (if u > page_mask bh \<and> u AND (page_mask bh - 1) = 0 then
        (u + 2, u + 2)
      else if u AND (drop_bit 1 (page_size bh)) \<noteq> 0 then
        (let a = drop_bit 1 (u AND NOT (page_mask bh));
             a = a OR (u AND (drop_bit 1 (page_mask bh)));
             a = a + 1;
             uu = push_bit (unat (page_shift bh)) (ucast a) :: u64;
             a = ucast uu
         in if (ucast a :: u64) = uu then (a, a + 1)
            else (UINT_MAX, UINT_MAX))
      else
        (let a = u + (u AND page_mask bh) in (a, a + 1)))"

text \<open>
  The geometry \<open>binheap_new\<close> computes from the page size: a power of two.  The shift is
  at least 2 (four slots per page; a page of memory holds 512 pointers on the supported
  systems) and at most 19, which is the assertion in \<open>binheap_new\<close>.
\<close>

definition pages_ok :: "('x) pages_scheme \<Rightarrow> bool" where
  "pages_ok bh \<longleftrightarrow> 2 \<le> unat (page_shift bh) \<and> unat (page_shift bh) \<le> 19 \<and>
     page_size bh = push_bit (unat (page_shift bh)) 1 \<and> page_mask bh = page_size bh - 1"

section \<open>The same arithmetic on natural numbers\<close>

definition parent_nat :: "nat \<Rightarrow> nat \<Rightarrow> nat" where
  "parent_nat k u =
     (let P = 2 ^ k; po = u mod P
      in if u < P \<or> po > 3 then P * (u div P) + po div 2
         else if po < 2 then
           (let v = u div P - 1; h = 2 ^ (k - 1) in v + h * (v div h) + h)
         else u - 2)"

definition child_nat :: "nat \<Rightarrow> nat \<Rightarrow> nat \<times> nat" where
  "child_nat k u =
     (let P = 2 ^ k; h = 2 ^ (k - 1); q = u div P; po = u mod P
      in if P \<le> u \<and> po < 2 then (u + 2, u + 2)
         else if h \<le> po then
           (let a = P * (h * q + (po - h) + 1) in (a, a + 1))
         else (u + po, u + po + 1))"

lemma pow_split: "2 \<le> k \<Longrightarrow> (2::nat) ^ k = 2 * 2 ^ (k - 1) \<and> (2::nat) ^ (k - 1) = 2 * 2 ^ (k - 2)"
  by (cases k; cases "k - 1") auto

text \<open>
  The recurrences with the page number \<open>q\<close> and the offset \<open>po\<close> made explicit, for a page
  of \<open>2 * h\<close> slots.
\<close>

lemma page_divmod:
  fixes P q po :: nat
  assumes "po < P"
  shows "(P * q + po) div P = q" "(P * q + po) mod P = po" "P \<le> P * q + po \<longleftrightarrow> 0 < q"
proof -
  show "(P * q + po) div P = q" "(P * q + po) mod P = po"
    using assms by simp_all
  show "P \<le> P * q + po \<longleftrightarrow> 0 < q"
    using assms by (cases q) auto
qed

lemma half_page:
  assumes "2 \<le> k"
  shows "(2::nat) ^ k = 2 * 2 ^ (k - 1) \<and> (2::nat) \<le> 2 ^ (k - 1)"
proof -
  obtain n where "k = Suc (Suc n)"
    using assms by (metis Suc_le_D numeral_2_eq_2 Suc_le_mono)
  then show ?thesis by simp
qed

lemma parent_nat_page:
  assumes "2 \<le> k" and "po < 2 ^ k"
  shows "parent_nat k (2 ^ k * q + po) =
    (if q = 0 \<or> 3 < po then 2 ^ k * q + po div 2
     else if po < 2 then (q - 1) + 2 ^ (k - 1) * ((q - 1) div 2 ^ (k - 1)) + 2 ^ (k - 1)
     else 2 ^ k * q + po - 2)"
proof -
  have "2 ^ k * q + po < 2 ^ k \<longleftrightarrow> q = 0"
    using page_divmod(3) [OF assms(2), of q] by auto
  then show ?thesis
    unfolding parent_nat_def Let_def page_divmod(1,2) [OF assms(2)] by simp
qed

lemma child_nat_page:
  assumes "2 \<le> k" and "po < 2 ^ k"
  shows "child_nat k (2 ^ k * q + po) =
    (if 0 < q \<and> po < 2 then (2 ^ k * q + po + 2, 2 ^ k * q + po + 2)
     else if 2 ^ (k - 1) \<le> po then
       (2 ^ k * (2 ^ (k - 1) * q + (po - 2 ^ (k - 1)) + 1),
        2 ^ k * (2 ^ (k - 1) * q + (po - 2 ^ (k - 1)) + 1) + 1)
     else (2 ^ k * q + 2 * po, 2 ^ k * q + 2 * po + 1))"
  unfolding child_nat_def Let_def page_divmod [OF assms(2)] by simp

lemma page_cases:
  obtains q po where "u = 2 ^ k * q + po" and "po < (2::nat) ^ k"
  using that [of "u div 2 ^ k" "u mod 2 ^ k"] by simp

lemma parent_child_nat:
  assumes k: "2 \<le> k" and u: "1 \<le> u" and c: "child_nat k u = (a, b)"
  shows "parent_nat k a = u" "parent_nat k b = u"
proof -
  obtain q po where up: "u = 2 ^ k * q + po" and po: "po < (2::nat) ^ k"
    by (rule page_cases)
  define h :: nat where "h = 2 ^ (k - 1)"
  have P: "(2::nat) ^ k = 2 * h" and h: "2 \<le> h"
    using half_page [OF k] by (auto simp: h_def)
  note cp = child_nat_page [OF k po, of q, folded up h_def, unfolded c P]
  note pp = parent_nat_page [OF k, folded h_def, unfolded P]
  consider (A) "0 < q" "po < 2" | (B) "\<not> (0 < q \<and> po < 2)" "h \<le> po"
    | (C) "\<not> (0 < q \<and> po < 2)" "po < h" by linarith
  then have "parent_nat k a = u \<and> parent_nat k b = u"
  proof cases
    case A
    with cp up P have ab: "a = 2 * h * q + (po + 2)" "b = a" by auto
    from A h have "po + 2 < 2 * h" by simp
    with A up P have "parent_nat k a = u" unfolding ab by (subst pp) auto
    with ab show ?thesis by simp
  next
    case B
    define n where "n = h * q + (po - h)"
    from B cp have ab: "a = 2 * h * (n + 1) + 0" "b = 2 * h * (n + 1) + 1"
      by (auto simp: n_def)
    have "po - h < h" using po P by simp
    then have "n div h = q" by (simp add: n_def)
    with h have "parent_nat k a = n + h * q + h" "parent_nat k b = n + h * q + h"
      unfolding ab by (subst pp; simp)+
    moreover have "n + h * q + h = u"
      using B up P by (simp add: n_def algebra_simps)
    ultimately show ?thesis by simp
  next
    case C
    with cp have ab: "a = 2 * h * q + 2 * po" "b = 2 * h * q + (2 * po + 1)" by auto
    from C h u up P have "q = 0 \<or> 3 < 2 * po" "q = 0 \<or> 3 < 2 * po + 1" by auto
    with C up P show ?thesis
      unfolding ab by (subst pp, simp, simp)+
  qed
  then show "parent_nat k a = u" "parent_nat k b = u" by auto
qed

lemma child_nat_gt:
  assumes k: "2 \<le> k" and u: "1 \<le> u" and c: "child_nat k u = (a, b)"
  shows "u < a" "a \<le> b"
proof -
  obtain q po where up: "u = 2 ^ k * q + po" and po: "po < (2::nat) ^ k"
    by (rule page_cases)
  define h :: nat where "h = 2 ^ (k - 1)"
  have P: "(2::nat) ^ k = 2 * h" and h: "2 \<le> h"
    using half_page [OF k] by (auto simp: h_def)
  note cp = child_nat_page [OF k po, of q, folded up h_def, unfolded c P]
  have up': "u = 2 * h * q + po" using up P by simp
  have "q \<le> h * q" using h by simp
  then have hq: "2 * h * q \<le> 2 * h * (h * q)" by simp
  have hr: "h + r < 2 * h * (r + 1)" if "r < h" for r
    using that by (simp add: algebra_simps)
  have "2 * h * q + (h + r) < 2 * h * (h * q + r + 1)" if "r < h" for r
  proof -
    have "2 * h * (h * q + r + 1) = 2 * h * (h * q) + 2 * h * (r + 1)"
      by (simp add: algebra_simps)
    with hr [OF that] hq show ?thesis by linarith
  qed
  from this [of "po - h"] have B: "h \<le> po \<Longrightarrow> u < 2 * h * (h * q + (po - h) + 1)"
    using po P unfolding up' by simp
  from cp B u up' show "u < a" "a \<le> b"
    by (auto split: if_splits)
qed

lemma child_parent_nat:
  assumes k: "2 \<le> k" and w: "2 \<le> w" and c: "child_nat k (parent_nat k w) = (a, b)"
  shows "w = a \<or> w = b"
proof -
  obtain q po where wp: "w = 2 ^ k * q + po" and po: "po < (2::nat) ^ k"
    by (rule page_cases)
  define h :: nat where "h = 2 ^ (k - 1)"
  have P: "(2::nat) ^ k = 2 * h" and h: "2 \<le> h"
    using half_page [OF k] by (auto simp: h_def)
  note pp = parent_nat_page [OF k po, of q, folded wp h_def, unfolded P]
  note cp = child_nat_page [OF k, folded h_def, unfolded P]
  have po': "po < 2 * h" using po P by simp
  have wp': "w = 2 * h * q + po" using wp P by simp
  consider (Z) "q = 0" | (D) "0 < q" "3 < po" | (R) "0 < q" "po < 2" | (S) "0 < q" "2 \<le> po" "po \<le> 3"
    by linarith
  then show ?thesis
  proof cases
    case Z
    with pp have "parent_nat k w = 2 * h * 0 + po div 2" by simp
    moreover have "po div 2 < h" using po' by simp
    ultimately have "a = 2 * (po div 2)" "b = a + 1"
      using c cp [of "po div 2" 0] by auto
    with Z wp' show ?thesis by auto
  next
    case D
    with pp have "parent_nat k w = 2 * h * q + po div 2" by simp
    moreover have "po div 2 < h" "\<not> po div 2 < 2" using po' D by auto
    ultimately have "a = 2 * h * q + 2 * (po div 2)" "b = a + 1"
      using c cp [of "po div 2" q] by auto
    with wp' show ?thesis by simp presburger
  next
    case R
    define v where "v = q - 1"
    have m: "v mod h < h" using h by simp
    have v: "v = h * (v div h) + v mod h" by simp
    from R pp have "parent_nat k w = v + h * (v div h) + h" by (simp add: v_def)
    also have "\<dots> = 2 * h * (v div h) + (h + v mod h)"
      using v by (simp add: algebra_simps)
    finally have "a = 2 * h * (h * (v div h) + v mod h + 1)" "b = a + 1"
      using c cp [of "h + v mod h" "v div h"] m h by auto
    moreover have "h * (v div h) + v mod h + 1 = q"
      using R v by (simp add: v_def)
    ultimately show ?thesis using R wp' by auto
  next
    case S
    with pp wp' have "parent_nat k w = 2 * h * q + (po - 2)" by simp
    moreover have "po - 2 < 2 * h" "po - 2 < 2" using po' S by auto
    ultimately have "a = 2 * h * q + po" using c S cp [of "po - 2" q] by auto
    with wp' show ?thesis by simp
  qed
qed

lemma parent_nat_lt:
  assumes k: "2 \<le> k" and w: "2 \<le> w"
  shows "1 \<le> parent_nat k w" "parent_nat k w < w"
proof -
  obtain q po where wp: "w = 2 ^ k * q + po" and po: "po < (2::nat) ^ k"
    by (rule page_cases)
  define h :: nat where "h = 2 ^ (k - 1)"
  have P: "(2::nat) ^ k = 2 * h" and h: "2 \<le> h"
    using half_page [OF k] by (auto simp: h_def)
  have le: "h * ((q - 1) div h) \<le> q - 1" by simp
  have hq: "h + h * q \<le> 2 * h * q" if "0 < q" using that by (cases q) auto
  have "2 * q \<le> h * q" using h by simp
  then have Rb: "q - 1 + h * ((q - 1) div h) + h < 2 * h * q" if "0 < q"
    using hq [OF that] le that by linarith
  have w': "w = 2 * h * q + po" using wp P by simp
  have "2 \<le> 2 * h * q" if "0 < q" using that h by (cases q) auto
  note P2 = this
  note pp = parent_nat_page [OF k po, of q, folded wp h_def, unfolded P]
  consider (Z) "q = 0" | (D) "0 < q" "3 < po" | (R) "0 < q" "po < 2" | (S) "0 < q" "2 \<le> po" "po \<le> 3"
    by linarith
  then have "1 \<le> parent_nat k w \<and> parent_nat k w < w"
  proof cases
    case Z
    with pp w w' show ?thesis by simp
  next
    case D
    with pp w' show ?thesis by simp
  next
    case R
    with pp have "parent_nat k w = q - 1 + h * ((q - 1) div h) + h" by simp
    with Rb R h w' show ?thesis by linarith
  next
    case S
    with pp w' have "parent_nat k w = 2 * h * q + (po - 2)" by simp
    with S w' P2 show ?thesis by linarith
  qed
  then show "1 \<le> parent_nat k w" "parent_nat k w < w" by auto
qed

section \<open>The words compute the same numbers\<close>

lemma unat_and_mask: "k < 32 \<Longrightarrow> unat ((u :: u32) AND mask k) = unat u mod 2 ^ k"
  unfolding take_bit_eq_mask [symmetric] unsigned_take_bit_eq by (simp add: take_bit_eq_mod)

lemma unat_and_not_mask: "k < 32 \<Longrightarrow> unat ((u :: u32) AND NOT (mask k)) = 2 ^ k * (unat u div 2 ^ k)"
proof -
  assume k: "k < 32"
  have "unat u = unat ((u AND NOT (mask k)) OR (u AND mask k))"
    by (rule arg_cong [where f = unat], rule bit_eqI) (auto simp: bit_simps)
  also have "\<dots> = unat (u AND NOT (mask k)) + unat (u AND mask k)"
  proof -
    have "(u AND NOT (mask k)) AND (u AND mask k) = 0"
      by (rule bit_eqI) (auto simp: bit_simps)
    then have "unat (u AND NOT (mask k)) AND unat (u AND mask k) = 0"
      by (metis unsigned_and_eq unsigned_0)
    then show ?thesis
      by (simp add: unsigned_or_eq disjunctive_add_eq_or)
  qed
  finally have "unat u = unat (u AND NOT (mask k)) + unat u mod 2 ^ k"
    using k by (simp add: unat_and_mask)
  moreover have "unat u = 2 ^ k * (unat u div 2 ^ k) + unat u mod 2 ^ k"
    by simp
  ultimately show ?thesis by linarith
qed

lemma unat_or_disjoint:
  fixes a b :: u32
  assumes "a AND b = 0"
  shows "unat (a OR b) = unat a + unat b"
proof -
  have "unat a AND unat b = 0"
    using assms by (metis unsigned_and_eq unsigned_0)
  then show ?thesis
    by (simp add: unsigned_or_eq disjunctive_add_eq_or)
qed

lemma bit_u32_lt: "bit (w :: u32) n \<Longrightarrow> n < 32"
  using bit_imp_le_length [of w n] by simp

lemma unat_drop: "unat (drop_bit n (w :: u32)) = unat w div 2 ^ n"
  unfolding unat_drop_bit_eq by (simp add: drop_bit_eq_div)

lemma bit_u32_iff: "bit (w :: u32) n \<longleftrightarrow> odd (unat w div 2 ^ n)"
proof -
  have "bit w n \<longleftrightarrow> bit (unat w) n"
    by (auto simp: bit_unsigned_iff dest: bit_u32_lt)
  then show ?thesis by (simp add: bit_iff_odd)
qed

lemma pages_okD:
  assumes "pages_ok bh" and "k = unat (page_shift bh)"
  shows "2 \<le> k" "k \<le> 19" "unat (page_size bh) = 2 ^ k" "page_mask bh = mask k"
    "drop_bit 1 (page_mask bh) = mask (k - 1)" "unat (page_mask bh) = 2 ^ k - 1"
    "page_size bh div 2 = push_bit (k - 1) 1" "drop_bit 1 (page_size bh) = push_bit (k - 1) 1"
    "unat (push_bit (k - 1) 1 :: u32) = 2 ^ (k - 1)"
proof -
  have k: "2 \<le> k" "k \<le> 19" and s: "page_size bh = push_bit k 1"
    and m: "page_mask bh = push_bit k 1 - 1"
    using assms by (auto simp: pages_ok_def)
  show "2 \<le> k" "k \<le> 19" by (fact k)+
  have pw: "unat (push_bit j 1 :: u32) = 2 ^ j" if "j \<le> 19" for j
  proof -
    have "(2::nat) ^ j < 2 ^ 32" using that by (intro power_strict_increasing) auto
    then show ?thesis
      unfolding unsigned_push_bit_eq by (simp add: take_bit_eq_mod push_bit_eq_mult)
  qed
  show "unat (page_size bh) = 2 ^ k" using s pw k by simp
  show "unat (push_bit (k - 1) 1 :: u32) = 2 ^ (k - 1)" using pw k by simp
  show mk: "page_mask bh = mask k"
    using m by (simp add: mask_eq_exp_minus_1 push_bit_eq_mult)
  have "(0 :: u32) \<noteq> push_bit k 1"
    using pw [OF k(2)] by (metis power_eq_0_iff unsigned_0 zero_neq_numeral)
  then have "1 \<le> (push_bit k 1 :: u32)"
    by (metis word_coorder.not_eq_extremum word_less_1 not_le)
  then show "unat (page_mask bh) = 2 ^ k - 1"
    unfolding m using pw [OF k(2)] by (simp add: unat_sub)
  show "drop_bit 1 (page_mask bh) = mask (k - 1)"
    unfolding mk using k by (intro bit_eqI) (auto simp: bit_simps)
  show d: "drop_bit 1 (page_size bh) = push_bit (k - 1) 1"
    unfolding s using k by (intro bit_eqI) (auto simp: bit_simps)
  then show "page_size bh div 2 = push_bit (k - 1) 1"
    by (simp add: drop_bit_eq_div)
qed

lemma parent_word_root:
  assumes ok: "pages_ok bh" and k: "k = unat (page_shift bh)" and u: "2 ^ k \<le> unat u"
  shows "unat (let v = drop_bit (unat (page_shift bh)) (u - page_size bh);
              v = v + (v AND NOT (drop_bit 1 (page_mask bh)))
          in v OR (page_size bh div 2))
      = (let v = unat u div 2 ^ k - 1; h = 2 ^ (k - 1) in v + h * (v div h) + h)"
proof -
  note pg = pages_okD [OF ok k]
  define v where "v = drop_bit k (u - page_size bh)"
  define h :: nat where "h = 2 ^ (k - 1)"
  have P: "(2::nat) ^ k = 2 * h" "2 \<le> h"
    using half_page [OF pg(1)] by (auto simp: h_def)
  have "unat (u - page_size bh) = unat u - 2 ^ k"
    using u pg(3) by (simp add: unat_sub word_le_nat_alt)
  then have v: "unat v = unat u div 2 ^ k - 1"
    using u by (simp add: v_def unat_drop div_if [of "unat u"])
  have an: "unat (v AND NOT (mask (k - 1))) = h * (unat v div h)"
    using pg(2) by (simp add: unat_and_not_mask h_def)
  have "2 * unat v \<le> 2 * h * unat v" using P(2) by simp
  also have "\<dots> \<le> 2 * h * (unat u div (2 * h))"
    using v P(1) by simp
  also have "\<dots> \<le> unat u" by simp
  also have "\<dots> < 2 ^ 32" by (rule unat_lt_2p32)
  finally have small: "2 * unat v < 2 ^ 32" .
  have "h * (unat v div h) \<le> unat v" by simp
  with small have "unat v + h * (unat v div h) < 2 ^ 32" by linarith
  then have sum: "unat (v + (v AND NOT (mask (k - 1)))) = unat v + h * (unat v div h)"
    unfolding unat_word_ariths an by simp
  also have "\<dots> = h * (2 * (unat v div h)) + unat v mod h"
    using div_mult_mod_eq [of "unat v" h] by (simp add: algebra_simps)
  finally have "unat (v + (v AND NOT (mask (k - 1)))) div h = 2 * (unat v div h)"
    using P(2) by simp
  then have "\<not> bit (v + (v AND NOT (mask (k - 1)))) (k - 1)"
    by (simp add: bit_u32_iff h_def)
  then have "(v + (v AND NOT (mask (k - 1)))) AND push_bit (k - 1) 1 = 0"
    by (auto intro!: bit_eqI simp: bit_simps)
  then have "unat ((v + (v AND NOT (mask (k - 1)))) OR push_bit (k - 1) 1)
      = unat v + h * (unat v div h) + h"
    using sum pg(9) unat_or_disjoint h_def by simp
  then show ?thesis
    unfolding Let_def k [symmetric] v_def [symmetric] pg(5,7) h_def [symmetric] v .
qed

lemma parent_word:
  assumes ok: "pages_ok bh" and u: "u \<noteq> UINT_MAX" and k: "k = unat (page_shift bh)"
  shows "\<exists>v. parent bh u = Some v \<and> unat v = parent_nat k (unat u)"
proof -
  note pg = pages_okD [OF ok k]
  let ?po = "u AND page_mask bh"
  have po: "unat ?po = unat u mod 2 ^ k"
    using pg(1,2,4) by (simp add: unat_and_mask)
  have lt: "u < page_size bh \<longleftrightarrow> unat u < 2 ^ k" "?po > 3 \<longleftrightarrow> unat u mod 2 ^ k > 3"
    "?po < 2 \<longleftrightarrow> unat u mod 2 ^ k < 2"
    using pg(3) po by (simp_all add: word_less_nat_alt)
  have "(u AND NOT (page_mask bh)) AND drop_bit 1 ?po = 0"
    unfolding pg(4) by (rule bit_eqI) (auto simp: bit_simps)
  then have up: "unat ((u AND NOT (page_mask bh)) OR drop_bit 1 ?po)
      = 2 ^ k * (unat u div 2 ^ k) + unat u mod 2 ^ k div 2"
    unfolding unat_or_disjoint [OF \<open>_ = 0\<close>] unat_drop po
    using pg(2) by (simp add: unat_and_not_mask pg(4))
  have sub: "unat (u - 2) = unat u - 2" if "\<not> unat u < 2 ^ k"
  proof -
    have "(2::nat) \<le> 2 ^ k" using half_page [OF pg(1)] by linarith
    with that have "2 \<le> u" by (simp add: word_le_nat_alt)
    then show ?thesis by (simp add: unat_sub)
  qed
  have root: "\<not> unat u < 2 ^ k \<Longrightarrow> unat (let v = drop_bit (unat (page_shift bh)) (u - page_size bh);
              v = v + (v AND NOT (drop_bit 1 (page_mask bh)))
          in v OR (page_size bh div 2))
      = (let v = unat u div 2 ^ k - 1; h = 2 ^ (k - 1) in v + h * (v div h) + h)"
    by (rule parent_word_root [OF ok k]) simp
  have eq: "parent bh u = Some (if unat u < 2 ^ k \<or> unat u mod 2 ^ k > 3
      then (u AND NOT (page_mask bh)) OR drop_bit 1 ?po
      else if unat u mod 2 ^ k < 2 then
        (let v = drop_bit (unat (page_shift bh)) (u - page_size bh);
              v = v + (v AND NOT (drop_bit 1 (page_mask bh)))
          in v OR (page_size bh div 2))
      else u - 2)"
    unfolding parent_def lt [symmetric] Let_def using u by simp
  show ?thesis
    unfolding eq parent_nat_def Let_def [of "2 ^ k"] Let_def [of "unat u mod 2 ^ k"]
    using up sub root by (simp only: option.inject ex_simps simp_thms split: if_split) simp
qed

lemma page_fits:
  assumes "k \<le> 32" and "u < (2::nat) ^ 32"
  shows "2 ^ k * (u div 2 ^ k) + 2 ^ k \<le> 2 ^ 32"
proof -
  have e: "(2::nat) ^ 32 = 2 ^ k * 2 ^ (32 - k)"
    using assms(1) by (simp flip: power_add)
  then have "u div 2 ^ k < 2 ^ (32 - k)"
    using assms(2) by (simp add: less_mult_imp_div_less mult.commute)
  then have "2 ^ k * (u div 2 ^ k + 1) \<le> 2 ^ k * 2 ^ (32 - k)"
    by (intro mult_le_mono2) simp
  then show ?thesis using e by (simp add: algebra_simps)
qed

lemma unat_UINT_MAX: "unat UINT_MAX = 2 ^ 32 - 1"
  by (simp add: UINT_MAX_def)

text \<open>The clamped shift of the bottom-row case.\<close>

lemma shift_clamp:
  fixes a :: u32
  assumes "k \<le> 19"
  defines "uu \<equiv> push_bit k (ucast a) :: u64"
  shows "(ucast (ucast uu :: u32) :: u64) = uu \<longleftrightarrow> unat a * 2 ^ k < 2 ^ 32"
    and "unat a * 2 ^ k < 2 ^ 32 \<Longrightarrow> unat (ucast uu :: u32) = unat a * 2 ^ k"
proof -
  have "(2::nat) ^ k \<le> 2 ^ 19"
    using assms(1) by (intro power_increasing) auto
  then have "unat a * 2 ^ k < 2 ^ 32 * 2 ^ 19"
    using unat_lt_2p32 [of a] by (intro mult_less_le_imp_less) auto
  then have uu: "unat uu = unat a * 2 ^ k"
    unfolding uu_def unsigned_push_bit_eq by (simp add: push_bit_eq_mult take_bit_eq_mod)
  have lo: "unat (ucast uu :: u32) = unat a * 2 ^ k mod 2 ^ 32"
    unfolding unsigned_ucast_eq uu by (simp add: take_bit_eq_mod)
  show "(ucast (ucast uu :: u32) :: u64) = uu \<longleftrightarrow> unat a * 2 ^ k < 2 ^ 32"
    unfolding word_unat_eq_iff unat_ucast_32_64 lo uu
    by (metis mod_less mod_less_divisor zero_less_numeral zero_less_power)
  show "unat a * 2 ^ k < 2 ^ 32 \<Longrightarrow> unat (ucast uu :: u32) = unat a * 2 ^ k"
    unfolding lo by simp
qed

lemma child_word_bottom:
  assumes ok: "pages_ok bh" and k: "k = unat (page_shift bh)"
    and lo: "2 ^ (k - 1) \<le> unat u mod 2 ^ k"
  shows "unat ((drop_bit 1 (u AND NOT (page_mask bh)) OR (u AND drop_bit 1 (page_mask bh))) + 1)
    = 2 ^ (k - 1) * (unat u div 2 ^ k) + (unat u mod 2 ^ k - 2 ^ (k - 1)) + 1"
proof -
  note pg = pages_okD [OF ok k]
  define h :: nat where "h = 2 ^ (k - 1)"
  have P: "(2::nat) ^ k = 2 * h" "2 \<le> h"
    using half_page [OF pg(1)] by (auto simp: h_def)
  have "drop_bit 1 (u AND NOT (page_mask bh)) AND (u AND drop_bit 1 (page_mask bh)) = 0"
    unfolding pg(4,5) by (rule bit_eqI) (auto simp: bit_simps)
  note dj = unat_or_disjoint [OF this]
  have r: "unat (u AND drop_bit 1 (page_mask bh)) = unat u mod h"
    unfolding pg(5) h_def using pg(2) by (simp add: unat_and_mask)
  have o: "unat (drop_bit 1 (u AND NOT (page_mask bh)) OR (u AND drop_bit 1 (page_mask bh)))
      = 2 ^ k * (unat u div 2 ^ k) div 2 + unat u mod h"
    using pg(2) unfolding dj r unat_drop by (simp add: pg(4) unat_and_not_mask)
  have m: "unat u mod h = unat u mod 2 ^ k - h"
  proof -
    have "unat u mod 2 ^ k mod h = unat u mod h"
      by (rule mod_mod_cancel) (simp add: P)
    moreover have "unat u mod 2 ^ k < 2 * h" using P by (metis mod_less_divisor zero_less_numeral zero_less_power)
    ultimately show ?thesis
      using lo unfolding h_def [symmetric] by (metis add_diff_cancel_left' le_add_diff_inverse mod_add_self1 mod_less mult_2 nat_add_left_cancel_less)
  qed
  have e: "2 ^ k * (unat u div 2 ^ k) div 2 = h * (unat u div 2 ^ k)"
    using P by simp
  have "h * (unat u div 2 ^ k) + unat u mod h + 1 < 2 ^ 32"
  proof -
    have "2 * h * (unat u div 2 ^ k) + 2 * h \<le> 2 ^ 32"
      using page_fits [of k "unat u"] pg(2) unat_lt_2p32 [of u] P(1) by simp
    moreover have "unat u mod h < h" using P by simp
    ultimately show ?thesis using P(2) by linarith
  qed
  then show ?thesis
    unfolding unat_word_ariths(1) o e m [symmetric] h_def [symmetric] by simp
qed

lemma and_even_mask:
  assumes "2 \<le> k" "k \<le> 19"
  shows "(u :: u32) AND (mask k - 1) = 0 \<longleftrightarrow> unat u mod 2 ^ k < 2"
proof -
  have "(mask k - 1 :: u32) = mask k AND NOT (mask 1)"
  proof -
    have "(mask 1 :: u32) = 1" by (simp add: mask_eq_exp_minus_1)
    moreover have "NOT (mask k) AND (mask 1 :: u32) = 0"
      using assms by (intro bit_eqI) (auto simp: bit_simps)
    ultimately show ?thesis by (metis disjunctive_diff_eq_and_not)
  qed
  then have "u AND (mask k - 1) = (u AND mask k) AND NOT (mask 1)"
    by (simp add: and.assoc)
  then have "unat (u AND (mask k - 1)) = 2 * (unat u mod 2 ^ k div 2)"
    using assms by (simp add: unat_and_not_mask [of 1, simplified] unat_and_mask)
  then have "u AND (mask k - 1) = 0 \<longleftrightarrow> unat u mod 2 ^ k div 2 = 0"
    by (metis mult_is_0 unat_eq_0 zero_neq_numeral)
  then show ?thesis by auto
qed

lemma and_half_page:
  assumes "2 \<le> k" "k \<le> 19"
  shows "(u :: u32) AND push_bit (k - 1) 1 \<noteq> 0 \<longleftrightarrow> 2 ^ (k - 1) \<le> unat u mod 2 ^ k"
proof -
  define h :: nat where "h = 2 ^ (k - 1)"
  have P: "(2::nat) ^ k = 2 * h" "2 \<le> h"
    using half_page [OF assms(1)] by (auto simp: h_def)
  have "u AND push_bit (k - 1) 1 \<noteq> 0 \<longleftrightarrow> bit u (k - 1)"
    by (simp add: and_exp_eq_0_iff_not_bit)
  also have "\<dots> \<longleftrightarrow> odd (unat u div h)"
    by (simp add: bit_u32_iff h_def)
  also have "\<dots> \<longleftrightarrow> h \<le> unat u mod (2 * h)"
  proof -
    have "unat u mod (2 * h) = h * (unat u div h mod 2) + unat u mod h"
      by (simp add: mod_mult2_eq mult.commute [of 2 h])
    moreover have "unat u mod h < h" using P by simp
    ultimately show ?thesis by (cases "odd (unat u div h)") (auto simp: odd_iff_mod_2_eq_one)
  qed
  finally show ?thesis by (simp add: P h_def)
qed

lemma child_word:
  assumes ok: "pages_ok bh" and k: "k = unat (page_shift bh)"
    and c: "child_nat k (unat u) = (a', b')"
  shows "if a' < 2 ^ 32 then \<exists>a b. child bh u = (a, b) \<and> unat a = a' \<and> unat b = b'
    else child bh u = (UINT_MAX, UINT_MAX)"
proof -
  note pg = pages_okD [OF ok k]
  define h :: nat where "h = 2 ^ (k - 1)"
  have P: "(2::nat) ^ k = 2 * h" "2 \<le> h"
    using half_page [OF pg(1)] by (auto simp: h_def)
  define q po where "q = unat u div 2 ^ k" and "po = unat u mod 2 ^ k"
  have u: "unat u = 2 * h * q + po" "po < 2 * h"
    using P by (simp_all add: q_def po_def)
  have fit: "2 * h * q + 2 * h \<le> 2 ^ 32"
    using page_fits [of k "unat u"] pg(2) unat_lt_2p32 [of u] P(1) by (simp add: q_def)
  have g1: "u > page_mask bh \<and> u AND (page_mask bh - 1) = 0 \<longleftrightarrow> 2 ^ k \<le> unat u \<and> po < 2"
  proof -
    have "page_mask bh < u \<longleftrightarrow> 2 ^ k \<le> unat u"
      unfolding word_less_nat_alt pg(6) using P by auto
    then show ?thesis
      using and_even_mask [OF pg(1,2), of u] by (simp add: pg(4) po_def)
  qed
  have g2: "u AND drop_bit 1 (page_size bh) \<noteq> 0 \<longleftrightarrow> h \<le> po"
    unfolding pg(8) po_def h_def by (rule and_half_page [OF pg(1,2)])
  have c': "(a', b') = (if 2 ^ k \<le> unat u \<and> po < 2 then (unat u + 2, unat u + 2)
      else if h \<le> po then (2 ^ k * (h * q + (po - h) + 1), 2 ^ k * (h * q + (po - h) + 1) + 1)
      else (unat u + po, unat u + po + 1))"
    using c unfolding child_nat_def Let_def q_def [symmetric] po_def [symmetric] h_def [symmetric]
    by simp
  consider (A) "2 ^ k \<le> unat u \<and> po < 2" | (B) "\<not> (2 ^ k \<le> unat u \<and> po < 2)" "h \<le> po"
    | (C) "\<not> (2 ^ k \<le> unat u \<and> po < 2)" "po < h" by linarith
  then show ?thesis
  proof cases
    case A
    with c' have ab: "a' = unat u + 2" "b' = unat u + 2" by auto
    have "child bh u = (u + 2, u + 2)" using A g1 by (simp add: child_def)
    moreover have "unat u + 2 < 2 ^ 32" using A u fit P(2) by linarith
    ultimately show ?thesis using ab by (simp add: unat_word_ariths)
  next
    case B
    define a where "a = (drop_bit 1 (u AND NOT (page_mask bh)) OR (u AND drop_bit 1 (page_mask bh))) + 1"
    have a: "unat a = h * q + (po - h) + 1"
      using child_word_bottom [OF ok k, of u] B by (simp add: a_def q_def po_def h_def)
    from B c' have ab: "a' = unat a * 2 ^ k" "b' = a' + 1"
      by (auto simp: a mult.commute)
    define uu where "uu = (push_bit k (ucast a) :: u64)"
    have ch: "child bh u = (if (ucast (ucast uu :: u32) :: u64) = uu
        then (ucast uu, ucast uu + 1) else (UINT_MAX, UINT_MAX))"
    proof -
      have n: "\<not> (u > page_mask bh \<and> u AND (page_mask bh - 1) = 0)"
        "u AND drop_bit 1 (page_size bh) \<noteq> 0"
        using B g1 g2 by blast+
      show ?thesis
        unfolding child_def Let_def if_not_P [OF n(1)] if_P [OF n(2)] a_def uu_def k ..
    qed
    note sc = shift_clamp [OF pg(2), of a, folded uu_def]
    show ?thesis
    proof (cases "a' < 2 ^ 32")
      case True
      then have a2: "unat (ucast uu :: u32) = a'" using sc ab by simp
      have "even a'" using ab(1) P by simp
      with True have "a' + 1 < 2 ^ 32" by (auto elim!: evenE)
      with a2 have "unat (ucast uu + 1 :: u32) = b'" using ab(2) by (simp add: unat_word_ariths)
      with a2 True ch sc ab show ?thesis by simp
    next
      case False
      then show ?thesis using ch sc ab by simp
    qed
  next
    case C
    with c' have ab: "a' = unat u + po" "b' = unat u + po + 1" by auto
    have ch: "child bh u = (u + (u AND page_mask bh), u + (u AND page_mask bh) + 1)"
    proof -
      have n: "\<not> (u > page_mask bh \<and> u AND (page_mask bh - 1) = 0)"
        "\<not> u AND drop_bit 1 (page_size bh) \<noteq> 0"
        using C g1 g2 by (blast, simp)
      show ?thesis
        unfolding child_def Let_def if_not_P [OF n(1)] if_not_P [OF n(2)] ..
    qed
    have po: "unat (u AND page_mask bh) = po"
      using pg(2) by (simp add: unat_and_mask pg(4) po_def)
    have "unat u + po + 1 < 2 ^ 32" using C u fit by linarith
    then show ?thesis using ab po ch by (simp add: unat_word_ariths)
  qed
qed

section \<open>The tree the two functions describe\<close>

lemma parent_total:
  assumes "pages_ok bh" and "2 \<le> w" and "w < UINT_MAX"
  obtains v where "parent bh w = Some v" "1 \<le> v" "v < w"
proof -
  define k where "k = unat (page_shift bh)"
  have k2: "2 \<le> k" using assms(1) by (simp add: pages_ok_def k_def)
  have w: "2 \<le> unat w" using assms(2) by (simp add: word_le_nat_alt)
  obtain v where v: "parent bh w = Some v" "unat v = parent_nat k (unat w)"
    using parent_word [OF assms(1) _ k_def, of w] assms(3) by auto
  with parent_nat_lt [OF k2 w] have "1 \<le> v" "v < w"
    by (auto simp: word_le_nat_alt word_less_nat_alt)
  with v(1) show ?thesis by (rule that)
qed

lemma unat_lt_UINT_MAX: "w < UINT_MAX \<longleftrightarrow> unat w < 2 ^ 32 - 1"
  by (simp add: word_less_nat_alt unat_UINT_MAX)

lemma child_gt:
  assumes ok: "pages_ok bh" and u: "1 \<le> u" "u < UINT_MAX"
  shows "u < fst (child bh u)" "fst (child bh u) \<le> snd (child bh u)"
proof -
  define k where "k = unat (page_shift bh)"
  have k2: "2 \<le> k" using ok by (simp add: pages_ok_def k_def)
  obtain a' b' where c: "child_nat k (unat u) = (a', b')" by fastforce
  have "1 \<le> unat u" using u(1) by (simp add: word_le_nat_alt)
  from child_nat_gt [OF k2 this c] have gt: "unat u < a'" "a' \<le> b'" by auto
  show "u < fst (child bh u)" "fst (child bh u) \<le> snd (child bh u)"
    using child_word [OF ok k_def c] gt u(2)
    by (auto simp: word_less_nat_alt word_le_nat_alt split: if_splits)
qed

lemma child_iff_parent:
  assumes ok: "pages_ok bh" and u: "1 \<le> u" "u < UINT_MAX" and w: "2 \<le> w" "w < UINT_MAX"
  shows "parent bh w = Some u \<longleftrightarrow> w = fst (child bh u) \<or> w = snd (child bh u)"
proof -
  define k where "k = unat (page_shift bh)"
  have k2: "2 \<le> k" using ok by (simp add: pages_ok_def k_def)
  obtain a' b' where c: "child_nat k (unat u) = (a', b')" by fastforce
  have u1: "1 \<le> unat u" and w2: "2 \<le> unat w"
    using u(1) w(1) by (simp_all add: word_le_nat_alt)
  obtain v where v: "parent bh w = Some v" "unat v = parent_nat k (unat w)"
    using parent_word [OF ok _ k_def, of w] w(2) by auto
  have "parent bh w = Some u \<longleftrightarrow> parent_nat k (unat w) = unat u"
    using v by (auto simp: word_unat_eq_iff)
  also have "\<dots> \<longleftrightarrow> unat w = a' \<or> unat w = b'"
    using parent_child_nat [OF k2 u1 c] child_parent_nat [OF k2 w2, of a' b'] c by auto
  also have "\<dots> \<longleftrightarrow> w = fst (child bh u) \<or> w = snd (child bh u)"
  proof (cases "a' < 2 ^ 32")
    case True
    then show ?thesis using child_word [OF ok k_def c] by (auto simp: word_unat_eq_iff)
  next
    case False
    with child_nat_gt [OF k2 u1 c] have "2 ^ 32 \<le> a'" "2 ^ 32 \<le> b'" by auto
    with unat_lt_2p32 [of w] False child_word [OF ok k_def c] w(2) show ?thesis by auto
  qed
  finally show ?thesis .
qed

text \<open>
  C20.  \<open>parent\<close> and \<open>child\<close> are inverse to each other for every page geometry
  \<open>binheap_new\<close> can produce: the slots whose parent is \<open>u\<close> are exactly the two slots
  \<open>child\<close> computes (one and the same slot for the first two of a page), children lie
  strictly after and parents strictly before a slot, and the 64-bit clamp means no slot
  is lost or invented where the index would overflow 32 bits.
\<close>

theorem parent_child_inverse:
  assumes "pages_ok bh" and "1 \<le> u" and "u < UINT_MAX"
  shows "(case child bh u of (a, b) \<Rightarrow> u < a \<and> a \<le> b \<and>
      (\<forall>w. 2 \<le> w \<and> w < UINT_MAX \<longrightarrow> (parent bh w = Some u \<longleftrightarrow> w = a \<or> w = b)))
    \<and> (2 \<le> u \<longrightarrow> (\<exists>v. parent bh u = Some v \<and> 1 \<le> v \<and> v < u))"
proof -
  have "2 \<le> u \<longrightarrow> (\<exists>v. parent bh u = Some v \<and> 1 \<le> v \<and> v < u)"
    using parent_total [OF assms(1) _ assms(3)] by metis
  then show ?thesis
    using child_gt [OF assms] child_iff_parent [OF assms] by (simp add: case_prod_beta)
qed

theorem parent_child_inverse_witness:
  "child \<lparr>page_size = 512, page_mask = 511, page_shift = 9\<rparr> 300 = (0x5A00, 0x5A01)
   \<and> parent \<lparr>page_size = 512, page_mask = 511, page_shift = 9\<rparr> 0x5A00 = Some 300
   \<and> (\<exists>v. parent \<lparr>page_size = 512, page_mask = 511, page_shift = 9\<rparr> 300 = Some v \<and> v < 300)"
proof -
  have ok: "pages_ok \<lparr>page_size = 512, page_mask = 511, page_shift = 9\<rparr>"
    by (simp add: pages_ok_def)
  have c: "child \<lparr>page_size = 512, page_mask = 511, page_shift = 9\<rparr> 300 = (0x5A00, 0x5A01)"
    by code_simp
  show ?thesis
    using parent_child_inverse [OF ok, of 300] c by (auto simp: UINT_MAX_def)
qed

end
