(* ===== verification/Binheap.thy ===== *)
theory Binheap
  imports Binheap_Index
begin

text \<open>
  lib/libvarnish/binary_heap.c, second half: the heap itself.  The slots live in rows of
  \<open>ROW_WIDTH\<close> pointers that are allocated and freed one at a time; \<open>bh_array\<close> is the
  table of row pointers (\<open>None\<close> is a NULL row).  Reading or writing a slot outside the
  table or in a NULL row has no defined result, so \<open>A_rd\<close> and \<open>A_wr\<close> return \<open>None\<close>
  there, as for a failed assertion.  A slot holds \<open>None\<close> for a NULL element.  The
  \<open>update\<close> callback stores the slot number in the element: \<open>bh_idx\<close> is the field it
  writes, and \<open>bh_update\<close> says whether a callback was given.  The comparison callback is
  the parameter \<open>cmp\<close>.
\<close>

record 'a binheap = pages +
  bh_update :: bool
  bh_array :: "u32 \<Rightarrow> (u32 \<Rightarrow> 'a option) option"
  bh_rows :: u32
  bh_length :: u32
  bh_next :: u32
  bh_idx :: "'a \<Rightarrow> u32"

definition ROW_SHIFT :: nat where "ROW_SHIFT = 16"

definition ROW_WIDTH :: u32 where "ROW_WIDTH = push_bit ROW_SHIFT 1"

definition ROOT_IDX :: u32 where "ROOT_IDX = 1"

definition BINHEAP_NOIDX :: u32 where "BINHEAP_NOIDX = 0"

definition ROW :: "u32 \<Rightarrow> u32" where
  "ROW n = drop_bit ROW_SHIFT n"

definition A_rd :: "'a binheap \<Rightarrow> u32 \<Rightarrow> 'a option option" where
  "A_rd bh n =
     (if ROW n < bh_rows bh then
        (case bh_array bh (ROW n) of None \<Rightarrow> None
         | Some row \<Rightarrow> Some (row (n AND (ROW_WIDTH - 1))))
      else None)"

definition A_wr :: "'a binheap \<Rightarrow> u32 \<Rightarrow> 'a option \<Rightarrow> 'a binheap option" where
  "A_wr bh n x =
     (if ROW n < bh_rows bh then
        (case bh_array bh (ROW n) of None \<Rightarrow> None
         | Some row \<Rightarrow>
             Some (bh\<lparr>bh_array := (bh_array bh)(ROW n \<mapsto> row(n AND (ROW_WIDTH - 1) := x))\<rparr>))
      else None)"

text \<open>\<open>malloc\<close> returns rows with arbitrary contents: the argument \<open>junk\<close>.\<close>

definition binheap_addrow :: "(u32 \<Rightarrow> 'a option) \<Rightarrow> 'a binheap \<Rightarrow> 'a binheap option" where
  "binheap_addrow junk bh = do {
     let bh1 = (if ROW (bh_length bh) \<ge> bh_rows bh then
                  (let u = bh_rows bh * 2
                   in bh\<lparr>bh_array := (\<lambda>i. if bh_rows bh \<le> i \<and> i < u then None else bh_array bh i),
                         bh_rows := u\<rparr>)
                else bh);
     vassert (ROW (bh_length bh1) < bh_rows bh1);
     vassert (bh_array bh1 (ROW (bh_length bh1)) = None);
     Some (bh1\<lparr>bh_array := (bh_array bh1)(ROW (bh_length bh1) \<mapsto> junk),
               bh_length := bh_length bh1 + ROW_WIDTH\<rparr>)
   }"

text \<open>The loop that looks for the shift; it does not return unless the size is \<open>2 ^ u\<close>, \<open>u \<ge> 1\<close>.\<close>

partial_function (option) find_shift :: "u32 \<Rightarrow> u32 \<Rightarrow> u32 option" where
  "find_shift psz u =
     (if push_bit (unat u) 1 \<noteq> psz then find_shift psz (u + 1) else Some u)"

definition binheap_new :: "u32 \<Rightarrow> bool \<Rightarrow> (u32 \<Rightarrow> 'a option) \<Rightarrow> ('a \<Rightarrow> u32) \<Rightarrow> 'a binheap option" where
  "binheap_new pagesize update_f junk idx = do {
     let psz = pagesize div 8;
     let msk = psz - 1;
     vassert (psz AND msk = 0);
     u \<leftarrow> find_shift psz 1;
     vassert (unat psz \<le> 8 * unat ROW_WIDTH);
     let bh = \<lparr>page_size = psz, page_mask = msk, page_shift = u, bh_update = update_f,
               bh_array = (\<lambda>_. None), bh_rows = 16, bh_length = 0, bh_next = ROOT_IDX,
               bh_idx = idx\<rparr>;
     bh1 \<leftarrow> binheap_addrow junk bh;
     A_wr bh1 ROOT_IDX None
   }"

definition A_nonnull :: "'a binheap \<Rightarrow> u32 \<Rightarrow> 'a option" where
  "A_nonnull bh u = (case A_rd bh u of None \<Rightarrow> None | Some x \<Rightarrow> x)"

definition binheap_update :: "'a binheap \<Rightarrow> u32 \<Rightarrow> 'a binheap option" where
  "binheap_update bh u = do {
     vassert (u < bh_next bh);
     p \<leftarrow> A_nonnull bh u;
     Some (if bh_update bh then bh\<lparr>bh_idx := (bh_idx bh)(p := u)\<rparr> else bh)
   }"

definition binhead_swap :: "'a binheap \<Rightarrow> u32 \<Rightarrow> u32 \<Rightarrow> 'a binheap option" where
  "binhead_swap bh u v = do {
     vassert (u < bh_next bh);
     p \<leftarrow> A_nonnull bh u;
     vassert (v < bh_next bh);
     q \<leftarrow> A_nonnull bh v;
     bh1 \<leftarrow> A_wr bh u (Some q);
     bh2 \<leftarrow> A_wr bh1 v (Some p);
     bh3 \<leftarrow> binheap_update bh2 u;
     binheap_update bh3 v
   }"

partial_function (option) trickleup_loop ::
  "('a \<Rightarrow> 'a \<Rightarrow> bool) \<Rightarrow> 'a binheap \<Rightarrow> u32 \<Rightarrow> ('a binheap \<times> u32) option" where
  "trickleup_loop cmp bh u =
     (if u > ROOT_IDX then do {
        vassert (u < bh_next bh);
        p \<leftarrow> A_nonnull bh u;
        v \<leftarrow> parent bh u;
        vassert (v < u);
        vassert (v < bh_next bh);
        q \<leftarrow> A_nonnull bh v;
        if \<not> cmp p q then Some (bh, u)
        else do {
          bh' \<leftarrow> binhead_swap bh u v;
          trickleup_loop cmp bh' v
        }
      } else Some (bh, u))"

definition binheap_trickleup ::
  "('a \<Rightarrow> 'a \<Rightarrow> bool) \<Rightarrow> 'a binheap \<Rightarrow> u32 \<Rightarrow> ('a binheap \<times> u32) option" where
  "binheap_trickleup cmp bh u = do {
     vassert (u < bh_next bh);
     A_nonnull bh u;
     trickleup_loop cmp bh u
   }"

partial_function (option) trickledown_loop ::
  "('a \<Rightarrow> 'a \<Rightarrow> bool) \<Rightarrow> 'a binheap \<Rightarrow> u32 \<Rightarrow> ('a binheap \<times> u32) option" where
  "trickledown_loop cmp bh u = do {
     vassert (u < bh_next bh);
     p \<leftarrow> A_nonnull bh u;
     let (v1, v2) = child bh u;
     vassert (v1 > 0);
     vassert (v2 > 0);
     vassert (v1 \<le> v2);
     if v1 \<ge> bh_next bh then Some (bh, u)
     else do {
       q1 \<leftarrow> A_nonnull bh v1;
       v \<leftarrow> (if v1 \<noteq> v2 \<and> v2 < bh_next bh then do {
               q2 \<leftarrow> A_nonnull bh v2;
               Some (if cmp q2 q1 then v2 else v1)
             } else Some v1);
       vassert (v < bh_next bh);
       q \<leftarrow> A_nonnull bh v;
       if cmp p q then Some (bh, u)
       else do {
         bh' \<leftarrow> binhead_swap bh u v;
         trickledown_loop cmp bh' v
       }
     }
   }"

definition binheap_trickledown ::
  "('a \<Rightarrow> 'a \<Rightarrow> bool) \<Rightarrow> 'a binheap \<Rightarrow> u32 \<Rightarrow> ('a binheap \<times> u32) option" where
  "binheap_trickledown cmp bh u = do {
     vassert (u < bh_next bh);
     A_nonnull bh u;
     trickledown_loop cmp bh u
   }"

definition binheap_insert ::
  "('a \<Rightarrow> 'a \<Rightarrow> bool) \<Rightarrow> (u32 \<Rightarrow> 'a option) \<Rightarrow> 'a binheap \<Rightarrow> 'a \<Rightarrow> 'a binheap option" where
  "binheap_insert cmp junk bh p = do {
     vassert (bh_length bh \<ge> bh_next bh);
     bh1 \<leftarrow> (if bh_length bh = bh_next bh then binheap_addrow junk bh else Some bh);
     vassert (bh_length bh1 > bh_next bh1);
     let u = bh_next bh1;
     let bh2 = bh1\<lparr>bh_next := u + 1\<rparr>;
     bh3 \<leftarrow> A_wr bh2 u (Some p);
     bh4 \<leftarrow> binheap_update bh3 u;
     (bh5, _) \<leftarrow> binheap_trickleup cmp bh4 u;
     vassert (u < bh_next bh5);
     A_nonnull bh5 u;
     Some bh5
   }"

definition binheap_root :: "'a binheap \<Rightarrow> 'a option option" where
  "binheap_root bh = A_rd bh ROOT_IDX"

definition binheap_delete ::
  "('a \<Rightarrow> 'a \<Rightarrow> bool) \<Rightarrow> 'a binheap \<Rightarrow> u32 \<Rightarrow> 'a binheap option" where
  "binheap_delete cmp bh idx = do {
     vassert (bh_next bh > ROOT_IDX);
     vassert (idx < bh_next bh);
     vassert (idx > 0);
     p \<leftarrow> A_nonnull bh idx;
     vassert (bh_update bh);
     let bh1 = bh\<lparr>bh_idx := (bh_idx bh)(p := BINHEAP_NOIDX), bh_next := bh_next bh - 1\<rparr>;
     if idx = bh_next bh1 then A_wr bh1 (bh_next bh1) None
     else do {
       x \<leftarrow> A_rd bh1 (bh_next bh1);
       bh2 \<leftarrow> A_wr bh1 idx x;
       bh3 \<leftarrow> A_wr bh2 (bh_next bh2) None;
       bh4 \<leftarrow> binheap_update bh3 idx;
       (bh5, i) \<leftarrow> binheap_trickleup cmp bh4 idx;
       vassert (i < bh_next bh5);
       vassert (i > 0);
       A_nonnull bh5 i;
       (bh6, i) \<leftarrow> binheap_trickledown cmp bh5 i;
       vassert (i < bh_next bh6);
       vassert (i > 0);
       A_nonnull bh6 i;
       Some (if bh_next bh6 + 2 * ROW_WIDTH \<le> bh_length bh6 then
               bh6\<lparr>bh_array := (bh_array bh6)(ROW (bh_length bh6 - 1) := None),
                   bh_length := bh_length bh6 - ROW_WIDTH\<rparr>
             else bh6)
     }
   }"

definition binheap_reorder ::
  "('a \<Rightarrow> 'a \<Rightarrow> bool) \<Rightarrow> 'a binheap \<Rightarrow> u32 \<Rightarrow> 'a binheap option" where
  "binheap_reorder cmp bh idx = do {
     vassert (bh_next bh > ROOT_IDX);
     vassert (idx < bh_next bh);
     vassert (idx > 0);
     A_nonnull bh idx;
     (bh1, i) \<leftarrow> binheap_trickleup cmp bh idx;
     vassert (i < bh_next bh1);
     vassert (i > 0);
     A_nonnull bh1 i;
     (bh2, i) \<leftarrow> binheap_trickledown cmp bh1 i;
     vassert (i < bh_next bh2);
     vassert (i > 0);
     A_nonnull bh2 i;
     Some bh2
   }"

section \<open>Rows and slots\<close>

text \<open>The slot contents, ignoring how they are split into rows.\<close>

definition cell :: "'a binheap \<Rightarrow> u32 \<Rightarrow> 'a option" where
  "cell bh n = (case bh_array bh (ROW n) of None \<Rightarrow> None
                | Some row \<Rightarrow> row (n AND (ROW_WIDTH - 1)))"

text \<open>Exactly the rows below \<open>length\<close> are allocated, and the row table is long enough.\<close>

definition rows_ok :: "'a binheap \<Rightarrow> bool" where
  "rows_ok bh \<longleftrightarrow> unat (bh_length bh) mod 65536 = 0 \<and>
     (\<forall>i. bh_array bh i \<noteq> None \<longleftrightarrow> unat i < unat (bh_length bh) div 65536) \<and>
     unat (bh_length bh) div 65536 \<le> unat (bh_rows bh) \<and>
     0 < bh_rows bh \<and> unat (bh_rows bh) \<le> 2 ^ 17"

lemma unat_ROW: "unat (ROW n) = unat n div 65536"
  by (simp add: ROW_def ROW_SHIFT_def unat_drop)

lemma unat_ROW_WIDTH [simp]: "unat ROW_WIDTH = 65536"
  by (simp add: ROW_WIDTH_def ROW_SHIFT_def)

lemma row_offset: "unat (n AND (ROW_WIDTH - 1)) = unat n mod 65536"
proof -
  have "ROW_WIDTH - 1 = mask 16"
    by (simp add: ROW_WIDTH_def ROW_SHIFT_def mask_eq_exp_minus_1)
  then show ?thesis by (simp add: unat_and_mask)
qed

lemma slot_eq_iff:
  "ROW m = ROW n \<and> m AND (ROW_WIDTH - 1) = n AND (ROW_WIDTH - 1) \<longleftrightarrow> m = n"
proof -
  have "unat m = unat n" if "unat m div 65536 = unat n div 65536" "unat m mod 65536 = unat n mod 65536"
    using that by (metis div_mult_mod_eq)
  then show ?thesis
    by (auto simp: word_unat_eq_iff unat_ROW row_offset)
qed

lemma row_allocated:
  assumes "rows_ok bh" and "n < bh_length bh"
  shows "ROW n < bh_rows bh" "bh_array bh (ROW n) \<noteq> None"
proof -
  have "unat n < unat (bh_length bh)" using assms(2) by (simp add: word_less_nat_alt)
  moreover have "65536 dvd unat (bh_length bh)" using assms(1) by (auto simp: rows_ok_def)
  ultimately have lt: "unat n div 65536 < unat (bh_length bh) div 65536"
    by (auto elim!: dvdE simp: less_mult_imp_div_less mult.commute)
  then show "ROW n < bh_rows bh" using assms(1) by (auto simp: rows_ok_def word_less_nat_alt unat_ROW)
  show "bh_array bh (ROW n) \<noteq> None" using lt assms(1) by (auto simp: rows_ok_def unat_ROW)
qed

lemma A_rd_cell [vas]: "rows_ok bh \<Longrightarrow> n < bh_length bh \<Longrightarrow> A_rd bh n = Some (cell bh n)"
  using row_allocated [of bh n] by (auto simp: A_rd_def cell_def)

lemma A_nonnull_cell [vas]: "rows_ok bh \<Longrightarrow> n < bh_length bh \<Longrightarrow> A_nonnull bh n = cell bh n"
  by (simp add: A_nonnull_def A_rd_cell)

lemma A_wr_cell:
  assumes "rows_ok bh" and "n < bh_length bh"
  obtains arr where "A_wr bh n x = Some (bh\<lparr>bh_array := arr\<rparr>)"
    "cell (bh\<lparr>bh_array := arr\<rparr>) = (cell bh)(n := x)" "rows_ok (bh\<lparr>bh_array := arr\<rparr>)"
proof -
  from row_allocated [OF assms] obtain row where
    r: "ROW n < bh_rows bh" "bh_array bh (ROW n) = Some row" by auto
  let ?arr = "(bh_array bh)(ROW n \<mapsto> row(n AND (ROW_WIDTH - 1) := x))"
  have "A_wr bh n x = Some (bh\<lparr>bh_array := ?arr\<rparr>)"
    using r by (simp add: A_wr_def)
  moreover have "cell (bh\<lparr>bh_array := ?arr\<rparr>) = (cell bh)(n := x)"
  proof
    fix m
    show "cell (bh\<lparr>bh_array := ?arr\<rparr>) m = ((cell bh)(n := x)) m"
      using slot_eq_iff [of m n] r(2) by (auto simp: cell_def)
  qed
  moreover have "rows_ok (bh\<lparr>bh_array := ?arr\<rparr>)"
  proof -
    have "?arr i \<noteq> None \<longleftrightarrow> bh_array bh i \<noteq> None" for i using r(2) by auto
    then show ?thesis using assms(1) unfolding rows_ok_def by simp
  qed
  ultimately show ?thesis by (rule that)
qed

section \<open>Elements and their slots\<close>

definition slots_ok :: "'a binheap \<Rightarrow> bool" where
  "slots_ok bh \<longleftrightarrow> pages_ok bh \<and> rows_ok bh \<and> bh_update bh \<and>
     1 \<le> bh_next bh \<and> bh_next bh \<le> bh_length bh \<and> 1 < bh_length bh \<and>
     (\<forall>u. 1 \<le> u \<and> u < bh_next bh \<longrightarrow> (\<exists>p. cell bh u = Some p \<and> bh_idx bh p = u))"

definition elems :: "'a binheap \<Rightarrow> 'a set" where
  "elems bh = {p. \<exists>u. 1 \<le> u \<and> u < bh_next bh \<and> cell bh u = Some p}"

definition el :: "'a binheap \<Rightarrow> u32 \<Rightarrow> 'a" where
  "el bh u = the (cell bh u)"

lemma slotD:
  assumes "slots_ok bh" and "1 \<le> u" and "u < bh_next bh"
  shows "cell bh u = Some (el bh u)" "bh_idx bh (el bh u) = u" "u < UINT_MAX"
    "u < bh_length bh" "A_nonnull bh u = Some (el bh u)"
proof -
  show c: "cell bh u = Some (el bh u)" "bh_idx bh (el bh u) = u"
    using assms by (auto simp: slots_ok_def el_def)
  show "u < UINT_MAX"
    using assms(3) unat_lt_2p32 [of "bh_next bh"] by (simp add: word_less_nat_alt unat_UINT_MAX)
  show l: "u < bh_length bh" using assms by (auto simp: slots_ok_def)
  show "A_nonnull bh u = Some (el bh u)"
    using assms(1) l c by (simp add: slots_ok_def A_nonnull_cell)
qed

lemma el_in_elems: "slots_ok bh \<Longrightarrow> 1 \<le> u \<Longrightarrow> u < bh_next bh \<Longrightarrow> el bh u \<in> elems bh"
  using slotD(1) by (fastforce simp: elems_def)

lemma elems_idx:
  assumes "slots_ok bh" and "p \<in> elems bh"
  shows "1 \<le> bh_idx bh p" "bh_idx bh p < bh_next bh" "cell bh (bh_idx bh p) = Some p"
  using assms by (auto simp: elems_def slots_ok_def)

text \<open>The steps that only permute elements: everything but rows and indices is unchanged.\<close>

definition permuted :: "'a binheap \<Rightarrow> 'a binheap \<Rightarrow> bool" where
  "permuted bh bh' \<longleftrightarrow> (\<exists>arr idx. bh' = bh\<lparr>bh_array := arr, bh_idx := idx\<rparr>) \<and> slots_ok bh' \<and>
     elems bh' = elems bh \<and> (\<forall>p. p \<notin> elems bh \<longrightarrow> bh_idx bh' p = bh_idx bh p) \<and>
     (\<forall>n. \<not> (1 \<le> n \<and> n < bh_next bh) \<longrightarrow> cell bh' n = cell bh n)"

lemma parent_cong: "page_size a = page_size b \<Longrightarrow> page_mask a = page_mask b \<Longrightarrow>
    page_shift a = page_shift b \<Longrightarrow> parent a u = parent b u"
  by (simp add: parent_def Let_def)

lemma child_cong: "page_size a = page_size b \<Longrightarrow> page_mask a = page_mask b \<Longrightarrow>
    page_shift a = page_shift b \<Longrightarrow> child a u = child b u"
  by (simp add: child_def Let_def)

lemma permutedD:
  assumes "permuted bh bh'"
  shows "bh_next bh' = bh_next bh" "bh_length bh' = bh_length bh" "bh_rows bh' = bh_rows bh"
    "parent bh' u = parent bh u" "child bh' u = child bh u" "slots_ok bh'" "elems bh' = elems bh"
  using assms by (auto simp: permuted_def intro: parent_cong child_cong)

lemma permuted_refl: "slots_ok bh \<Longrightarrow> permuted bh bh"
  unfolding permuted_def
  by (auto intro!: exI [of _ "bh_array bh"] exI [of _ "bh_idx bh"])

lemma permuted_trans: "permuted a b \<Longrightarrow> permuted b c \<Longrightarrow> permuted a c"
  by (fastforce simp: permuted_def)

lemma binheap_update_eq:
  assumes "rows_ok bh" and "bh_next bh \<le> bh_length bh" and "bh_update bh"
    and "u < bh_next bh" and "cell bh u = Some p"
  shows "binheap_update bh u = Some (bh\<lparr>bh_idx := (bh_idx bh)(p := u)\<rparr>)"
  using assms by (simp add: binheap_update_def A_nonnull_cell)

lemma rows_ok_upd [simp]:
  "rows_ok (bh\<lparr>bh_idx := i\<rparr>) = rows_ok bh" "rows_ok (bh\<lparr>bh_next := n\<rparr>) = rows_ok bh"
  by (simp_all add: rows_ok_def)

lemma cell_upd [simp]:
  "cell (bh\<lparr>bh_idx := i\<rparr>) = cell bh" "cell (bh\<lparr>bh_next := n\<rparr>) = cell bh"
  by (simp_all add: cell_def fun_eq_iff)

lemma pages_ok_upd [simp]:
  "pages_ok (bh\<lparr>bh_idx := i\<rparr>) = pages_ok bh" "pages_ok (bh\<lparr>bh_next := n\<rparr>) = pages_ok bh"
  "pages_ok (bh\<lparr>bh_array := a\<rparr>) = pages_ok bh" "pages_ok (bh\<lparr>bh_length := l\<rparr>) = pages_ok bh"
  "pages_ok (bh\<lparr>bh_rows := r\<rparr>) = pages_ok bh"
  by (simp_all add: pages_ok_def)

lemma binhead_swap_spec:
  assumes ok: "slots_ok bh" and u: "1 \<le> u" "u < bh_next bh" and v: "1 \<le> v" "v < bh_next bh"
    and ne: "u \<noteq> v"
  obtains bh' where "binhead_swap bh u v = Some bh'" "permuted bh bh'"
    "cell bh' = (cell bh)(u := cell bh v, v := cell bh u)"
proof -
  note su = slotD [OF ok u] and sv = slotD [OF ok v]
  have rk: "rows_ok bh" and up: "bh_update bh" and nl: "bh_next bh \<le> bh_length bh"
    using ok by (auto simp: slots_ok_def)
  let ?p = "el bh u" and ?q = "el bh v"
  have pq: "?p \<noteq> ?q" using su(2) sv(2) ne by auto
  obtain a1 where a1: "A_wr bh u (Some ?q) = Some (bh\<lparr>bh_array := a1\<rparr>)"
    "cell (bh\<lparr>bh_array := a1\<rparr>) = (cell bh)(u := Some ?q)" "rows_ok (bh\<lparr>bh_array := a1\<rparr>)"
    by (rule A_wr_cell [OF rk su(4)])
  obtain a2 where a2: "A_wr (bh\<lparr>bh_array := a1\<rparr>) v (Some ?p) = Some (bh\<lparr>bh_array := a2\<rparr>)"
    "cell (bh\<lparr>bh_array := a2\<rparr>) = (cell bh)(u := Some ?q, v := Some ?p)"
    "rows_ok (bh\<lparr>bh_array := a2\<rparr>)"
    using A_wr_cell [OF a1(3), of v "Some ?p"] sv(4) a1(2) by auto
  let ?bh = "bh\<lparr>bh_array := a2, bh_idx := (bh_idx bh)(?q := u, ?p := v)\<rparr>"
  have c: "cell ?bh = (cell bh)(u := cell bh v, v := cell bh u)"
    using a2(2) su(1) sv(1) by simp
  have u1: "binheap_update (bh\<lparr>bh_array := a2\<rparr>) u
      = Some (bh\<lparr>bh_array := a2, bh_idx := (bh_idx bh)(?q := u)\<rparr>)"
    using binheap_update_eq [OF a2(3), of u ?q] up nl u ne a2(2) by simp
  have u2: "binheap_update (bh\<lparr>bh_array := a2, bh_idx := (bh_idx bh)(?q := u)\<rparr>) v = Some ?bh"
    using binheap_update_eq [of "bh\<lparr>bh_array := a2, bh_idx := (bh_idx bh)(?q := u)\<rparr>" v ?p]
      a2(2,3) up nl v by simp
  have "binhead_swap bh u v = Some ?bh"
    using u v su(5) sv(5) a1(1) a2(1) u1 u2 by (simp add: binhead_swap_def)
  moreover have sl: "slots_ok ?bh"
  proof -
    have "\<exists>p. cell ?bh w = Some p \<and> bh_idx ?bh p = w" if w: "1 \<le> w" "w < bh_next bh" for w
    proof -
      consider "w = u" | "w = v" | "w \<noteq> u" "w \<noteq> v" by blast
      then show ?thesis
      proof cases
        case 1
        then show ?thesis using sv(1) pq ne unfolding c by simp
      next
        case 2
        then show ?thesis using su(1) unfolding c by simp
      next
        case 3
        then have "el bh w \<noteq> ?p" "el bh w \<noteq> ?q" using slotD(2) [OF ok w] su(2) sv(2) by auto
        with 3 show ?thesis using slotD(1,2) [OF ok w] unfolding c by simp
      qed
    qed
    then show ?thesis using ok a2(3) by (simp add: slots_ok_def)
  qed
  moreover have "permuted bh ?bh"
  proof -
    have e: "elems ?bh = elems bh"
    proof -
      have "(\<exists>w. 1 \<le> w \<and> w < bh_next bh \<and> cell ?bh w = Some p)
          \<longleftrightarrow> (\<exists>w. 1 \<le> w \<and> w < bh_next bh \<and> cell bh w = Some p)" for p
      proof
        assume "\<exists>w. 1 \<le> w \<and> w < bh_next bh \<and> cell ?bh w = Some p"
        then obtain w where "1 \<le> w" "w < bh_next bh" "cell ?bh w = Some p" by blast
        then show "\<exists>w. 1 \<le> w \<and> w < bh_next bh \<and> cell bh w = Some p"
          using u v unfolding c by (metis fun_upd_apply)
      next
        assume "\<exists>w. 1 \<le> w \<and> w < bh_next bh \<and> cell bh w = Some p"
        then obtain w where "1 \<le> w" "w < bh_next bh" "cell bh w = Some p" by blast
        then show "\<exists>w. 1 \<le> w \<and> w < bh_next bh \<and> cell ?bh w = Some p"
          using u v unfolding c by (metis fun_upd_apply)
      qed
      then show ?thesis by (simp add: elems_def)
    qed
    have i: "bh_idx ?bh p = bh_idx bh p" if "p \<notin> elems bh" for p
      using that el_in_elems [OF ok u] el_in_elems [OF ok v] by auto
    have o: "cell ?bh n = cell bh n" if "\<not> (1 \<le> n \<and> n < bh_next bh)" for n
      unfolding c using that u v by auto
    show ?thesis unfolding permuted_def using sl e i o by blast
  qed
  ultimately show ?thesis using c that by blast
qed

section \<open>Adding and freeing rows\<close>

lemma binheap_addrow_spec:
  assumes rk: "rows_ok bh" and room: "unat (bh_length bh) + 65536 < 2 ^ 32"
  obtains arr rows where
    "binheap_addrow junk bh =
       Some (bh\<lparr>bh_array := arr, bh_rows := rows, bh_length := bh_length bh + ROW_WIDTH\<rparr>)"
    "rows_ok (bh\<lparr>bh_array := arr, bh_rows := rows, bh_length := bh_length bh + ROW_WIDTH\<rparr>)"
    "\<And>n. n < bh_length bh \<Longrightarrow>
       cell (bh\<lparr>bh_array := arr, bh_rows := rows, bh_length := bh_length bh + ROW_WIDTH\<rparr>) n = cell bh n"
proof -
  let ?L = "unat (bh_length bh) div 65536"
  have dv: "unat (bh_length bh) mod 65536 = 0" and rows: "?L \<le> unat (bh_rows bh)"
    "0 < unat (bh_rows bh)" "unat (bh_rows bh) \<le> 2 ^ 17"
    and al: "\<And>i. bh_array bh i \<noteq> None \<longleftrightarrow> unat i < ?L"
    using rk by (auto simp: rows_ok_def word_less_nat_alt)
  have len: "unat (bh_length bh + ROW_WIDTH) = unat (bh_length bh) + 65536"
    using room by (simp add: unat_word_ariths)
  have R: "unat (ROW (bh_length bh)) = ?L" by (rule unat_ROW)
  have dbl: "unat (bh_rows bh * 2) = unat (bh_rows bh) * 2"
    using rows(3) by (simp add: unat_word_ariths)
  define full where "full \<longleftrightarrow> ROW (bh_length bh) \<ge> bh_rows bh"
  define rw where "rw = (if full then bh_rows bh * 2 else bh_rows bh)"
  define ar where "ar = (if full then (\<lambda>i. if bh_rows bh \<le> i \<and> i < bh_rows bh * 2 then None else bh_array bh i)
      else bh_array bh)"
  have full: "full \<longleftrightarrow> unat (bh_rows bh) \<le> ?L" by (simp add: full_def word_le_nat_alt R)
  have L16: "?L < 2 ^ 16" using room by simp
  have rwn: "?L < unat rw" "0 < rw" "unat rw \<le> 2 ^ 17"
    using rows full dbl L16 by (auto simp: rw_def word_less_nat_alt)
  have ar: "ar i = bh_array bh i" for i
    using al [of i] rows(1) full by (auto simp: ar_def word_le_nat_alt)
  have none: "ar (ROW (bh_length bh)) = None" unfolding ar using al [of "ROW (bh_length bh)"] R by auto
  let ?bh = "bh\<lparr>bh_array := ar(ROW (bh_length bh) \<mapsto> junk), bh_rows := rw,
      bh_length := bh_length bh + ROW_WIDTH\<rparr>"
  have bh1: "(if bh_rows bh \<le> ROW (bh_length bh)
      then let u = bh_rows bh * 2
           in bh\<lparr>bh_array := \<lambda>i. if bh_rows bh \<le> i \<and> i < u then None else bh_array bh i, bh_rows := u\<rparr>
      else bh) = bh\<lparr>bh_array := ar, bh_rows := rw\<rparr>"
    by (auto simp: ar_def rw_def full_def Let_def)
  have "binheap_addrow junk bh = Some ?bh"
    unfolding binheap_addrow_def unfolding bh1 unfolding Let_def using none rwn R by (simp add: word_less_nat_alt)
  moreover have "rows_ok ?bh"
  proof -
    have d: "(unat (bh_length bh) + 65536) div 65536 = ?L + 1"
      "(unat (bh_length bh) + 65536) mod 65536 = 0" using dv by auto
    have "(ar(ROW (bh_length bh) \<mapsto> junk)) i \<noteq> None \<longleftrightarrow> unat i < ?L + 1" for i
      using al [of i] R by (auto simp: ar word_unat_eq_iff)
    then show ?thesis using rwn d by (simp add: rows_ok_def len)
  qed
  moreover have "cell ?bh n = cell bh n" if "n < bh_length bh" for n
  proof -
    have "bh_array bh (ROW n) \<noteq> None" by (rule row_allocated [OF rk that])
    then have "ROW n \<noteq> ROW (bh_length bh)" using al [of "ROW (bh_length bh)"] R by auto
    then show ?thesis by (simp add: cell_def ar)
  qed
  ultimately show ?thesis by (rule that)
qed

lemma free_row_spec:
  assumes rk: "rows_ok bh" and big: "65536 \<le> unat (bh_length bh)"
  defines "bh' \<equiv> bh\<lparr>bh_array := (bh_array bh)(ROW (bh_length bh - 1) := None),
                   bh_length := bh_length bh - ROW_WIDTH\<rparr>"
  shows "rows_ok bh'" and "n < bh_length bh' \<Longrightarrow> cell bh' n = cell bh n"
    and "unat (bh_length bh') = unat (bh_length bh) - 65536"
proof -
  let ?L = "unat (bh_length bh) div 65536"
  have rows: "unat (bh_length bh) mod 65536 = 0" "?L \<le> unat (bh_rows bh)"
    "0 < bh_rows bh" "unat (bh_rows bh) \<le> 2 ^ 17"
    and al: "\<And>i. bh_array bh i \<noteq> None \<longleftrightarrow> unat i < ?L"
    using rk by (auto simp: rows_ok_def)
  obtain m where m: "unat (bh_length bh) = 65536 * m" "0 < m"
    using rows(1) big by (auto simp: mod_eq_0_iff_dvd elim!: dvdE)
  have len: "unat (bh_length bh - ROW_WIDTH) = unat (bh_length bh) - 65536"
    using big by (simp add: unat_sub word_le_nat_alt)
  then show len': "unat (bh_length bh') = unat (bh_length bh) - 65536" by (simp add: bh'_def)
  have "unat (bh_length bh - 1) = unat (bh_length bh) - 1"
    using big by (simp add: unat_sub word_le_nat_alt)
  then have R: "unat (ROW (bh_length bh - 1)) = m - 1"
    using m by (cases m) (simp_all add: unat_ROW)
  have L: "?L = m" using m by simp
  have a: "bh_array bh' i \<noteq> None \<longleftrightarrow> unat i < m - 1" for i
    using al [of i] R L by (auto simp: bh'_def word_unat_eq_iff)
  have "unat (bh_length bh') = 65536 * (m - 1)" using len' m by (simp add: diff_mult_distrib2)
  then show "rows_ok bh'" using a rows L by (simp add: rows_ok_def bh'_def)
  then show "cell bh' n = cell bh n" if "n < bh_length bh'"
    using row_allocated(2) [OF \<open>rows_ok bh'\<close> that] by (auto simp: cell_def bh'_def split: if_splits)
qed

section \<open>The order\<close>

text \<open>
  \<open>p\<close> may stay above \<open>q\<close>: the comparison callback does not want them swapped.  The
  heap order relates every slot to its parent; \<open>heap_hole u\<close> leaves out every relation in
  which slot \<open>u\<close> takes part, and \<open>heap_down u\<close> only those to the children of \<open>u\<close>.
\<close>

abbreviation edge :: "'a binheap \<Rightarrow> u32 \<Rightarrow> u32 \<Rightarrow> bool" where
  "edge bh w v \<equiv> 2 \<le> w \<and> w < bh_next bh \<and> parent bh w = Some v"

definition heap_order :: "('a \<Rightarrow> 'a \<Rightarrow> bool) \<Rightarrow> 'a binheap \<Rightarrow> bool" where
  "heap_order cmp bh \<longleftrightarrow> (\<forall>w v. edge bh w v \<longrightarrow> \<not> cmp (el bh w) (el bh v))"

definition heap_above :: "('a \<Rightarrow> 'a \<Rightarrow> bool) \<Rightarrow> 'a binheap \<Rightarrow> u32 \<Rightarrow> bool" where
  "heap_above cmp bh u \<longleftrightarrow>
     (\<forall>v w. edge bh u v \<and> edge bh w u \<longrightarrow> \<not> cmp (el bh w) (el bh v))"

definition heap_hole :: "('a \<Rightarrow> 'a \<Rightarrow> bool) \<Rightarrow> 'a binheap \<Rightarrow> u32 \<Rightarrow> bool" where
  "heap_hole cmp bh u \<longleftrightarrow> heap_above cmp bh u \<and>
     (\<forall>w v. edge bh w v \<and> w \<noteq> u \<and> v \<noteq> u \<longrightarrow> \<not> cmp (el bh w) (el bh v))"

definition heap_down :: "('a \<Rightarrow> 'a \<Rightarrow> bool) \<Rightarrow> 'a binheap \<Rightarrow> u32 \<Rightarrow> bool" where
  "heap_down cmp bh u \<longleftrightarrow> heap_above cmp bh u \<and>
     (\<forall>w v. edge bh w v \<and> v \<noteq> u \<longrightarrow> \<not> cmp (el bh w) (el bh v))"

definition heap_children :: "('a \<Rightarrow> 'a \<Rightarrow> bool) \<Rightarrow> 'a binheap \<Rightarrow> u32 \<Rightarrow> bool" where
  "heap_children cmp bh u \<longleftrightarrow> (\<forall>w. edge bh w u \<longrightarrow> \<not> cmp (el bh w) (el bh u))"

lemma edgeD:
  assumes "slots_ok bh" and "edge bh w v"
  shows "1 \<le> v" "v < w" "v < bh_next bh" "1 \<le> w" "w \<noteq> v"
proof -
  have "1 \<le> w" using assms(2) by (simp add: word_le_nat_alt)
  then show "1 \<le> w" .
  have "pages_ok bh" using assms(1) by (simp add: slots_ok_def)
  with parent_total [of bh w] assms slotD(3) [OF assms(1) \<open>1 \<le> w\<close>] obtain v' where
    "parent bh w = Some v'" "1 \<le> v'" "v' < w" by blast
  with assms(2) show "1 \<le> v" "v < w" "v < bh_next bh" "w \<noteq> v" by auto
qed

lemma edge_child:
  assumes "slots_ok bh" and "1 \<le> u" and "u < bh_next bh" and "2 \<le> w" and "w < bh_next bh"
  shows "parent bh w = Some u \<longleftrightarrow> w = fst (child bh u) \<or> w = snd (child bh u)"
proof -
  have "1 \<le> w" using assms(4) by (simp add: word_le_nat_alt)
  then show ?thesis
    using assms child_iff_parent [of bh u w] slotD(3) [OF assms(1)] by (auto simp: slots_ok_def)
qed

lemma heap_hole_down:
  assumes "heap_hole cmp bh u" and "\<forall>v. edge bh u v \<longrightarrow> \<not> cmp (el bh u) (el bh v)"
  shows "heap_down cmp bh u"
  using assms by (auto simp: heap_hole_def heap_down_def)

lemma heap_down_order:
  assumes "heap_down cmp bh u" and "heap_children cmp bh u"
  shows "heap_order cmp bh"
  using assms by (auto simp: heap_down_def heap_children_def heap_order_def)

locale heap_cmp =
  fixes cmp :: "'a \<Rightarrow> 'a \<Rightarrow> bool"
  assumes cmp_asym: "cmp a b \<Longrightarrow> \<not> cmp b a"
    and cmp_neg_trans: "\<not> cmp a b \<Longrightarrow> \<not> cmp b c \<Longrightarrow> \<not> cmp a c"
begin

lemma heap_order_down:
  assumes "heap_order cmp bh"
  shows "heap_down cmp bh u"
proof -
  have o: "edge bh w v \<Longrightarrow> \<not> cmp (el bh w) (el bh v)" for w v
    using assms unfolding heap_order_def by blast
  have "heap_above cmp bh u"
    unfolding heap_above_def
  proof (intro allI impI)
    fix v w assume "edge bh u v \<and> edge bh w u"
    then show "\<not> cmp (el bh w) (el bh v)"
      using o [of u v] o [of w u] cmp_neg_trans by blast
  qed
  with o show ?thesis by (simp add: heap_down_def)
qed

text \<open>One step up: the hole moves to the parent, and the slot it left is in order.\<close>

lemma swap_up:
  assumes ok: "slots_ok bh" and h: "heap_hole cmp bh u" and e: "edge bh u v"
    and lt: "cmp (el bh u) (el bh v)"
    and p: "permuted bh bh'" and c: "cell bh' = (cell bh)(u := cell bh v, v := cell bh u)"
  shows "heap_hole cmp bh' v" "heap_children cmp bh' v"
proof -
  note ev = edgeD [OF ok e]
  have E: "edge bh' a b \<longleftrightarrow> edge bh a b" for a b
    using permutedD [OF p] by simp
  have elu: "el bh' u = el bh v" and elv: "el bh' v = el bh u"
    and elo: "w \<noteq> u \<Longrightarrow> w \<noteq> v \<Longrightarrow> el bh' w = el bh w" for w
    using ev(5) by (auto simp: el_def c)
  have ord: "edge bh a b \<Longrightarrow> a \<noteq> u \<Longrightarrow> b \<noteq> u \<Longrightarrow> \<not> cmp (el bh a) (el bh b)" for a b
    using h by (auto simp: heap_hole_def)
  have above: "edge bh w u \<Longrightarrow> \<not> cmp (el bh w) (el bh v)" for w
    using h e by (auto simp: heap_hole_def heap_above_def)
  have nb: "edge bh w x \<Longrightarrow> w \<noteq> x" for w x using edgeD [OF ok] by blast
  show ch: "heap_children cmp bh' v"
    unfolding heap_children_def E
  proof (intro allI impI)
    fix w assume w: "edge bh w v"
    show "\<not> cmp (el bh' w) (el bh' v)"
    proof (cases "w = u")
      case True
      then show ?thesis using elu elv lt cmp_asym by simp
    next
      case False
      with w nb ord ev(5) have "\<not> cmp (el bh w) (el bh v)" by blast
      with cmp_asym [OF lt] cmp_neg_trans have "\<not> cmp (el bh w) (el bh u)" by blast
      then show ?thesis using elv elo False nb w by auto
    qed
  qed
  have ab: "heap_above cmp bh' v"
    unfolding heap_above_def E
  proof (intro allI impI)
    fix z w assume a: "edge bh v z \<and> edge bh w v"
    have zv: "z < v" using edgeD(2) [OF ok, of v z] a by blast
    then have z: "el bh' z = el bh z" using elo ev(2) by auto
    have vz: "\<not> cmp (el bh v) (el bh z)"
      using ord [of v z] a zv ev(2,5) by fastforce
    show "\<not> cmp (el bh' w) (el bh' z)"
    proof (cases "w = u")
      case True
      then show ?thesis using z elu vz by simp
    next
      case False
      then have "\<not> cmp (el bh w) (el bh v)" using ord a ev(5) by blast
      with vz have "\<not> cmp (el bh w) (el bh z)" using cmp_neg_trans by blast
      then show ?thesis using z elo False nb a by auto
    qed
  qed
  have "\<not> cmp (el bh' w) (el bh' z)" if a: "edge bh w z" "w \<noteq> v" "z \<noteq> v" for w z
  proof (cases "w = u")
    case True
    with a e show ?thesis by simp
  next
    case False
    then have w: "el bh' w = el bh w" using elo a by simp
    show ?thesis
    proof (cases "z = u")
      case True
      then show ?thesis using above a w elu by simp
    next
      case False
      then show ?thesis using ord a w elo \<open>w \<noteq> u\<close> by simp
    qed
  qed
  with ab show "heap_hole cmp bh' v" by (auto simp: heap_hole_def E)
qed

lemma trickleup_loop_spec:
  assumes "slots_ok bh" and "1 \<le> u" and "u < bh_next bh" and "heap_hole cmp bh u"
  shows "\<exists>bh' u'. trickleup_loop cmp bh u = Some (bh', u') \<and> permuted bh bh' \<and>
    1 \<le> u' \<and> u' < bh_next bh' \<and> heap_down cmp bh' u' \<and>
    (heap_children cmp bh u \<longrightarrow> heap_order cmp bh')"
  using assms
proof (induction "unat u" arbitrary: bh u rule: less_induct)
  case (less u bh)
  note ok = less.prems(1) and u = less.prems(2,3) and h = less.prems(4)
  show ?case
  proof (cases "u = 1")
    case True
    have "\<not> edge bh 1 v" for v by (simp add: word_le_nat_alt)
    then have d: "heap_down cmp bh u" using heap_hole_down h True by blast
    have "trickleup_loop cmp bh u = Some (bh, u)"
      using True by (subst trickleup_loop.simps) (simp add: ROOT_IDX_def)
    then show ?thesis using d ok u permuted_refl heap_down_order by blast
  next
    case False
    with u(1) have u2: "2 \<le> u" and u1: "ROOT_IDX < u"
      by (simp_all add: word_le_nat_alt word_less_nat_alt ROOT_IDX_def word_unat_eq_iff)
    have "pages_ok bh" using ok by (simp add: slots_ok_def)
    with parent_total [of bh u] u2 slotD(3) [OF ok u] obtain v where
      v: "parent bh u = Some v" "1 \<le> v" "v < u" by blast
    with u have vn: "v < bh_next bh" by simp
    have e: "edge bh u v" using u u2 v by simp
    note sv = slotD(5) [OF ok v(2) vn] and su = slotD(5) [OF ok u]
    show ?thesis
    proof (cases "cmp (el bh u) (el bh v)")
      case False
      then have d: "heap_down cmp bh u" using h e by (intro heap_hole_down) auto
      have "trickleup_loop cmp bh u = Some (bh, u)"
        using u u1 v vn sv su False by (subst trickleup_loop.simps) simp
      then show ?thesis using d ok u permuted_refl heap_down_order by blast
    next
      case True
      have "u \<noteq> v" using v by auto
      then obtain bh1 where s: "binhead_swap bh u v = Some bh1" "permuted bh bh1"
        "cell bh1 = (cell bh)(u := cell bh v, v := cell bh u)"
        using binhead_swap_spec [OF ok u v(2) vn] by blast
      note sw = swap_up [OF ok h e True s(2,3)]
      have "unat v < unat u" using v by (simp add: word_less_nat_alt)
      with less.hyps [of v bh1] sw v permutedD [OF s(2)] vn obtain bh' u' where
        r: "trickleup_loop cmp bh1 v = Some (bh', u')" "permuted bh1 bh'"
          "1 \<le> u'" "u' < bh_next bh'" "heap_down cmp bh' u'" "heap_order cmp bh'"
        by auto
      have "trickleup_loop cmp bh u = Some (bh', u')"
        using u u1 v vn sv su True s(1) r(1) by (subst trickleup_loop.simps) simp
      then show ?thesis using r s(2) permuted_trans by blast
    qed
  qed
qed

lemma binheap_trickleup_spec:
  assumes "slots_ok bh" and "1 \<le> u" and "u < bh_next bh" and "heap_hole cmp bh u"
  shows "\<exists>bh' u'. binheap_trickleup cmp bh u = Some (bh', u') \<and> permuted bh bh' \<and>
    1 \<le> u' \<and> u' < bh_next bh' \<and> heap_down cmp bh' u' \<and>
    (heap_children cmp bh u \<longrightarrow> heap_order cmp bh')"
  using trickleup_loop_spec [OF assms] slotD(5) [OF assms(1-3)] assms(3)
  by (simp add: binheap_trickleup_def)

text \<open>One step down: swap with the smaller child.\<close>

lemma swap_down:
  assumes ok: "slots_ok bh" and h: "heap_down cmp bh u" and e: "edge bh v u"
    and least: "\<And>w. edge bh w u \<Longrightarrow> \<not> cmp (el bh w) (el bh v)"
    and ge: "\<not> cmp (el bh u) (el bh v)"
    and p: "permuted bh bh'" and c: "cell bh' = (cell bh)(u := cell bh v, v := cell bh u)"
  shows "heap_down cmp bh' v"
proof -
  note ev = edgeD [OF ok e]
  have E: "edge bh' a b \<longleftrightarrow> edge bh a b" for a b
    using permutedD [OF p] by simp
  have elu: "el bh' u = el bh v" and elv: "el bh' v = el bh u"
    and elo: "w \<noteq> u \<Longrightarrow> w \<noteq> v \<Longrightarrow> el bh' w = el bh w" for w
    using ev(5) by (auto simp: el_def c)
  have ord: "edge bh a b \<Longrightarrow> b \<noteq> u \<Longrightarrow> \<not> cmp (el bh a) (el bh b)" for a b
    using h by (auto simp: heap_down_def)
  have nb: "edge bh w x \<Longrightarrow> w \<noteq> x \<and> x < w" for w x using edgeD [OF ok] by blast
  have "heap_above cmp bh' v"
    unfolding heap_above_def E
  proof (intro allI impI)
    fix x w assume a: "edge bh v x \<and> edge bh w v"
    then have "x = u" using e by simp
    moreover have "\<not> cmp (el bh w) (el bh v)" using ord a ev(5) by blast
    moreover have "w \<noteq> u" "w \<noteq> v" using a nb ev(2) by fastforce+
    ultimately show "\<not> cmp (el bh' w) (el bh' x)" using elu elo by simp
  qed
  moreover have "\<not> cmp (el bh' w) (el bh' x)" if a: "edge bh w x" "x \<noteq> v" for w x
  proof (cases "w = v")
    case True
    then have "x = u" using a e by simp
    then show ?thesis using True elu elv ge by simp
  next
    case wv: False
    show ?thesis
    proof (cases "w = u")
      case True
      then have "\<not> cmp (el bh v) (el bh x)"
        using h e a by (auto simp: heap_down_def heap_above_def)
      moreover have "x \<noteq> u" using nb a True by auto
      ultimately show ?thesis using True elu elo a by simp
    next
      case False
      then have w: "el bh' w = el bh w" using elo wv by simp
      show ?thesis
      proof (cases "x = u")
        case True
        then show ?thesis using w elu least a by simp
      next
        case False
        then show ?thesis using w elo ord a by simp
      qed
    qed
  qed
  ultimately show ?thesis by (auto simp: heap_down_def E)
qed

lemma trickledown_loop_spec:
  assumes "slots_ok bh" and "1 \<le> u" and "u < bh_next bh" and "heap_down cmp bh u"
  shows "\<exists>bh' u'. trickledown_loop cmp bh u = Some (bh', u') \<and> permuted bh bh' \<and>
    1 \<le> u' \<and> u' < bh_next bh' \<and> heap_order cmp bh'"
  using assms
proof (induction "2 ^ 32 - unat u" arbitrary: bh u rule: less_induct)
  case (less u bh)
  note ok = less.prems(1) and u = less.prems(2,3) and h = less.prems(4)
  obtain v1 v2 where ch: "child bh u = (v1, v2)" by fastforce
  have "pages_ok bh" using ok by (simp add: slots_ok_def)
  from child_gt [OF this u(1) slotD(3) [OF ok u]] ch have g: "u < v1" "v1 \<le> v2" by auto
  with u(1) have g0: "0 < v1" "0 < v2" "2 \<le> v1" "1 \<le> v1" "1 \<le> v2" "2 \<le> v2"
    by (auto simp: word_less_nat_alt word_le_nat_alt)
  have kids: "edge bh w u \<longleftrightarrow> 2 \<le> w \<and> w < bh_next bh \<and> (w = v1 \<or> w = v2)" for w
    using edge_child [OF ok u] ch by auto
  note su = slotD(5) [OF ok u]
  show ?case
  proof (cases "v1 \<ge> bh_next bh")
    case True
    have "\<not> edge bh w u" for w
    proof
      assume "edge bh w u"
      then have "w < bh_next bh" "w = v1 \<or> w = v2" using kids by blast+
      with True g(2) show False by auto
    qed
    then have "heap_children cmp bh u" unfolding heap_children_def by blast
    with h have o: "heap_order cmp bh" by (rule heap_down_order)
    have "trickledown_loop cmp bh u = Some (bh, u)"
      using u su ch g g0 True by (subst trickledown_loop.simps) simp
    then show ?thesis using o ok u permuted_refl by blast
  next
    case False
    then have n1: "v1 < bh_next bh" and nle: "(bh_next bh \<le> v1) = False" by simp_all
    note s1 = slotD(5) [OF ok g0(4) n1]
    define v where "v = (if v1 \<noteq> v2 \<and> v2 < bh_next bh \<and> cmp (el bh v2) (el bh v1) then v2 else v1)"
    have vn: "v < bh_next bh" "1 \<le> v" "u < v" "2 \<le> v" "v = v1 \<or> v = v2"
      using n1 g g0 by (auto simp: v_def)
    then have ve: "edge bh v u" using kids by blast
    note sv = slotD(5) [OF ok vn(2,1)]
    have least: "\<not> cmp (el bh w) (el bh v)" if "edge bh w u" for w
    proof -
      from that have "w < bh_next bh" "w = v1 \<or> w = v2" using kids by blast+
      then show ?thesis using cmp_asym by (auto simp: v_def)
    qed
    have pick: "(if v1 \<noteq> v2 \<and> v2 < bh_next bh then do {
               q2 \<leftarrow> A_nonnull bh v2;
               Some (if cmp q2 (el bh v1) then v2 else v1)
             } else Some v1) = Some v"
      using slotD(5) [OF ok g0(5)] by (auto simp: v_def)
    show ?thesis
    proof (cases "cmp (el bh u) (el bh v)")
      case True
      then have "heap_children cmp bh u"
        using least cmp_asym cmp_neg_trans unfolding heap_children_def by blast
      with h have o: "heap_order cmp bh" by (rule heap_down_order)
      have "trickledown_loop cmp bh u = Some (bh, u)"
        using u su ch g g0 n1 s1 vn(1) sv True pick
        by (subst trickledown_loop.simps) (simp add: nle)
      then show ?thesis using o ok u permuted_refl by blast
    next
      case nc: False
      have "u \<noteq> v" using vn by auto
      then obtain bh1 where s: "binhead_swap bh u v = Some bh1" "permuted bh bh1"
        "cell bh1 = (cell bh)(u := cell bh v, v := cell bh u)"
        using binhead_swap_spec [OF ok u vn(2,1)] by blast
      have d: "heap_down cmp bh1 v"
        by (rule swap_down [OF ok h ve least nc s(2,3)])
      have "2 ^ 32 - unat v < 2 ^ 32 - unat u"
        using vn(3) unat_lt_2p32 [of v] by (simp add: word_less_nat_alt)
      with less.hyps [of v bh1] d vn permutedD [OF s(2)] obtain bh' u' where
        r: "trickledown_loop cmp bh1 v = Some (bh', u')" "permuted bh1 bh'"
          "1 \<le> u'" "u' < bh_next bh'" "heap_order cmp bh'"
        by auto
      have "trickledown_loop cmp bh u = Some (bh', u')"
        using u su ch g g0 n1 s1 vn(1) sv nc s(1) r(1) pick
        by (subst trickledown_loop.simps) (simp add: nle)
      then show ?thesis using r s(2) permuted_trans by blast
    qed
  qed
qed

lemma binheap_trickledown_spec:
  assumes "slots_ok bh" and "1 \<le> u" and "u < bh_next bh" and "heap_down cmp bh u"
  shows "\<exists>bh' u'. binheap_trickledown cmp bh u = Some (bh', u') \<and> permuted bh bh' \<and>
    1 \<le> u' \<and> u' < bh_next bh' \<and> heap_order cmp bh'"
  using trickledown_loop_spec [OF assms] slotD(5) [OF assms(1-3)] assms(3)
  by (simp add: binheap_trickledown_def)

end

section \<open>The heap operations\<close>

definition heap_inv :: "('a \<Rightarrow> 'a \<Rightarrow> bool) \<Rightarrow> 'a binheap \<Rightarrow> bool" where
  "heap_inv cmp bh \<longleftrightarrow> slots_ok bh \<and> heap_order cmp bh \<and>
     (bh_next bh = 1 \<longrightarrow> cell bh 1 = None) \<and> unat (bh_length bh) < 2 ^ 32 - 2 ^ 17"

lemma slots_ok_rows:
  assumes "slots_ok bh" and "rows_ok bh'" and "\<And>n. n < bh_next bh \<Longrightarrow> cell bh' n = cell bh n"
    and "pages_ok bh'" and "bh_update bh'" and "bh_next bh' = bh_next bh" and "bh_idx bh' = bh_idx bh"
    and "bh_next bh \<le> bh_length bh'" and "1 < bh_length bh'"
  shows "slots_ok bh'"
  using assms by (simp add: slots_ok_def)

lemma heap_order_cells:
  assumes "slots_ok bh" and "heap_order cmp bh" and "bh_next bh' = bh_next bh"
    and "\<And>u. parent bh' u = parent bh u" and "\<And>n. n < bh_next bh \<Longrightarrow> cell bh' n = cell bh n"
  shows "heap_order cmp bh'"
  unfolding heap_order_def
proof (intro allI impI)
  fix w v assume "edge bh' w v"
  then have e: "edge bh w v" using assms by simp
  then have "\<not> cmp (el bh w) (el bh v)" using assms(2) by (simp add: heap_order_def)
  moreover have "el bh' w = el bh w" "el bh' v = el bh v"
    using e edgeD(3) [OF assms(1) e] assms(5) by (simp_all add: el_def)
  ultimately show "\<not> cmp (el bh' w) (el bh' v)" by simp
qed

lemma elems_cells:
  assumes "bh_next bh' = bh_next bh" and "\<And>n. n < bh_next bh \<Longrightarrow> cell bh' n = cell bh n"
  shows "elems bh' = elems bh"
  using assms by (auto simp: elems_def)

text \<open>Growing the heap, if it is full, does not change what it holds.\<close>

lemma make_room:
  assumes inv: "heap_inv cmp bh" and room: "unat (bh_next bh) + 3 * 65536 < 2 ^ 32"
  obtains bh1 where
    "(if bh_length bh = bh_next bh then binheap_addrow junk bh else Some bh) = Some bh1"
    "slots_ok bh1" "heap_order cmp bh1" "elems bh1 = elems bh" "bh_next bh1 = bh_next bh"
    "bh_next bh1 < bh_length bh1" "bh_idx bh1 = bh_idx bh" "unat (bh_length bh1) < 2 ^ 32 - 2 ^ 17"
proof (cases "bh_length bh = bh_next bh")
  case False
  then show ?thesis using inv that [of bh] by (auto simp: heap_inv_def slots_ok_def)
next
  case True
  have sl: "slots_ok bh" "heap_order cmp bh" and rk: "rows_ok bh" and l1: "1 < bh_length bh"
    using inv by (auto simp: heap_inv_def slots_ok_def)
  have rm: "unat (bh_length bh) + 65536 < 2 ^ 32" using room True by simp
  obtain arr rows where
    a: "binheap_addrow junk bh =
       Some (bh\<lparr>bh_array := arr, bh_rows := rows, bh_length := bh_length bh + ROW_WIDTH\<rparr>)"
    "rows_ok (bh\<lparr>bh_array := arr, bh_rows := rows, bh_length := bh_length bh + ROW_WIDTH\<rparr>)"
    "\<And>n. n < bh_length bh \<Longrightarrow>
       cell (bh\<lparr>bh_array := arr, bh_rows := rows, bh_length := bh_length bh + ROW_WIDTH\<rparr>) n = cell bh n"
    using binheap_addrow_spec [OF rk rm, where junk = junk] by blast
  let ?bh = "bh\<lparr>bh_array := arr, bh_rows := rows, bh_length := bh_length bh + ROW_WIDTH\<rparr>"
  have len: "unat (bh_length ?bh) = unat (bh_length bh) + 65536"
    using rm by (simp add: unat_word_ariths)
  then have gt: "bh_length bh < bh_length ?bh" by (simp add: word_less_nat_alt)
  have c: "cell ?bh n = cell bh n" if "n < bh_next bh" for n using a(3) that True by simp
  have "slots_ok ?bh"
    using sl(1) a(2) c l1 gt True by (intro slots_ok_rows [OF sl(1)]) (auto simp: slots_ok_def)
  moreover have "heap_order cmp ?bh"
    by (rule heap_order_cells [OF sl]) (auto simp: c intro: parent_cong)
  moreover have "elems ?bh = elems bh" by (rule elems_cells) (auto simp: c)
  ultimately show ?thesis
    using that [of ?bh] a(1) True gt len room by simp
qed

lemma binheap_write_spec:
  assumes sl: "slots_ok bh" and u: "1 \<le> u" "u < bh_length bh"
    and n: "1 \<le> n" "n \<le> bh_length bh" and un: "u < n"
    and others: "\<And>w. 1 \<le> w \<Longrightarrow> w < n \<Longrightarrow> w \<noteq> u \<Longrightarrow>
        \<exists>q. cell bh w = Some q \<and> bh_idx bh q = w \<and> q \<noteq> p"
  obtains arr where "A_wr (bh\<lparr>bh_next := n\<rparr>) u (Some p) = Some (bh\<lparr>bh_array := arr, bh_next := n\<rparr>)"
    "binheap_update (bh\<lparr>bh_array := arr, bh_next := n\<rparr>) u
      = Some (bh\<lparr>bh_array := arr, bh_next := n, bh_idx := (bh_idx bh)(p := u)\<rparr>)"
    "slots_ok (bh\<lparr>bh_array := arr, bh_next := n, bh_idx := (bh_idx bh)(p := u)\<rparr>)"
    "cell (bh\<lparr>bh_array := arr, bh_next := n, bh_idx := (bh_idx bh)(p := u)\<rparr>) = (cell bh)(u := Some p)"
proof -
  have rk: "rows_ok (bh\<lparr>bh_next := n\<rparr>)" using sl by (simp add: slots_ok_def)
  obtain arr where a: "A_wr (bh\<lparr>bh_next := n\<rparr>) u (Some p) = Some (bh\<lparr>bh_next := n, bh_array := arr\<rparr>)"
    "cell (bh\<lparr>bh_next := n, bh_array := arr\<rparr>) = (cell bh)(u := Some p)"
    "rows_ok (bh\<lparr>bh_next := n, bh_array := arr\<rparr>)"
    using A_wr_cell [OF rk, of u "Some p"] u(2) by auto
  have cm: "bh\<lparr>bh_next := n, bh_array := arr\<rparr> = bh\<lparr>bh_array := arr, bh_next := n\<rparr>" by simp
  let ?bh = "bh\<lparr>bh_array := arr, bh_next := n, bh_idx := (bh_idx bh)(p := u)\<rparr>"
  have c: "cell ?bh = (cell bh)(u := Some p)" using a(2) unfolding cm by simp
  have up: "binheap_update (bh\<lparr>bh_array := arr, bh_next := n\<rparr>) u = Some ?bh"
    using binheap_update_eq [OF a(3) [unfolded cm], of u p] sl u un n a(2) [unfolded cm]
    by (simp add: slots_ok_def)
  have "\<exists>q. cell ?bh w = Some q \<and> bh_idx ?bh q = w" if "1 \<le> w" "w < n" for w
    using others [OF that] unfolding c by (cases "w = u") auto
  then have "slots_ok ?bh"
    using sl n a(3) by (simp add: slots_ok_def cm rows_ok_def)
  with a(1) up c show ?thesis using that unfolding cm by blast
qed

text \<open>A new element at the end: a hole without children.\<close>

lemma elems_append:
  assumes n: "1 \<le> bh_next bh" "\<And>w. w < bh_next bh + 1 \<longleftrightarrow> w < bh_next bh \<or> w = bh_next bh"
    and n': "bh_next bh' = bh_next bh + 1" and c: "cell bh' = (cell bh)(bh_next bh := Some p)"
  shows "elems bh' = insert p (elems bh)"
proof -
  have "(\<exists>w. 1 \<le> w \<and> w < bh_next bh + 1 \<and> cell bh' w = Some q) \<longleftrightarrow> q = p \<or> q \<in> elems bh" for q
  proof
    assume "\<exists>w. 1 \<le> w \<and> w < bh_next bh + 1 \<and> cell bh' w = Some q"
    then obtain w where "1 \<le> w" "w < bh_next bh \<or> w = bh_next bh" "cell bh' w = Some q"
      using n(2) by blast
    then show "q = p \<or> q \<in> elems bh"
      unfolding c elems_def by (cases "w = bh_next bh") auto
  next
    assume "q = p \<or> q \<in> elems bh"
    then obtain w where "1 \<le> w" "w < bh_next bh \<or> w = bh_next bh" "cell bh' w = Some q"
    proof
      assume "q = p"
      then show ?thesis using n(1) that [of "bh_next bh"] by (simp add: c)
    next
      assume "q \<in> elems bh"
      then obtain w where "1 \<le> w" "w < bh_next bh" "cell bh w = Some q" by (auto simp: elems_def)
      then show ?thesis using that [of w] by (simp add: c order.strict_implies_not_eq)
    qed
    then show "\<exists>w. 1 \<le> w \<and> w < bh_next bh + 1 \<and> cell bh' w = Some q" using n(2) by blast
  qed
  then show ?thesis unfolding elems_def n' by auto
qed

lemma hole_at_end:
  assumes sl: "slots_ok bh" and ho: "heap_order cmp bh" and sl': "slots_ok bh'"
    and n: "bh_next bh' = bh_next bh + 1"
    and lt: "\<And>w. w < bh_next bh + 1 \<longleftrightarrow> w < bh_next bh \<or> w = bh_next bh"
    and par: "\<And>w. parent bh' w = parent bh w" and c: "cell bh' = (cell bh)(bh_next bh := Some p)"
  shows "heap_hole cmp bh' (bh_next bh)" "heap_children cmp bh' (bh_next bh)"
proof -
  have noch: "\<not> edge bh' w (bh_next bh)" for w
  proof
    assume e: "edge bh' w (bh_next bh)"
    then have "w < bh_next bh \<or> w = bh_next bh" unfolding n using lt by blast
    moreover have "bh_next bh < w" by (rule edgeD(2) [OF sl' e])
    ultimately show False by auto
  qed
  have ord: "\<not> cmp (el bh' w) (el bh' v)" if e: "edge bh' w v" "w \<noteq> bh_next bh" for w v
  proof -
    have w1: "w < bh_next bh" using e lt unfolding n by blast
    then have e1: "edge bh w v" using e par by simp
    then have "\<not> cmp (el bh w) (el bh v)" using ho by (simp add: heap_order_def)
    moreover have "v < bh_next bh" using edgeD(2) [OF sl e1] w1 by simp
    ultimately show ?thesis using w1 by (auto simp: el_def c)
  qed
  show "heap_hole cmp bh' (bh_next bh)" "heap_children cmp bh' (bh_next bh)"
    unfolding heap_hole_def heap_above_def heap_children_def using noch ord by blast+
qed

section \<open>Removing an element\<close>

text \<open>
  Removing the element in slot \<open>i\<close> moves the last element into that slot, unless it is the
  last one itself; the slots below the new end hold what remains.
\<close>

lemma elems_remove:
  assumes sl: "slots_ok bh" and i: "1 \<le> i" "i < bh_next bh" and n: "bh_next bh' = bh_next bh - 1"
    and c: "\<And>w. w < bh_next bh - 1 \<Longrightarrow> cell bh' w = (if w = i then cell bh (bh_next bh - 1) else cell bh w)"
  shows "elems bh' = elems bh - {el bh i}"
proof -
  let ?m = "bh_next bh - 1"
  have lt: "w < bh_next bh \<longleftrightarrow> w < ?m \<or> w = ?m" and m: "?m < bh_next bh" "1 \<le> ?m" for w
    using i by (auto simp: word_less_nat_alt word_le_nat_alt word_unat_eq_iff unat_sub)
  have inj: "w = i" if "1 \<le> w" "w < bh_next bh" "cell bh w = Some (el bh i)" for w
    using slotD(1,2) [OF sl that(1,2)] slotD(2) [OF sl i] that(3) by (metis option.inject)
  have "q \<in> elems bh' \<longleftrightarrow> q \<in> elems bh \<and> q \<noteq> el bh i" for q
  proof
    assume "q \<in> elems bh'"
    then obtain w where w: "1 \<le> w" "w < ?m" "cell bh' w = Some q" by (auto simp: elems_def n)
    define v where "v = (if w = i then ?m else w)"
    have ne: "w \<noteq> ?m" "w < bh_next bh" using w(2) lt by blast+
    have v: "1 \<le> v" "v < bh_next bh" "cell bh v = Some q" "v \<noteq> i"
      using w(1,3) c [OF w(2)] ne m by (simp_all add: v_def split: if_splits)
    then show "q \<in> elems bh \<and> q \<noteq> el bh i" using inj [OF v(1,2)] by (auto simp: elems_def)
  next
    assume "q \<in> elems bh \<and> q \<noteq> el bh i"
    then obtain w where w: "1 \<le> w" "w < bh_next bh" "cell bh w = Some q" "w \<noteq> i"
      using slotD(1) [OF sl i] unfolding elems_def by fastforce
    define v where "v = (if w = ?m then i else w)"
    have "v < ?m" using w i lt [of i] lt [of w] by (auto simp: v_def)
    moreover have "1 \<le> v" "cell bh' v = Some q" using w i c [OF \<open>v < ?m\<close>] by (auto simp: v_def)
    ultimately show "q \<in> elems bh'" by (auto simp: elems_def n)
  qed
  then show ?thesis by auto
qed

lemma slots_remove:
  assumes sl: "slots_ok bh" and i: "1 \<le> i" "i < bh_next bh" and n: "bh_next bh' = bh_next bh - 1"
    and c: "\<And>w. w < bh_next bh - 1 \<Longrightarrow> cell bh' w = (if w = i then cell bh (bh_next bh - 1) else cell bh w)"
    and x: "\<And>w. 1 \<le> w \<Longrightarrow> w < bh_next bh - 1 \<Longrightarrow> w \<noteq> i \<Longrightarrow> bh_idx bh' (el bh w) = w"
      "i < bh_next bh - 1 \<Longrightarrow> bh_idx bh' (el bh (bh_next bh - 1)) = i"
    and rest: "pages_ok bh'" "rows_ok bh'" "bh_update bh'" "bh_length bh' = bh_length bh"
  shows "slots_ok bh'"
proof -
  let ?m = "bh_next bh - 1"
  have m: "?m < bh_next bh" "1 \<le> ?m"
    using i by (auto simp: word_less_nat_alt word_le_nat_alt word_unat_eq_iff unat_sub)
  have "\<exists>p. cell bh' u = Some p \<and> bh_idx bh' p = u" if u: "1 \<le> u" "u < ?m" for u
    using c [OF u(2)] x u m slotD(1) [OF sl m(2,1)] slotD(1) [OF sl u(1)] by (cases "u = i") auto
  moreover have "?m \<le> bh_length bh" using sl m by (auto simp: slots_ok_def)
  ultimately show ?thesis using rest sl m by (simp add: slots_ok_def n)
qed

lemma give_back_row:
  assumes inv: "heap_inv cmp bh"
  defines "bh' \<equiv> (if bh_next bh + 2 * ROW_WIDTH \<le> bh_length bh then
               bh\<lparr>bh_array := (bh_array bh)(ROW (bh_length bh - 1) := None),
                   bh_length := bh_length bh - ROW_WIDTH\<rparr>
             else bh)"
  shows "heap_inv cmp bh'" "elems bh' = elems bh" "bh_next bh' = bh_next bh" "bh_idx bh' = bh_idx bh"
proof -
  let ?f = "bh\<lparr>bh_array := (bh_array bh)(ROW (bh_length bh - 1) := None),
                   bh_length := bh_length bh - ROW_WIDTH\<rparr>"
  show "bh_next bh' = bh_next bh" "bh_idx bh' = bh_idx bh" by (simp_all add: bh'_def)
  have sl: "slots_ok bh" "heap_order cmp bh" and rk: "rows_ok bh" "bh_next bh \<le> bh_length bh"
    and lim: "unat (bh_length bh) < 2 ^ 32 - 2 ^ 17"
    using inv by (auto simp: heap_inv_def slots_ok_def)
  have two: "unat (bh_next bh + 2 * ROW_WIDTH) = unat (bh_next bh) + 131072"
  proof -
    have "unat (2 * ROW_WIDTH) = 131072" by (simp add: unat_word_ariths)
    then show ?thesis using lim rk(2) by (simp add: unat_word_ariths word_le_nat_alt)
  qed
  have *: "heap_inv cmp ?f \<and> elems ?f = elems bh"
    if le: "bh_next bh + 2 * ROW_WIDTH \<le> bh_length bh"
  proof -
    have big: "unat (bh_next bh) + 131072 \<le> unat (bh_length bh)"
      using le two by (simp add: word_le_nat_alt)
    then have "65536 \<le> unat (bh_length bh)" by simp
    note fr = free_row_spec [OF rk(1) this]
    have nl: "bh_next bh < bh_length ?f" "1 < bh_length ?f"
      using fr(3) big by (simp_all add: word_less_nat_alt)
    have c: "cell ?f n = cell bh n" if "n \<le> bh_next bh" for n
      using fr(2) [of n] that nl by (simp add: order.strict_trans1)
    have "slots_ok ?f"
      using sl(1) fr(1) c nl by (intro slots_ok_rows [OF sl(1)]) (auto simp: slots_ok_def)
    moreover have "heap_order cmp ?f"
      by (rule heap_order_cells [OF sl]) (auto simp: c intro: parent_cong)
    moreover have "elems ?f = elems bh" by (rule elems_cells) (auto simp: c)
    moreover have "cell ?f 1 = cell bh 1" using c [of 1] sl(1) by (simp add: slots_ok_def)
    moreover have "unat (bh_length ?f) < 2 ^ 32 - 2 ^ 17" using fr(3) lim by linarith
    ultimately show ?thesis using inv by (simp add: heap_inv_def)
  qed
  show "heap_inv cmp bh'" "elems bh' = elems bh" using * inv by (auto simp: bh'_def)
qed

context heap_cmp
begin

lemma insert_spec:
  assumes inv: "heap_inv cmp bh" and new: "p \<notin> elems bh"
    and room: "unat (bh_next bh) + 3 * 65536 < 2 ^ 32"
  shows "\<exists>bh'. binheap_insert cmp junk bh p = Some bh' \<and> heap_inv cmp bh' \<and>
    elems bh' = insert p (elems bh) \<and> unat (bh_next bh') = unat (bh_next bh) + 1 \<and>
    (\<forall>q. q \<notin> elems bh' \<longrightarrow> bh_idx bh' q = bh_idx bh q)"
proof -
  obtain bh1 where
    g: "(if bh_length bh = bh_next bh then binheap_addrow junk bh else Some bh) = Some bh1"
    and sl: "slots_ok bh1" and ho: "heap_order cmp bh1" and el1: "elems bh1 = elems bh"
    and nx: "bh_next bh1 = bh_next bh" "bh_next bh1 < bh_length bh1" "bh_idx bh1 = bh_idx bh"
    and lim: "unat (bh_length bh1) < 2 ^ 32 - 2 ^ 17"
    by (rule make_room [OF inv room])
  define u where "u = bh_next bh1"
  have u: "1 \<le> u" "u < bh_length bh1" using sl nx(2) by (auto simp: u_def slots_ok_def)
  have un: "unat (u + 1) = unat u + 1" using room nx by (simp add: u_def unat_word_ariths)
  have n: "1 \<le> u + 1" "u + 1 \<le> bh_length bh1" "u < u + 1" and lt: "w < u + 1 \<longleftrightarrow> w < u \<or> w = u" for w
    using un u(2) by (auto simp: word_le_nat_alt word_less_nat_alt word_unat_eq_iff)
  have oth: "\<exists>q. cell bh1 w = Some q \<and> bh_idx bh1 q = w \<and> q \<noteq> p" if "1 \<le> w" "w < u + 1" "w \<noteq> u" for w
  proof -
    have w: "1 \<le> w" "w < bh_next bh1" using that lt u_def by auto
    from slotD(1,2) [OF sl w] el_in_elems [OF sl w] new el1 show ?thesis by auto
  qed
  obtain arr where
    wr: "A_wr (bh1\<lparr>bh_next := u + 1\<rparr>) u (Some p) = Some (bh1\<lparr>bh_array := arr, bh_next := u + 1\<rparr>)"
    and up: "binheap_update (bh1\<lparr>bh_array := arr, bh_next := u + 1\<rparr>) u
      = Some (bh1\<lparr>bh_array := arr, bh_next := u + 1, bh_idx := (bh_idx bh1)(p := u)\<rparr>)"
    and sl4: "slots_ok (bh1\<lparr>bh_array := arr, bh_next := u + 1, bh_idx := (bh_idx bh1)(p := u)\<rparr>)"
    and c4: "cell (bh1\<lparr>bh_array := arr, bh_next := u + 1, bh_idx := (bh_idx bh1)(p := u)\<rparr>)
      = (cell bh1)(u := Some p)"
    using binheap_write_spec [OF sl u n(1,2,3) oth] by blast
  define bh4 where "bh4 = bh1\<lparr>bh_array := arr, bh_next := u + 1, bh_idx := (bh_idx bh1)(p := u)\<rparr>"
  have n4: "bh_next bh4 = u + 1" by (simp add: bh4_def)
  have par: "parent bh4 w = parent bh1 w" for w by (rule parent_cong) (auto simp: bh4_def)
  note sl4' = sl4 [folded bh4_def] and c4' = c4 [folded bh4_def]
  have hole: "heap_hole cmp bh4 u" "heap_children cmp bh4 u"
    using hole_at_end [OF sl ho sl4' _ lt [unfolded u_def] par, of p] n4 c4' by (simp_all add: u_def)
  have "u < bh_next bh4" using n4 n(3) by simp
  with hole obtain bh5 u5 where
    t: "binheap_trickleup cmp bh4 u = Some (bh5, u5)" "permuted bh4 bh5" "heap_order cmp bh5"
    using binheap_trickleup_spec [OF sl4' u(1)] by blast
  note pd = permutedD [OF t(2)]
  have "A_nonnull bh5 u = Some (el bh5 u)" using slotD(5) [OF pd(6) u(1)] pd(1) n4 n(3) by simp
  then have "binheap_insert cmp junk bh p = Some bh5"
    using g nx inv wr up t(1) pd(1) n4 n(3)
    by (simp add: binheap_insert_def u_def bh4_def heap_inv_def slots_ok_def)
  moreover have el4: "elems bh4 = insert p (elems bh)"
    using elems_append [of bh1 bh4 p] u n lt c4' n4 el1 by (simp add: u_def)
  moreover have "heap_inv cmp bh5"
    using pd t(3) lim n4 un u(1) by (auto simp: heap_inv_def bh4_def word_le_nat_alt word_unat_eq_iff)
  moreover have "bh_idx bh5 q = bh_idx bh q" if "q \<notin> elems bh5" for q
    using t(2) that el4 pd(7) nx(3) by (auto simp: permuted_def bh4_def)
  ultimately show ?thesis using pd un n4 nx by (auto simp: u_def)
qed

lemma root_least:
  assumes "slots_ok bh" and "heap_order cmp bh" and "1 \<le> u" and "u < bh_next bh"
  shows "\<not> cmp (el bh u) (el bh 1)"
  using assms(3,4)
proof (induction "unat u" arbitrary: u rule: less_induct)
  case (less u)
  show ?case
  proof (cases "u = 1")
    case True
    then show ?thesis using cmp_asym by blast
  next
    case False
    with less.prems(1) have "2 \<le> u" by (simp add: word_le_nat_alt word_unat_eq_iff)
    moreover have "pages_ok bh" using assms(1) by (simp add: slots_ok_def)
    ultimately obtain v where v: "parent bh u = Some v" "1 \<le> v" "v < u"
      using parent_total slotD(3) [OF assms(1) less.prems] by blast
    then have "\<not> cmp (el bh v) (el bh 1)"
      using less.hyps [of v] less.prems by (simp add: word_less_nat_alt)
    moreover have "\<not> cmp (el bh u) (el bh v)"
      using assms(2) v \<open>2 \<le> u\<close> less.prems by (simp add: heap_order_def)
    ultimately show ?thesis using cmp_neg_trans by blast
  qed
qed

lemma root_spec:
  assumes inv: "heap_inv cmp bh"
  shows "\<exists>r. binheap_root bh = Some r \<and> (r = None \<longleftrightarrow> elems bh = {}) \<and>
    (\<forall>p. r = Some p \<longrightarrow> p \<in> elems bh \<and> (\<forall>q \<in> elems bh. \<not> cmp q p))"
proof -
  have sl: "slots_ok bh" and ho: "heap_order cmp bh" and e: "bh_next bh = 1 \<longrightarrow> cell bh 1 = None"
    and l: "1 < bh_length bh" and rk: "rows_ok bh" and n1: "1 \<le> bh_next bh"
    using inv by (auto simp: heap_inv_def slots_ok_def)
  have r: "binheap_root bh = Some (cell bh 1)"
    using rk l by (simp add: binheap_root_def ROOT_IDX_def A_rd_cell)
  show ?thesis
  proof (cases "bh_next bh = 1")
    case True
    then have "elems bh = {}" by (auto simp: elems_def)
    then show ?thesis using True r e by simp
  next
    case False
    with n1 have n: "1 < bh_next bh" by (simp add: word_le_nat_alt word_less_nat_alt word_unat_eq_iff)
    note s1 = slotD(1) [OF sl _ n] and m1 = el_in_elems [OF sl _ n]
    have "\<not> cmp q (el bh 1)" if q: "q \<in> elems bh" for q
    proof -
      from elems_idx [OF sl q] have "el bh (bh_idx bh q) = q" by (simp add: el_def)
      with root_least [OF sl ho elems_idx(1,2) [OF sl q]] show ?thesis by simp
    qed
    then show ?thesis using r s1 m1 by auto
  qed
qed

text \<open>Filling slot \<open>i\<close> with the last element leaves a heap with a hole at \<open>i\<close>.\<close>

lemma replace_hole:
  assumes sl: "slots_ok bh" and ho: "heap_order cmp bh" and sl': "slots_ok bh'"
    and n: "bh_next bh' \<le> bh_next bh" and par: "\<And>w. parent bh' w = parent bh w"
    and c: "\<And>w. w < bh_next bh' \<Longrightarrow> w \<noteq> i \<Longrightarrow> cell bh' w = cell bh w"
  shows "heap_hole cmp bh' i"
proof -
  have o: "\<not> cmp (el bh w) (el bh v)" if "edge bh' w v" for w v
    using ho that n par unfolding heap_order_def by auto
  have el': "el bh' w = el bh w" if "w < bh_next bh'" "w \<noteq> i" for w
    using c that by (simp add: el_def)
  have "heap_above cmp bh' i"
    unfolding heap_above_def
  proof (intro allI impI)
    fix v w assume a: "edge bh' i v \<and> edge bh' w i"
    then have "\<not> cmp (el bh w) (el bh v)" using o [of i v] o [of w i] cmp_neg_trans by blast
    then show "\<not> cmp (el bh' w) (el bh' v)"
      using el' edgeD [OF sl', of i v] edgeD [OF sl', of w i] a by auto
  qed
  moreover have "\<not> cmp (el bh' w) (el bh' v)" if a: "edge bh' w v" "w \<noteq> i" "v \<noteq> i" for w v
    using o [OF a(1)] el' a edgeD(3) [OF sl' a(1)] by simp
  ultimately show ?thesis unfolding heap_hole_def by blast
qed

lemma sift_spec:
  assumes "slots_ok bh" and "1 \<le> i" and "i < bh_next bh" and "heap_hole cmp bh i"
  obtains bh1 i1 bh2 i2 where
    "binheap_trickleup cmp bh i = Some (bh1, i1)" "1 \<le> i1" "i1 < bh_next bh1"
    "A_nonnull bh1 i1 = Some (el bh1 i1)"
    "binheap_trickledown cmp bh1 i1 = Some (bh2, i2)" "1 \<le> i2" "i2 < bh_next bh2"
    "A_nonnull bh2 i2 = Some (el bh2 i2)" "permuted bh bh2" "heap_order cmp bh2"
proof -
  obtain bh1 i1 where u: "binheap_trickleup cmp bh i = Some (bh1, i1)" "permuted bh bh1"
    "1 \<le> i1" "i1 < bh_next bh1" "heap_down cmp bh1 i1"
    using binheap_trickleup_spec [OF assms] by blast
  note s1 = permutedD(6) [OF u(2)]
  obtain bh2 i2 where d: "binheap_trickledown cmp bh1 i1 = Some (bh2, i2)" "permuted bh1 bh2"
    "1 \<le> i2" "i2 < bh_next bh2" "heap_order cmp bh2"
    using binheap_trickledown_spec [OF s1 u(3-5)] by blast
  show ?thesis
    using that [OF u(1,3,4) slotD(5) [OF s1 u(3,4)] d(1,3,4)
        slotD(5) [OF permutedD(6) [OF d(2)] d(3,4)] permuted_trans [OF u(2) d(2)] d(5)] .
qed

lemma reorder_spec:
  assumes sl: "slots_ok bh" and p: "p \<in> elems bh" and h: "heap_hole cmp bh (bh_idx bh p)"
    and lim: "unat (bh_length bh) < 2 ^ 32 - 2 ^ 17"
  shows "\<exists>bh'. binheap_reorder cmp bh (bh_idx bh p) = Some bh' \<and> heap_inv cmp bh' \<and>
    elems bh' = elems bh \<and> bh_next bh' = bh_next bh \<and>
    (\<forall>q. q \<notin> elems bh \<longrightarrow> bh_idx bh' q = bh_idx bh q)"
proof -
  note i = elems_idx [OF sl p]
  have pos: "0 < w" if "1 \<le> w" for w :: u32
    using that by (simp add: word_le_nat_alt word_less_nat_alt)
  have n1: "ROOT_IDX < bh_next bh" using i by (auto simp: ROOT_IDX_def)
  obtain bh1 i1 bh2 i2 where
    s: "binheap_trickleup cmp bh (bh_idx bh p) = Some (bh1, i1)" "1 \<le> i1" "i1 < bh_next bh1"
    "A_nonnull bh1 i1 = Some (el bh1 i1)"
    "binheap_trickledown cmp bh1 i1 = Some (bh2, i2)" "1 \<le> i2" "i2 < bh_next bh2"
    "A_nonnull bh2 i2 = Some (el bh2 i2)" "permuted bh bh2" "heap_order cmp bh2"
    using sift_spec [OF sl i(1,2) h] by blast
  have "binheap_reorder cmp bh (bh_idx bh p) = Some bh2"
    using n1 i s slotD(5) [OF sl i(1,2)] pos by (simp add: binheap_reorder_def)
  moreover have "bh_next bh \<noteq> 1" using n1 by (auto simp: ROOT_IDX_def)
  then have "heap_inv cmp bh2"
    using s(10) permutedD [OF s(9)] lim by (simp add: heap_inv_def)
  ultimately show ?thesis using s(9) by (auto simp: permuted_def)
qed

lemma delete_last:
  assumes inv: "heap_inv cmp bh" and i: "1 \<le> i" "i = bh_next bh - 1" "i < bh_next bh"
  obtains bh' where "binheap_delete cmp bh i = Some bh'" "heap_inv cmp bh'"
    "elems bh' = elems bh - {el bh i}" "bh_next bh' = bh_next bh - 1"
    "bh_idx bh' = (bh_idx bh)(el bh i := BINHEAP_NOIDX)"
proof -
  have sl: "slots_ok bh" and ho: "heap_order cmp bh" and rk: "rows_ok bh" "bh_update bh" "pages_ok bh"
    using inv by (auto simp: heap_inv_def slots_ok_def)
  note si = slotD [OF sl i(1,3)]
  have pos: "0 < i" "ROOT_IDX < bh_next bh"
    using i by (auto simp: ROOT_IDX_def word_le_nat_alt word_less_nat_alt)
  define bh1 where "bh1 = bh\<lparr>bh_idx := (bh_idx bh)(el bh i := BINHEAP_NOIDX), bh_next := i\<rparr>"
  have r1: "rows_ok bh1" "i < bh_length bh1" using rk si(4) by (simp_all add: bh1_def)
  obtain arr where a: "A_wr bh1 i None = Some (bh1\<lparr>bh_array := arr\<rparr>)"
    "cell (bh1\<lparr>bh_array := arr\<rparr>) = (cell bh1)(i := None)" "rows_ok (bh1\<lparr>bh_array := arr\<rparr>)"
    by (rule A_wr_cell [OF r1])
  define bh2 where "bh2 = bh1\<lparr>bh_array := arr\<rparr>"
  have d: "binheap_delete cmp bh i = Some bh2"
    using i pos si(5) rk(2) a(1) by (simp add: binheap_delete_def bh1_def bh2_def)
  have c: "cell bh2 = (cell bh)(i := None)" using a(2) by (simp add: bh2_def bh1_def)
  have n2: "bh_next bh2 = bh_next bh - 1" "bh_idx bh2 = (bh_idx bh)(el bh i := BINHEAP_NOIDX)"
    using i(2) by (simp_all add: bh2_def bh1_def)
  have par: "parent bh2 u = parent bh u" for u by (rule parent_cong) (auto simp: bh2_def bh1_def)
  have c': "cell bh2 w = (if w = i then cell bh (bh_next bh - 1) else cell bh w)"
    if "w < bh_next bh - 1" for w using that i c by auto
  have x: "bh_idx bh2 (el bh w) = w" if w: "1 \<le> w" "w < bh_next bh - 1" for w
  proof -
    have "w < i" "w < bh_next bh" using w(2) i(2,3) by auto
    with slotD(2) [OF sl w(1)] si(2) show ?thesis unfolding n2(2) by (metis fun_upd_apply order.irrefl)
  qed
  have s2: "slots_ok bh2"
    by (rule slots_remove [OF sl i(1,3) n2(1) c' x])
      (use rk i a(3) in \<open>simp_all add: bh2_def bh1_def\<close>)
  have "heap_hole cmp bh2 i"
    by (rule replace_hole [OF sl ho s2]) (use par c i n2 in auto)
  moreover have "\<not> edge bh2 w i" "\<not> edge bh2 i w" for w
    using n2(1) i(2) edgeD(3) [OF s2, of w i] by auto
  ultimately have "heap_order cmp bh2" unfolding heap_hole_def heap_order_def by blast
  moreover have "cell bh2 1 = None" if "bh_next bh2 = 1" using that c n2 i by simp
  moreover have "bh_length bh2 = bh_length bh" by (simp add: bh2_def bh1_def)
  ultimately have "heap_inv cmp bh2" using s2 inv by (simp add: heap_inv_def)
  then show ?thesis using that d n2 elems_remove [OF sl i(1,3) n2(1) c'] by blast
qed

text \<open>The last element moved into the hole, before it is sifted to its place.\<close>

lemma move_last:
  assumes inv: "heap_inv cmp bh" and i: "1 \<le> i" "i < bh_next bh - 1" "i < bh_next bh"
  defines "bh1 \<equiv> bh\<lparr>bh_idx := (bh_idx bh)(el bh i := BINHEAP_NOIDX), bh_next := bh_next bh - 1\<rparr>"
  obtains bh2 bh3 bh4 where "A_rd bh1 (bh_next bh1) = Some (Some (el bh (bh_next bh - 1)))"
    "A_wr bh1 i (Some (el bh (bh_next bh - 1))) = Some bh2" "A_wr bh2 (bh_next bh2) None = Some bh3"
    "binheap_update bh3 i = Some bh4" "slots_ok bh4" "heap_hole cmp bh4 i"
    "elems bh4 = elems bh - {el bh i}" "bh_next bh4 = bh_next bh - 1" "bh_length bh4 = bh_length bh"
    "bh_idx bh4 = (bh_idx bh)(el bh i := BINHEAP_NOIDX, el bh (bh_next bh - 1) := i)"
proof -
  have sl: "slots_ok bh" and ho: "heap_order cmp bh" and rk: "rows_ok bh" "bh_update bh" "pages_ok bh"
    using inv by (auto simp: heap_inv_def slots_ok_def)
  define m where "m = bh_next bh - 1"
  have m: "1 \<le> m" "m < bh_next bh" "i < m"
    using i by (auto simp: m_def word_less_nat_alt word_le_nat_alt word_unat_eq_iff unat_sub)
  note si = slotD [OF sl i(1,3)] and sm = slotD [OF sl m(1,2)]
  let ?q = "el bh m"
  have r1: "rows_ok bh1" "i < bh_length bh1" "m < bh_length bh1" "bh_next bh1 = m" "cell bh1 = cell bh"
    using rk si(4) sm(4) by (simp_all add: bh1_def m_def)
  obtain a2 where a2: "A_wr bh1 i (Some ?q) = Some (bh1\<lparr>bh_array := a2\<rparr>)"
    "cell (bh1\<lparr>bh_array := a2\<rparr>) = (cell bh1)(i := Some ?q)" "rows_ok (bh1\<lparr>bh_array := a2\<rparr>)"
    by (rule A_wr_cell [OF r1(1,2)])
  obtain a3 where a3: "A_wr (bh1\<lparr>bh_array := a2\<rparr>) m None = Some (bh1\<lparr>bh_array := a3\<rparr>)"
    "cell (bh1\<lparr>bh_array := a3\<rparr>) = (cell bh)(i := Some ?q, m := None)" "rows_ok (bh1\<lparr>bh_array := a3\<rparr>)"
    using A_wr_cell [OF a2(3), of m None] r1 a2(2) by auto
  define bh4 where "bh4 = bh1\<lparr>bh_array := a3, bh_idx := (bh_idx bh1)(?q := i)\<rparr>"
  have up: "binheap_update (bh1\<lparr>bh_array := a3\<rparr>) i = Some bh4"
    using binheap_update_eq [OF a3(3), of i ?q] r1 rk m a3(2) sl
    by (auto simp: bh4_def bh1_def slots_ok_def)
  have c: "cell bh4 = (cell bh)(i := Some ?q, m := None)" using a3(2) by (simp add: bh4_def)
  have c': "cell bh4 w = (if w = i then cell bh (bh_next bh - 1) else cell bh w)"
    if "w < bh_next bh - 1" for w using that c sm(1) by (auto simp: m_def)
  have n4: "bh_next bh4 = bh_next bh - 1" "bh_length bh4 = bh_length bh"
      "bh_idx bh4 = (bh_idx bh)(el bh i := BINHEAP_NOIDX, ?q := i)"
    by (simp_all add: bh4_def bh1_def)
  have x: "bh_idx bh4 (el bh w) = w" if w: "1 \<le> w" "w < bh_next bh - 1" "w \<noteq> i" for w
  proof -
    have "w < bh_next bh" "w \<noteq> m" using w m by (auto simp: m_def)
    with slotD(2) [OF sl w(1)] si(2) sm(2) w show ?thesis unfolding n4(3) by (metis fun_upd_apply)
  qed
  have s4: "slots_ok bh4"
    by (rule slots_remove [OF sl i(1,3) n4(1) c' x])
      (use rk a3(3) n4 in \<open>simp_all add: bh4_def bh1_def m_def rows_ok_def\<close>)
  have par: "parent bh4 u = parent bh u" for u by (rule parent_cong) (auto simp: bh4_def bh1_def)
  have "heap_hole cmp bh4 i"
    by (rule replace_hole [OF sl ho s4]) (use par c' n4 m in \<open>auto simp: m_def\<close>)
  moreover have "A_rd bh1 (bh_next bh1) = Some (Some ?q)" using r1 sm(1) by (simp add: A_rd_cell)
  ultimately show ?thesis
    using that [OF _ _ _ up s4 _ elems_remove [OF sl i(1,3) n4(1) c'] n4(1,2)] a2(1) a3(1) r1 n4(3)
    by (simp add: m_def)
qed

lemma delete_spec:
  assumes inv: "heap_inv cmp bh" and p: "p \<in> elems bh"
  shows "\<exists>bh'. binheap_delete cmp bh (bh_idx bh p) = Some bh' \<and> heap_inv cmp bh' \<and>
    elems bh' = elems bh - {p} \<and> bh_next bh' = bh_next bh - 1 \<and> bh_idx bh' p = BINHEAP_NOIDX \<and>
    (\<forall>q. q \<notin> elems bh \<longrightarrow> bh_idx bh' q = bh_idx bh q)"
proof -
  have sl: "slots_ok bh" using inv by (simp add: heap_inv_def)
  define i where "i = bh_idx bh p"
  note i = elems_idx [OF sl p, folded i_def]
  have pi: "el bh i = p" using i(3) by (simp add: el_def)
  show ?thesis
  proof (cases "i = bh_next bh - 1")
    case True
    then show ?thesis using delete_last [OF inv i(1) True i(2)] p
      unfolding i_def [symmetric] pi by (metis fun_upd_apply)
  next
    case False
    then have im: "i < bh_next bh - 1"
      using i by (auto simp: word_less_nat_alt word_le_nat_alt word_unat_eq_iff unat_sub)
    let ?q = "el bh (bh_next bh - 1)"
    have m: "1 \<le> bh_next bh - 1" "bh_next bh - 1 < bh_next bh"
      using i by (auto simp: word_less_nat_alt word_le_nat_alt unat_sub)
    have q: "?q \<in> elems bh" "?q \<noteq> p"
      using el_in_elems [OF sl m] slotD(2) [OF sl m] False i_def by auto
    obtain bh2 bh3 bh4 where mv: "A_rd (bh\<lparr>bh_idx := (bh_idx bh)(p := BINHEAP_NOIDX), bh_next := bh_next bh - 1\<rparr>)
          (bh_next bh - 1) = Some (Some ?q)"
      "A_wr (bh\<lparr>bh_idx := (bh_idx bh)(p := BINHEAP_NOIDX), bh_next := bh_next bh - 1\<rparr>) i (Some ?q) = Some bh2"
      "A_wr bh2 (bh_next bh2) None = Some bh3" "binheap_update bh3 i = Some bh4"
      and s4: "slots_ok bh4" and h4: "heap_hole cmp bh4 i" and e4: "elems bh4 = elems bh - {p}"
      and n4: "bh_next bh4 = bh_next bh - 1" "bh_length bh4 = bh_length bh"
      "bh_idx bh4 = (bh_idx bh)(p := BINHEAP_NOIDX, ?q := i)"
      using move_last [OF inv i(1) im i(2)] unfolding pi by auto
    have i4: "i < bh_next bh4" using im n4(1) by simp
    obtain bh5 i5 bh6 i6 where
      s: "binheap_trickleup cmp bh4 i = Some (bh5, i5)" "1 \<le> i5" "i5 < bh_next bh5"
      "A_nonnull bh5 i5 = Some (el bh5 i5)"
      "binheap_trickledown cmp bh5 i5 = Some (bh6, i6)" "1 \<le> i6" "i6 < bh_next bh6"
      "A_nonnull bh6 i6 = Some (el bh6 i6)" "permuted bh4 bh6" "heap_order cmp bh6"
      by (rule sift_spec [OF s4 i(1) i4 h4])
    have pos: "0 < w" if "1 \<le> w" for w :: u32
      using that by (simp add: word_le_nat_alt word_less_nat_alt)
    note pd = permutedD [OF s(9)]
    have "bh_next bh6 \<noteq> 1" using pd(1) n4 im i(1) by auto
    then have i6: "heap_inv cmp bh6" using s(10) pd n4 inv by (simp add: heap_inv_def)
    note gb = give_back_row [OF i6]
    have up: "bh_update bh" using sl by (simp add: slots_ok_def)
    have "ROOT_IDX < bh_next bh" using i by (auto simp: ROOT_IDX_def)
    then have "\<exists>bh'. binheap_delete cmp bh i = Some bh' \<and> heap_inv cmp bh' \<and> elems bh' = elems bh6 \<and>
        bh_next bh' = bh_next bh6 \<and> bh_idx bh' = bh_idx bh6"
      using gb i pos s mv False slotD(5) [OF sl i(1,2)] up
      by (simp add: binheap_delete_def pi)
    moreover have "bh_idx bh6 r = bh_idx bh4 r" if "r \<notin> elems bh4" for r
      using s(9) that by (auto simp: permuted_def)
    then have "bh_idx bh6 p = BINHEAP_NOIDX" "\<forall>r. r \<notin> elems bh \<longrightarrow> bh_idx bh6 r = bh_idx bh r"
      using e4 n4 q p by auto
    ultimately show ?thesis using pd e4 n4 unfolding i_def [symmetric] by auto
  qed
qed

text \<open>
  The key of one element changes and the comparison with it: \<open>cmp'\<close> agrees with \<open>cmp\<close>
  on all other elements, so only that element's slot is out of order.
\<close>

lemma rekey_hole:
  assumes inv: "heap_inv cmp bh" and p: "p \<in> elems bh"
    and same: "\<And>a b. a \<noteq> p \<Longrightarrow> b \<noteq> p \<Longrightarrow> cmp' a b = cmp a b"
  shows "heap_hole cmp' bh (bh_idx bh p)"
proof -
  have sl: "slots_ok bh" and ho: "heap_order cmp bh" using inv by (simp_all add: heap_inv_def)
  let ?i = "bh_idx bh p"
  have ne: "el bh w \<noteq> p" if "1 \<le> w" "w < bh_next bh" "w \<noteq> ?i" for w
    using slotD(2) [OF sl that(1,2)] that(3) by auto
  have hd: "heap_above cmp bh ?i" using heap_order_down [OF ho] by (simp add: heap_down_def)
  have "heap_above cmp' bh ?i"
    unfolding heap_above_def
  proof (intro allI impI)
    fix v w assume a: "edge bh ?i v \<and> edge bh w ?i"
    have "el bh w \<noteq> p" "el bh v \<noteq> p"
      using ne edgeD [OF sl, of ?i v] edgeD [OF sl, of w ?i] a by auto
    then show "\<not> cmp' (el bh w) (el bh v)" using hd same a unfolding heap_above_def by blast
  qed
  moreover have "\<not> cmp' (el bh w) (el bh v)" if a: "edge bh w v" "w \<noteq> ?i" "v \<noteq> ?i" for w v
    using ho same ne edgeD [OF sl a(1)] a unfolding heap_order_def by metis
  ultimately show ?thesis unfolding heap_hole_def by blast
qed

end

section \<open>A new heap\<close>

lemma find_shift_pow:
  assumes "j \<le> k" and "k \<le> 19"
  shows "find_shift (push_bit k 1) (word_of_nat j) = Some (word_of_nat k)"
  using assms(1)
proof (induction "k - j" arbitrary: j)
  case 0
  then have "j = k" by simp
  moreover have "unat (word_of_nat k :: u32) = k" using assms(2) by (simp add: unat_of_nat)
  ultimately show ?case by (subst find_shift.simps) simp
next
  case (Suc d)
  then have jk: "j < k" by simp
  have uj: "unat (word_of_nat j :: u32) = j" using jk assms(2) by (simp add: unat_of_nat)
  have "unat (push_bit i 1 :: u32) = 2 ^ i" if "i \<le> 19" for i
  proof -
    have "(2::nat) ^ i < 2 ^ 32" using that by (intro power_strict_increasing) auto
    then show ?thesis unfolding unsigned_push_bit_eq by (simp add: take_bit_eq_mod push_bit_eq_mult)
  qed
  from this [of j] this [of k] jk assms(2) have ne: "(push_bit j 1 :: u32) \<noteq> push_bit k 1"
    by (metis nat_power_eq_Suc_0_iff le_trans less_imp_le not_less_iff_gr_or_eq power_inject_exp
        one_less_numeral_iff semiring_norm(76))
  have "find_shift (push_bit k 1) (word_of_nat (Suc j)) = Some (word_of_nat k)"
    using Suc by (intro Suc.hyps) auto
  then show ?case
    using uj ne by (subst find_shift.simps) (simp add: add.commute)
qed

lemma binheap_new_spec:
  assumes "2 \<le> k" and "k \<le> 19" and "pagesize div 8 = push_bit k (1 :: u32)"
  shows "\<exists>bh. binheap_new pagesize True junk idx = Some bh \<and> heap_inv cmp bh \<and> elems bh = {} \<and>
    bh_next bh = ROOT_IDX \<and> bh_idx bh = idx"
proof -
  let ?psz = "push_bit k (1 :: u32)"
  have pw: "unat ?psz = 2 ^ k"
  proof -
    have "(2::nat) ^ k < 2 ^ 32" using assms(2) by (intro power_strict_increasing) auto
    then show ?thesis unfolding unsigned_push_bit_eq by (simp add: take_bit_eq_mod push_bit_eq_mult)
  qed
  have uk: "unat (word_of_nat k :: u32) = k" using assms(2) by (simp add: unat_of_nat)
  have fs: "find_shift ?psz 1 = Some (word_of_nat k)"
    using find_shift_pow [of 1 k] assms(1,2) by simp
  have msk: "?psz AND (?psz - 1) = 0"
  proof -
    have "?psz - 1 = mask k" by (simp add: mask_eq_exp_minus_1 push_bit_eq_mult)
    then have "unat (?psz AND (?psz - 1)) = unat ?psz mod 2 ^ k"
      using assms(2) unat_and_mask [of k ?psz] by simp
    then show ?thesis unfolding pw by (simp only: mod_self unat_eq_0)
  qed
  have "(2::nat) ^ k \<le> 2 ^ 19" using assms(2) by (intro power_increasing) auto
  then have le: "unat ?psz \<le> 8 * unat ROW_WIDTH" using pw by simp
  define bh0 where "bh0 = \<lparr>page_size = ?psz, page_mask = ?psz - 1, page_shift = word_of_nat k,
      bh_update = True, bh_array = (\<lambda>_. None), bh_rows = 16, bh_length = 0, bh_next = ROOT_IDX,
      bh_idx = idx\<rparr>"
  have rk: "rows_ok bh0" "unat (bh_length bh0) + 65536 < 2 ^ 32" "pages_ok bh0"
    using assms(1,2) uk by (auto simp: rows_ok_def bh0_def pages_ok_def)
  obtain arr rows where a: "binheap_addrow junk bh0
      = Some (bh0\<lparr>bh_array := arr, bh_rows := rows, bh_length := bh_length bh0 + ROW_WIDTH\<rparr>)"
    "rows_ok (bh0\<lparr>bh_array := arr, bh_rows := rows, bh_length := bh_length bh0 + ROW_WIDTH\<rparr>)"
    using binheap_addrow_spec [OF rk(1,2), where junk = junk] by blast
  define bh1 where "bh1 = bh0\<lparr>bh_array := arr, bh_rows := rows, bh_length := ROW_WIDTH\<rparr>"
  have l0: "bh_length bh0 = 0" by (simp add: bh0_def)
  have r1: "binheap_addrow junk bh0 = Some bh1" "rows_ok bh1" using a l0 by (simp_all add: bh1_def)
  have l1: "ROOT_IDX < bh_length bh1" by (simp add: bh1_def ROOT_IDX_def word_less_nat_alt)
  obtain ar where w: "A_wr bh1 ROOT_IDX None = Some (bh1\<lparr>bh_array := ar\<rparr>)"
    "cell (bh1\<lparr>bh_array := ar\<rparr>) = (cell bh1)(ROOT_IDX := None)" "rows_ok (bh1\<lparr>bh_array := ar\<rparr>)"
    by (rule A_wr_cell [OF r1(2) l1])
  let ?bh = "bh1\<lparr>bh_array := ar\<rparr>"
  have new: "binheap_new pagesize True junk idx = Some ?bh"
    unfolding binheap_new_def assms(3) Let_def using fs msk le r1(1) w(1) by (simp add: bh0_def)
  have n: "bh_next ?bh = 1" "bh_length ?bh = ROW_WIDTH" "bh_idx ?bh = idx" "pages_ok ?bh" "bh_update ?bh"
    using rk(3) by (simp_all add: bh1_def bh0_def ROOT_IDX_def pages_ok_def)
  have "1 < ROW_WIDTH" "1 \<le> ROW_WIDTH" by (simp_all add: word_less_nat_alt word_le_nat_alt)
  then have "slots_ok ?bh" using w(3) n by (auto simp: slots_ok_def)
  moreover have "heap_order cmp ?bh"
    unfolding heap_order_def n(1) by (auto simp: word_le_nat_alt word_less_nat_alt)
  moreover have "elems ?bh = {}" unfolding elems_def n(1) by auto
  ultimately show ?thesis using new n w(2) by (auto simp: heap_inv_def ROOT_IDX_def)
qed

section \<open>The heap as a priority queue\<close>

text \<open>
  What a client of the heap sees: a set of elements with keys, from which the least can be
  read, and whose members can be inserted, deleted and moved after a key change.  The laws
  are those the expiry code relies on.  \<open>pos\<close> is the field the update callback writes.
\<close>

locale prio_queue =
  fixes inv :: "('a \<Rightarrow> 'k :: linorder) \<Rightarrow> 'q \<Rightarrow> bool"
    and els :: "'q \<Rightarrow> 'a set" and used :: "'q \<Rightarrow> nat" and limit :: nat
    and ins :: "('a \<Rightarrow> 'k) \<Rightarrow> 'j \<Rightarrow> 'q \<Rightarrow> 'a \<Rightarrow> 'q option"
    and del :: "('a \<Rightarrow> 'k) \<Rightarrow> 'q \<Rightarrow> 'a \<Rightarrow> 'q option"
    and fixup :: "('a \<Rightarrow> 'k) \<Rightarrow> 'q \<Rightarrow> 'a \<Rightarrow> 'q option"
    and top :: "'q \<Rightarrow> 'a option option" and idle :: "'q \<Rightarrow> 'a \<Rightarrow> bool"
  assumes ins_law: "inv key q \<Longrightarrow> p \<notin> els q \<Longrightarrow> used q < limit \<Longrightarrow> \<exists>q'. ins key j q p = Some q' \<and>
      inv key q' \<and> els q' = insert p (els q) \<and> used q' = used q + 1 \<and>
      (\<forall>x. x \<notin> els q' \<longrightarrow> idle q' x = idle q x)"
    and del_law: "inv key q \<Longrightarrow> p \<in> els q \<Longrightarrow> \<exists>q'. del key q p = Some q' \<and> inv key q' \<and>
      els q' = els q - {p} \<and> used q' \<le> used q \<and> idle q' p \<and>
      (\<forall>x. x \<notin> els q \<longrightarrow> idle q' x = idle q x)"
    and fixup_law: "inv key q \<Longrightarrow> p \<in> els q \<Longrightarrow> \<forall>x. x \<noteq> p \<longrightarrow> key' x = key x \<Longrightarrow>
      \<exists>q'. fixup key' q p = Some q' \<and> inv key' q' \<and> els q' = els q \<and> used q' = used q \<and>
      (\<forall>x. x \<notin> els q \<longrightarrow> idle q' x = idle q x)"
    and top_law: "inv key q \<Longrightarrow> \<exists>r. top q = Some r \<and> (r = None \<longleftrightarrow> els q = {}) \<and>
      (\<forall>p. r = Some p \<longrightarrow> p \<in> els q \<and> (\<forall>x \<in> els q. key p \<le> key x))"
    and busy: "inv key q \<Longrightarrow> p \<in> els q \<Longrightarrow> \<not> idle q p"
    and key_local: "inv key q \<Longrightarrow> \<forall>x \<in> els q. key' x = key x \<Longrightarrow> inv key' q"
    and fin: "inv key q \<Longrightarrow> finite (els q)"

definition key_cmp :: "('a \<Rightarrow> 'k :: linorder) \<Rightarrow> 'a \<Rightarrow> 'a \<Rightarrow> bool" where
  "key_cmp key a b \<longleftrightarrow> key a < key b"

interpretation kh: heap_cmp "key_cmp key"
  by unfold_locales (auto simp: key_cmp_def)

lemma heap_inv_key_local:
  assumes inv: "heap_inv (key_cmp key) bh" and "\<forall>x \<in> elems bh. key' x = key x"
  shows "heap_inv (key_cmp key') bh"
proof -
  have sl: "slots_ok bh" using inv by (simp add: heap_inv_def)
  have "key' (el bh w) = key (el bh w)" if "1 \<le> w" "w < bh_next bh" for w
    using el_in_elems [OF sl that] assms(2) by blast
  then have "heap_order (key_cmp key') bh"
    using inv edgeD [OF sl] unfolding heap_inv_def heap_order_def key_cmp_def by metis
  then show ?thesis using inv by (simp add: heap_inv_def)
qed

interpretation bhq: prio_queue "\<lambda>key. heap_inv (key_cmp key)" elems "\<lambda>bh. unat (bh_next bh)"
  "2 ^ 32 - 3 * 65536" "\<lambda>key. binheap_insert (key_cmp key)"
  "\<lambda>key bh p. binheap_delete (key_cmp key) bh (bh_idx bh p)"
  "\<lambda>key bh p. binheap_reorder (key_cmp key) bh (bh_idx bh p)"
  binheap_root "\<lambda>bh p. bh_idx bh p = BINHEAP_NOIDX"
proof
  fix key :: "'a \<Rightarrow> 'k :: linorder" and key' :: "'a \<Rightarrow> 'k" and bh :: "'a binheap" and p :: 'a
    and j :: "u32 \<Rightarrow> 'a option"
  assume inv: "heap_inv (key_cmp key) bh"
  then have sl: "slots_ok bh" and lim: "unat (bh_length bh) < 2 ^ 32 - 2 ^ 17"
    by (simp_all add: heap_inv_def)
  show "\<exists>q'. binheap_insert (key_cmp key) j bh p = Some q' \<and> heap_inv (key_cmp key) q' \<and>
      elems q' = insert p (elems bh) \<and> unat (bh_next q') = unat (bh_next bh) + 1 \<and>
      (\<forall>x. x \<notin> elems q' \<longrightarrow> (bh_idx q' x = BINHEAP_NOIDX) = (bh_idx bh x = BINHEAP_NOIDX))"
    if "p \<notin> elems bh" "unat (bh_next bh) < 2 ^ 32 - 3 * 65536"
  proof -
    have "unat (bh_next bh) + 3 * 65536 < 2 ^ 32" using that(2) by simp
    from kh.insert_spec [OF inv that(1) this, of j] show ?thesis by (elim exE) (auto intro!: exI)
  qed
  show "\<exists>q'. binheap_delete (key_cmp key) bh (bh_idx bh p) = Some q' \<and> heap_inv (key_cmp key) q' \<and>
      elems q' = elems bh - {p} \<and> unat (bh_next q') \<le> unat (bh_next bh) \<and>
      bh_idx q' p = BINHEAP_NOIDX \<and>
      (\<forall>x. x \<notin> elems bh \<longrightarrow> (bh_idx q' x = BINHEAP_NOIDX) = (bh_idx bh x = BINHEAP_NOIDX))"
    if "p \<in> elems bh"
  proof -
    have "unat (bh_next bh - 1) \<le> unat (bh_next bh)"
      using sl by (simp add: slots_ok_def unat_sub)
    with kh.delete_spec [OF inv that] show ?thesis by (elim exE) (auto intro!: exI)
  qed
  show "\<exists>q'. binheap_reorder (key_cmp key') bh (bh_idx bh p) = Some q' \<and>
      heap_inv (key_cmp key') q' \<and> elems q' = elems bh \<and> unat (bh_next q') = unat (bh_next bh) \<and>
      (\<forall>x. x \<notin> elems bh \<longrightarrow> (bh_idx q' x = BINHEAP_NOIDX) = (bh_idx bh x = BINHEAP_NOIDX))"
    if "p \<in> elems bh" "\<forall>x. x \<noteq> p \<longrightarrow> key' x = key x"
  proof -
    have "heap_hole (key_cmp key') bh (bh_idx bh p)"
      by (rule kh.rekey_hole [OF inv that(1)]) (use that(2) in \<open>simp add: key_cmp_def\<close>)
    from kh.reorder_spec [OF sl that(1) this lim] show ?thesis by auto
  qed
  show "\<exists>r. binheap_root bh = Some r \<and> (r = None \<longleftrightarrow> elems bh = {}) \<and>
      (\<forall>p. r = Some p \<longrightarrow> p \<in> elems bh \<and> (\<forall>x \<in> elems bh. key p \<le> key x))"
    using kh.root_spec [OF inv] by (simp add: key_cmp_def not_less)
  show "bh_idx bh p \<noteq> BINHEAP_NOIDX" if "p \<in> elems bh"
    using elems_idx(1) [OF sl that] by (auto simp: BINHEAP_NOIDX_def word_le_nat_alt)
  show "heap_inv (key_cmp key') bh" if "\<forall>x \<in> elems bh. key' x = key x"
    by (rule heap_inv_key_local [OF inv that])
  have "elems bh \<subseteq> range (el bh)" by (auto simp: elems_def el_def image_iff) (metis option.sel)
  then show "finite (elems bh)" by (rule finite_subset) simp
qed

section \<open>Sequences of heap operations\<close>

text \<open>
  The calls a client makes: insert, delete, and a change of a key followed by
  \<open>binheap_reorder\<close> when the element is in the heap, which the client sees from the index
  field.  \<open>hop_spec\<close> is the same on a plain set; it is undefined where the client would
  insert a member or delete a non-member.
\<close>

datatype ('a, 'k) hop = HIns "u32 \<Rightarrow> 'a option" 'a | HDel 'a | HKey 'a 'k

fun hop_run :: "('a, 'k :: linorder) hop \<Rightarrow> ('a \<Rightarrow> 'k) \<times> 'a binheap \<Rightarrow> (('a \<Rightarrow> 'k) \<times> 'a binheap) option" where
  "hop_run (HIns junk p) (key, bh) = map_option (Pair key) (binheap_insert (key_cmp key) junk bh p)"
| "hop_run (HDel p) (key, bh) = map_option (Pair key) (binheap_delete (key_cmp key) bh (bh_idx bh p))"
| "hop_run (HKey p k) (key, bh) = map_option (Pair (key(p := k)))
     (if bh_idx bh p = BINHEAP_NOIDX then Some bh
      else binheap_reorder (key_cmp (key(p := k))) bh (bh_idx bh p))"

fun hop_spec :: "('a, 'k) hop \<Rightarrow> ('a \<Rightarrow> 'k) \<times> 'a set \<Rightarrow> (('a \<Rightarrow> 'k) \<times> 'a set) option" where
  "hop_spec (HIns junk p) (key, S) = (if p \<in> S then None else Some (key, insert p S))"
| "hop_spec (HDel p) (key, S) = (if p \<in> S then Some (key, S - {p}) else None)"
| "hop_spec (HKey p k) (key, S) = Some (key(p := k), S)"

primrec runs :: "('o \<Rightarrow> 's \<Rightarrow> 's option) \<Rightarrow> 'o list \<Rightarrow> 's \<Rightarrow> 's option" where
  "runs f [] s = Some s"
| "runs f (x # xs) s = Option.bind (f x s) (runs f xs)"

definition heap_abs :: "('a \<Rightarrow> 'k :: linorder) \<Rightarrow> 'a binheap \<Rightarrow> 'a set \<Rightarrow> bool" where
  "heap_abs key bh S \<longleftrightarrow> heap_inv (key_cmp key) bh \<and> elems bh = S \<and>
     (\<forall>p. p \<notin> S \<longrightarrow> bh_idx bh p = BINHEAP_NOIDX)"

lemma hop_refines:
  assumes "heap_abs key bh S" and "hop_spec h (key, S) = Some (key', S')"
    and "unat (bh_next bh) < 2 ^ 32 - 3 * 65536"
  shows "\<exists>bh'. hop_run h (key, bh) = Some (key', bh') \<and> heap_abs key' bh' S' \<and>
    unat (bh_next bh') \<le> unat (bh_next bh) + 1"
proof (cases h)
  case (HIns j p)
  then have p: "p \<notin> elems bh" "key' = key" "S' = insert p (elems bh)" and inv: "heap_inv (key_cmp key) bh"
    using assms by (auto simp: heap_abs_def split: if_splits)
  from bhq.ins_law [OF inv p(1) assms(3), of j] show ?thesis
    using HIns p assms(1) by (auto simp: heap_abs_def)
next
  case (HDel p)
  then have p: "p \<in> elems bh" "key' = key" "S' = elems bh - {p}" and inv: "heap_inv (key_cmp key) bh"
    using assms by (auto simp: heap_abs_def split: if_splits)
  from bhq.del_law [OF inv p(1)] show ?thesis
    using HDel p assms(1) by (fastforce simp: heap_abs_def)
next
  case (HKey p k)
  then have k: "key' = key(p := k)" "S' = S" and inv: "heap_inv (key_cmp key) bh"
    using assms by (auto simp: heap_abs_def)
  show ?thesis
  proof (cases "p \<in> elems bh")
    case True
    have "\<forall>x. x \<noteq> p \<longrightarrow> key' x = key x" using k by simp
    from bhq.fixup_law [OF inv True this] obtain q' where
      q: "binheap_reorder (key_cmp key') bh (bh_idx bh p) = Some q'" "heap_abs key' q' S'"
        "unat (bh_next q') = unat (bh_next bh)"
      using assms(1) k(2) by (auto simp: heap_abs_def)
    have "hop_run h (key, bh) = Some (key', q')"
      using q(1) bhq.busy [OF inv True] unfolding HKey hop_run.simps k(1) by simp
    then show ?thesis using q by auto
  next
    case False
    then have "heap_inv (key_cmp key') bh" using k by (intro bhq.key_local [OF inv]) auto
    then show ?thesis using HKey k assms(1) False by (auto simp: heap_abs_def)
  qed
qed

lemma hops_refine:
  assumes "heap_abs key bh S" and "runs hop_spec hs (key, S) = Some (key', S')"
    and "unat (bh_next bh) + length hs \<le> 2 ^ 32 - 3 * 65536"
  shows "\<exists>bh'. runs hop_run hs (key, bh) = Some (key', bh') \<and> heap_abs key' bh' S'"
  using assms
proof (induction hs arbitrary: key bh S)
  case (Cons h hs)
  then obtain k1 S1 where 1: "hop_spec h (key, S) = Some (k1, S1)"
    "runs hop_spec hs (k1, S1) = Some (key', S')"
    by (auto split: bind_splits)
  with hop_refines [OF Cons.prems(1) 1(1)] Cons.prems(3) obtain bh1 where
    "hop_run h (key, bh) = Some (k1, bh1)" "heap_abs k1 bh1 S1" "unat (bh_next bh1) \<le> unat (bh_next bh) + 1"
    by auto
  with Cons.IH [OF _ 1(2)] Cons.prems(3) show ?case by auto
qed auto

text \<open>
  C8.  The binary heap is a priority queue.  Whatever sequence of inserts, deletes and
  key changes a client makes on a heap \<open>binheap_new\<close> returned (no double inserts, no
  deletes of absent elements, fewer than \<open>2^32 - 3 * ROW_WIDTH\<close> operations), no
  assertion in \<open>binary_heap.c\<close> fails and no slot outside the allocated rows is touched; the
  heap then holds exactly the elements inserted and not deleted, the index the update
  callback stored is \<open>BINHEAP_NOIDX\<close> exactly for the others, and \<open>binheap_root\<close>
  returns an element with the least key, or NULL when there is none.
\<close>

theorem binheap_is_priority_queue:
  fixes key0 :: "'a \<Rightarrow> 'k :: linorder"
  assumes "2 \<le> k" and "k \<le> 19" and "pagesize div 8 = push_bit k (1 :: u32)"
    and "runs hop_spec hs (key0, {}) = Some (key, S)" and "length hs < 2 ^ 32 - 3 * 65536"
  shows "\<exists>bh0 bh r. binheap_new pagesize True junk (\<lambda>_. BINHEAP_NOIDX) = Some bh0 \<and>
    runs hop_run hs (key0, bh0) = Some (key, bh) \<and> elems bh = S \<and>
    (\<forall>p. bh_idx bh p = BINHEAP_NOIDX \<longleftrightarrow> p \<notin> S) \<and> binheap_root bh = Some r \<and>
    (case r of None \<Rightarrow> S = {} | Some p \<Rightarrow> p \<in> S \<and> (\<forall>q \<in> S. key p \<le> key q))"
proof -
  obtain bh0 where n: "binheap_new pagesize True junk (\<lambda>_. BINHEAP_NOIDX) = Some bh0"
    "heap_inv (key_cmp key0) bh0" "elems bh0 = {}" "bh_next bh0 = ROOT_IDX" "bh_idx bh0 = (\<lambda>_. BINHEAP_NOIDX)"
    using binheap_new_spec [OF assms(1-3), of junk "\<lambda>_. BINHEAP_NOIDX" "key_cmp key0"] by (elim exE conjE)
  have "heap_abs key0 bh0 {}" using n by (simp add: heap_abs_def)
  moreover have "unat (bh_next bh0) + length hs \<le> 2 ^ 32 - 3 * 65536"
    using assms(5) unfolding n(4) by (simp add: ROOT_IDX_def)
  ultimately obtain bh where
    b: "runs hop_run hs (key0, bh0) = Some (key, bh)" "heap_abs key bh S"
    using hops_refine [OF _ assms(4)] by blast
  then have inv: "heap_inv (key_cmp key) bh" "elems bh = S" by (auto simp: heap_abs_def)
  obtain r where "binheap_root bh = Some r" "r = None \<longleftrightarrow> S = {}"
    "\<forall>p. r = Some p \<longrightarrow> p \<in> S \<and> (\<forall>x \<in> S. key p \<le> key x)"
    using bhq.top_law [OF inv(1)] inv(2) by blast
  moreover have "bh_idx bh p = BINHEAP_NOIDX \<longleftrightarrow> p \<notin> S" for p
    using bhq.busy [OF inv(1), of p] b(2) inv(2) by (auto simp: heap_abs_def)
  ultimately show ?thesis using n(1) b(1) inv(2) by (auto split: option.splits)
qed

theorem binheap_is_priority_queue_witness:
  "\<exists>bh0 bh. binheap_new 4096 True (\<lambda>_. None) (\<lambda>_. BINHEAP_NOIDX) = Some bh0 \<and>
    runs hop_run [HIns (\<lambda>_. None) (3 :: nat), HIns (\<lambda>_. None) 7, HKey 7 (1 :: nat), HDel 3,
      HIns (\<lambda>_. None) 9] (id, bh0) = Some (id(7 := 1), bh) \<and> elems bh = {7, 9} \<and>
    binheap_root bh = Some (Some 7)"
proof -
  let ?hs = "[HIns (\<lambda>_. None) (3 :: nat), HIns (\<lambda>_. None) 7, HKey 7 (1 :: nat), HDel 3,
      HIns (\<lambda>_. None) 9]"
  have s: "runs hop_spec ?hs (id, {}) = Some (id(7 := 1), {7, 9})" by auto
  have p: "4096 div 8 = push_bit 9 (1 :: u32)" by simp
  from binheap_is_priority_queue [OF _ _ p s, of "\<lambda>_. None"] show ?thesis
    by (auto split: option.splits)
qed

text \<open>
  The header documents the update callback as optional and says the root has index zero.
  A delete on a heap without a callback, or with index zero, does not return.
\<close>

lemma delete_documented_calls_abort:
  "\<not> bh_update bh \<Longrightarrow> binheap_delete cmp bh i = None" "binheap_delete cmp bh 0 = None"
  by (auto simp: binheap_delete_def vassert_def Let_def split: bind_splits)

end
