(* ===== verification/Vsb.thy ===== *)
theory Vsb
  imports Prelude
begin

text \<open>
  lib/libvarnish/vsb.c, the string buffers.  \<open>s_buf\<close> is the storage, of which the first
  \<open>s_size\<close> bytes exist; bytes never written keep whatever \<open>malloc\<close> returned.  Whether a
  \<open>malloc\<close> of \<open>n\<close> bytes succeeds is the argument \<open>mal\<close>.  \<open>KASSERT\<close> is \<open>assert\<close>.  The
  text a \<open>printf\<close> conversion produces is an argument, since \<open>vsnprintf\<close> is the C library's.
\<close>

record vsb =
  s_buf :: "nat \<Rightarrow> char"
  s_error :: int
  s_size :: int
  s_len :: int
  s_flags :: u32

definition VSB_AUTOEXTEND :: u32 where "VSB_AUTOEXTEND = 0x00000001"
definition VSB_USRFLAGMSK :: u32 where "VSB_USRFLAGMSK = 0x0000ffff"
definition VSB_DYNAMIC :: u32 where "VSB_DYNAMIC = 0x00010000"
definition VSB_FINISHED :: u32 where "VSB_FINISHED = 0x00020000"
definition VSB_DYNSTRUCT :: u32 where "VSB_DYNSTRUCT = 0x00080000"

definition ENOMEM :: int where "ENOMEM = 12"

definition VSB_ISDYNAMIC :: "vsb \<Rightarrow> bool" where
  "VSB_ISDYNAMIC s = (s_flags s AND VSB_DYNAMIC \<noteq> 0)"

definition VSB_HASROOM :: "vsb \<Rightarrow> bool" where
  "VSB_HASROOM s = (s_len s < s_size s - 1)"

definition VSB_FREESPACE :: "vsb \<Rightarrow> int" where
  "VSB_FREESPACE s = s_size s - (s_len s + 1)"

definition VSB_CANEXTEND :: "vsb \<Rightarrow> bool" where
  "VSB_CANEXTEND s = (s_flags s AND VSB_AUTOEXTEND \<noteq> 0)"

definition assert_VSB_integrity :: "vsb \<Rightarrow> unit option" where
  "assert_VSB_integrity s = vassert (s_len s < s_size s)"

definition assert_VSB_state :: "vsb \<Rightarrow> u32 \<Rightarrow> unit option" where
  "assert_VSB_state s state = vassert (s_flags s AND VSB_FINISHED = state)"

text \<open>Conversion to a C \<open>int\<close>.\<close>

definition c_int :: "int \<Rightarrow> int" where
  "c_int n = (n + 2 ^ 31) mod 2 ^ 32 - 2 ^ 31"

definition VSB_MINEXTENDSIZE :: int where "VSB_MINEXTENDSIZE = 16"
definition VSB_MAXEXTENDSIZE :: int where "VSB_MAXEXTENDSIZE = 4096"
definition VSB_MAXEXTENDINCR :: int where "VSB_MAXEXTENDINCR = 4096"

partial_function (option) double_up :: "int \<Rightarrow> int \<Rightarrow> int option" where
  "double_up newsize sz = (if newsize < sz then double_up (newsize * 2) sz else Some newsize)"

text \<open>A sum beyond \<open>INT_MAX\<close> has no defined value.\<close>

definition VSB_extendsize :: "int \<Rightarrow> int option" where
  "VSB_extendsize sz = do {
     newsize \<leftarrow> (if sz < VSB_MAXEXTENDSIZE then double_up VSB_MINEXTENDSIZE sz
                 else do {
                   vassert (sz + (VSB_MAXEXTENDINCR - 1) < 2 ^ 31);
                   Some ((sz + (VSB_MAXEXTENDINCR - 1)) AND NOT (VSB_MAXEXTENDINCR - 1))
                 });
     vassert (newsize \<ge> sz);
     Some newsize
   }"

text \<open>The \<open>memcpy\<close> of \<open>s_size\<close> bytes must fit the new buffer.\<close>

definition VSB_extend :: "(int \<Rightarrow> bool) \<Rightarrow> vsb \<Rightarrow> int \<Rightarrow> (vsb \<times> int) option" where
  "VSB_extend mal s addlen =
     (if \<not> VSB_CANEXTEND s then Some (s, -1)
      else do {
        newsize \<leftarrow> VSB_extendsize (c_int (s_size s + addlen));
        if \<not> mal newsize then Some (s, -1)
        else do {
          vassert (s_size s \<le> newsize);
          Some (s\<lparr>s_flags := (if VSB_ISDYNAMIC s then s_flags s else s_flags s OR VSB_DYNAMIC),
                  s_size := newsize\<rparr>, 0)
        }
      })"

definition VSB_newbuf :: "(int \<Rightarrow> bool) \<Rightarrow> (nat \<Rightarrow> char) \<Rightarrow> bool \<Rightarrow> int \<Rightarrow> u32 \<Rightarrow> vsb option option" where
  "VSB_newbuf mal mem buf_given len flags = do {
     let s = \<lparr>s_buf = mem, s_error = 0, s_size = len, s_len = 0, s_flags = flags\<rparr>;
     (if s_flags s AND VSB_AUTOEXTEND = 0 then vassert (s_size s > 1) else Some ());
     if buf_given then Some (Some s)
     else do {
       n \<leftarrow> (if flags AND VSB_AUTOEXTEND \<noteq> 0 then VSB_extendsize (s_size s) else Some (s_size s));
       Some (if \<not> mal n then None
             else Some (s\<lparr>s_size := n, s_flags := s_flags s OR VSB_DYNAMIC\<rparr>))
     }
   }"

text \<open>\<open>struct_given\<close> says that the caller passed the structure; \<open>mal_struct\<close> that its
  allocation succeeds otherwise.\<close>

definition VSB_new ::
  "(int \<Rightarrow> bool) \<Rightarrow> bool \<Rightarrow> bool \<Rightarrow> (nat \<Rightarrow> char) \<Rightarrow> bool \<Rightarrow> int \<Rightarrow> u32 \<Rightarrow> vsb option option" where
  "VSB_new mal mal_struct struct_given mem buf_given len flags = do {
     vassert (len \<ge> 0);
     vassert (flags AND NOT VSB_USRFLAGMSK = 0);
     let flags = flags AND VSB_USRFLAGMSK;
     if struct_given then VSB_newbuf mal mem buf_given len flags
     else if \<not> mal_struct then Some None
     else do {
       r \<leftarrow> VSB_newbuf mal mem buf_given len flags;
       Some (map_option (\<lambda>s. s\<lparr>s_flags := s_flags s OR VSB_DYNSTRUCT\<rparr>) r)
     }
   }"

definition VSB_clear :: "vsb \<Rightarrow> vsb option" where
  "VSB_clear s = do {
     assert_VSB_integrity s;
     Some (s\<lparr>s_flags := s_flags s AND NOT VSB_FINISHED, s_error := 0, s_len := 0\<rparr>)
   }"

definition VSB_setpos :: "vsb \<Rightarrow> int \<Rightarrow> (vsb \<times> int) option" where
  "VSB_setpos s pos = do {
     assert_VSB_integrity s;
     assert_VSB_state s 0;
     vassert (pos \<ge> 0);
     vassert (pos < s_size s);
     Some (if pos < 0 \<or> pos > s_len s then (s, -1) else (s\<lparr>s_len := pos\<rparr>, 0))
   }"

definition VSB_put_byte :: "(int \<Rightarrow> bool) \<Rightarrow> vsb \<Rightarrow> char \<Rightarrow> vsb option" where
  "VSB_put_byte mal s c = do {
     assert_VSB_integrity s;
     assert_VSB_state s 0;
     if s_error s \<noteq> 0 then Some s
     else do {
       s \<leftarrow> (if VSB_FREESPACE s \<le> 0 then do {
               (s, r) \<leftarrow> VSB_extend mal s 1;
               Some (if r < 0 then s\<lparr>s_error := ENOMEM\<rparr> else s)
             } else Some s);
       if s_error s \<noteq> 0 then Some s
       else Some (s\<lparr>s_buf := (s_buf s)(nat (s_len s) := c), s_len := s_len s + 1\<rparr>)
     }
   }"

primrec put_bytes :: "(int \<Rightarrow> bool) \<Rightarrow> vsb \<Rightarrow> string \<Rightarrow> (vsb \<times> int) option" where
  "put_bytes mal s [] = Some (s, 0)"
| "put_bytes mal s (c # cs) = do {
     s \<leftarrow> VSB_put_byte mal s c;
     if s_error s \<noteq> 0 then Some (s, -1) else put_bytes mal s cs
   }"

definition VSB_bcat :: "(int \<Rightarrow> bool) \<Rightarrow> vsb \<Rightarrow> string \<Rightarrow> (vsb \<times> int) option" where
  "VSB_bcat mal s buf = do {
     assert_VSB_integrity s;
     assert_VSB_state s 0;
     if s_error s \<noteq> 0 then Some (s, -1) else put_bytes mal s buf
   }"

definition VSB_bcpy :: "(int \<Rightarrow> bool) \<Rightarrow> vsb \<Rightarrow> string \<Rightarrow> (vsb \<times> int) option" where
  "VSB_bcpy mal s buf = do {
     assert_VSB_integrity s;
     assert_VSB_state s 0;
     s \<leftarrow> VSB_clear s;
     VSB_bcat mal s buf
   }"

definition VSB_cat :: "(int \<Rightarrow> bool) \<Rightarrow> vsb \<Rightarrow> string \<Rightarrow> (vsb \<times> int) option" where
  "VSB_cat mal s str = do {
     assert_VSB_integrity s;
     assert_VSB_state s 0;
     if s_error s \<noteq> 0 then Some (s, -1) else put_bytes mal s (cstr str)
   }"

definition VSB_cpy :: "(int \<Rightarrow> bool) \<Rightarrow> vsb \<Rightarrow> string \<Rightarrow> (vsb \<times> int) option" where
  "VSB_cpy mal s str = do {
     assert_VSB_integrity s;
     assert_VSB_state s 0;
     s \<leftarrow> VSB_clear s;
     VSB_cat mal s str
   }"

partial_function (option) vprintf_loop :: "(int \<Rightarrow> bool) \<Rightarrow> vsb \<Rightarrow> int \<Rightarrow> vsb option" where
  "vprintf_loop mal s len =
     (if len > VSB_FREESPACE s then do {
        (s', r) \<leftarrow> VSB_extend mal s (c_int (len - VSB_FREESPACE s));
        if r = 0 then vprintf_loop mal s' len else Some s'
      } else Some s)"

text \<open>\<open>vsnprintf\<close> stores as much of the text \<open>out\<close> as fits, and a NUL.\<close>

definition vsnprintf_to :: "(nat \<Rightarrow> char) \<Rightarrow> nat \<Rightarrow> nat \<Rightarrow> string \<Rightarrow> nat \<Rightarrow> char" where
  "vsnprintf_to buf pos n out i =
     (if pos \<le> i \<and> i \<le> pos + min n (length out)
      then cchar (take n out) (i - pos) else buf i)"

definition VSB_vprintf :: "(int \<Rightarrow> bool) \<Rightarrow> vsb \<Rightarrow> string \<Rightarrow> (vsb \<times> int) option" where
  "VSB_vprintf mal s out = do {
     assert_VSB_integrity s;
     assert_VSB_state s 0;
     if s_error s \<noteq> 0 then Some (s, -1)
     else do {
       s \<leftarrow> vprintf_loop mal s (int (length out));
       let n = (if VSB_FREESPACE s < int (length out) then VSB_FREESPACE s else int (length out));
       let s = s\<lparr>s_buf := vsnprintf_to (s_buf s) (nat (s_len s)) (nat (VSB_FREESPACE s)) out,
                 s_len := s_len s + n\<rparr>;
       let s = (if \<not> VSB_HASROOM s \<and> \<not> VSB_CANEXTEND s then s\<lparr>s_error := ENOMEM\<rparr> else s);
       vassert (s_len s < s_size s);
       Some (s, if s_error s \<noteq> 0 then -1 else 0)
     }
   }"

definition VSB_printf :: "(int \<Rightarrow> bool) \<Rightarrow> vsb \<Rightarrow> string \<Rightarrow> (vsb \<times> int) option" where
  "VSB_printf mal s out = VSB_vprintf mal s out"

definition VSB_putc :: "(int \<Rightarrow> bool) \<Rightarrow> vsb \<Rightarrow> char \<Rightarrow> (vsb \<times> int) option" where
  "VSB_putc mal s c = do {
     s \<leftarrow> VSB_put_byte mal s c;
     Some (s, if s_error s \<noteq> 0 then -1 else 0)
   }"

text \<open>\<open>isspace\<close> and \<open>isgraph\<close> of the C locale.\<close>

definition c_isspace :: "char \<Rightarrow> bool" where
  "c_isspace c \<longleftrightarrow> of_char c = (32::nat) \<or> (9 \<le> (of_char c :: nat) \<and> of_char c \<le> (13::nat))"

definition c_isgraph :: "char \<Rightarrow> bool" where
  "c_isgraph c \<longleftrightarrow> 33 \<le> (of_char c :: nat) \<and> of_char c \<le> (126::nat)"

function trim_loop :: "(nat \<Rightarrow> char) \<Rightarrow> int \<Rightarrow> int" where
  "trim_loop buf n = (if n > 0 \<and> c_isspace (buf (nat (n - 1))) then trim_loop buf (n - 1) else n)"
  by auto

termination by (relation "measure (\<lambda>(b, n). nat n)") auto

declare trim_loop.simps [simp del]

definition VSB_trim :: "vsb \<Rightarrow> (vsb \<times> int) option" where
  "VSB_trim s = do {
     assert_VSB_integrity s;
     assert_VSB_state s 0;
     Some (if s_error s \<noteq> 0 then (s, -1) else (s\<lparr>s_len := trim_loop (s_buf s) (s_len s)\<rparr>, 0))
   }"

definition VSB_finish :: "vsb \<Rightarrow> (vsb \<times> int) option" where
  "VSB_finish s = do {
     assert_VSB_integrity s;
     assert_VSB_state s 0;
     let s = s\<lparr>s_buf := (s_buf s)(nat (s_len s) := NUL), s_flags := s_flags s OR VSB_FINISHED\<rparr>;
     Some (s, if s_error s \<noteq> 0 then -1 else 0)
   }"

text \<open>The NUL-terminated string a caller of \<open>VSB_data\<close> reads.\<close>

definition VSB_data :: "vsb \<Rightarrow> string option" where
  "VSB_data s = do {
     assert_VSB_integrity s;
     assert_VSB_state s VSB_FINISHED;
     Some (cstr (map (s_buf s) [0..<nat (s_size s)]))
   }"

definition VSB_len :: "vsb \<Rightarrow> int option" where
  "VSB_len s = do {
     assert_VSB_integrity s;
     Some (if s_error s \<noteq> 0 then -1 else s_len s)
   }"

definition VSB_done :: "vsb \<Rightarrow> bool" where
  "VSB_done s = (s_flags s AND VSB_FINISHED \<noteq> 0)"

definition VSB_error :: "vsb \<Rightarrow> int" where
  "VSB_error s = s_error s"

text \<open>What is freed: the buffer, the structure.\<close>

definition VSB_delete :: "vsb \<Rightarrow> (bool \<times> bool) option" where
  "VSB_delete s = do {
     assert_VSB_integrity s;
     Some (VSB_ISDYNAMIC s, s_flags s AND VSB_DYNSTRUCT \<noteq> 0)
   }"

section \<open>Quoting\<close>

fun oct_digits :: "nat \<Rightarrow> string" where
  "oct_digits n = (if n < 8 then [char_of (48 + n)] else oct_digits (n div 8) @ [char_of (48 + n mod 8)])"

declare oct_digits.simps [simp del]

definition quote_needed :: "string \<Rightarrow> bool" where
  "quote_needed p = list_ex (\<lambda>c. \<not> c_isgraph c \<or> c = CHR 0x22 \<or> c = CHR 0x5C) p"

definition quote_char :: "(int \<Rightarrow> bool) \<Rightarrow> vsb \<Rightarrow> char \<Rightarrow> vsb option" where
  "quote_char mal s c =
     (if c = CHR '' '' then map_option fst (VSB_putc mal s c)
      else if c = CHR 0x5C \<or> c = CHR 0x22 then do {
        (s, _) \<leftarrow> VSB_putc mal s (CHR 0x5C);
        map_option fst (VSB_putc mal s c)
      }
      else if c = LF then map_option fst (VSB_cat mal s [CHR 0x5C, CHR ''n''])
      else if c = CR then map_option fst (VSB_cat mal s [CHR 0x5C, CHR ''r''])
      else if c = HTAB then map_option fst (VSB_cat mal s [CHR 0x5C, CHR ''t''])
      else if c_isgraph c then map_option fst (VSB_putc mal s c)
      else map_option fst (VSB_printf mal s (CHR 0x5C # oct_digits (of_char c))))"

primrec quote_chars :: "(int \<Rightarrow> bool) \<Rightarrow> vsb \<Rightarrow> string \<Rightarrow> vsb option" where
  "quote_chars mal s [] = Some s"
| "quote_chars mal s (c # cs) = do { s \<leftarrow> quote_char mal s c; quote_chars mal s cs }"

text \<open>The \<open>len\<close> bytes at \<open>p\<close> are the list \<open>p\<close>.\<close>

definition VSB_quote :: "(int \<Rightarrow> bool) \<Rightarrow> vsb \<Rightarrow> string \<Rightarrow> vsb option" where
  "VSB_quote mal s p =
     (if \<not> quote_needed p then map_option fst (VSB_bcat mal s p)
      else do {
        (s, _) \<leftarrow> VSB_putc mal s (CHR 0x22);
        s \<leftarrow> quote_chars mal s p;
        map_option fst (VSB_putc mal s (CHR 0x22))
      })"

text \<open>
  \<open>strtoul\<close> with base 8 reads every octal digit there is, also beyond the \<open>len\<close> bytes, up
  to the NUL; \<open>p\<close> is the rest of the NUL-terminated text and \<open>n\<close> how many of its bytes
  are still to be unquoted.  A \<open>strtoul\<close> overflow is more than \<open>0xff\<close>, too.
\<close>

definition is_oct :: "char \<Rightarrow> bool" where
  "is_oct c \<longleftrightarrow> 48 \<le> (of_char c :: nat) \<and> of_char c \<le> (55::nat)"

definition strtoul8 :: "string \<Rightarrow> nat" where
  "strtoul8 ds = foldl (\<lambda>u c. 8 * u + (of_char c - 48)) 0 ds"

datatype unquote_err = IncompleteBackslash | OctalOutOfRange

function VSB_unquote :: "(int \<Rightarrow> bool) \<Rightarrow> vsb \<Rightarrow> string \<Rightarrow> nat \<Rightarrow> (vsb \<times> unquote_err option) option" where
  "VSB_unquote mal s p n =
     (if n = 0 then Some (s, None)
      else if cchar p 0 \<noteq> CHR 0x5C then do {
        (s, _) \<leftarrow> VSB_bcat mal s [cchar p 0];
        VSB_unquote mal s (drop 1 p) (n - 1)
      }
      else if n - 1 = 0 then Some (s, Some IncompleteBackslash)
      else if cchar p 1 = CHR ''n'' then do {
        (s, _) \<leftarrow> VSB_bcat mal s [LF];
        VSB_unquote mal s (drop 2 p) (n - 2)
      }
      else if cchar p 1 = CHR ''r'' then do {
        (s, _) \<leftarrow> VSB_bcat mal s [CR];
        VSB_unquote mal s (drop 2 p) (n - 2)
      }
      else if cchar p 1 = CHR ''t'' then do {
        (s, _) \<leftarrow> VSB_bcat mal s [HTAB];
        VSB_unquote mal s (drop 2 p) (n - 2)
      }
      else if is_oct (cchar p 1) then do {
        let ds = takeWhile is_oct (drop 1 p);
        if strtoul8 ds > 0xff then Some (s, Some OctalOutOfRange)
        else do {
          (s, _) \<leftarrow> VSB_bcat mal s [char_of (strtoul8 ds)];
          VSB_unquote mal s (drop (1 + length ds) p) (n - (1 + length ds))
        }
      }
      else do {
        (s, _) \<leftarrow> VSB_bcat mal s [cchar p 1];
        VSB_unquote mal s (drop 2 p) (n - 2)
      })"
  by pat_completeness auto

termination by (relation "measure (\<lambda>(mal, s, p, n). n)") (auto simp: Let_def)

declare VSB_unquote.simps [simp del]

section \<open>The buffer invariant\<close>

lemma c_int_id: "- (2 ^ 31) \<le> n \<Longrightarrow> n < 2 ^ 31 \<Longrightarrow> c_int n = n"
  by (simp add: c_int_def)

lemma and_not_mask_int: "(x :: int) AND NOT (mask n) = x - x mod 2 ^ n"
proof -
  have "x AND NOT (mask n) = x AND NOT (take_bit n x)"
    by (rule bit_eqI) (auto simp: bit_simps)
  also have "\<dots> = x - take_bit n x"
    by (rule disjunctive_diff [symmetric]) (auto simp: bit_simps)
  finally show ?thesis by (simp add: take_bit_eq_mod)
qed

lemma double_up_spec:
  assumes "0 < n"
  shows "\<exists>m. double_up n sz = Some m \<and> sz \<le> m \<and> (m = n \<or> m < 2 * sz)"
  using assms
proof (induction "nat (sz - n)" arbitrary: n rule: less_induct)
  case less
  show ?case
  proof (cases "n < sz")
    case True
    with less.prems less.hyps [of "n * 2"] obtain m where
      "double_up (n * 2) sz = Some m" "sz \<le> m" "m = n * 2 \<or> m < 2 * sz" by auto
    then show ?thesis using True by (subst double_up.simps) auto
  next
    case False
    then show ?thesis by (subst double_up.simps) auto
  qed
qed

lemma extendsize_spec:
  assumes "0 \<le> sz" and "sz < 2 ^ 31 - 4096"
  shows "\<exists>n. VSB_extendsize sz = Some n \<and> sz \<le> n \<and> 16 \<le> n \<and> n \<le> sz + 4096"
proof (cases "sz < 4096")
  case True
  obtain m where m: "double_up 16 sz = Some m" "sz \<le> m" "m = 16 \<or> m < 2 * sz"
    using double_up_spec [of 16 sz] by auto
  have ge: "16 \<le> m"
  proof (cases "16 < sz")
    case False
    then have "double_up 16 sz = Some 16" by (subst double_up.simps) simp
    then show ?thesis using m(1) by simp
  qed (use m(2) in simp)
  with m True assms(1) show ?thesis
    by (auto simp: VSB_extendsize_def VSB_MAXEXTENDSIZE_def VSB_MINEXTENDSIZE_def)
next
  case False
  have "(sz + 4095) AND NOT 4095 = sz + 4095 - (sz + 4095) mod 4096"
    using and_not_mask_int [of "sz + 4095" 12] by (simp add: mask_eq_exp_minus_1)
  moreover have "(sz + 4095) mod 4096 \<le> 4095" using pos_mod_bound [of 4096 "sz + 4095"] by linarith
  ultimately show ?thesis
    using False assms pos_mod_sign [of 4096 "sz + 4095"] by (simp add: VSB_extendsize_def VSB_MAXEXTENDSIZE_def VSB_MAXEXTENDINCR_def)
qed

lemma flag_or: "a AND b = 0 \<Longrightarrow> (f OR a) AND b = f AND b" "(f OR a) AND a = a" for f :: u32
  by (simp_all add: bit.conj_disj_distrib2 bit_eq_iff bit_simps) auto

lemma flag_clear: "(f AND NOT a) AND a = 0" "a AND b = 0 \<Longrightarrow> (f AND NOT a) AND b = f AND b" for f :: u32
proof -
  show "(f AND NOT a) AND a = 0" by (rule bit_word_eqI) (simp add: bit_simps)
  assume z: "a AND b = 0"
  show "(f AND NOT a) AND b = f AND b"
  proof (rule bit_word_eqI)
    fix n :: nat assume "n < LENGTH(32)"
    then show "bit ((f AND NOT a) AND b) n = bit (f AND b) n"
      using arg_cong [OF z, of "\<lambda>x. bit x n"] by (auto simp: bit_simps)
  qed
qed

lemma flag_simps [simp]:
  "(f OR VSB_DYNAMIC) AND VSB_AUTOEXTEND = f AND VSB_AUTOEXTEND"
  "(f OR VSB_DYNAMIC) AND VSB_FINISHED = f AND VSB_FINISHED"
  "(f OR VSB_DYNSTRUCT) AND VSB_AUTOEXTEND = f AND VSB_AUTOEXTEND"
  "(f OR VSB_DYNSTRUCT) AND VSB_FINISHED = f AND VSB_FINISHED"
  "(f OR VSB_FINISHED) AND VSB_FINISHED = VSB_FINISHED"
  "(f AND NOT VSB_FINISHED) AND VSB_FINISHED = 0"
  "(f AND NOT VSB_FINISHED) AND VSB_AUTOEXTEND = f AND VSB_AUTOEXTEND"
  by (rule flag_or flag_clear;
      simp add: VSB_DYNAMIC_def VSB_AUTOEXTEND_def VSB_FINISHED_def VSB_DYNSTRUCT_def)+

text \<open>
  \<open>vsb_str\<close> is the text in the buffer.  The bound on the size, one gigabyte and the slack of
  one extension, keeps the \<open>int\<close> arithmetic of \<open>VSB_extendsize\<close> in range.
\<close>

definition vsb_str :: "vsb \<Rightarrow> string" where
  "vsb_str s = map (s_buf s) [0..<nat (s_len s)]"

definition vsb_ok :: "vsb \<Rightarrow> bool" where
  "vsb_ok s \<longleftrightarrow> 0 \<le> s_len s \<and> s_len s < s_size s \<and> s_size s \<le> 2 ^ 30 + 8192 \<and>
     s_flags s AND VSB_FINISHED = 0"

lemma vsb_str_push:
  assumes "0 \<le> s_len s"
  shows "vsb_str (s\<lparr>s_buf := (s_buf s)(nat (s_len s) := c), s_len := s_len s + 1\<rparr>) = vsb_str s @ [c]"
  using assms by (simp add: vsb_str_def nat_add_distrib)

lemma length_vsb_str [simp]: "length (vsb_str s) = nat (s_len s)"
  by (simp add: vsb_str_def)

text \<open>The size an extension asks \<open>malloc\<close> for, and all the sizes asked for on the way until \<open>t\<close> bytes and a NUL fit,
  the buffer being extended only when it is full.\<close>

definition grown :: "int \<Rightarrow> int" where
  "grown sz = the (VSB_extendsize (sz + 1))"

function grows :: "int \<Rightarrow> int \<Rightarrow> int list" where
  "grows sz t = (if t + 1 \<le> sz \<or> grown sz \<le> sz then [] else grown sz # grows (grown sz) t)"
  by auto

termination
  by (relation "measure (\<lambda>(sz, t). nat (t + 1 - sz))") auto

declare grows.simps [simp del]

lemma grown_spec:
  assumes "0 \<le> sz" and "sz < 2 ^ 30 + 4096"
  shows "VSB_extendsize (sz + 1) = Some (grown sz)" "sz < grown sz" "grown sz \<le> sz + 4097"
  using extendsize_spec [of "sz + 1"] assms by (auto simp: grown_def)

lemma grows_nil: "t + 1 \<le> sz \<Longrightarrow> grows sz t = []"
  by (simp add: grows.simps)

lemma grows_full: "sz < t + 1 \<Longrightarrow> sz < grown sz \<Longrightarrow> grows sz t = grown sz # grows (grown sz) t"
  by (subst grows.simps) simp

text \<open>Nothing but the bytes between the two lengths has changed.\<close>

definition buf_frame :: "vsb \<Rightarrow> vsb \<Rightarrow> bool" where
  "buf_frame s s' \<longleftrightarrow> (\<forall>i. int i < s_len s \<or> s_len s' \<le> int i \<longrightarrow> s_buf s' i = s_buf s i)"

lemma extend_spec:
  assumes "vsb_ok s" and "0 \<le> k" and "s_size s + k \<le> 2 ^ 30 + 4096"
  shows "\<exists>s' r m. VSB_extendsize (s_size s + k) = Some m \<and> VSB_extend mal s k = Some (s', r) \<and> vsb_ok s' \<and> vsb_str s' = vsb_str s \<and>
    s_len s' = s_len s \<and> s_buf s' = s_buf s \<and> s_error s' = s_error s \<and> VSB_CANEXTEND s' = VSB_CANEXTEND s \<and>
    (r = 0 \<and> VSB_CANEXTEND s \<and> mal m \<and> s_size s' = m \<and> s_size s + k \<le> m \<or>
     r = -1 \<and> s' = s \<and> (VSB_CANEXTEND s \<longrightarrow> \<not> mal m))"
proof -
  have "0 \<le> s_size s + k" "s_size s + k < 2 ^ 31 - 4096" using assms by (auto simp: vsb_ok_def)
  moreover have "c_int (s_size s + k) = s_size s + k" using assms by (intro c_int_id) (auto simp: vsb_ok_def)
  ultimately obtain n where n: "VSB_extendsize (s_size s + k) = Some n" "VSB_extendsize (c_int (s_size s + k)) = Some n" "s_size s + k \<le> n"
    "n \<le> s_size s + k + 4096"
    using extendsize_spec [of "s_size s + k"] by auto
  then show ?thesis
    using assms by (auto simp: VSB_extend_def vsb_ok_def vsb_str_def VSB_CANEXTEND_def)
qed

lemma put_byte_spec:
  assumes ok: "vsb_ok s" and e: "s_error s = 0" and len: "s_len s < 2 ^ 30"
  shows "\<exists>s'. VSB_put_byte mal s c = Some s' \<and> vsb_ok s' \<and> VSB_CANEXTEND s' = VSB_CANEXTEND s \<and> buf_frame s s' \<and>
    (s_error s' = 0 \<and> vsb_str s' = vsb_str s @ [c] \<and> s_len s' = s_len s + 1 \<and>
       (0 < VSB_FREESPACE s \<and> s_size s' = s_size s \<or>
        VSB_FREESPACE s = 0 \<and> VSB_CANEXTEND s \<and> mal (grown (s_size s)) \<and> s_size s' = grown (s_size s)) \<or>
     s_error s' = ENOMEM \<and> vsb_str s' = vsb_str s \<and> VSB_FREESPACE s = 0 \<and> s_size s' = s_size s \<and> s_len s' = s_len s \<and>
       (VSB_CANEXTEND s \<longrightarrow> \<not> mal (grown (s_size s))))"
proof -
  have pre: "s_len s < s_size s" "s_flags s AND VSB_FINISHED = 0" "0 \<le> s_len s"
    using ok by (simp_all add: vsb_ok_def)
  show ?thesis
  proof (cases "VSB_FREESPACE s \<le> 0")
    case False
    let ?s = "s\<lparr>s_buf := (s_buf s)(nat (s_len s) := c), s_len := s_len s + 1\<rparr>"
    have "VSB_put_byte mal s c = Some ?s"
      using False pre e by (simp add: VSB_put_byte_def assert_VSB_integrity_def assert_VSB_state_def)
    moreover have "vsb_ok ?s" using ok False by (auto simp: vsb_ok_def VSB_FREESPACE_def)
    moreover have "buf_frame s ?s" using pre(3) by (auto simp: buf_frame_def)
    ultimately show ?thesis
      using False e vsb_str_push [OF pre(3)] by (auto simp: VSB_CANEXTEND_def)
  next
    case True
    then have full: "s_size s = s_len s + 1" using pre by (simp add: VSB_FREESPACE_def)
    have "s_size s + 1 \<le> 2 ^ 30 + 4096" using full len by simp
    then obtain s1 r where x: "VSB_extend mal s 1 = Some (s1, r)" "vsb_ok s1" "vsb_str s1 = vsb_str s"
      "s_len s1 = s_len s" "s_error s1 = s_error s" "VSB_CANEXTEND s1 = VSB_CANEXTEND s"
      "r = 0 \<and> VSB_CANEXTEND s \<and> mal (grown (s_size s)) \<and> s_size s1 = grown (s_size s) \<and> s_size s + 1 \<le> s_size s1 \<or>
       r = -1 \<and> s1 = s \<and> (VSB_CANEXTEND s \<longrightarrow> \<not> mal (grown (s_size s)))" "s_buf s1 = s_buf s"
      using extend_spec [OF ok, of 1, where mal = mal] by (auto simp: grown_def)
    let ?s = "s1\<lparr>s_buf := (s_buf s1)(nat (s_len s1) := c), s_len := s_len s1 + 1\<rparr>"
    have ps: "vsb_str ?s = vsb_str s1 @ [c]" using pre x(4) by (intro vsb_str_push) simp
    have eval: "VSB_put_byte mal s c = Some (if r < 0 then s1\<lparr>s_error := ENOMEM\<rparr> else ?s)"
      using True pre e x(1,5)
      by (simp add: VSB_put_byte_def assert_VSB_integrity_def assert_VSB_state_def ENOMEM_def)
    from x(7) show ?thesis
    proof (elim disjE)
      assume r: "r = 0 \<and> VSB_CANEXTEND s \<and> mal (grown (s_size s)) \<and> s_size s1 = grown (s_size s) \<and> s_size s + 1 \<le> s_size s1"
      then have "vsb_ok ?s" using x(2,4) full by (auto simp: vsb_ok_def)
      moreover have "buf_frame s ?s" using pre(3) x(4,8) by (auto simp: buf_frame_def)
      ultimately show ?thesis using r eval ps x e full by (simp add: VSB_CANEXTEND_def VSB_FREESPACE_def)
    next
      assume r: "r = -1 \<and> s1 = s \<and> (VSB_CANEXTEND s \<longrightarrow> \<not> mal (grown (s_size s)))"
      then have "vsb_ok (s1\<lparr>s_error := ENOMEM\<rparr>)" "vsb_str (s1\<lparr>s_error := ENOMEM\<rparr>) = vsb_str s"
        "VSB_CANEXTEND (s1\<lparr>s_error := ENOMEM\<rparr>) = VSB_CANEXTEND s" "buf_frame s (s1\<lparr>s_error := ENOMEM\<rparr>)"
        using ok by (auto simp: vsb_ok_def vsb_str_def VSB_CANEXTEND_def buf_frame_def)
      then show ?thesis using r eval full by (simp add: VSB_FREESPACE_def)
    qed
  qed
qed

text \<open>What appending some bytes to an auto-extending buffer comes to: with \<open>b\<close>, all sizes asked for were granted;
  without, the buffer is full and the next size was refused.\<close>

definition auto_end :: "(int \<Rightarrow> bool) \<Rightarrow> vsb \<Rightarrow> int \<Rightarrow> vsb \<Rightarrow> bool \<Rightarrow> bool" where
  "auto_end mal s t s' b \<longleftrightarrow> (b \<longleftrightarrow> (\<forall>m \<in> set (grows (s_size s) t). mal m)) \<and>
     s_size s' = last (s_size s # takeWhile mal (grows (s_size s) t)) \<and>
     (\<not> b \<longrightarrow> VSB_FREESPACE s' = 0 \<and> \<not> mal (grown (s_size s')))"

lemma put_bytes_spec:
  assumes "vsb_ok s" and "s_error s = 0" and "s_len s + int (length buf) \<le> 2 ^ 30"
  shows "\<exists>s' r n. put_bytes mal s buf = Some (s', r) \<and> vsb_ok s' \<and> VSB_CANEXTEND s' = VSB_CANEXTEND s \<and>
    vsb_str s' = vsb_str s @ take n buf \<and> s_len s' = s_len s + int n \<and> buf_frame s s' \<and>
    (r = 0 \<and> s_error s' = 0 \<and> n = length buf \<or> r = -1 \<and> s_error s' = ENOMEM \<and> n < length buf) \<and>
    (if VSB_CANEXTEND s then auto_end mal s (s_len s + int (length buf)) s' (r = 0)
     else s_size s' = s_size s \<and> (r = 0 \<longleftrightarrow> int (length buf) \<le> VSB_FREESPACE s) \<and> (r \<noteq> 0 \<longrightarrow> VSB_FREESPACE s' = 0))"
  using assms
proof (induction buf arbitrary: s)
  case Nil
  have "auto_end mal s (s_len s) s True" using Nil.prems(1) by (simp add: auto_end_def grows_nil vsb_ok_def)
  then show ?case using Nil
    by (intro exI [of _ s] exI [of _ 0] exI [of _ 0]) (auto simp: vsb_ok_def VSB_FREESPACE_def buf_frame_def)
next
  case (Cons c cs)
  let ?t = "s_len s + int (length (c # cs))"
  have "s_len s < 2 ^ 30" using Cons.prems by simp
  from put_byte_spec [OF Cons.prems(1,2) this, of mal c] obtain s1 where
    p: "VSB_put_byte mal s c = Some s1" "vsb_ok s1" "VSB_CANEXTEND s1 = VSB_CANEXTEND s" "buf_frame s s1"
    "s_error s1 = 0 \<and> vsb_str s1 = vsb_str s @ [c] \<and> s_len s1 = s_len s + 1 \<and>
       (0 < VSB_FREESPACE s \<and> s_size s1 = s_size s \<or>
        VSB_FREESPACE s = 0 \<and> VSB_CANEXTEND s \<and> mal (grown (s_size s)) \<and> s_size s1 = grown (s_size s)) \<or>
     s_error s1 = ENOMEM \<and> vsb_str s1 = vsb_str s \<and> VSB_FREESPACE s = 0 \<and> s_size s1 = s_size s \<and> s_len s1 = s_len s \<and>
       (VSB_CANEXTEND s \<longrightarrow> \<not> mal (grown (s_size s)))" by blast
  have grow: "grows (s_size s) ?t = grown (s_size s) # grows (grown (s_size s)) ?t" if "VSB_FREESPACE s = 0"
  proof (rule grows_full)
    show "s_size s < ?t + 1" using that by (simp add: VSB_FREESPACE_def)
    show "s_size s < grown (s_size s)" using grown_spec(2) [of "s_size s"] Cons.prems that by (auto simp: vsb_ok_def VSB_FREESPACE_def)
  qed
  from p(5) show ?case
  proof (elim disjE)
    assume e: "s_error s1 = ENOMEM \<and> vsb_str s1 = vsb_str s \<and> VSB_FREESPACE s = 0 \<and> s_size s1 = s_size s \<and> s_len s1 = s_len s \<and>
       (VSB_CANEXTEND s \<longrightarrow> \<not> mal (grown (s_size s)))"
    then have "put_bytes mal s (c # cs) = Some (s1, -1)" using p(1) by (simp add: ENOMEM_def)
    moreover have "auto_end mal s ?t s1 False" if "VSB_CANEXTEND s"
    proof -
      have "grows (s_size s) ?t = grown (s_size s) # grows (grown (s_size s)) ?t" using grow e by blast
      moreover have "VSB_FREESPACE s1 = 0" using e by (simp add: VSB_FREESPACE_def)
      ultimately show ?thesis using e that by (simp add: auto_end_def)
    qed
    ultimately show ?thesis using e p
      by (intro exI [of _ s1] exI [of _ "-1"] exI [of _ 0]) (auto simp: VSB_FREESPACE_def)
  next
    assume g: "s_error s1 = 0 \<and> vsb_str s1 = vsb_str s @ [c] \<and> s_len s1 = s_len s + 1 \<and>
       (0 < VSB_FREESPACE s \<and> s_size s1 = s_size s \<or>
        VSB_FREESPACE s = 0 \<and> VSB_CANEXTEND s \<and> mal (grown (s_size s)) \<and> s_size s1 = grown (s_size s))"
    then have len: "s_len s1 + int (length cs) \<le> 2 ^ 30" and t: "s_len s1 + int (length cs) = ?t" using Cons.prems(3) by simp_all
    have "s_error s1 = 0" using g by blast
    from Cons.IH [OF p(2) this len] obtain s' r n where
      i: "put_bytes mal s1 cs = Some (s', r)" "vsb_ok s'" "VSB_CANEXTEND s' = VSB_CANEXTEND s1"
      "vsb_str s' = vsb_str s1 @ take n cs" "s_len s' = s_len s1 + int n" "buf_frame s1 s'"
      "r = 0 \<and> s_error s' = 0 \<and> n = length cs \<or> r = -1 \<and> s_error s' = ENOMEM \<and> n < length cs"
      "if VSB_CANEXTEND s1 then auto_end mal s1 (s_len s1 + int (length cs)) s' (r = 0)
       else s_size s' = s_size s1 \<and> (r = 0 \<longleftrightarrow> int (length cs) \<le> VSB_FREESPACE s1) \<and> (r \<noteq> 0 \<longrightarrow> VSB_FREESPACE s' = 0)" by blast
    have "put_bytes mal s (c # cs) = Some (s', r)" using p(1) g i(1) by simp
    moreover have "vsb_str s' = vsb_str s @ take (Suc n) (c # cs)" "s_len s' = s_len s + int (Suc n)" using i(4,5) g by simp_all
    moreover have "buf_frame s s'" using p(4) i(5,6) g by (auto simp: buf_frame_def)
    moreover have "auto_end mal s ?t s' (r = 0)" if "VSB_CANEXTEND s"
      using i(8) that p(3) g grow unfolding t by (auto simp: auto_end_def)
    moreover have "s_size s' = s_size s \<and> (r = 0 \<longleftrightarrow> int (length (c # cs)) \<le> VSB_FREESPACE s) \<and> (r \<noteq> 0 \<longrightarrow> VSB_FREESPACE s' = 0)" if "\<not> VSB_CANEXTEND s"
      using i(8) that p(3) g by (auto simp: VSB_FREESPACE_def)
    ultimately show ?thesis
      using i(2,3,7) p(3) by (intro exI [of _ s'] exI [of _ r] exI [of _ "Suc n"]) auto
  qed
qed

text \<open>
  C23.  Appending to a string buffer.  \<open>VSB_bcat\<close> on an unfinished buffer without error never fails an assertion (the text
  staying below a gigabyte).  It appends all bytes and returns 0, or appends a proper prefix, sets
  \<open>ENOMEM\<close> and returns -1.  It writes only the bytes between the old and the new length, which lie inside the
  buffer with a byte for the NUL to spare.  A fixed-length buffer fails exactly when the bytes do not fit.  An
  auto-extending one fails exactly when \<open>malloc\<close> refuses one of the sizes asked for on the way, where a new size
  is asked for whenever the buffer is full; its size is then the last one granted.  Whenever it fails the
  buffer is full to the byte before the NUL.
\<close>

theorem VSB_bcat_appends:
  assumes "vsb_ok s" and "s_error s = 0" and "s_len s + int (length buf) \<le> 2 ^ 30"
  shows "\<exists>s' r n. VSB_bcat mal s buf = Some (s', r) \<and> vsb_ok s' \<and> vsb_str s' = vsb_str s @ take n buf \<and> s_len s' = s_len s + int n \<and>
    (\<forall>i. s_buf s' i \<noteq> s_buf s i \<longrightarrow> s_len s \<le> int i \<and> int i < s_len s') \<and> s_len s' < s_size s' \<and>
    (r = 0 \<and> s_error s' = 0 \<and> n = length buf \<or> r = -1 \<and> s_error s' = ENOMEM \<and> n < length buf \<and> VSB_FREESPACE s' = 0) \<and>
    (if VSB_CANEXTEND s
     then (r = 0 \<longleftrightarrow> (\<forall>m \<in> set (grows (s_size s) (s_len s + int (length buf))). mal m)) \<and>
       s_size s' = last (s_size s # takeWhile mal (grows (s_size s) (s_len s + int (length buf))))
     else (r = 0 \<longleftrightarrow> int (length buf) \<le> VSB_FREESPACE s) \<and> s_size s' = s_size s)"
proof -
  have "VSB_bcat mal s buf = put_bytes mal s buf"
    using assms(1,2) by (simp add: VSB_bcat_def assert_VSB_integrity_def assert_VSB_state_def vsb_ok_def)
  moreover obtain s' r n where i: "put_bytes mal s buf = Some (s', r)" "vsb_ok s'" "vsb_str s' = vsb_str s @ take n buf"
    "s_len s' = s_len s + int n" "buf_frame s s'" "r = 0 \<and> s_error s' = 0 \<and> n = length buf \<or> r = -1 \<and> s_error s' = ENOMEM \<and> n < length buf"
    "if VSB_CANEXTEND s then auto_end mal s (s_len s + int (length buf)) s' (r = 0)
     else s_size s' = s_size s \<and> (r = 0 \<longleftrightarrow> int (length buf) \<le> VSB_FREESPACE s) \<and> (r \<noteq> 0 \<longrightarrow> VSB_FREESPACE s' = 0)"
    using put_bytes_spec [OF assms, of mal] by blast
  moreover have "\<forall>i. s_buf s' i \<noteq> s_buf s i \<longrightarrow> s_len s \<le> int i \<and> int i < s_len s'"
    using i(5) by (auto simp: buf_frame_def not_less) (meson not_less)+
  moreover have "s_len s' < s_size s'" using i(2) by (simp add: vsb_ok_def)
  ultimately show ?thesis
    by (intro exI [of _ s'] exI [of _ r] exI [of _ n]) (auto simp: auto_end_def split: if_splits)
qed

text \<open>Seven bytes into an auto-extending buffer of four, when \<open>malloc\<close> has nothing: three of them fit.\<close>

theorem VSB_bcat_appends_witness:
  "\<exists>s'. VSB_bcat (\<lambda>_. False) \<lparr>s_buf = (\<lambda>_. NUL), s_error = 0, s_size = 4, s_len = 0, s_flags = VSB_AUTOEXTEND\<rparr>
      ''varnish'' = Some (s', -1) \<and> vsb_str s' = ''var'' \<and> s_size s' = 4"
proof -
  let ?s = "\<lparr>s_buf = (\<lambda>_. NUL), s_error = 0, s_size = 4, s_len = 0, s_flags = VSB_AUTOEXTEND\<rparr>"
  have p: "vsb_ok ?s" "s_error ?s = 0" "s_len ?s + int (length ''varnish'') \<le> 2 ^ 30"
    by (simp_all add: vsb_ok_def VSB_AUTOEXTEND_def VSB_FINISHED_def)
  have q: "vsb_str ?s = []" "VSB_CANEXTEND ?s" by (simp_all add: vsb_str_def VSB_CANEXTEND_def VSB_AUTOEXTEND_def)
  have "4 < grown 4" using grown_spec(2) [of 4] by simp
  then have g: "grows 4 7 = grown 4 # grows (grown 4) 7" by (intro grows_full) auto
  from VSB_bcat_appends [OF p, of "\<lambda>_. False"] q g obtain s' r n where
    r: "VSB_bcat (\<lambda>_. False) ?s ''varnish'' = Some (s', r)" "vsb_str s' = take n ''varnish''" "s_len s' = int n" "s_size s' = 4" "r \<noteq> 0"
    "r = 0 \<or> r = -1 \<and> VSB_FREESPACE s' = 0" by auto
  then have "n = 3" by (simp add: VSB_FREESPACE_def)
  then show ?thesis using r by auto
qed

section \<open>Auto-extending buffers and quoting\<close>

definition auto_ok :: "vsb \<Rightarrow> bool" where
  "auto_ok s \<longleftrightarrow> vsb_ok s \<and> s_error s = 0 \<and> VSB_CANEXTEND s"

definition appends :: "vsb \<Rightarrow> string \<Rightarrow> vsb \<Rightarrow> bool" where
  "appends s t s' \<longleftrightarrow> auto_ok s' \<and> vsb_str s' = vsb_str s @ t \<and> s_len s' = s_len s + int (length t)"

abbreviation mem_ok :: "int \<Rightarrow> bool" where "mem_ok \<equiv> (\<lambda>_. True)"

lemma appends_trans: "appends a t b \<Longrightarrow> appends b u c \<Longrightarrow> appends a (t @ u) c"
  by (simp add: appends_def)

lemma appends_auto: "appends a t b \<Longrightarrow> auto_ok b"
  by (simp add: appends_def)

lemma appends_len: "appends a t b \<Longrightarrow> s_len b = s_len a + int (length t)"
  by (simp add: appends_def)

lemma put_bytes_auto:
  assumes "auto_ok s" and "s_len s + int (length t) \<le> 2 ^ 30"
  shows "\<exists>s'. put_bytes mem_ok s t = Some (s', 0) \<and> appends s t s'"
  using put_bytes_spec [of s t mem_ok] assms by (auto simp: auto_ok_def appends_def auto_end_def)

lemma auto_asserts:
  assumes "auto_ok s"
  shows "assert_VSB_integrity s = Some ()" "assert_VSB_state s 0 = Some ()" "s_error s = 0"
  using assms
  by (auto simp: auto_ok_def vsb_ok_def assert_VSB_integrity_def assert_VSB_state_def)

lemma bcat_auto:
  assumes "auto_ok s" and "s_len s + int (length t) \<le> 2 ^ 30"
  shows "\<exists>s'. VSB_bcat mem_ok s t = Some (s', 0) \<and> appends s t s'"
  using put_bytes_auto [OF assms] auto_asserts [OF assms(1)] by (simp add: VSB_bcat_def)

lemma cat_auto:
  assumes "auto_ok s" and "s_len s + int (length t) \<le> 2 ^ 30" and "NUL \<notin> set t"
  shows "\<exists>s'. VSB_cat mem_ok s t = Some (s', 0) \<and> appends s t s'"
  using put_bytes_auto [OF assms(1,2)] auto_asserts [OF assms(1)] assms(3)
  by (simp add: VSB_cat_def cstr_id)

lemma putc_auto:
  assumes "auto_ok s" and "s_len s < 2 ^ 30"
  shows "\<exists>s'. VSB_putc mem_ok s c = Some (s', 0) \<and> appends s [c] s'"
  using put_byte_spec [of s mem_ok c] assms by (auto simp: auto_ok_def VSB_putc_def appends_def)

lemma vsnprintf_to_str:
  "length out \<le> n \<Longrightarrow> map (vsnprintf_to buf pos n out) [0..<pos + length out] = map buf [0..<pos] @ out"
  by (rule nth_equalityI) (auto simp: vsnprintf_to_def cchar_def nth_append)

lemma vprintf_loop_auto:
  assumes ok: "auto_ok s" and len: "s_len s + int n \<le> 2 ^ 30"
  shows "\<exists>s'. vprintf_loop mem_ok s (int n) = Some s' \<and> auto_ok s' \<and> vsb_str s' = vsb_str s \<and>
    s_len s' = s_len s \<and> int n \<le> VSB_FREESPACE s'"
proof (cases "int n > VSB_FREESPACE s")
  case False
  then show ?thesis using ok by (subst vprintf_loop.simps) auto
next
  case True
  let ?k = "int n - VSB_FREESPACE s"
  have vk: "vsb_ok s" "s_error s = 0" "VSB_CANEXTEND s" using ok by (auto simp: auto_ok_def)
  have k: "0 \<le> ?k" "s_size s + ?k \<le> 2 ^ 30 + 4096" "c_int ?k = ?k"
    using True len vk(1) by (auto simp: VSB_FREESPACE_def vsb_ok_def intro!: c_int_id)
  obtain s' where x: "VSB_extend mem_ok s ?k = Some (s', 0)" "vsb_ok s'" "vsb_str s' = vsb_str s"
    "s_len s' = s_len s" "s_error s' = s_error s" "VSB_CANEXTEND s'" "s_size s + ?k \<le> s_size s'"
    using extend_spec [OF vk(1) k(1,2), of mem_ok] vk(3) by auto
  have "int n \<le> VSB_FREESPACE s'" using x(4,7) by (simp add: VSB_FREESPACE_def)
  moreover from this have "vprintf_loop mem_ok s' (int n) = Some s'"
    by (subst vprintf_loop.simps) simp
  ultimately show ?thesis
    using True x vk k by (subst vprintf_loop.simps) (auto simp: auto_ok_def)
qed

lemma printf_auto:
  assumes ok: "auto_ok s" and len: "s_len s + int (length out) \<le> 2 ^ 30"
  shows "\<exists>s'. VSB_printf mem_ok s out = Some (s', 0) \<and> appends s out s'"
proof -
  obtain s1 where l: "vprintf_loop mem_ok s (int (length out)) = Some s1" "auto_ok s1"
    "vsb_str s1 = vsb_str s" "s_len s1 = s_len s" "int (length out) \<le> VSB_FREESPACE s1"
    using vprintf_loop_auto [OF ok len] by blast
  let ?s = "s1\<lparr>s_buf := vsnprintf_to (s_buf s1) (nat (s_len s1)) (nat (VSB_FREESPACE s1)) out,
      s_len := s_len s1 + int (length out)\<rparr>"
  have c: "VSB_CANEXTEND ?s" "s_len ?s < s_size ?s" "s_error ?s = 0" "auto_ok ?s" "0 \<le> s_len s1"
    using l(2,5) by (auto simp: auto_ok_def vsb_ok_def VSB_FREESPACE_def VSB_CANEXTEND_def)
  then have "VSB_printf mem_ok s out = Some (?s, 0)"
    using l auto_asserts [OF ok] by (simp add: VSB_printf_def VSB_vprintf_def Let_def)
  moreover have "length out \<le> nat (VSB_FREESPACE s1)" using l(5) by linarith
  then have "vsb_str ?s = vsb_str s @ out"
    using c(5) l(3) vsnprintf_to_str [of out _ "s_buf s1" "nat (s_len s1)"]
    by (simp add: vsb_str_def nat_add_distrib)
  ultimately show ?thesis using c(4) l(4) by (auto simp: appends_def)
qed

definition quote_text :: "char \<Rightarrow> string" where
  "quote_text c =
     (if c = CHR '' '' then [c]
      else if c = CHR 0x5C \<or> c = CHR 0x22 then [CHR 0x5C, c]
      else if c = LF then [CHR 0x5C, CHR ''n'']
      else if c = CR then [CHR 0x5C, CHR ''r'']
      else if c = HTAB then [CHR 0x5C, CHR ''t'']
      else if c_isgraph c then [c]
      else CHR 0x5C # oct_digits (of_char c))"

definition quoted :: "string \<Rightarrow> string" where
  "quoted p = (if \<not> quote_needed p then p
               else CHR 0x22 # concat (map quote_text p) @ [CHR 0x22])"

lemma oct_digits_len: "n < 256 \<Longrightarrow> length (oct_digits n) \<le> 3"
  by (simp add: oct_digits.simps [of n] oct_digits.simps [of "n div 8"] oct_digits.simps [of "n div 8 div 8"])

lemma quote_text_len: "length (quote_text c) \<le> 4"
  using oct_digits_len [of "of_char c"] by (simp add: quote_text_def)

lemma quote_char_auto:
  assumes ok: "auto_ok s" and len: "s_len s + 4 \<le> 2 ^ 30"
  shows "\<exists>s'. quote_char mem_ok s c = Some s' \<and> appends s (quote_text c) s'"
proof -
  have one: "\<exists>s'. map_option fst (VSB_putc mem_ok s c) = Some s' \<and> appends s [c] s'" for c
    using putc_auto [OF ok, of c] len by auto
  have two: "\<exists>s'. map_option fst (VSB_cat mem_ok s [CHR 0x5C, d]) = Some s' \<and> appends s [CHR 0x5C, d] s'"
    if "d \<noteq> NUL" for d
    using cat_auto [OF ok, of "[CHR 0x5C, d]"] len that by auto
  have esc: "\<exists>s'. (do { (s, _) \<leftarrow> VSB_putc mem_ok s (CHR 0x5C); map_option fst (VSB_putc mem_ok s c) })
      = Some s' \<and> appends s [CHR 0x5C, c] s'"
  proof -
    obtain s1 where s1: "VSB_putc mem_ok s (CHR 0x5C) = Some (s1, 0)" "appends s [CHR 0x5C] s1"
      using putc_auto [OF ok, of "CHR 0x5C"] len by auto
    moreover obtain s2 where "VSB_putc mem_ok s1 c = Some (s2, 0)" "appends s1 [c] s2"
      using putc_auto [OF appends_auto [OF s1(2)], of c] appends_len [OF s1(2)] len by auto
    ultimately show ?thesis using appends_trans [OF s1(2)] by fastforce
  qed
  have oct: "\<exists>s'. map_option fst (VSB_printf mem_ok s (CHR 0x5C # oct_digits (of_char c))) = Some s' \<and>
      appends s (CHR 0x5C # oct_digits (of_char c)) s'"
    using printf_auto [OF ok, of "CHR 0x5C # oct_digits (of_char c)"] oct_digits_len [of "of_char c"] len
    by auto
  show ?thesis
    using one [of c] one [of "CHR '' ''"] two [of "CHR ''n''"] two [of "CHR ''r''"] two [of "CHR ''t''"] esc oct
    by (simp add: quote_char_def quote_text_def)
qed

lemma quote_chars_auto:
  assumes "auto_ok s" and "s_len s + 4 * int (length p) \<le> 2 ^ 30"
  shows "\<exists>s'. quote_chars mem_ok s p = Some s' \<and> appends s (concat (map quote_text p)) s'"
  using assms
proof (induction p arbitrary: s)
  case Nil
  then show ?case by (simp add: appends_def)
next
  case (Cons c p)
  then obtain s1 where s1: "quote_char mem_ok s c = Some s1" "appends s (quote_text c) s1"
    using quote_char_auto [of s c] by auto
  have "s_len s1 + 4 * int (length p) \<le> 2 ^ 30"
    using Cons.prems(2) appends_len [OF s1(2)] quote_text_len [of c] by simp
  with Cons.IH [OF appends_auto [OF s1(2)]] obtain s2 where
    "quote_chars mem_ok s1 p = Some s2" "appends s1 (concat (map quote_text p)) s2" by blast
  then show ?case using s1 appends_trans by fastforce
qed

lemma VSB_quote_auto:
  assumes ok: "auto_ok s" and len: "s_len s + 4 * int (length p) + 2 \<le> 2 ^ 30"
  shows "\<exists>s'. VSB_quote mem_ok s p = Some s' \<and> appends s (quoted p) s'"
proof (cases "quote_needed p")
  case False
  then show ?thesis using bcat_auto [OF ok, of p] len by (auto simp: VSB_quote_def quoted_def)
next
  case True
  obtain s1 where s1: "VSB_putc mem_ok s (CHR 0x22) = Some (s1, 0)" "appends s [CHR 0x22] s1"
    using putc_auto [OF ok, of "CHR 0x22"] len by auto
  have "s_len s1 + 4 * int (length p) \<le> 2 ^ 30" using appends_len [OF s1(2)] len by simp
  with quote_chars_auto [OF appends_auto [OF s1(2)]] obtain s2 where
    s2: "quote_chars mem_ok s1 p = Some s2" "appends s1 (concat (map quote_text p)) s2" by blast
  have "length (concat (map quote_text p)) \<le> 4 * length p"
    by (induction p) (use quote_text_len in \<open>auto simp: add_le_mono\<close>)
  then have "s_len s2 < 2 ^ 30" using appends_len [OF s1(2)] appends_len [OF s2(2)] len by simp
  with putc_auto [OF appends_auto [OF s2(2)]] obtain s3 where
    s3: "VSB_putc mem_ok s2 (CHR 0x22) = Some (s3, 0)" "appends s2 [CHR 0x22] s3" by blast
  have "appends s (quoted p) s3"
    using appends_trans [OF s1(2) appends_trans [OF s2(2) s3(2)]] True by (simp add: quoted_def)
  then show ?thesis using True s1 s2 s3 by (simp add: VSB_quote_def)
qed

end
