(* ===== verification/Argv.thy ===== *)
theory Argv
  imports Vsb
begin

text \<open>
  lib/libvarnish/argv.c, the command line parser, and the forwarding of commands from the
  manager to the child process (\<open>mcf_askchild\<close> of bin/varnishd/mgt_cli.c), which quotes with
  \<open>VSB_quote\<close> what the child parses again.  A \<open>char *\<close> into the NUL-terminated input is
  the list of bytes from there to the NUL; a step that would move it beyond the NUL has
  no defined result and is \<open>None\<close>, like a failed assertion.  The result array is a map
  from indices to cells; cells that \<open>realloc\<close> added are undefined until they are written.
\<close>

definition ARGV_COMMENT :: u32 where "ARGV_COMMENT = 1"
definition ARGV_COMMA :: u32 where "ARGV_COMMA = 2"
definition ARGV_NOESC :: u32 where "ARGV_NOESC = 4"

section \<open>Backslash sequences\<close>

function bs_octal :: "string \<Rightarrow> nat \<Rightarrow> nat \<Rightarrow> nat \<times> nat" where
  "bs_octal s r c = (if r < 4 \<and> is_oct (cchar s r)
     then bs_octal s (r + 1) ((8 * c + (of_char (cchar s r) - 48)) mod 256) else (r, c))"
  by auto

termination by (relation "measure (\<lambda>(s, r, c). 4 - r)") auto

declare bs_octal.simps [simp del]

definition hex_val :: "char \<Rightarrow> nat option" where
  "hex_val ch = (let n = of_char ch :: nat in
     if 48 \<le> n \<and> n \<le> 57 then Some (n - 48)
     else if 97 \<le> n \<and> n \<le> 102 then Some (n - 87)
     else if 65 \<le> n \<and> n \<le> 70 then Some (n - 55) else None)"

text \<open>
  \<open>sscanf\<close> with \<open>%02x\<close>: white space is skipped, then at most two characters are read that
  begin an integer: a sign is accepted, and \<open>0x\<close> is the beginning of one, not one.
\<close>

definition scan_02x :: "string \<Rightarrow> u32 option" where
  "scan_02x s = (let t = dropWhile c_isspace s; a = cchar t 0; b = cchar t 1 in
     if a = CHR ''0'' \<and> (b = CHR ''x'' \<or> b = CHR ''X'') then None
     else case hex_val a of
            Some x \<Rightarrow> Some (case hex_val b of Some y \<Rightarrow> word_of_nat (16 * x + y) | None \<Rightarrow> word_of_nat x)
          | None \<Rightarrow>
              if a = CHR ''+'' then map_option word_of_nat (hex_val b)
              else if a = CHR ''-'' then map_option (\<lambda>y. - word_of_nat y) (hex_val b)
              else None)"

definition VAV_BackSlash :: "string \<Rightarrow> (nat \<times> char) option" where
  "VAV_BackSlash s = do {
     vassert (cchar s 0 = CHR 0x5C);
     if cchar s 1 = CHR ''n'' then Some (2, LF)
     else if cchar s 1 = CHR ''r'' then Some (2, CR)
     else if cchar s 1 = CHR ''t'' then Some (2, HTAB)
     else if cchar s 1 = CHR 0x22 then Some (2, CHR 0x22)
     else if cchar s 1 = CHR 0x5C then Some (2, CHR 0x5C)
     else if is_oct (cchar s 1) then (let (r, c) = bs_octal s 1 0 in Some (r, char_of c))
     else if cchar s 1 = CHR ''x'' then
       (case scan_02x (drop 2 s) of
          None \<Rightarrow> Some (0, NUL)
        | Some u \<Rightarrow> do { vassert (u AND NOT 0xff = 0); Some (4, char_of (unat u)) })
     else Some (0, NUL)
   }"

text \<open>
  The decoder works on the \<open>n\<close> bytes from \<open>s\<close>.  On an invalid sequence the C loop does not
  advance and writes beyond the result buffer.
\<close>

function VAV_BackSlashDecode :: "string \<Rightarrow> nat \<Rightarrow> string option" where
  "VAV_BackSlashDecode s n =
     (if n = 0 then Some []
      else if cchar s 0 \<noteq> CHR 0x5C
      then map_option ((#) (cchar s 0)) (VAV_BackSlashDecode (drop 1 s) (n - 1))
      else do {
        (i, c) \<leftarrow> VAV_BackSlash s;
        if i = 0 then None
        else map_option ((#) c) (VAV_BackSlashDecode (drop i s) (n - i))
      })"
  by auto

termination by (relation "measure snd") auto

declare VAV_BackSlashDecode.simps [simp del]

section \<open>The parser\<close>

datatype av_err = err_invalid_backslash | err_missing_quote

datatype av_cell = AvUndef | AvNull | AvErr av_err | AvStr string

lemma drop1_shorter: "cchar s 0 \<noteq> NUL \<Longrightarrow> length s - Suc 0 < length s"
  by (cases s) auto

text \<open>The inner loop: how many bytes the argument has.\<close>

function scan_arg :: "u32 \<Rightarrow> bool \<Rightarrow> string \<Rightarrow> nat \<Rightarrow> (av_err + nat) option" where
  "scan_arg flag quote s n =
     (if cchar s 0 = CHR 0x5C \<and> flag AND ARGV_NOESC = 0 then do {
        (i, _) \<leftarrow> VAV_BackSlash s;
        if i = 0 then Some (Inl err_invalid_backslash)
        else if i > length s then None
        else scan_arg flag quote (drop i s) (n + i)
      }
      else if \<not> quote then
        (if cchar s 0 = NUL \<or> c_isspace (cchar s 0) then Some (Inr n)
         else if flag AND ARGV_COMMA \<noteq> 0 \<and> cchar s 0 = CHR '','' then Some (Inr n)
         else scan_arg flag quote (drop 1 s) (n + 1))
      else if cchar s 0 = CHR 0x22 \<and> flag AND ARGV_NOESC = 0 then Some (Inr n)
      else if cchar s 0 = NUL then Some (Inl err_missing_quote)
      else scan_arg flag quote (drop 1 s) (n + 1))"
  by pat_completeness auto

termination
  by (relation "measure (\<lambda>(f, q, s, n). length s)") (auto intro: drop1_shorter)

declare scan_arg.simps [simp del]

text \<open>The rest of the line after an argument of \<open>n\<close> bytes, less its delimiter.\<close>

definition after_arg :: "string \<Rightarrow> nat \<Rightarrow> string" where
  "after_arg p n = (if cchar (drop n p) 0 \<noteq> NUL then drop (n + 1) p else drop n p)"

lemma after_arg_shorter:
  assumes "cchar s 0 \<noteq> NUL"
  shows "length (after_arg s n) < length s" "length (after_arg (drop (Suc 0) s) n) < length s"
  using assms by (cases s; simp add: after_arg_def split: nat_diff_split; cases n; auto)+

function parse_loop ::
  "u32 \<Rightarrow> string \<Rightarrow> (nat \<Rightarrow> av_cell) \<Rightarrow> nat \<Rightarrow> nat \<Rightarrow> ((nat \<Rightarrow> av_cell) \<times> nat option) option" where
  "parse_loop flag s argv nargv largv =
     (if cchar s 0 = NUL then do {
        vassert (nargv < largv);
        Some (argv(nargv := AvNull), Some nargv)
      }
      else if c_isspace (cchar s 0) then parse_loop flag (drop 1 s) argv nargv largv
      else if flag AND ARGV_COMMENT \<noteq> 0 \<and> cchar s 0 = CHR ''#'' then do {
        vassert (nargv < largv);
        Some (argv(nargv := AvNull), Some nargv)
      }
      else do {
        let quote = (cchar s 0 = CHR 0x22 \<and> flag AND ARGV_NOESC = 0);
        let p = (if quote then drop 1 s else s);
        r \<leftarrow> scan_arg flag quote p 0;
        case r of
          Inl e \<Rightarrow> Some (argv(0 := AvErr e), None)
        | Inr n \<Rightarrow> do {
            let (argv, largv) =
              (if nargv + 1 \<ge> largv
               then (\<lambda>i. if largv \<le> i \<and> i < largv + largv then AvUndef else argv i, largv + largv)
               else (argv, largv));
            vassert (nargv < largv);
            a \<leftarrow> (if flag AND ARGV_NOESC \<noteq> 0 then Some (take n p) else VAV_BackSlashDecode p n);
            parse_loop flag (after_arg p n) (argv(nargv := AvStr a)) (nargv + 1) largv
          }
      })"
  by pat_completeness auto

termination
  by (relation "measure (\<lambda>(f, s, a, n, l). length s)") (auto intro: drop1_shorter after_arg_shorter)

declare parse_loop.simps [simp del]

definition VAV_Parse :: "string \<Rightarrow> u32 \<Rightarrow> ((nat \<Rightarrow> av_cell) \<times> nat option) option" where
  "VAV_Parse s flag = parse_loop flag s (\<lambda>i. if i < 16 then AvNull else AvUndef) 1 16"

text \<open>\<open>VAV_Free\<close> reads cells up to the NULL; reading a cell never written is undefined.\<close>

partial_function (option) free_loop :: "(nat \<Rightarrow> av_cell) \<Rightarrow> nat \<Rightarrow> unit option" where
  "free_loop argv i = (case argv i of AvNull \<Rightarrow> Some () | AvStr _ \<Rightarrow> free_loop argv (i + 1)
     | AvErr _ \<Rightarrow> None | AvUndef \<Rightarrow> None)"

definition VAV_Free :: "(nat \<Rightarrow> av_cell) \<Rightarrow> unit option" where
  "VAV_Free argv = free_loop argv 1"

section \<open>Forwarding a command to the child\<close>

definition VSB_new_auto :: "(int \<Rightarrow> bool) \<Rightarrow> (nat \<Rightarrow> char) \<Rightarrow> vsb option option" where
  "VSB_new_auto mal mem = VSB_new mal True False mem False 0 VSB_AUTOEXTEND"

primrec ask_args :: "(int \<Rightarrow> bool) \<Rightarrow> vsb \<Rightarrow> string list \<Rightarrow> vsb option" where
  "ask_args mal s [] = Some s"
| "ask_args mal s (a # av) = do {
     s \<leftarrow> VSB_quote mal s a;
     (s, _) \<leftarrow> VSB_putc mal s (CHR '' '');
     ask_args mal s av
   }"

text \<open>The bytes \<open>mcf_askchild\<close> writes to the child for the arguments \<open>av[1]\<close>, \<open>av[2]\<close>, ...\<close>

definition mcf_askchild :: "(int \<Rightarrow> bool) \<Rightarrow> (nat \<Rightarrow> char) \<Rightarrow> string list \<Rightarrow> string option" where
  "mcf_askchild mal mem av = do {
     v \<leftarrow> VSB_new_auto mal mem;
     s \<leftarrow> v;
     s \<leftarrow> ask_args mal s av;
     (s, _) \<leftarrow> VSB_putc mal s LF;
     (s, r) \<leftarrow> VSB_finish s;
     vassert (r = 0);
     VSB_data s
   }"

section \<open>Backslash sequences of quoted text\<close>

lemma of_char_oct: "n < 8 \<Longrightarrow> of_char (char_of (48 + n) :: char) = (48 + n :: nat)"
  by simp

lemma is_oct_digit: "n < (8 :: nat) \<Longrightarrow> is_oct (char_of (48 + n))"
  by (simp add: is_oct_def)

lemma is_oct_not:
  "is_oct c \<Longrightarrow> c \<noteq> CHR ''n'' \<and> c \<noteq> CHR ''r'' \<and> c \<noteq> CHR ''t'' \<and> c \<noteq> CHR 0x22 \<and> c \<noteq> CHR 0x5C \<and> c \<noteq> NUL"
  by (auto simp: is_oct_def)

lemma oct_digits_cases:
  assumes "n < 256"
  shows "oct_digits n =
    (if n < 8 then [char_of (48 + n)]
     else if n < 64 then [char_of (48 + n div 8), char_of (48 + n mod 8)]
     else [char_of (48 + n div 64), char_of (48 + n div 8 mod 8), char_of (48 + n mod 8)])"
proof -
  have "n div 8 div 8 = n div 64" by (simp add: div_mult2_eq [symmetric])
  moreover have "n div 64 < 8" "n div 8 < 8 \<longleftrightarrow> n < 64" using assms by auto
  ultimately show ?thesis
    using assms
    by (simp add: oct_digits.simps [of n] oct_digits.simps [of "n div 8"] oct_digits.simps [of "n div 64"])
qed

lemma bs_octal_digits:
  assumes n: "n < 256" and t: "n < 64 \<Longrightarrow> \<not> is_oct (cchar t 0)"
  shows "bs_octal (CHR 0x5C # oct_digits n @ t) 1 0 = (Suc (length (oct_digits n)), n)"
proof -
  have e: "8 * (8 * (n div 64) + n div 8 mod 8) + n mod 8 = n" "8 * (n div 8) + n mod 8 = n"
  proof -
    have "n div 8 div 8 = n div 64" by (simp add: div_mult2_eq [symmetric])
    then have x: "8 * (n div 64) + n div 8 mod 8 = n div 8" using mult_div_mod_eq [of 8 "n div 8"] by simp
    show "8 * (8 * (n div 64) + n div 8 mod 8) + n mod 8 = n" unfolding x by (rule mult_div_mod_eq)
    show "8 * (n div 8) + n mod 8 = n" by (rule mult_div_mod_eq)
  qed
  have d: "n div 64 < 8" "n div 8 mod 8 < 8" "n mod 8 < 8" "n < 64 \<Longrightarrow> n div 8 < 8" using n by auto
  consider "n < 8" | "8 \<le> n" "n < 64" | "64 \<le> n" by linarith
  then show ?thesis
  proof cases
    case 1
    then show ?thesis
      using n t by (simp add: oct_digits_cases bs_octal.simps [of _ "Suc 0"] bs_octal.simps [of _ "Suc (Suc 0)"]
          is_oct_digit)
  next
    case 2
    then show ?thesis
      using n t d e by (simp add: oct_digits_cases bs_octal.simps [of _ "Suc 0"] bs_octal.simps [of _ "Suc (Suc 0)"]
          bs_octal.simps [of _ "Suc (Suc (Suc 0))"] is_oct_digit)
  next
    case 3
    have m: "(8 * (n div 64) + n div 8 mod 8) mod 256 = 8 * (n div 64) + n div 8 mod 8"
      "n div 64 mod 256 = n div 64" using n by auto
    show ?thesis
      using 3 n d e m
      by (simp add: oct_digits_cases bs_octal.simps [of _ "Suc 0"] bs_octal.simps [of _ "Suc (Suc 0)"]
          bs_octal.simps [of _ "Suc (Suc (Suc 0))"] bs_octal.simps [of _ "Suc (Suc (Suc (Suc 0)))"]
          is_oct_digit)
  qed
qed

text \<open>A byte quoted with fewer than three octal digits; a digit after it would be taken for one more.\<close>

definition short_oct :: "char \<Rightarrow> bool" where
  "short_oct c \<longleftrightarrow> of_char c < (32 :: nat) \<and> c \<noteq> LF \<and> c \<noteq> CR \<and> c \<noteq> HTAB"

lemma of_char_space: "of_char c = (32 :: nat) \<longleftrightarrow> c = CHR '' ''"
proof -
  have "of_char (CHR '' '') = (32 :: nat)" by simp
  then show ?thesis by (metis of_char_eq_iff)
qed

lemma quote_text_plain:
  "quote_text c = [c] \<longleftrightarrow> c = CHR '' '' \<or> c_isgraph c \<and> c \<noteq> CHR 0x22 \<and> c \<noteq> CHR 0x5C"
proof -
  have g: "c_isgraph c \<Longrightarrow> c \<noteq> LF \<and> c \<noteq> CR \<and> c \<noteq> HTAB" by (auto simp: c_isgraph_def)
  have "oct_digits (of_char c) \<noteq> []" by (simp add: oct_digits.simps)
  then show ?thesis using g by (auto simp: quote_text_def)
qed

lemma quote_text_escaped:
  assumes "quote_text c \<noteq> [c]" and t: "short_oct c \<Longrightarrow> \<not> is_oct (cchar t 0)"
  shows "VAV_BackSlash (quote_text c @ t) = Some (length (quote_text c), c)"
    "cchar (quote_text c @ t) 0 = CHR 0x5C" "1 < length (quote_text c)"
proof -
  consider "c = CHR 0x5C \<or> c = CHR 0x22 \<or> c = LF \<or> c = CR \<or> c = HTAB"
    | "quote_text c = CHR 0x5C # oct_digits (of_char c)" "\<not> c_isgraph c" "c \<noteq> CHR '' ''"
      "c \<noteq> LF \<and> c \<noteq> CR \<and> c \<noteq> HTAB"
    using assms(1) by (auto simp: quote_text_def split: if_splits)
  then have "VAV_BackSlash (quote_text c @ t) = Some (length (quote_text c), c) \<and>
    cchar (quote_text c @ t) 0 = CHR 0x5C \<and> 1 < length (quote_text c)"
  proof cases
    case 1
    then show ?thesis by (auto simp: quote_text_def VAV_BackSlash_def)
  next
    case 2
    let ?n = "of_char c :: nat"
    have "short_oct c" if "of_char c < (64 :: nat)"
    proof -
      have "of_char c \<noteq> (32 :: nat)" using 2(3) of_char_space by blast
      moreover have "\<not> 33 \<le> (of_char c :: nat)" using 2(2) that by (simp add: c_isgraph_def)
      ultimately show ?thesis using 2(4) by (simp add: short_oct_def)
    qed
    with bs_octal_digits [of ?n t] t have b:
      "bs_octal (CHR 0x5C # oct_digits ?n @ t) 1 0 = (Suc (length (oct_digits ?n)), ?n)" by simp
    have ne: "oct_digits ?n \<noteq> []" by (simp add: oct_digits.simps)
    then have hd: "is_oct (cchar (oct_digits ?n @ t) 0)"
    proof -
      have "?n < 256" by simp
      then have "?n div 64 < 8" by (simp only: less_mult_imp_div_less)
      then show ?thesis by (simp add: oct_digits_cases is_oct_digit split: if_splits)
    qed
    then show ?thesis
      using b ne is_oct_not [OF hd] by (simp add: 2(1) VAV_BackSlash_def)
  qed
  then show "VAV_BackSlash (quote_text c @ t) = Some (length (quote_text c), c)"
    "cchar (quote_text c @ t) 0 = CHR 0x5C" "1 < length (quote_text c)" by auto
qed

section \<open>Parsing a quoted argument back\<close>

fun oct_safe :: "string \<Rightarrow> bool" where
  "oct_safe (c # d # r) \<longleftrightarrow> \<not> (short_oct c \<and> is_oct d) \<and> oct_safe (d # r)"
| "oct_safe _ \<longleftrightarrow> True"

abbreviation qtext :: "string \<Rightarrow> string" where
  "qtext p \<equiv> concat (map quote_text p)"

lemma quote_text_hd: "\<not> is_oct d \<Longrightarrow> \<not> is_oct (cchar (quote_text d @ t) 0)"
  by (auto simp: quote_text_def is_oct_def)

lemma oct_safe_next:
  assumes "oct_safe (c # p)" and "short_oct c"
  shows "\<not> is_oct (cchar (qtext p @ CHR 0x22 # t) 0)"
  using assms quote_text_hd by (cases p) (auto simp: is_oct_def)

lemma oct_safe_tl: "oct_safe (c # p) \<Longrightarrow> oct_safe p"
  by (cases p) auto

lemma scan_quoted:
  assumes "oct_safe p" and "NUL \<notin> set p"
  shows "scan_arg 0 True (qtext p @ CHR 0x22 # t) k = Some (Inr (k + length (qtext p)))"
  using assms
proof (induction p arbitrary: k)
  case Nil
  then show ?case by (simp add: scan_arg.simps)
next
  case (Cons c p)
  let ?rest = "qtext p @ CHR 0x22 # t"
  have IH: "scan_arg 0 True ?rest j = Some (Inr (j + length (qtext p)))" for j
    using Cons oct_safe_tl by auto
  show ?case
  proof (cases "quote_text c = [c]")
    case True
    then have "c \<noteq> CHR 0x5C" "c \<noteq> CHR 0x22" by (auto simp: quote_text_plain)
    moreover have "c \<noteq> NUL" using Cons.prems(2) by auto
    ultimately show ?thesis using True IH by (subst scan_arg.simps) simp
  next
    case False
    have q: "VAV_BackSlash (quote_text c @ ?rest) = Some (length (quote_text c), c)"
      "cchar (quote_text c @ ?rest) 0 = CHR 0x5C" "1 < length (quote_text c)"
      using quote_text_escaped [OF False, of ?rest] oct_safe_next [OF Cons.prems(1)] by auto
    then have "quote_text c \<noteq> []" by auto
    with q show ?thesis
      using IH [of "k + length (quote_text c)"] by (subst scan_arg.simps) (simp add: add.assoc)
  qed
qed

lemma decode_quoted:
  assumes "oct_safe p"
  shows "VAV_BackSlashDecode (qtext p @ CHR 0x22 # t) (length (qtext p)) = Some p"
  using assms
proof (induction p)
  case Nil
  then show ?case by (simp add: VAV_BackSlashDecode.simps)
next
  case (Cons c p)
  let ?rest = "qtext p @ CHR 0x22 # t"
  have IH: "VAV_BackSlashDecode ?rest (length (qtext p)) = Some p"
    using Cons oct_safe_tl by auto
  show ?case
  proof (cases "quote_text c = [c]")
    case True
    then have "c \<noteq> CHR 0x5C" by (auto simp: quote_text_plain)
    then show ?thesis using True IH by (subst VAV_BackSlashDecode.simps) simp
  next
    case False
    have q: "VAV_BackSlash (quote_text c @ ?rest) = Some (length (quote_text c), c)"
      "cchar (quote_text c @ ?rest) 0 = CHR 0x5C" "1 < length (quote_text c)"
      using quote_text_escaped [OF False, of ?rest] oct_safe_next [OF Cons.prems(1)] by auto
    then have "quote_text c \<noteq> []" by auto
    with q IH show ?thesis by (subst VAV_BackSlashDecode.simps) simp
  qed
qed

lemma plain_arg:
  assumes "\<not> quote_needed p"
  shows "scan_arg 0 False (p @ CHR '' '' # t) k = Some (Inr (k + length p))"
    "VAV_BackSlashDecode (p @ u) (length p) = Some p"
  using assms
proof (induction p arbitrary: k)
  case Nil
  { case 1 show ?case by (simp add: scan_arg.simps c_isspace_def) }
  { case 2 show ?case by (simp add: VAV_BackSlashDecode.simps) }
next
  case (Cons c p)
  have c: "\<not> quote_needed p" "c_isgraph c" "c \<noteq> CHR 0x22" "c \<noteq> CHR 0x5C"
    if "\<not> quote_needed (c # p)" using that by (auto simp: quote_needed_def)
  have "\<not> c_isspace c" "c \<noteq> NUL" if "c_isgraph c" using that by (auto simp: c_isgraph_def c_isspace_def)
  note c = c this
  { case 1 then show ?case using Cons.IH(1) c by (subst scan_arg.simps) simp }
  { case 2 then show ?case using Cons.IH(2) c by (subst VAV_BackSlashDecode.simps) simp }
qed

definition good_arg :: "string \<Rightarrow> bool" where
  "good_arg a \<longleftrightarrow> a \<noteq> [] \<and> NUL \<notin> set a \<and> oct_safe a"

definition grow_argv :: "(nat \<Rightarrow> av_cell) \<Rightarrow> nat \<Rightarrow> nat \<Rightarrow> (nat \<Rightarrow> av_cell) \<times> nat" where
  "grow_argv argv nargv largv =
     (if nargv + 1 \<ge> largv
      then (\<lambda>i. if largv \<le> i \<and> i < largv + largv then AvUndef else argv i, largv + largv)
      else (argv, largv))"

lemma parse_one:
  assumes "good_arg a" and "nargv < largv"
  shows "parse_loop 0 (quoted a @ CHR '' '' # t) argv nargv largv =
    (case grow_argv argv nargv largv of
       (argv', largv') \<Rightarrow> parse_loop 0 t (argv'(nargv := AvStr a)) (nargv + 1) largv')"
proof (cases "quote_needed a")
  case True
  have s: "scan_arg 0 True (qtext a @ CHR 0x22 # CHR '' '' # t) 0 = Some (Inr (length (qtext a)))"
    "VAV_BackSlashDecode (qtext a @ CHR 0x22 # CHR '' '' # t) (length (qtext a)) = Some a"
    using scan_quoted [of a "CHR '' '' # t" 0] decode_quoted [of a "CHR '' '' # t"] assms(1)
    by (auto simp: good_arg_def)
  have sp: "parse_loop 0 (CHR '' '' # t) av n l = parse_loop 0 t av n l" for av n l
    by (subst parse_loop.simps) (simp add: c_isspace_def)
  show ?thesis
    using True s assms(2)
    by (subst parse_loop.simps)
      (auto simp: quoted_def c_isspace_def after_arg_def sp grow_argv_def Let_def)
next
  case False
  have s: "scan_arg 0 False (a @ CHR '' '' # t) 0 = Some (Inr (length a))"
    "VAV_BackSlashDecode (a @ CHR '' '' # t) (length a) = Some a"
    using plain_arg(1) [OF False, of _ 0] plain_arg(2) [OF False] by auto
  obtain c r where a: "a = c # r" using assms(1) by (cases a) (auto simp: good_arg_def)
  then have c: "c \<noteq> CHR 0x22" "\<not> c_isspace c" "c \<noteq> NUL"
    using False by (auto simp: quote_needed_def c_isgraph_def c_isspace_def)
  have af: "after_arg (a @ CHR '' '' # t) (length a) = t" by (simp add: after_arg_def)
  show ?thesis
    using False s c a assms(2) af
    by (subst parse_loop.simps) (auto simp: quoted_def grow_argv_def Let_def)
qed

lemma parse_args:
  assumes "\<forall>a \<in> set av. good_arg a" and "nargv < largv"
  shows "\<exists>argv'. parse_loop 0 (concat (map (\<lambda>a. quoted a @ '' '') av)) argv nargv largv
      = Some (argv', Some (nargv + length av)) \<and> (\<forall>i < nargv. argv' i = argv i) \<and>
    (\<forall>i < length av. argv' (nargv + i) = AvStr (av ! i)) \<and> argv' (nargv + length av) = AvNull"
  using assms
proof (induction av arbitrary: argv nargv largv)
  case Nil
  then show ?case by (subst parse_loop.simps) simp
next
  case (Cons a av)
  obtain argv1 largv1 where g: "grow_argv argv nargv largv = (argv1, largv1)" by (metis surj_pair)
  then have g1: "nargv + 1 < largv1" "\<forall>i < nargv. argv1 i = argv i"
    using Cons.prems(2) by (auto simp: grow_argv_def split: if_splits)
  let ?argv = "argv1(nargv := AvStr a)"
  obtain argv' where i: "parse_loop 0 (concat (map (\<lambda>a. quoted a @ '' '') av)) ?argv (nargv + 1) largv1
      = Some (argv', Some (nargv + 1 + length av))" "\<forall>i < nargv + 1. argv' i = ?argv i"
    "\<forall>i < length av. argv' (nargv + 1 + i) = AvStr (av ! i)" "argv' (nargv + 1 + length av) = AvNull"
  proof -
    have "\<forall>x \<in> set av. good_arg x" using Cons.prems(1) by simp
    from Cons.IH [OF this g1(1), of ?argv] show thesis using that by blast
  qed
  have "parse_loop 0 (concat (map (\<lambda>a. quoted a @ '' '') (a # av))) argv nargv largv
      = Some (argv', Some (nargv + length (a # av)))"
    using parse_one [of a nargv largv _ argv] Cons.prems g i(1) by simp
  moreover have "argv' (nargv + i) = AvStr ((a # av) ! i)" if "i < length (a # av)" for i
    using i(2,3) that by (cases i) auto
  ultimately show ?case using i(2,4) g1(2) by (intro exI [of _ argv']) auto
qed

lemma free_args:
  assumes "\<forall>i < n. \<exists>a. argv (k + i) = AvStr a" and "argv (k + n) = AvNull"
  shows "free_loop argv k = Some ()"
  using assms
proof (induction n arbitrary: k)
  case 0
  then show ?case by (subst free_loop.simps) simp
next
  case (Suc n)
  obtain a where a: "argv k = AvStr a" using Suc.prems(1) by force
  have "free_loop argv (k + 1) = Some ()"
  proof (rule Suc.IH)
    show "\<forall>i < n. \<exists>a. argv (k + 1 + i) = AvStr a" using Suc.prems(1) by force
  qed (use Suc.prems(2) in simp)
  then show ?case using a by (subst free_loop.simps) simp
qed

definition args_len :: "string list \<Rightarrow> nat" where
  "args_len av = sum_list (map (\<lambda>a. 4 * length a + 3) av)"

lemma quoted_len: "length (quoted a) \<le> 4 * length a + 2"
proof -
  have "length (qtext a) \<le> 4 * length a"
    by (induction a) (use quote_text_len in \<open>auto simp: add_le_mono\<close>)
  then show ?thesis by (simp add: quoted_def)
qed

lemma ask_args_auto:
  assumes "auto_ok s" and "s_len s + int (args_len av) \<le> 2 ^ 30"
  shows "\<exists>s'. ask_args mem_ok s av = Some s' \<and> appends s (concat (map (\<lambda>a. quoted a @ '' '') av)) s'"
  using assms
proof (induction av arbitrary: s)
  case Nil
  then show ?case by (simp add: appends_def)
next
  case (Cons a av)
  then have "s_len s + 4 * int (length a) + 2 \<le> 2 ^ 30" by (simp add: args_len_def)
  with VSB_quote_auto [OF Cons.prems(1)] obtain s1 where
    s1: "VSB_quote mem_ok s a = Some s1" "appends s (quoted a) s1" by blast
  have l1: "s_len s1 + int (args_len av) + 1 \<le> 2 ^ 30"
    using appends_len [OF s1(2)] quoted_len [of a] Cons.prems(2) by (simp add: args_len_def)
  then obtain s2 where s2: "VSB_putc mem_ok s1 (CHR '' '') = Some (s2, 0)" "appends s1 '' '' s2"
    using putc_auto [OF appends_auto [OF s1(2)], of "CHR '' ''"] by auto
  have "s_len s2 + int (args_len av) \<le> 2 ^ 30" using l1 appends_len [OF s2(2)] by simp
  with Cons.IH [OF appends_auto [OF s2(2)]] obtain s3 where
    "ask_args mem_ok s2 av = Some s3" "appends s2 (concat (map (\<lambda>a. quoted a @ '' '') av)) s3" by blast
  then show ?case
    using s1 s2 appends_trans [OF s1(2) appends_trans [OF s2(2)]] by auto
qed

lemma new_auto: "\<exists>s. VSB_new_auto mem_ok mem = Some (Some s) \<and> auto_ok s \<and> vsb_str s = [] \<and> s_len s = 0"
proof -
  obtain n where n: "VSB_extendsize 0 = Some n" "16 \<le> n" "n \<le> 4096"
    using extendsize_spec [of 0] by auto
  let ?s = "\<lparr>s_buf = mem, s_error = 0, s_size = n, s_len = 0,
      s_flags = VSB_AUTOEXTEND OR VSB_DYNAMIC OR VSB_DYNSTRUCT\<rparr>"
  have "VSB_new_auto mem_ok mem = Some (Some ?s)"
    using n(1) by (simp add: VSB_new_auto_def VSB_new_def VSB_newbuf_def VSB_AUTOEXTEND_def VSB_USRFLAGMSK_def
        or.assoc)
  moreover have "VSB_AUTOEXTEND AND VSB_FINISHED = 0" "VSB_AUTOEXTEND AND VSB_AUTOEXTEND \<noteq> 0"
    by (simp_all add: VSB_AUTOEXTEND_def VSB_FINISHED_def)
  then have "auto_ok ?s"
    using n by (simp add: auto_ok_def vsb_ok_def VSB_CANEXTEND_def or.assoc [symmetric])
  ultimately show ?thesis by (auto simp: vsb_str_def)
qed

lemma finish_data:
  assumes "auto_ok s" and "NUL \<notin> set (vsb_str s)"
  shows "\<exists>s'. VSB_finish s = Some (s', 0) \<and> VSB_data s' = Some (vsb_str s)"
proof -
  let ?n = "nat (s_len s)"
  let ?s = "s\<lparr>s_buf := (s_buf s)(?n := NUL), s_flags := s_flags s OR VSB_FINISHED\<rparr>"
  have l: "0 \<le> s_len s" "s_len s < s_size s" using assms(1) by (auto simp: auto_ok_def vsb_ok_def)
  have "VSB_finish s = Some (?s, 0)" using auto_asserts [OF assms(1)] by (simp add: VSB_finish_def)
  moreover have "[0..<nat (s_size s)] = [0..<?n] @ ?n # [Suc ?n..<nat (s_size s)]"
    using l by (metis nat_mono_iff le0 less_eq_nat.simps(1) not_less order.strict_trans1 upt_add_eq_append
        upt_conv_Cons le_add_diff_inverse less_imp_le)
  then have "map (s_buf ?s) [0..<nat (s_size s)] = vsb_str s @ NUL # map (s_buf s) [Suc ?n..<nat (s_size s)]"
    by (auto simp: vsb_str_def)
  then have "VSB_data ?s = Some (vsb_str s)"
    using l assms(2) by (simp add: VSB_data_def assert_VSB_integrity_def assert_VSB_state_def cstr_append)
  ultimately show ?thesis by blast
qed

lemma quote_text_clean: "c \<noteq> NUL \<Longrightarrow> NUL \<notin> set (quote_text c) \<and> LF \<notin> set (quote_text c)"
proof -
  have d: "\<forall>d \<in> set (oct_digits n). is_oct d" for n
    by (induction n rule: oct_digits.induct) (subst oct_digits.simps, auto simp: is_oct_digit)
  have "NUL \<notin> set (oct_digits n)" "LF \<notin> set (oct_digits n)" for n
    using d [of n] by (auto simp: is_oct_def)
  then show "c \<noteq> NUL \<Longrightarrow> ?thesis" by (auto simp: quote_text_def)
qed

lemma quoted_clean:
  assumes "NUL \<notin> set a"
  shows "NUL \<notin> set (quoted a) \<and> LF \<notin> set (quoted a)"
proof (cases "quote_needed a")
  case False
  then have "\<forall>c \<in> set a. c_isgraph c" by (auto simp: quote_needed_def list_ex_iff)
  moreover have "\<not> c_isgraph LF" by (simp add: c_isgraph_def)
  ultimately show ?thesis using False assms by (auto simp: quoted_def)
next
  case True
  have "\<forall>c \<in> set a. NUL \<notin> set (quote_text c) \<and> LF \<notin> set (quote_text c)"
    using assms quote_text_clean by metis
  then show ?thesis using True by (auto simp: quoted_def)
qed

lemma line_len: "length (concat (map (\<lambda>a. quoted a @ '' '') av)) \<le> args_len av"
proof (induction av)
  case (Cons a av)
  then show ?case using quoted_len [of a] by (simp add: args_len_def)
qed (simp add: args_len_def)

text \<open>
  C21.  A command the manager forwards reaches the child unchanged: \<open>mcf_askchild\<close>
  writes one line (the only newline is the last byte), and \<open>VAV_Parse\<close> of that line in
  the child gives back exactly the arguments, an argument count and an array that
  \<open>VAV_Free\<close> can walk.  This needs every argument to be nonempty, without NUL, and without a
  control byte followed by an octal digit: \<open>VSB_quote\<close> writes neither empty
  arguments nor leading zeros of octal escapes.
\<close>

theorem askchild_roundtrip:
  assumes good: "\<forall>a \<in> set av. good_arg a" and len: "args_len av < 2 ^ 30"
  shows "\<exists>line argv. mcf_askchild mem_ok mem av = Some (line @ [LF]) \<and> LF \<notin> set line \<and>
    VAV_Parse line 0 = Some (argv, Some (1 + length av)) \<and> argv 0 = AvNull \<and>
    (\<forall>i < length av. argv (1 + i) = AvStr (av ! i)) \<and> argv (1 + length av) = AvNull \<and>
    VAV_Free argv = Some ()"
proof -
  let ?line = "concat (map (\<lambda>a. quoted a @ '' '') av)"
  obtain s0 where s0: "VSB_new_auto mem_ok mem = Some (Some s0)" "auto_ok s0" "vsb_str s0 = []" "s_len s0 = 0"
    using new_auto by blast
  obtain s1 where s1: "ask_args mem_ok s0 av = Some s1" "appends s0 ?line s1"
    using ask_args_auto [OF s0(2)] s0(4) len by force
  obtain s2 where s2: "VSB_putc mem_ok s1 LF = Some (s2, 0)" "appends s1 [LF] s2"
    using putc_auto [OF appends_auto [OF s1(2)], of LF] appends_len [OF s1(2)] s0(4) len
      line_len [of av] by force
  have clean: "NUL \<notin> set ?line" "LF \<notin> set ?line" using good quoted_clean by (auto simp: good_arg_def)
  have str: "vsb_str s2 = ?line @ [LF]" using s1(2) s2(2) s0(3) by (simp add: appends_def)
  then obtain s3 where "VSB_finish s2 = Some (s3, 0)" "VSB_data s3 = Some (?line @ [LF])"
    using finish_data [OF appends_auto [OF s2(2)]] clean by auto
  then have "mcf_askchild mem_ok mem av = Some (?line @ [LF])"
    using s0(1) s1(1) s2(1) by (simp add: mcf_askchild_def)
  moreover obtain argv where "VAV_Parse ?line 0 = Some (argv, Some (1 + length av))" "argv 0 = AvNull"
    "\<forall>i < length av. argv (1 + i) = AvStr (av ! i)" "argv (1 + length av) = AvNull"
    using parse_args [OF good, of 1 16, where argv = "\<lambda>i. if i < 16 then AvNull else AvUndef"]
    by (auto simp: VAV_Parse_def)
  moreover from this have "VAV_Free argv = Some ()"
    unfolding VAV_Free_def by (intro free_args [of "length av"]) auto
  ultimately show ?thesis using clean by blast
qed

theorem askchild_roundtrip_witness:
  "\<exists>line argv. mcf_askchild mem_ok (\<lambda>_. NUL) [''ban.url'', ''a b'', [CHR 0x01, CHR ''x'']] = Some (line @ [LF]) \<and>
    VAV_Parse line 0 = Some (argv, Some 4) \<and> argv 2 = AvStr ''a b'' \<and> VAV_Free argv = Some ()"
proof -
  let ?av = "[''ban.url'', ''a b'', [CHR 0x01, CHR ''x'']]"
  have "\<forall>a \<in> set ?av. good_arg a" "args_len ?av < 2 ^ 30"
    by (auto simp: good_arg_def short_oct_def is_oct_def args_len_def)
  from askchild_roundtrip [OF this, of "\<lambda>_. NUL"] show ?thesis
    by (auto simp: eval_nat_numeral)
qed

section \<open>Safety of the parser\<close>

text \<open>No backslash is followed by an \<open>x\<close>.\<close>

definition no_hex :: "string \<Rightarrow> bool" where
  "no_hex s \<longleftrightarrow> (\<forall>i. cchar s i = CHR 0x5C \<longrightarrow> cchar s (Suc i) \<noteq> CHR ''x'')"

lemma cchar_drop: "cchar (drop k s) i = cchar s (k + i)"
  by (auto simp: cchar_def)

lemma no_hex_drop: "no_hex s \<Longrightarrow> no_hex (drop k s)"
  by (simp add: no_hex_def cchar_drop)

lemma cchar_len: "cchar s i \<noteq> NUL \<Longrightarrow> i < length s"
  by (auto simp: cchar_def split: if_splits)

lemma bs_octal_len:
  assumes "r \<le> length s" and "bs_octal s r c = (r', c')"
  shows "r' \<le> length s"
  using assms
proof (induction s r c rule: bs_octal.induct)
  case (1 s r c)
  show ?case
  proof (cases "r < 4 \<and> is_oct (cchar s r)")
    case True
    then have "r + 1 \<le> length s" using cchar_len [of s r] is_oct_not by auto
    then show ?thesis using 1(1) [OF True] 1(3) True bs_octal.simps [of s r c] by simp
  next
    case False
    then show ?thesis using 1(2,3) bs_octal.simps [of s r c] by (auto split: if_splits)
  qed
qed

lemma backslash_total:
  assumes "no_hex s" and "cchar s 0 = CHR 0x5C"
  shows "\<exists>i c. VAV_BackSlash s = Some (i, c) \<and> i \<le> length s"
proof -
  have nx: "cchar s 1 \<noteq> CHR ''x''" using assms by (simp add: no_hex_def)
  have l1: "cchar s 1 \<noteq> NUL \<Longrightarrow> 2 \<le> length s" using cchar_len [of s 1] by simp
  have "\<exists>i c. VAV_BackSlash s = Some (i, c) \<and> i \<le> length s" if "is_oct (cchar s 1)"
  proof -
    obtain r c where b: "bs_octal s 1 0 = (r, c)" by (metis surj_pair)
    have "2 \<le> length s" using is_oct_not [OF that] l1 by blast
    then have "r \<le> length s" using bs_octal_len [OF _ b] by simp
    then show ?thesis using b is_oct_not [OF that] that assms(2) by (simp add: VAV_BackSlash_def)
  qed
  then show ?thesis using assms(2) nx l1 by (cases "is_oct (cchar s 1)") (auto simp: VAV_BackSlash_def)
qed

lemma scan_arg_total:
  assumes "flag AND ARGV_NOESC = 0 \<Longrightarrow> no_hex s"
  shows "\<exists>r. scan_arg flag quote s n = Some r"
  using assms
proof (induction flag quote s n rule: scan_arg.induct)
  case (1 flag quote s n)
  show ?case
  proof (cases "cchar s 0 = CHR 0x5C \<and> flag AND ARGV_NOESC = 0")
    case True
    with backslash_total [of s] 1(4) obtain i c where
      b: "VAV_BackSlash s = Some (i, c)" "i \<le> length s" by blast
    show ?thesis
    proof (cases "i = 0")
      case False
      then have "\<exists>r. scan_arg flag quote (drop i s) (n + i) = Some r"
        using 1(1) [OF True b(1) refl] b False 1(4) no_hex_drop by fastforce
      then show ?thesis using b True False by (subst scan_arg.simps) simp
    qed (use b True in \<open>subst scan_arg.simps, simp\<close>)
  next
    case False
    then show ?thesis
      using 1(2,3) [OF False] 1(4) no_hex_drop [of s 1]
      by (subst scan_arg.simps) auto
  qed
qed

lemma decode_scanned:
  assumes "flag AND ARGV_NOESC = 0" and "scan_arg flag quote s n = Some (Inr m)"
  shows "n \<le> m \<and> (\<exists>a. VAV_BackSlashDecode s (m - n) = Some a)"
  using assms
proof (induction flag quote s n rule: scan_arg.induct)
  case (1 flag quote s n)
  show ?case
  proof (cases "cchar s 0 = CHR 0x5C")
    case True
    with 1(4,5) obtain i c where b: "VAV_BackSlash s = Some (i, c)" "i \<noteq> 0" "i \<le> length s"
      "scan_arg flag quote (drop i s) (n + i) = Some (Inr m)"
      by (subst (asm) scan_arg.simps) (auto split: bind_splits if_splits prod.splits)
    with 1(1) [OF _ b(1) refl] True 1(4) obtain a where
      "n + i \<le> m" "VAV_BackSlashDecode (drop i s) (m - (n + i)) = Some a" by auto
    then show ?thesis
      using b True by (subst VAV_BackSlashDecode.simps) (auto simp: diff_diff_add)
  next
    case False
    show ?thesis
    proof (cases "m = n")
      case True
      then show ?thesis by (subst VAV_BackSlashDecode.simps) simp
    next
      case mn: False
      then have "scan_arg flag quote (drop 1 s) (n + 1) = Some (Inr m)"
        using 1(4,5) False by (subst (asm) scan_arg.simps) (auto split: if_splits)
      moreover have "n + 1 \<le> m \<and> (\<exists>a. VAV_BackSlashDecode (drop 1 s) (m - (n + 1)) = Some a)"
        using 1(2,3) 1(4,5) False mn calculation
        by (subst (asm) (3) scan_arg.simps) (auto split: if_splits)
      ultimately show ?thesis using False by (subst VAV_BackSlashDecode.simps) auto
    qed
  qed
qed

text \<open>The cells of the result array: the arguments so far, and room for the final NULL.\<close>

definition argv_ok :: "(nat \<Rightarrow> av_cell) \<Rightarrow> nat \<Rightarrow> nat \<Rightarrow> bool" where
  "argv_ok argv nargv largv \<longleftrightarrow> 1 \<le> nargv \<and> nargv < largv \<and> argv 0 = AvNull \<and>
     (\<forall>i. 1 \<le> i \<and> i < nargv \<longrightarrow> (\<exists>a. argv i = AvStr a))"

lemma parse_total:
  assumes "flag AND ARGV_NOESC = 0 \<Longrightarrow> no_hex s" and "argv_ok argv nargv largv"
  shows "\<exists>argv' r. parse_loop flag s argv nargv largv = Some (argv', r) \<and>
    (case r of None \<Rightarrow> (\<exists>e. argv' 0 = AvErr e)
     | Some n \<Rightarrow> argv' 0 = AvNull \<and> nargv \<le> n \<and> argv' n = AvNull \<and>
         (\<forall>i. 1 \<le> i \<and> i < n \<longrightarrow> (\<exists>a. argv' i = AvStr a)))"
  using assms
proof (induction flag s argv nargv largv rule: parse_loop.induct)
  case (1 flag s argv nargv largv)
  note ok = 1(4)
  show ?case
  proof (cases "cchar s 0 = NUL \<or> (\<not> c_isspace (cchar s 0) \<and> flag AND ARGV_COMMENT \<noteq> 0 \<and> cchar s 0 = CHR ''#'')")
    case True
    then show ?thesis using ok by (subst parse_loop.simps) (auto simp: argv_ok_def)
  next
    case more: False
    show ?thesis
    proof (cases "c_isspace (cchar s 0)")
      case True
      then show ?thesis using 1(1) [OF _ True] more 1(3) ok no_hex_drop by (subst parse_loop.simps) auto
    next
      case False
      define quote where "quote \<longleftrightarrow> cchar s 0 = CHR 0x22 \<and> flag AND ARGV_NOESC = 0"
      define p where "p = (if quote then drop 1 s else s)"
      have hp: "no_hex p" if "flag AND ARGV_NOESC = 0" using that 1(3) no_hex_drop by (simp add: p_def)
      obtain r where r: "scan_arg flag quote p 0 = Some r" using scan_arg_total hp by blast
      have ev: "parse_loop flag s argv nargv largv = (case r of
          Inl e \<Rightarrow> Some (argv(0 := AvErr e), None)
        | Inr n \<Rightarrow> (case grow_argv argv nargv largv of (argv, largv) \<Rightarrow> do {
            vassert (nargv < largv);
            a \<leftarrow> (if flag AND ARGV_NOESC \<noteq> 0 then Some (take n p) else VAV_BackSlashDecode p n);
            parse_loop flag (after_arg p n) (argv(nargv := AvStr a)) (nargv + 1) largv
          }))"
        unfolding parse_loop.simps [of flag s] unfolding quote_def [symmetric] unfolding Let_def
        unfolding p_def [symmetric] grow_argv_def using more False r by (auto split: sum.splits)
      show ?thesis
      proof (cases r)
        case (Inl e)
        then show ?thesis using ev by auto
      next
        case (Inr n)
        obtain argv1 largv1 where g: "grow_argv argv nargv largv = (argv1, largv1)" by (metis surj_pair)
        have "\<exists>a. (if flag AND ARGV_NOESC \<noteq> 0 then Some (take n p) else VAV_BackSlashDecode p n) = Some a"
          using decode_scanned [of flag quote p 0 n] r Inr by auto
        then obtain a where a: "(if flag AND ARGV_NOESC \<noteq> 0 then Some (take n p)
            else VAV_BackSlashDecode p n) = Some a" by blast
        have ok1: "argv_ok (argv1(nargv := AvStr a)) (nargv + 1) largv1" "nargv < largv1"
          using g ok by (auto simp: argv_ok_def grow_argv_def less_Suc_eq split: if_splits)
        have hx: "flag AND ARGV_NOESC = 0 \<Longrightarrow> no_hex (after_arg p n)"
          using hp no_hex_drop by (simp add: after_arg_def)
        have m: "cchar s 0 \<noteq> NUL" "\<not> (flag AND ARGV_COMMENT \<noteq> 0 \<and> cchar s 0 = CHR ''#'')"
          using more False by auto
        have g': "(argv1, largv1) = (if largv \<le> nargv + 1
            then (\<lambda>i. if largv \<le> i \<and> i < largv + largv then AvUndef else argv i, largv + largv)
            else (argv, largv))" using g by (simp add: grow_argv_def)
        have va: "vassert (nargv < largv1) = Some ()" using ok1(2) by simp
        have "\<exists>argv' r. parse_loop flag (after_arg p n) (argv1(nargv := AvStr a)) (nargv + 1) largv1
            = Some (argv', r) \<and> (case r of None \<Rightarrow> (\<exists>e. argv' 0 = AvErr e)
             | Some m \<Rightarrow> argv' 0 = AvNull \<and> nargv + 1 \<le> m \<and> argv' m = AvNull \<and>
                 (\<forall>i. 1 \<le> i \<and> i < m \<longrightarrow> (\<exists>a. argv' i = AvStr a)))"
          by (rule 1(2) [OF m(1) False m(2) quote_def p_def r Inr g' refl va a hx ok1(1)])
        then obtain argv' r' where i: "parse_loop flag s argv nargv largv = Some (argv', r')"
          "case r' of None \<Rightarrow> (\<exists>e. argv' 0 = AvErr e)
             | Some m \<Rightarrow> argv' 0 = AvNull \<and> nargv + 1 \<le> m \<and> argv' m = AvNull \<and>
                 (\<forall>i. 1 \<le> i \<and> i < m \<longrightarrow> (\<exists>a. argv' i = AvStr a))"
          using ev Inr g a ok1(2) by auto
        then show ?thesis by (intro exI [of _ argv'] exI [of _ r']) (auto split: option.splits)
      qed
    qed
  qed
qed

text \<open>
  C22.  \<open>VAV_Parse\<close> is safe on every line in which no backslash is followed by \<open>x\<close> (or
  with \<open>ARGV_NOESC\<close>): it never reads beyond the terminating NUL, never writes outside the
  array and fails no assertion.  It either stores an error in \<open>argv[0]\<close>, or returns a count
  and an array whose cells are the arguments followed by NULL, so that \<open>VAV_Free\<close>
  returns.
\<close>

theorem VAV_Parse_safe:
  assumes "flag AND ARGV_NOESC \<noteq> 0 \<or> no_hex s"
  shows "\<exists>argv r. VAV_Parse s flag = Some (argv, r) \<and>
    (case r of None \<Rightarrow> (\<exists>e. argv 0 = AvErr e)
     | Some n \<Rightarrow> argv 0 = AvNull \<and> 1 \<le> n \<and> argv n = AvNull \<and>
         (\<forall>i. 1 \<le> i \<and> i < n \<longrightarrow> (\<exists>a. argv i = AvStr a)) \<and> VAV_Free argv = Some ())"
proof -
  have "argv_ok (\<lambda>i. if i < 16 then AvNull else AvUndef) 1 16" by (simp add: argv_ok_def)
  then obtain argv r where p: "VAV_Parse s flag = Some (argv, r)"
    "case r of None \<Rightarrow> (\<exists>e. argv 0 = AvErr e)
     | Some n \<Rightarrow> argv 0 = AvNull \<and> 1 \<le> n \<and> argv n = AvNull \<and>
         (\<forall>i. 1 \<le> i \<and> i < n \<longrightarrow> (\<exists>a. argv i = AvStr a))"
    using parse_total [of flag s _ 1 16] assms unfolding VAV_Parse_def by blast
  moreover have "VAV_Free argv = Some ()" if "r = Some n" for n
    unfolding VAV_Free_def
  proof (rule free_args [of "n - 1"])
    have "1 \<le> n" "argv n = AvNull" "\<forall>i. 1 \<le> i \<and> i < n \<longrightarrow> (\<exists>a. argv i = AvStr a)" using p(2) that by auto
    then show "\<forall>i < n - 1. \<exists>a. argv (1 + i) = AvStr a" "argv (1 + (n - 1)) = AvNull" by auto
  qed
  ultimately show ?thesis by (auto split: option.splits)
qed

theorem VAV_Parse_safe_witness:
  "\<exists>argv r. VAV_Parse [CHR ''a'', CHR 0x5C] 0 = Some (argv, r) \<and> (r = None \<longrightarrow> (\<exists>e. argv 0 = AvErr e))"
proof -
  have "no_hex [CHR ''a'', CHR 0x5C]" by (auto simp: no_hex_def cchar_def nth_Cons')
  with VAV_Parse_safe [of 0 "[CHR ''a'', CHR 0x5C]"] show ?thesis by (auto split: option.splits)
qed

text \<open>
  Where it is not safe: \<open>VAV_BackSlash\<close> returns 4 for every hexadecimal sequence, even one of
  a single digit at the end of the line, and \<open>sscanf\<close> accepts a sign.
\<close>

lemma hex_sequences_break:
  "VAV_Parse [CHR 0x5C, CHR ''x'', CHR ''1''] 0 = None"
  "VAV_Parse [CHR 0x5C, CHR ''x'', CHR ''-'', CHR ''1''] 0 = None"
  by code_simp+

text \<open>An empty argument and a control byte before a digit do not survive the forwarding.\<close>

lemma askchild_changes_arguments:
  "quoted [] = []"
  "map_option snd (VAV_Parse (quoted [CHR 0x01, CHR ''2''] @ '' '') 0) = Some (Some 2)"
  "map_option (\<lambda>(av, _). av 1) (VAV_Parse (quoted [CHR 0x01, CHR ''2''] @ '' '') 0) = Some (AvStr [LF])"
  by code_simp+

text \<open>After a \<open>realloc\<close> the cells are not cleared: an error in the sixteenth argument leaves no
  terminating NULL for \<open>VAV_Free\<close>.\<close>

lemma error_after_realloc_not_terminated:
  "map_option (\<lambda>(av, r). (r, av 0, av 16)) (VAV_Parse (''a a a a a a a a a a a a a a a '' @ [CHR 0x5C]) 0)
    = Some (None, AvErr err_invalid_backslash, AvUndef)"
  by code_simp

end
