(* ===== verification/Vct.thy ===== *)
theory Vct
  imports Prelude
begin

text \<open>
  lib/libvarnish/vct.c and include/vct.h: the character classes of RFC2616, a table of 256
  bit sets.  The lemmas give each class as a set of characters.
\<close>

definition VCT_SP :: u16 where "VCT_SP = 1"
definition VCT_CRLF :: u16 where "VCT_CRLF = 2"
definition VCT_LWS :: u16 where "VCT_LWS = VCT_CRLF OR VCT_SP"
definition VCT_CTL :: u16 where "VCT_CTL = 4"
definition VCT_ALPHA :: u16 where "VCT_ALPHA = 8"
definition VCT_SEPARATOR :: u16 where "VCT_SEPARATOR = 16"
definition VCT_DIGIT :: u16 where "VCT_DIGIT = 32"
definition VCT_HEX :: u16 where "VCT_HEX = 64"
definition VCT_XMLNAMESTART :: u16 where "VCT_XMLNAMESTART = 128"
definition VCT_XMLNAME :: u16 where "VCT_XMLNAME = 256"

definition vct_typtab :: "u16 list" where
  "vct_typtab = [
     VCT_CTL, VCT_CTL, VCT_CTL, VCT_CTL,
     VCT_CTL, VCT_CTL, VCT_CTL, VCT_CTL,
     VCT_CTL, VCT_CTL OR VCT_SP OR VCT_SEPARATOR, VCT_CTL OR VCT_CRLF, VCT_CTL,
     VCT_CTL, VCT_CTL OR VCT_CRLF, VCT_CTL, VCT_CTL,
     VCT_CTL, VCT_CTL, VCT_CTL, VCT_CTL,
     VCT_CTL, VCT_CTL, VCT_CTL, VCT_CTL,
     VCT_CTL, VCT_CTL, VCT_CTL, VCT_CTL,
     VCT_CTL, VCT_CTL, VCT_CTL, VCT_CTL,
     VCT_SP OR VCT_SEPARATOR, 0, VCT_SEPARATOR, 0,
     0, 0, 0, 0,
     VCT_SEPARATOR, VCT_SEPARATOR, 0, 0,
     VCT_SEPARATOR, VCT_XMLNAME, VCT_XMLNAME, VCT_SEPARATOR,
     VCT_DIGIT OR VCT_HEX OR VCT_XMLNAME, VCT_DIGIT OR VCT_HEX OR VCT_XMLNAME, VCT_DIGIT OR VCT_HEX OR VCT_XMLNAME, VCT_DIGIT OR VCT_HEX OR VCT_XMLNAME,
     VCT_DIGIT OR VCT_HEX OR VCT_XMLNAME, VCT_DIGIT OR VCT_HEX OR VCT_XMLNAME, VCT_DIGIT OR VCT_HEX OR VCT_XMLNAME, VCT_DIGIT OR VCT_HEX OR VCT_XMLNAME,
     VCT_DIGIT OR VCT_HEX OR VCT_XMLNAME, VCT_DIGIT OR VCT_HEX OR VCT_XMLNAME, VCT_SEPARATOR OR VCT_XMLNAMESTART, VCT_SEPARATOR,
     VCT_SEPARATOR, VCT_SEPARATOR, VCT_SEPARATOR, VCT_SEPARATOR,
     VCT_SEPARATOR, VCT_ALPHA OR VCT_HEX OR VCT_XMLNAMESTART, VCT_ALPHA OR VCT_HEX OR VCT_XMLNAMESTART, VCT_ALPHA OR VCT_HEX OR VCT_XMLNAMESTART,
     VCT_ALPHA OR VCT_HEX OR VCT_XMLNAMESTART, VCT_ALPHA OR VCT_HEX OR VCT_XMLNAMESTART, VCT_ALPHA OR VCT_HEX OR VCT_XMLNAMESTART, VCT_ALPHA OR VCT_XMLNAMESTART,
     VCT_ALPHA OR VCT_XMLNAMESTART, VCT_ALPHA OR VCT_XMLNAMESTART, VCT_ALPHA OR VCT_XMLNAMESTART, VCT_ALPHA OR VCT_XMLNAMESTART,
     VCT_ALPHA OR VCT_XMLNAMESTART, VCT_ALPHA OR VCT_XMLNAMESTART, VCT_ALPHA OR VCT_XMLNAMESTART, VCT_ALPHA OR VCT_XMLNAMESTART,
     VCT_ALPHA OR VCT_XMLNAMESTART, VCT_ALPHA OR VCT_XMLNAMESTART, VCT_ALPHA OR VCT_XMLNAMESTART, VCT_ALPHA OR VCT_XMLNAMESTART,
     VCT_ALPHA OR VCT_XMLNAMESTART, VCT_ALPHA OR VCT_XMLNAMESTART, VCT_ALPHA OR VCT_XMLNAMESTART, VCT_ALPHA OR VCT_XMLNAMESTART,
     VCT_ALPHA OR VCT_XMLNAMESTART, VCT_ALPHA OR VCT_XMLNAMESTART, VCT_ALPHA OR VCT_XMLNAMESTART, VCT_SEPARATOR,
     VCT_SEPARATOR, VCT_SEPARATOR, 0, VCT_XMLNAMESTART,
     0, VCT_ALPHA OR VCT_HEX OR VCT_XMLNAMESTART, VCT_ALPHA OR VCT_HEX OR VCT_XMLNAMESTART, VCT_ALPHA OR VCT_HEX OR VCT_XMLNAMESTART,
     VCT_ALPHA OR VCT_HEX OR VCT_XMLNAMESTART, VCT_ALPHA OR VCT_HEX OR VCT_XMLNAMESTART, VCT_ALPHA OR VCT_HEX OR VCT_XMLNAMESTART, VCT_ALPHA OR VCT_XMLNAMESTART,
     VCT_ALPHA OR VCT_XMLNAMESTART, VCT_ALPHA OR VCT_XMLNAMESTART, VCT_ALPHA OR VCT_XMLNAMESTART, VCT_ALPHA OR VCT_XMLNAMESTART,
     VCT_ALPHA OR VCT_XMLNAMESTART, VCT_ALPHA OR VCT_XMLNAMESTART, VCT_ALPHA OR VCT_XMLNAMESTART, VCT_ALPHA OR VCT_XMLNAMESTART,
     VCT_ALPHA OR VCT_XMLNAMESTART, VCT_ALPHA OR VCT_XMLNAMESTART, VCT_ALPHA OR VCT_XMLNAMESTART, VCT_ALPHA OR VCT_XMLNAMESTART,
     VCT_ALPHA OR VCT_XMLNAMESTART, VCT_ALPHA OR VCT_XMLNAMESTART, VCT_ALPHA OR VCT_XMLNAMESTART, VCT_ALPHA OR VCT_XMLNAMESTART,
     VCT_ALPHA OR VCT_XMLNAMESTART, VCT_ALPHA OR VCT_XMLNAMESTART, VCT_ALPHA OR VCT_XMLNAMESTART, VCT_SEPARATOR,
     0, VCT_SEPARATOR, 0, VCT_CTL,
     0, 0, 0, 0,
     0, 0, 0, 0,
     0, 0, 0, 0,
     0, 0, 0, 0,
     0, 0, 0, 0,
     0, 0, 0, 0,
     0, 0, 0, 0,
     0, 0, 0, 0,
     0, 0, 0, 0,
     0, 0, 0, 0,
     0, 0, 0, 0,
     0, 0, 0, 0,
     0, 0, 0, 0,
     0, 0, 0, VCT_XMLNAME,
     0, 0, 0, 0,
     0, 0, 0, 0,
     VCT_XMLNAMESTART, VCT_XMLNAMESTART, VCT_XMLNAMESTART, VCT_XMLNAMESTART,
     VCT_XMLNAMESTART, VCT_XMLNAMESTART, VCT_XMLNAMESTART, VCT_XMLNAMESTART,
     VCT_XMLNAMESTART, VCT_XMLNAMESTART, VCT_XMLNAMESTART, VCT_XMLNAMESTART,
     VCT_XMLNAMESTART, VCT_XMLNAMESTART, VCT_XMLNAMESTART, VCT_XMLNAMESTART,
     VCT_XMLNAMESTART, VCT_XMLNAMESTART, VCT_XMLNAMESTART, VCT_XMLNAMESTART,
     VCT_XMLNAMESTART, VCT_XMLNAMESTART, VCT_XMLNAMESTART, 0,
     VCT_XMLNAMESTART, VCT_XMLNAMESTART, VCT_XMLNAMESTART, VCT_XMLNAMESTART,
     VCT_XMLNAMESTART, VCT_XMLNAMESTART, VCT_XMLNAMESTART, VCT_XMLNAMESTART,
     VCT_XMLNAMESTART, VCT_XMLNAMESTART, VCT_XMLNAMESTART, VCT_XMLNAMESTART,
     VCT_XMLNAMESTART, VCT_XMLNAMESTART, VCT_XMLNAMESTART, VCT_XMLNAMESTART,
     VCT_XMLNAMESTART, VCT_XMLNAMESTART, VCT_XMLNAMESTART, VCT_XMLNAMESTART,
     VCT_XMLNAMESTART, VCT_XMLNAMESTART, VCT_XMLNAMESTART, VCT_XMLNAMESTART,
     VCT_XMLNAMESTART, VCT_XMLNAMESTART, VCT_XMLNAMESTART, VCT_XMLNAMESTART,
     VCT_XMLNAMESTART, VCT_XMLNAMESTART, VCT_XMLNAMESTART, 0,
     VCT_XMLNAMESTART, VCT_XMLNAMESTART, VCT_XMLNAMESTART, VCT_XMLNAMESTART,
     VCT_XMLNAMESTART, VCT_XMLNAMESTART, VCT_XMLNAMESTART, VCT_XMLNAMESTART]"

definition vct_is :: "char \<Rightarrow> u16 \<Rightarrow> bool" where
  "vct_is x y = (vct_typtab ! of_char x AND y \<noteq> 0)"

definition vct_issp :: "char \<Rightarrow> bool" where "vct_issp x = vct_is x VCT_SP"
definition vct_ishex :: "char \<Rightarrow> bool" where "vct_ishex x = vct_is x VCT_HEX"
definition vct_iscrlf :: "char \<Rightarrow> bool" where "vct_iscrlf x = vct_is x VCT_CRLF"
definition vct_islws :: "char \<Rightarrow> bool" where "vct_islws x = vct_is x VCT_LWS"
definition vct_isctl :: "char \<Rightarrow> bool" where "vct_isctl x = vct_is x VCT_CTL"
definition vct_isdigit :: "char \<Rightarrow> bool" where "vct_isdigit x = vct_is x VCT_DIGIT"
definition vct_isalpha :: "char \<Rightarrow> bool" where "vct_isalpha x = vct_is x VCT_ALPHA"
definition vct_issep :: "char \<Rightarrow> bool" where "vct_issep x = vct_is x VCT_SEPARATOR"
definition vct_issepctl :: "char \<Rightarrow> bool" where "vct_issepctl x = vct_is x (VCT_SEPARATOR OR VCT_CTL)"
definition vct_isxmlnamestart :: "char \<Rightarrow> bool" where
  "vct_isxmlnamestart x = vct_is x VCT_XMLNAMESTART"
definition vct_isxmlname :: "char \<Rightarrow> bool" where
  "vct_isxmlname x = vct_is x (VCT_XMLNAMESTART OR VCT_XMLNAME)"

definition vct_skipcrlf :: "string \<Rightarrow> nat" where
  "vct_skipcrlf p = (if cchar p 0 = CR \<and> cchar p 1 = LF then 2 else 1)"

section \<open>The classes as sets of characters\<close>

text \<open>A class is checked against a predicate on byte values entry by entry.\<close>

lemma vct_tab_check:
  assumes "map (\<lambda>w. w AND y \<noteq> 0) vct_typtab = map P [0..<256]"
  shows "vct_is c y \<longleftrightarrow> P (of_char c)"
proof -
  have n: "of_char c < (256 :: nat)" by simp
  have "length vct_typtab = 256" using arg_cong [OF assms, of length] by simp
  then have "(vct_typtab ! of_char c AND y \<noteq> 0) = map (\<lambda>w. w AND y \<noteq> 0) vct_typtab ! of_char c" using n by simp
  also have "\<dots> = P (of_char c)" unfolding assms using n by simp
  finally show ?thesis by (simp add: vct_is_def)
qed

lemma upt_256: "[0..<256] = [0, 1, 2, 3, 4, 5, 6, 7, 8, 9, 10, 11, 12, 13, 14, 15, 16, 17, 18, 19, 20, 21, 22, 23, 24, 25, 26, 27, 28, 29, 30, 31, 32, 33, 34, 35, 36, 37, 38, 39, 40, 41, 42, 43, 44, 45, 46, 47, 48, 49, 50, 51, 52, 53, 54, 55, 56, 57, 58, 59, 60, 61, 62, 63, 64, 65, 66, 67, 68, 69, 70, 71, 72, 73, 74, 75, 76, 77, 78, 79, 80, 81, 82, 83, 84, 85, 86, 87, 88, 89, 90, 91, 92, 93, 94, 95, 96, 97, 98, 99, 100, 101, 102, 103, 104, 105, 106, 107, 108, 109, 110, 111, 112, 113, 114, 115, 116, 117, 118, 119, 120, 121, 122, 123, 124, 125, 126, 127, 128, 129, 130, 131, 132, 133, 134, 135, 136, 137, 138, 139, 140, 141, 142, 143, 144, 145, 146, 147, 148, 149, 150, 151, 152, 153, 154, 155, 156, 157, 158, 159, 160, 161, 162, 163, 164, 165, 166, 167, 168, 169, 170, 171, 172, 173, 174, 175, 176, 177, 178, 179, 180, 181, 182, 183, 184, 185, 186, 187, 188, 189, 190, 191, 192, 193, 194, 195, 196, 197, 198, 199, 200, 201, 202, 203, 204, 205, 206, 207, 208, 209, 210, 211, 212, 213, 214, 215, 216, 217, 218, 219, 220, 221, 222, 223, 224, 225, 226, 227, 228, 229, 230, 231, 232, 233, 234, 235, 236, 237, 238, 239, 240, 241, 242, 243, 244, 245, 246, 247, 248, 249, 250, 251, 252, 253, 254, 255]"
  by (simp add: upt_rec)

lemmas vct_consts = VCT_SP_def VCT_CRLF_def VCT_LWS_def VCT_CTL_def VCT_ALPHA_def VCT_SEPARATOR_def
  VCT_DIGIT_def VCT_HEX_def VCT_XMLNAMESTART_def VCT_XMLNAME_def

lemma char_eq_nat: "c = d \<longleftrightarrow> of_char c = (of_char d :: nat)"
  by simp

lemma vct_is_SP: "vct_is c VCT_SP \<longleftrightarrow> of_char c = (32 :: nat) \<or> of_char c = (9 :: nat)"
  by (rule vct_tab_check [of VCT_SP "\<lambda>n. n = 32 \<or> n = 9"], unfold upt_256 vct_typtab_def vct_consts, simp)

lemma vct_is_CRLF: "vct_is c VCT_CRLF \<longleftrightarrow> of_char c = (13 :: nat) \<or> of_char c = (10 :: nat)"
  by (rule vct_tab_check [of VCT_CRLF "\<lambda>n. n = 13 \<or> n = 10"], unfold upt_256 vct_typtab_def vct_consts, simp)

lemma vct_is_LWS: "vct_is c VCT_LWS \<longleftrightarrow> vct_is c VCT_SP \<or> vct_is c VCT_CRLF"
  unfolding vct_is_SP vct_is_CRLF
  by (rule vct_tab_check [of VCT_LWS "\<lambda>n. (n = 32 \<or> n = 9) \<or> n = 13 \<or> n = 10"],
      unfold upt_256 vct_typtab_def vct_consts, simp)

lemma vct_is_CTL: "vct_is c VCT_CTL \<longleftrightarrow> of_char c < (32 :: nat) \<or> of_char c = (127 :: nat)"
  by (rule vct_tab_check [of VCT_CTL "\<lambda>n. n < 32 \<or> n = 127"], unfold upt_256 vct_typtab_def vct_consts, simp)

lemma vct_is_DIGIT: "vct_is c VCT_DIGIT \<longleftrightarrow> 48 \<le> (of_char c :: nat) \<and> of_char c \<le> (57 :: nat)"
  by (rule vct_tab_check [of VCT_DIGIT "\<lambda>n. 48 \<le> n \<and> n \<le> 57"], unfold upt_256 vct_typtab_def vct_consts, simp)

lemma vct_is_ALPHA: "vct_is c VCT_ALPHA \<longleftrightarrow> (65 \<le> (of_char c :: nat) \<and> of_char c \<le> (90 :: nat)) \<or>
    (97 \<le> (of_char c :: nat) \<and> of_char c \<le> (122 :: nat))"
  by (rule vct_tab_check [of VCT_ALPHA "\<lambda>n. (65 \<le> n \<and> n \<le> 90) \<or> (97 \<le> n \<and> n \<le> 122)"],
      unfold upt_256 vct_typtab_def vct_consts, simp)

lemma vct_is_HEX: "vct_is c VCT_HEX \<longleftrightarrow> (48 \<le> (of_char c :: nat) \<and> of_char c \<le> (57 :: nat)) \<or>
    (65 \<le> (of_char c :: nat) \<and> of_char c \<le> (70 :: nat)) \<or> (97 \<le> (of_char c :: nat) \<and> of_char c \<le> (102 :: nat))"
  by (rule vct_tab_check [of VCT_HEX "\<lambda>n. (48 \<le> n \<and> n \<le> 57) \<or> (65 \<le> n \<and> n \<le> 70) \<or> (97 \<le> n \<and> n \<le> 102)"],
      unfold upt_256 vct_typtab_def vct_consts, simp)

lemma vct_is_SEP: "vct_is c VCT_SEPARATOR \<longleftrightarrow>
    of_char c \<in> {9 :: nat, 32, 34, 40, 41, 44, 47, 58, 59, 60, 61, 62, 63, 64, 91, 92, 93, 123, 125}"
  by (rule vct_tab_check [of VCT_SEPARATOR
        "\<lambda>n. n \<in> {9, 32, 34, 40, 41, 44, 47, 58, 59, 60, 61, 62, 63, 64, 91, 92, 93, 123, 125}"],
      unfold upt_256 vct_typtab_def vct_consts, simp)

lemma vct_is_SEPCTL: "vct_is c (VCT_SEPARATOR OR VCT_CTL) \<longleftrightarrow> vct_is c VCT_SEPARATOR \<or> vct_is c VCT_CTL"
  unfolding vct_is_SEP vct_is_CTL
  by (rule vct_tab_check [of "VCT_SEPARATOR OR VCT_CTL"
        "\<lambda>n. n \<in> {9, 32, 34, 40, 41, 44, 47, 58, 59, 60, 61, 62, 63, 64, 91, 92, 93, 123, 125} \<or> n < 32 \<or> n = 127"],
      unfold upt_256 vct_typtab_def vct_consts, simp)

lemma vct_is_XMLNAMESTART: "vct_is c VCT_XMLNAMESTART \<longleftrightarrow> of_char c = (58 :: nat) \<or> of_char c = (95 :: nat) \<or>
    (65 \<le> (of_char c :: nat) \<and> of_char c \<le> (90 :: nat)) \<or> (97 \<le> (of_char c :: nat) \<and> of_char c \<le> (122 :: nat)) \<or>
    (192 \<le> (of_char c :: nat) \<and> of_char c \<noteq> (215 :: nat) \<and> of_char c \<noteq> (247 :: nat))"
  by (rule vct_tab_check [of VCT_XMLNAMESTART "\<lambda>n. n = 58 \<or> n = 95 \<or> (65 \<le> n \<and> n \<le> 90) \<or> (97 \<le> n \<and> n \<le> 122) \<or>
        (192 \<le> n \<and> n \<noteq> 215 \<and> n \<noteq> 247)"],
      unfold upt_256 vct_typtab_def vct_consts, simp)

lemma vct_is_XMLNAME: "vct_is c VCT_XMLNAME \<longleftrightarrow> of_char c = (45 :: nat) \<or> of_char c = (46 :: nat) \<or>
    (48 \<le> (of_char c :: nat) \<and> of_char c \<le> (57 :: nat)) \<or> of_char c = (183 :: nat)"
  by (rule vct_tab_check [of VCT_XMLNAME "\<lambda>n. n = 45 \<or> n = 46 \<or> (48 \<le> n \<and> n \<le> 57) \<or> n = 183"],
      unfold upt_256 vct_typtab_def vct_consts, simp)

text \<open>A test for several classes at once asks for one of them.\<close>

lemma vct_is_OR: "vct_is c (x OR y) \<longleftrightarrow> vct_is c x \<or> vct_is c y"
  by (auto simp: vct_is_def bit_eq_iff bit_simps)

lemma vct_issp_iff: "vct_issp c \<longleftrightarrow> c = CHR '' '' \<or> c = HTAB"
  unfolding vct_issp_def vct_is_SP char_eq_nat [of c] by simp

lemma vct_iscrlf_iff: "vct_iscrlf c \<longleftrightarrow> c = CR \<or> c = LF"
  unfolding vct_iscrlf_def vct_is_CRLF char_eq_nat [of c] by simp

lemma vct_islws_iff: "vct_islws c \<longleftrightarrow> vct_issp c \<or> vct_iscrlf c"
  by (simp add: vct_islws_def vct_issp_def vct_iscrlf_def vct_is_LWS)

lemma vct_isctl_iff: "vct_isctl c \<longleftrightarrow> of_char c < (32 :: nat) \<or> of_char c = (127 :: nat)"
  by (simp add: vct_isctl_def vct_is_CTL)

lemma vct_isdigit_iff: "vct_isdigit c \<longleftrightarrow> 48 \<le> (of_char c :: nat) \<and> of_char c \<le> (57 :: nat)"
  by (simp add: vct_isdigit_def vct_is_DIGIT)

lemma vct_issepctl_iff: "vct_issepctl c \<longleftrightarrow> vct_issep c \<or> vct_isctl c"
  by (simp add: vct_issepctl_def vct_issep_def vct_isctl_def vct_is_SEPCTL)

text \<open>
  C26.  The table classifies every byte as RFC2616 section 2.2 does: SP is space and
  horizontal tab, CRLF are CR and LF, LWS is their union, CTL are the bytes below 32 and
  127, DIGIT, HEX and ALPHA are the ASCII digits, hexadecimal digits and letters, and
  exactly the separators listed in the RFC are separators.  An XML name starts with a colon,
  an underscore, a letter or a byte from 0xC0 on other than the multiplication (0xD7) and the
  division sign (0xF7), and goes on with these, a hyphen, a dot, a digit or the middle dot
  (0xB7), which are the name characters of XML 1.0 within Latin-1.  These are all the classes
  of the table.
\<close>

theorem vct_classes:
  "(vct_issp c \<longleftrightarrow> c = CHR '' '' \<or> c = HTAB) \<and> (vct_iscrlf c \<longleftrightarrow> c = CR \<or> c = LF) \<and>
   (vct_islws c \<longleftrightarrow> vct_issp c \<or> vct_iscrlf c) \<and>
   (vct_isctl c \<longleftrightarrow> of_char c < (32 :: nat) \<or> of_char c = (127 :: nat)) \<and>
   (vct_isdigit c \<longleftrightarrow> c \<in> set ''0123456789'') \<and>
   (vct_ishex c \<longleftrightarrow> c \<in> set ''0123456789abcdefABCDEF'') \<and>
   (vct_isalpha c \<longleftrightarrow> c \<in> set ''abcdefghijklmnopqrstuvwxyzABCDEFGHIJKLMNOPQRSTUVWXYZ'') \<and>
   (vct_issep c \<longleftrightarrow> c \<in> set ([HTAB, CHR '' '', CHR 0x22] @ ''(),/:;<=>?@['' @ [CHR 0x5C] @ '']{}'')) \<and>
   (vct_issepctl c \<longleftrightarrow> vct_issep c \<or> vct_isctl c) \<and>
   (vct_isxmlnamestart c \<longleftrightarrow> c = CHR '':'' \<or> c = CHR ''_'' \<or> vct_isalpha c \<or>
      (0xC0 \<le> (of_char c :: nat) \<and> c \<noteq> CHR 0xD7 \<and> c \<noteq> CHR 0xF7)) \<and>
   (vct_isxmlname c \<longleftrightarrow> vct_isxmlnamestart c \<or> c = CHR ''-'' \<or> c = CHR ''.'' \<or> vct_isdigit c \<or> c = CHR 0xB7)"
proof -
  have d: "vct_isdigit c \<longleftrightarrow> c \<in> set ''0123456789''"
    unfolding vct_isdigit_def vct_is_DIGIT list.set insert_iff empty_iff char_eq_nat [of c] by (simp del: of_char_eq_iff, presburger)
  have h: "vct_ishex c \<longleftrightarrow> c \<in> set ''0123456789abcdefABCDEF''"
    unfolding vct_ishex_def vct_is_HEX list.set insert_iff empty_iff char_eq_nat [of c] by (simp del: of_char_eq_iff, presburger)
  have a: "vct_isalpha c \<longleftrightarrow> c \<in> set ''abcdefghijklmnopqrstuvwxyzABCDEFGHIJKLMNOPQRSTUVWXYZ''"
    unfolding vct_isalpha_def vct_is_ALPHA list.set insert_iff empty_iff char_eq_nat [of c] by (simp del: of_char_eq_iff, presburger)
  have s: "vct_issep c \<longleftrightarrow> c \<in> set ([HTAB, CHR '' '', CHR 0x22] @ ''(),/:;<=>?@['' @ [CHR 0x5C] @ '']{}'')"
    unfolding vct_issep_def vct_is_SEP append.simps list.set insert_iff empty_iff char_eq_nat [of c]
    by (simp del: of_char_eq_iff)
  have x: "vct_isxmlnamestart c \<longleftrightarrow> c = CHR '':'' \<or> c = CHR ''_'' \<or> vct_isalpha c \<or>
      (0xC0 \<le> (of_char c :: nat) \<and> c \<noteq> CHR 0xD7 \<and> c \<noteq> CHR 0xF7)"
    unfolding vct_isxmlnamestart_def vct_is_XMLNAMESTART vct_isalpha_def vct_is_ALPHA char_eq_nat [of c]
    by (simp del: of_char_eq_iff)
  have y: "vct_isxmlname c \<longleftrightarrow> vct_isxmlnamestart c \<or> c = CHR ''-'' \<or> c = CHR ''.'' \<or> vct_isdigit c \<or> c = CHR 0xB7"
    unfolding vct_isxmlname_def vct_is_OR vct_isxmlnamestart_def [symmetric] vct_is_XMLNAME vct_isdigit_def vct_is_DIGIT
      char_eq_nat [of c]
    by (simp del: of_char_eq_iff)
  show ?thesis
    by (intro conjI; rule d h a s x y vct_issp_iff vct_iscrlf_iff vct_islws_iff vct_isctl_iff vct_issepctl_iff)
qed

end
