(* ===== verification/Http.thy ===== *)
theory Http
  imports Complex_Main Workspace Vct
begin

text \<open>
  bin/varnishd/cache_http.c: HTTP messages as arrays of header lines.  A \<open>htxt\<close> (\<open>txt\<close> in C) is a pointer
  pair into some buffer; the model keeps the address and the bytes between the two
  pointers (a NUL follows them), and \<open>None\<close> for a NULL pair.  Static strings have address
  0, which is in no workspace.  \<open>h_losthdr\<close> is the global counter
  \<open>VSC_C_main->losthdr\<close>; the shared memory log is output only and left out.  A header
  name \<open>H_Foo\<close> is the string with its colon; the length byte in front of it in C is the
  length of that string.
\<close>

record htxt =
  t_b :: addr
  t_s :: string

record http =
  h_ws :: ws
  h_hd :: "nat \<Rightarrow> htxt option"
  h_hdf :: "nat \<Rightarrow> u8"
  h_shd :: nat
  h_nhd :: nat
  h_status :: nat
  h_protover :: nat
  h_conds :: bool
  h_losthdr :: nat

record http_conn =
  rx_b :: addr
  rx_s :: string
  maxhdr :: nat

definition HTTP_HDR_REQ :: nat where "HTTP_HDR_REQ = 0"
definition HTTP_HDR_URL :: nat where "HTTP_HDR_URL = 1"
definition HTTP_HDR_PROTO :: nat where "HTTP_HDR_PROTO = 2"
definition HTTP_HDR_STATUS :: nat where "HTTP_HDR_STATUS = 3"
definition HTTP_HDR_RESPONSE :: nat where "HTTP_HDR_RESPONSE = 4"
definition HTTP_HDR_FIRST :: nat where "HTTP_HDR_FIRST = 5"
definition HDF_FILTER :: u8 where "HDF_FILTER = 1"

definition HTTPH_R_PASS :: u32 where "HTTPH_R_PASS = 1"
definition HTTPH_A_PASS :: u32 where "HTTPH_A_PASS = 2"
definition HTTPH_R_PIPE :: u32 where "HTTPH_R_PIPE = 4"
definition HTTPH_R_FETCH :: u32 where "HTTPH_R_FETCH = 8"
definition HTTPH_A_INS :: u32 where "HTTPH_A_INS = 16"
definition HTTPH_A_DELIVER :: u32 where "HTTPH_A_DELIVER = 32"

definition H_Keep_Alive :: string where "H_Keep_Alive = ''Keep-Alive:''"
definition H_Accept :: string where "H_Accept = ''Accept:''"
definition H_Accept_Charset :: string where "H_Accept_Charset = ''Accept-Charset:''"
definition H_Accept_Encoding :: string where "H_Accept_Encoding = ''Accept-Encoding:''"
definition H_Accept_Language :: string where "H_Accept_Language = ''Accept-Language:''"
definition H_Accept_Ranges :: string where "H_Accept_Ranges = ''Accept-Ranges:''"
definition H_Age :: string where "H_Age = ''Age:''"
definition H_Allow :: string where "H_Allow = ''Allow:''"
definition H_Authorization :: string where "H_Authorization = ''Authorization:''"
definition H_Cache_Control :: string where "H_Cache_Control = ''Cache-Control:''"
definition H_Connection :: string where "H_Connection = ''Connection:''"
definition H_Content_Encoding :: string where "H_Content_Encoding = ''Content-Encoding:''"
definition H_Content_Language :: string where "H_Content_Language = ''Content-Langugae:''"
definition H_Content_Length :: string where "H_Content_Length = ''Content-Length:''"
definition H_Content_Location :: string where "H_Content_Location = ''Content-Location:''"
definition H_Content_MD5 :: string where "H_Content_MD5 = ''Content-MD5:''"
definition H_Content_Range :: string where "H_Content_Range = ''Content-Range:''"
definition H_Content_Type :: string where "H_Content_Type = ''Content-Type:''"
definition H_Date :: string where "H_Date = ''Date:''"
definition H_ETag :: string where "H_ETag = ''ETag:''"
definition H_Expect :: string where "H_Expect = ''Expect:''"
definition H_Expires :: string where "H_Expires = ''Expires:''"
definition H_From :: string where "H_From = ''From:''"
definition H_Host :: string where "H_Host = ''Host:''"
definition H_If_Match :: string where "H_If_Match = ''If-Match:''"
definition H_If_Modified_Since :: string where "H_If_Modified_Since = ''If-Modified-Since:''"
definition H_If_None_Match :: string where "H_If_None_Match = ''If-None-Match:''"
definition H_If_Range :: string where "H_If_Range = ''If-Range:''"
definition H_If_Unmodifed_Since :: string where "H_If_Unmodifed_Since = ''If-Unmodified-Since:''"
definition H_Last_Modified :: string where "H_Last_Modified = ''Last-Modified:''"
definition H_Location :: string where "H_Location = ''Location:''"
definition H_Max_Forwards :: string where "H_Max_Forwards = ''Max-Forwards:''"
definition H_Pragma :: string where "H_Pragma = ''Pragma:''"
definition H_Proxy_Authenticate :: string where "H_Proxy_Authenticate = ''Proxy-Authenticate:''"
definition H_Proxy_Authorization :: string where "H_Proxy_Authorization = ''Proxy-Authorization:''"
definition H_Range :: string where "H_Range = ''Range:''"
definition H_Referer :: string where "H_Referer = ''Referer:''"
definition H_Retry_After :: string where "H_Retry_After = ''Retry-After:''"
definition H_Server :: string where "H_Server = ''Server:''"
definition H_TE :: string where "H_TE = ''TE:''"
definition H_Trailer :: string where "H_Trailer = ''Trailer:''"
definition H_Transfer_Encoding :: string where "H_Transfer_Encoding = ''Transfer-Encoding:''"
definition H_Upgrade :: string where "H_Upgrade = ''Upgrade:''"
definition H_User_Agent :: string where "H_User_Agent = ''User-Agent:''"
definition H_Vary :: string where "H_Vary = ''Vary:''"
definition H_Via :: string where "H_Via = ''Via:''"
definition H_Warning :: string where "H_Warning = ''Warning:''"
definition H_WWW_Authenticate :: string where "H_WWW_Authenticate = ''WWW-Authenticate:''"

definition http_headers :: "(string \<times> u32) list" where
  "http_headers = [
     (H_Keep_Alive, HTTPH_R_PASS OR HTTPH_A_PASS OR HTTPH_R_FETCH),
     (H_Accept, 0),
     (H_Accept_Charset, 0),
     (H_Accept_Encoding, 0),
     (H_Accept_Language, 0),
     (H_Accept_Ranges, HTTPH_R_FETCH OR HTTPH_A_INS),
     (H_Age, HTTPH_A_INS),
     (H_Allow, 0),
     (H_Authorization, 0),
     (H_Cache_Control, HTTPH_R_FETCH),
     (H_Connection, HTTPH_R_PASS OR HTTPH_A_PASS OR HTTPH_R_FETCH OR HTTPH_A_INS),
     (H_Content_Encoding, 0),
     (H_Content_Language, 0),
     (H_Content_Length, HTTPH_R_FETCH OR HTTPH_A_INS),
     (H_Content_Location, 0),
     (H_Content_MD5, 0),
     (H_Content_Range, HTTPH_R_FETCH OR HTTPH_A_INS),
     (H_Content_Type, 0),
     (H_Date, HTTPH_A_DELIVER),
     (H_ETag, 0),
     (H_Expect, 0),
     (H_Expires, 0),
     (H_From, 0),
     (H_Host, 0),
     (H_If_Match, HTTPH_R_FETCH),
     (H_If_Modified_Since, HTTPH_R_FETCH),
     (H_If_None_Match, HTTPH_R_FETCH),
     (H_If_Range, HTTPH_R_FETCH),
     (H_If_Unmodifed_Since, HTTPH_R_FETCH),
     (H_Last_Modified, 0),
     (H_Location, 0),
     (H_Max_Forwards, 0),
     (H_Pragma, 0),
     (H_Proxy_Authenticate, HTTPH_R_FETCH OR HTTPH_A_INS),
     (H_Proxy_Authorization, HTTPH_R_FETCH OR HTTPH_A_INS),
     (H_Range, HTTPH_R_FETCH OR HTTPH_A_INS),
     (H_Referer, 0),
     (H_Retry_After, 0),
     (H_Server, 0),
     (H_TE, HTTPH_R_PASS OR HTTPH_A_PASS OR HTTPH_R_FETCH OR HTTPH_A_INS),
     (H_Trailer, HTTPH_R_PASS OR HTTPH_A_PASS OR HTTPH_R_FETCH OR HTTPH_A_INS),
     (H_Transfer_Encoding, HTTPH_R_PASS OR HTTPH_A_PASS OR HTTPH_R_FETCH OR HTTPH_A_INS),
     (H_Upgrade, HTTPH_R_PASS OR HTTPH_A_PASS OR HTTPH_R_FETCH OR HTTPH_A_INS),
     (H_User_Agent, 0),
     (H_Vary, 0),
     (H_Via, 0),
     (H_Warning, 0),
     (H_WWW_Authenticate, 0)]"

definition http_msg :: "(nat \<times> string) list" where
  "http_msg = [
     (101, ''Switching Protocols''),
     (200, ''OK''),
     (201, ''Created''),
     (202, ''Accepted''),
     (203, ''Non-Authoritative Information''),
     (204, ''No Content''),
     (205, ''Reset Content''),
     (206, ''Partial Content''),
     (300, ''Multiple Choices''),
     (301, ''Moved Permanently''),
     (302, ''Found''),
     (303, ''See Other''),
     (304, ''Not Modified''),
     (305, ''Use Proxy''),
     (306, ''(Unused)''),
     (307, ''Temporary Redirect''),
     (400, ''Bad Request''),
     (401, ''Unauthorized''),
     (402, ''Payment Required''),
     (403, ''Forbidden''),
     (404, ''Not Found''),
     (405, ''Method Not Allowed''),
     (406, ''Not Acceptable''),
     (407, ''Proxy Authentication Required''),
     (408, ''Request Timeout''),
     (409, ''Conflict''),
     (410, ''Gone''),
     (411, ''Length Required''),
     (412, ''Precondition Failed''),
     (413, ''Request Entity Too Large''),
     (414, ''Request-URI Too Long''),
     (415, ''Unsupported Media Type''),
     (416, ''Requested Range Not Satisfiable''),
     (417, ''Expectation Failed''),
     (500, ''Internal Server Error''),
     (501, ''Not Implemented''),
     (502, ''Bad Gateway''),
     (503, ''Service Unavailable''),
     (504, ''Gateway Timeout''),
     (505, ''HTTP Version Not Supported'')]"

definition lit :: "string \<Rightarrow> htxt" where
  "lit s = \<lparr>t_b = 0, t_s = s\<rparr>"

definition Tcheck :: "htxt option \<Rightarrow> unit option" where
  "Tcheck t = vassert (t \<noteq> None)"

definition Tlen :: "htxt option \<Rightarrow> u32 option" where
  "Tlen t = map_option (\<lambda>t. of_nat (length (t_s t))) t"

fun status_lookup :: "(nat \<times> string) list \<Rightarrow> nat \<Rightarrow> string" where
  "status_lookup [] status = ''Unknown Error''"
| "status_lookup ((nbr, t) # mp) status =
     (if nbr \<le> status then (if nbr = status then t else status_lookup mp status)
      else ''Unknown Error'')"

definition http_StatusMessage :: "nat \<Rightarrow> string option" where
  "http_StatusMessage status = do {
     vassert (status \<ge> 100 \<and> status \<le> 999);
     Some (status_lookup http_msg status)
   }"

text \<open>The sizes of \<open>struct http\<close> and of a text descriptor are the arguments \<open>szh\<close> and \<open>szt\<close>.\<close>

definition HTTP_estimate :: "u32 \<Rightarrow> u32 \<Rightarrow> u32 \<Rightarrow> u32" where
  "HTTP_estimate szh szt nhttp = szh + (szt + 1) * nhttp"

text \<open>The arrays follow the structure in memory and hold whatever was there before.\<close>

definition HTTP_create :: "http \<Rightarrow> u16 \<Rightarrow> http" where
  "HTTP_create p nhttp = p\<lparr>h_shd := unat nhttp\<rparr>"

definition http_Setup :: "http \<Rightarrow> ws \<Rightarrow> http" where
  "http_Setup hp ws = hp\<lparr>h_ws := ws, h_hd := (\<lambda>_. None), h_hdf := (\<lambda>_. 0), h_nhd := HTTP_HDR_FIRST,
     h_status := 0, h_protover := 0, h_conds := False\<rparr>"

definition hdr_is :: "string \<Rightarrow> string \<Rightarrow> bool" where
  "hdr_is hdr s = strncasecmp_eq hdr s (length hdr)"

definition http_IsHdr :: "htxt option \<Rightarrow> string \<Rightarrow> bool option" where
  "http_IsHdr hh hdr = do {
     t \<leftarrow> hh;
     vassert (hdr \<noteq> [] \<and> last hdr = CHR '':'');
     Some (hdr_is hdr (t_s t))
   }"

section \<open>Collapsing header lines\<close>

text \<open>
  The collection in the reserved workspace: the text so far, the offset \<open>b\<close> from the start
  and the size reserved; \<open>b\<close> is set to the end when something did not fit.
\<close>

definition collect_append :: "nat \<Rightarrow> string \<times> nat \<Rightarrow> string \<Rightarrow> string \<times> nat" where
  "collect_append ml cb s = (case cb of (c, b) \<Rightarrow>
     if b + length s < ml then (c @ s, b + length s) else (c, ml))"

definition shift_up :: "nat \<Rightarrow> nat \<Rightarrow> (nat \<Rightarrow> 'a) \<Rightarrow> nat \<Rightarrow> 'a" where
  "shift_up u nhd a v = (if u \<le> v \<and> v < nhd - 1 then a (v + 1) else a v)"

function collect_loop ::
  "string \<Rightarrow> http \<Rightarrow> nat \<Rightarrow> nat \<Rightarrow> ((string \<times> nat) \<times> nat) option \<Rightarrow>
   (http \<times> nat \<times> ((string \<times> nat) \<times> nat) option) option" where
  "collect_loop hdr hp u f acc =
     (if u < h_nhd hp then do {
        m \<leftarrow> http_IsHdr (h_hd hp u) hdr;
        if \<not> m then collect_loop hdr hp (u + 1) f acc
        else if f = 0 then collect_loop hdr hp (u + 1) u acc
        else do {
          (ws, cb, ml) \<leftarrow> (case acc of
              Some (cb, ml) \<Rightarrow> Some (h_ws hp, cb, ml)
            | None \<Rightarrow> do {
                (ws, ml) \<leftarrow> WS_Reserve (h_ws hp) 0;
                t \<leftarrow> h_hd hp f;
                Some (ws, collect_append (unat ml) ([], 0) (t_s t), unat ml)
              });
          let cb = (if snd cb < ml then (fst cb @ '','', snd cb + 1) else cb);
          t \<leftarrow> h_hd hp u;
          let cb = collect_append ml cb (drop (length hdr) (t_s t));
          collect_loop hdr (hp\<lparr>h_ws := ws, h_hd := shift_up u (h_nhd hp) (h_hd hp),
                               h_nhd := h_nhd hp - 1\<rparr>) u f (Some (cb, ml))
        }
      } else Some (hp, f, acc))"
  by pat_completeness auto

termination by (relation "measure (\<lambda>(hdr, hp, u, f, acc). h_nhd hp - u)") auto

declare collect_loop.simps [simp del]

definition http_CollectHdr :: "http \<Rightarrow> string \<Rightarrow> http option" where
  "http_CollectHdr hp hdr = do {
     (hp, f, acc) \<leftarrow> collect_loop hdr hp HTTP_HDR_FIRST 0 None;
     case acc of
       None \<Rightarrow> Some hp
     | Some ((c, b), ml) \<Rightarrow>
         if b \<ge> ml then do {
           ws \<leftarrow> WS_Release (h_ws hp) 0;
           Some (hp\<lparr>h_ws := ws\<rparr>)
         } else do {
           ws \<leftarrow> WS_ReleaseP (h_ws hp) (ws_f (h_ws hp) + b + 1);
           Some (hp\<lparr>h_hd := (h_hd hp)(f \<mapsto> \<lparr>t_b = ws_f (h_ws hp), t_s = c\<rparr>), h_ws := ws\<rparr>)
         }
   }"

section \<open>Looking up headers\<close>

primrec findhdr_loop :: "http \<Rightarrow> nat \<Rightarrow> string \<Rightarrow> nat list \<Rightarrow> nat option" where
  "findhdr_loop hp l hdr [] = Some 0"
| "findhdr_loop hp l hdr (u # us) = do {
     t \<leftarrow> h_hd hp u;
     if length (t_s t) < l + 1 then findhdr_loop hp l hdr us
     else if t_s t ! l \<noteq> CHR '':'' then findhdr_loop hp l hdr us
     else if \<not> strncasecmp_eq hdr (t_s t) l then findhdr_loop hp l hdr us
     else Some u
   }"

definition http_findhdr :: "http \<Rightarrow> nat \<Rightarrow> string \<Rightarrow> nat option" where
  "http_findhdr hp l hdr = findhdr_loop hp l hdr [HTTP_HDR_FIRST..<h_nhd hp]"

text \<open>The result is the value found, \<open>None\<close> when there is none (return value 0).\<close>

definition http_GetHdr :: "http \<Rightarrow> string \<Rightarrow> string option option" where
  "http_GetHdr hp hdr = do {
     vassert (hdr \<noteq> [] \<and> last hdr = CHR '':'');
     u \<leftarrow> http_findhdr hp (length hdr - 1) hdr;
     if u = 0 then Some None
     else do {
       t \<leftarrow> h_hd hp u;
       Some (Some (dropWhile vct_issp (drop (length hdr) (t_s t))))
     }
   }"

function hdrdata_loop :: "string \<Rightarrow> string \<Rightarrow> string option" where
  "hdrdata_loop field h =
     (if length field \<le> length h then
        (if h \<noteq> [] \<and> (vct_islws (hd h) \<or> hd h = CHR '','') then hdrdata_loop field (tl h)
         else if (length h = length field \<or> vct_issepctl (h ! length field)) \<and>
                 take (length field) h = field
         then Some (dropWhile vct_islws (drop (length field) h))
         else if h = [] then None
         else hdrdata_loop field (dropWhile (\<lambda>c. c \<noteq> CHR '','') h))
      else None)"
  by auto

termination
proof (relation "measure (\<lambda>(f, h). length h)"; clarsimp)
  fix h :: string
  assume "h \<noteq> []" and "hd h \<noteq> CHR '',''"
  then show "length (dropWhile (\<lambda>c. c \<noteq> CHR '','') h) < length h"
    by (cases h) (auto simp: length_dropWhile_le less_Suc_eq_le)
qed

declare hdrdata_loop.simps [simp del]

definition http_GetHdrData :: "http \<Rightarrow> string \<Rightarrow> string \<Rightarrow> string option option" where
  "http_GetHdrData hp hdr field = do {
     r \<leftarrow> http_GetHdr hp hdr;
     case r of None \<Rightarrow> Some None | Some h \<Rightarrow> Some (hdrdata_loop field (cstr h))
   }"

abbreviation skip_sp :: "string \<Rightarrow> string" where
  "skip_sp h \<equiv> dropWhile vct_issp h"

definition digit_val :: "char \<Rightarrow> nat" where
  "digit_val c = of_char c - 48"

text \<open>The quality value, computed in exact rational numbers where the code has doubles.\<close>

primrec q_int :: "rat \<Rightarrow> string \<Rightarrow> rat" where
  "q_int a [] = a"
| "q_int a (c # cs) = (if vct_isdigit c then q_int (a * 10 + of_nat (digit_val c)) cs else a)"

primrec q_frac :: "rat \<Rightarrow> rat \<Rightarrow> string \<Rightarrow> rat" where
  "q_frac a b [] = a"
| "q_frac a b (c # cs) =
     (if vct_isdigit c then q_frac (a + b * of_nat (digit_val c)) (b / 10) cs else a)"

definition q_value :: "string \<Rightarrow> rat" where
  "q_value h =
     (let h = skip_sp h in
      if cchar h 0 \<noteq> CHR '';'' then 1
      else let h = skip_sp (drop 1 h) in
      if cchar h 0 \<noteq> CHR ''q'' then 1
      else let h = skip_sp (drop 1 h) in
      if cchar h 0 \<noteq> CHR ''='' then 1
      else let h = skip_sp (drop 1 h); a = q_int 0 h; h = dropWhile vct_isdigit h in
      if cchar h 0 \<noteq> CHR ''.'' then a else q_frac a (1 / 10) (drop 1 h))"

definition http_GetHdrQ :: "http \<Rightarrow> string \<Rightarrow> string \<Rightarrow> rat option" where
  "http_GetHdrQ hp hdr field = do {
     r \<leftarrow> http_GetHdrData hp hdr field;
     Some (case r of None \<Rightarrow> 0 | Some h \<Rightarrow> q_value h)
   }"

text \<open>The outer option of the value: whether the field is there; the inner one: its value.\<close>

definition http_GetHdrField :: "http \<Rightarrow> string \<Rightarrow> string \<Rightarrow> string option option option" where
  "http_GetHdrField hp hdr field = do {
     r \<leftarrow> http_GetHdrData hp hdr field;
     Some (map_option (\<lambda>h.
       let h = skip_sp h in
       if cchar h 0 = CHR ''='' then Some (skip_sp (drop 1 h)) else None) r)
   }"

datatype conn_reason = NotHTTP11 | ConnectionClose

function conn_loop :: "http \<Rightarrow> string \<Rightarrow> conn_reason option \<Rightarrow> (http \<times> conn_reason option) option" where
  "conn_loop hp p ret =
     (if cchar p 0 = NUL then Some (hp, ret)
      else if vct_issp (cchar p 0) \<or> cchar p 0 = CHR '','' then conn_loop hp (drop 1 p) ret
      else do {
        let n = 1 + length (takeWhile (\<lambda>c. c \<noteq> NUL \<and> c \<noteq> CHR '','' \<and> \<not> vct_issp c) (drop 1 p));
        let ret = (if n = 5 \<and> strncasecmp_eq p ''close'' n then Some ConnectionClose else ret);
        u \<leftarrow> http_findhdr hp n p;
        let hp = (if u \<noteq> 0 then hp\<lparr>h_hdf := (h_hdf hp)(u := h_hdf hp u OR HDF_FILTER)\<rparr> else hp);
        if cchar p n = NUL then Some (hp, ret) else conn_loop hp (drop (n + 1) p) ret
      })"
  by pat_completeness auto

termination
proof (relation "measure (\<lambda>(hp, p, r). length p)"; clarsimp)
  fix p :: string
  assume "cchar p 0 \<noteq> NUL"
  then show "length p - Suc 0 < length p" by (cases p) auto
next
  fix p :: string and n :: nat
  assume "cchar p 0 \<noteq> NUL"
  then show "length p - Suc (Suc n) < length p" by (cases p) auto
qed

declare conn_loop.simps [simp del]

definition http_DoConnection :: "http \<Rightarrow> (http \<times> conn_reason option) option" where
  "http_DoConnection hp = do {
     r \<leftarrow> http_GetHdr hp H_Connection;
     case r of
       None \<Rightarrow> Some (hp, if h_protover hp < 11 then Some NotHTTP11 else None)
     | Some p \<Rightarrow> conn_loop hp p None
   }"

definition http_HdrIs :: "http \<Rightarrow> string \<Rightarrow> string \<Rightarrow> bool option" where
  "http_HdrIs hp hdr val = do {
     r \<leftarrow> http_GetHdr hp hdr;
     Some (case r of None \<Rightarrow> False | Some p \<Rightarrow> strcasecmp_eq p val)
   }"

definition http_GetStatus :: "http \<Rightarrow> nat" where
  "http_GetStatus hp = h_status hp"

definition http_GetReq :: "http \<Rightarrow> htxt option" where
  "http_GetReq hp = do { Tcheck (h_hd hp HTTP_HDR_REQ); h_hd hp HTTP_HDR_REQ }"

section \<open>Dissecting received messages\<close>

lemma islws_NUL [simp]: "\<not> vct_islws NUL"
  by (simp add: vct_islws_iff vct_issp_iff vct_iscrlf_iff)

function clear_lws :: "string \<Rightarrow> nat \<Rightarrow> string \<times> nat" where
  "clear_lws buf q = (if vct_islws (cchar buf q) then clear_lws (buf[q := CHR '' '']) (q + 1) else (buf, q))"
  by auto

termination
  by (relation "measure (\<lambda>(b, q). length b - q)") (auto simp: cchar_def split: if_splits)

declare clear_lws.simps [simp del]

lemma clear_lws_length: "clear_lws buf q = (b', q') \<Longrightarrow> length b' = length buf"
  by (induction buf q arbitrary: b' q' rule: clear_lws.induct)
    (subst (asm) (2) clear_lws.simps, force split: if_splits)

lemma clear_lws_length': "(b', q') = clear_lws buf q \<Longrightarrow> length b' = length buf"
  by (metis clear_lws_length)

text \<open>The inner loop: the end \<open>q\<close> of the header line and the start \<open>r\<close> of the next.\<close>

function scan_hdr :: "string \<Rightarrow> nat \<Rightarrow> nat \<Rightarrow> string \<times> nat \<times> nat" where
  "scan_hdr buf q r =
     (if r < length buf then
        (if \<not> vct_iscrlf (buf ! r) then scan_hdr buf q (r + 1)
         else (let r' = r + vct_skipcrlf (drop r buf) in
           if r' \<ge> length buf then (buf, r, r')
           else if \<not> vct_issp (buf ! r') then (buf, r, r')
           else (case clear_lws buf r of (buf', q') \<Rightarrow> scan_hdr buf' q' r')))
      else (buf, q, r))"
  by pat_completeness auto

termination
  by (relation "measure (\<lambda>(b, q, r). length b - r)")
    (auto simp: vct_skipcrlf_def dest!: clear_lws_length' split: if_splits)

declare scan_hdr.simps [simp del]

function trim_sp :: "string \<Rightarrow> nat \<Rightarrow> nat \<Rightarrow> nat" where
  "trim_sp buf p q = (if q > p \<and> vct_issp (cchar buf (q - 1)) then trim_sp buf p (q - 1) else q)"
  by auto

termination by (relation "measure (\<lambda>(b, p, q). q)") auto

declare trim_sp.simps [simp del]

lemma scan_hdr_advances: "scan_hdr buf q r = (b', q', r') \<Longrightarrow> length b' = length buf \<and> r \<le> r' \<and> (r < length buf \<longrightarrow> r < r')"
proof (induction buf q r arbitrary: b' q' r' rule: scan_hdr.induct)
  case (1 buf q r)
  have sk: "0 < vct_skipcrlf s" for s by (simp add: vct_skipcrlf_def)
  show ?case
  proof (cases "r < length buf")
    case True
    show ?thesis
    proof (cases "vct_iscrlf (buf ! r)")
      case False
      then have "scan_hdr buf q (r + 1) = (b', q', r')"
        using 1(3) True scan_hdr.simps [of buf q r] by simp
      with 1(1) [OF True False] show ?thesis by force
    next
      case crlf: True
      let ?r = "r + vct_skipcrlf (drop r buf)"
      obtain b1 q1 where c: "clear_lws buf r = (b1, q1)" by (metis surj_pair)
      show ?thesis
      proof (cases "?r \<ge> length buf \<or> \<not> vct_issp (buf ! ?r)")
        case stop: True
        then show ?thesis
          using 1(3) True crlf sk [of "drop r buf"] scan_hdr.simps [of buf q r]
          by (auto simp: Let_def split: if_splits)
      next
        case False
        then have "scan_hdr b1 q1 ?r = (b', q', r')"
          using 1(3) True crlf c scan_hdr.simps [of buf q r] by (simp add: Let_def)
        with 1(2) [OF True _ refl _ _ c [symmetric]] crlf False clear_lws_length [OF c] sk [of "drop r buf"]
        show ?thesis by force
      qed
    qed
  next
    case False
    then show ?thesis using 1(3) scan_hdr.simps [of buf q r] by auto
  qed
qed

lemma scan_hdr_advances': "(b', q', r') = scan_hdr buf q r \<Longrightarrow> r < length buf \<Longrightarrow>
    length b' = length buf \<and> r < r'"
  by (metis scan_hdr_advances)

text \<open>The header lines from offset \<open>p\<close>; the second result is the HTTP error code, or 0.\<close>

function dissect_loop :: "http_conn \<Rightarrow> string \<Rightarrow> http \<Rightarrow> nat \<Rightarrow> http \<times> nat" where
  "dissect_loop htc buf hp p =
     (if p < length buf then
        (case scan_hdr buf p p of (buf, q, r) \<Rightarrow>
           if q - p > maxhdr htc then (hp\<lparr>h_losthdr := h_losthdr hp + 1\<rparr>, 413)
           else if p = q then (hp, 0)
           else (let hp = (if (cchar buf p = CHR ''i'' \<or> cchar buf p = CHR ''I'') \<and>
                              (cchar buf (p + 1) = CHR ''f'' \<or> cchar buf (p + 1) = CHR ''F'') \<and>
                              cchar buf (p + 2) = CHR ''-''
                           then hp\<lparr>h_conds := True\<rparr> else hp);
                     q = trim_sp buf p q;
                     buf = buf[q := NUL]
                 in if h_nhd hp < h_shd hp then
                      dissect_loop htc buf
                        (hp\<lparr>h_hdf := (h_hdf hp)(h_nhd hp := 0),
                            h_hd := (h_hd hp)(h_nhd hp \<mapsto>
                              \<lparr>t_b = rx_b htc + p, t_s = take (q - p) (drop p buf)\<rparr>),
                            h_nhd := h_nhd hp + 1\<rparr>) r
                    else (hp\<lparr>h_losthdr := h_losthdr hp + 1\<rparr>, 413)))
      else (hp, 0))"
  by pat_completeness auto

termination
  by (relation "measure (\<lambda>(htc, b, hp, p). length b - p)")
    (auto dest!: scan_hdr_advances')

declare dissect_loop.simps [simp del]

definition http_dissect_hdrs :: "http \<Rightarrow> http_conn \<Rightarrow> nat \<Rightarrow> http \<times> nat" where
  "http_dissect_hdrs hp htc p =
     dissect_loop htc (rx_s htc) (hp\<lparr>h_nhd := HTTP_HDR_FIRST, h_conds := False\<rparr>)
       (if cchar (rx_s htc) p = CR then p + 1 else p)"

text \<open>
  A field of the first line: its length up to a \<open>stop\<close> byte, or \<open>None\<close> for a \<open>bad\<close> byte before
  that.  The NUL at the end of the buffer is a control byte and as bad as the others.
\<close>

primrec scan_field :: "(char \<Rightarrow> bool) \<Rightarrow> (char \<Rightarrow> bool) \<Rightarrow> string \<Rightarrow> nat option" where
  "scan_field stop bad [] = None"
| "scan_field stop bad (c # cs) =
     (if stop c then Some 0 else if bad c then None else map_option Suc (scan_field stop bad cs))"

primrec skip_sp_ctl :: "string \<Rightarrow> string option" where
  "skip_sp_ctl [] = Some []"
| "skip_sp_ctl (c # cs) =
     (if vct_issp c then (if vct_isctl c then None else skip_sp_ctl cs) else Some (c # cs))"

definition set_hd :: "http \<Rightarrow> nat \<Rightarrow> htxt \<Rightarrow> http" where
  "set_hd hp n t = hp\<lparr>h_hd := (h_hd hp)(n \<mapsto> t)\<rparr>"

text \<open>The part of the receive buffer that starts with the suffix \<open>rest\<close>.\<close>

definition rx_txt :: "http_conn \<Rightarrow> string \<Rightarrow> nat \<Rightarrow> htxt" where
  "rx_txt htc rest n = \<lparr>t_b = rx_b htc + (length (rx_s htc) - length rest), t_s = take n rest\<rparr>"

definition http_splitline :: "http \<Rightarrow> http_conn \<Rightarrow> nat \<Rightarrow> nat \<Rightarrow> nat \<Rightarrow> http \<times> nat" where
  "http_splitline hp htc h1 h2 h3 =
     (let p1 = dropWhile vct_islws (rx_s htc) in
      case scan_field vct_issp vct_isctl p1 of None \<Rightarrow> (hp, 400) | Some n1 \<Rightarrow>
      let hp = set_hd hp h1 (rx_txt htc p1 n1) in
      case skip_sp_ctl (drop n1 p1) of None \<Rightarrow> (hp, 400) | Some p2 \<Rightarrow>
      case scan_field vct_islws vct_isctl p2 of None \<Rightarrow> (hp, 400) | Some n2 \<Rightarrow>
      let hp = set_hd hp h2 (rx_txt htc p2 n2) in
      if n2 = 0 then (hp, 413) else
      case skip_sp_ctl (drop n2 p2) of None \<Rightarrow> (hp, 400) | Some p3 \<Rightarrow>
      case scan_field vct_iscrlf (\<lambda>c. \<not> vct_issep c \<and> vct_isctl c) p3 of None \<Rightarrow> (hp, 400) | Some n3 \<Rightarrow>
      let hp = set_hd hp h3 (rx_txt htc p3 n3);
          p4 = drop n3 p3 in
      http_dissect_hdrs hp htc (length (rx_s htc) - length p4 + vct_skipcrlf p4))"

primrec host_loop :: "http \<Rightarrow> bool \<Rightarrow> nat list \<Rightarrow> nat option" where
  "host_loop hp seen [] = Some 0"
| "host_loop hp seen (u # us) =
     (if h_hd hp u = None then host_loop hp seen us
      else do {
        m \<leftarrow> http_IsHdr (h_hd hp u) H_Host;
        if m then (if seen then Some 400 else host_loop hp True us) else host_loop hp seen us
      })"

definition htc_request_check_host_hdr :: "http \<Rightarrow> nat option" where
  "htc_request_check_host_hdr hp = host_loop hp False [HTTP_HDR_FIRST..<h_nhd hp]"

definition http_ProtoVer :: "http \<Rightarrow> http option" where
  "http_ProtoVer hp = do {
     t \<leftarrow> h_hd hp HTTP_HDR_PROTO;
     Some (hp\<lparr>h_protover := (if strcasecmp_eq (t_s t) ''HTTP/1.0'' then 10
                             else if strcasecmp_eq (t_s t) ''HTTP/1.1'' then 11 else 9)\<rparr>)
   }"

definition http_DissectRequest :: "http \<Rightarrow> http_conn \<Rightarrow> (http \<times> nat) option" where
  "http_DissectRequest hp htc = do {
     let (hp, retval) = http_splitline hp htc HTTP_HDR_REQ HTTP_HDR_URL HTTP_HDR_PROTO;
     if retval \<noteq> 0 then Some (hp, retval)
     else do {
       hp \<leftarrow> http_ProtoVer hp;
       retval \<leftarrow> htc_request_check_host_hdr hp;
       Some (hp, retval)
     }
   }"

text \<open>The loop over the three status digits: the status, and whether all were digits.\<close>

fun status_digits :: "nat list \<Rightarrow> string \<Rightarrow> nat \<Rightarrow> nat \<times> bool" where
  "status_digits [] p st = (st, cchar p 0 = NUL)"
| "status_digits (j # js) p st =
     (if \<not> vct_isdigit (cchar p 0) then (st, False)
      else status_digits js (drop 1 p) (st + j * digit_val (cchar p 0)))"

definition http_DissectResponse :: "http_conn \<Rightarrow> http \<Rightarrow> (http \<times> nat) option" where
  "http_DissectResponse htc hp = do {
     let (hp, r) = http_splitline hp htc HTTP_HDR_PROTO HTTP_HDR_STATUS HTTP_HDR_RESPONSE;
     let retval = (if r \<noteq> 0 then 503 else 0);
     retval \<leftarrow> (if retval = 0 then do {
                  t \<leftarrow> h_hd hp HTTP_HDR_PROTO;
                  Some (if take 7 (t_s t) \<noteq> ''HTTP/1.'' then 503 else 0)
                } else Some retval);
     retval \<leftarrow> (if retval = 0 then do {
                  l \<leftarrow> Tlen (h_hd hp HTTP_HDR_STATUS);
                  Some (if l \<noteq> 3 then 503 else 0)
                } else Some retval);
     (hp, retval) \<leftarrow> (if retval = 0 then do {
                        t \<leftarrow> h_hd hp HTTP_HDR_STATUS;
                        let (st, ok) = status_digits [100, 10, 1] (t_s t) 0;
                        Some (hp\<lparr>h_status := st\<rparr>, if ok then 0 else 503)
                      } else Some (hp, retval));
     hp \<leftarrow> (if retval \<noteq> 0 then do {
               vassert (retval \<ge> 100 \<and> retval \<le> 999);
               Some (hp\<lparr>h_status := retval\<rparr>)
             } else http_ProtoVer hp);
     let empty = (case h_hd hp HTTP_HDR_RESPONSE of None \<Rightarrow> True | Some t \<Rightarrow> t_s t = []);
     hp \<leftarrow> (if empty then do {
               msg \<leftarrow> http_StatusMessage (h_status hp);
               Some (set_hd hp HTTP_HDR_RESPONSE (lit msg))
             } else Some hp);
     Some (hp, retval)
   }"

section \<open>Building messages\<close>

definition http_SetH :: "http \<Rightarrow> nat \<Rightarrow> htxt \<Rightarrow> http option" where
  "http_SetH hp n fm = do {
     vassert (n < h_shd hp);
     Some (hp\<lparr>h_hd := (h_hd hp)(n \<mapsto> fm\<lparr>t_s := cstr (t_s fm)\<rparr>), h_hdf := (h_hdf hp)(n := 0)\<rparr>)
   }"

definition http_copyh :: "http \<Rightarrow> http \<Rightarrow> nat \<Rightarrow> http option" where
  "http_copyh hp fm n = do {
     vassert (n < HTTP_HDR_FIRST);
     Tcheck (h_hd fm n);
     Some (hp\<lparr>h_hd := (h_hd hp)(n := h_hd fm n), h_hdf := (h_hdf hp)(n := h_hdf fm n)\<rparr>)
   }"

definition http_ForceGet :: "http \<Rightarrow> http option" where
  "http_ForceGet hp = do {
     t \<leftarrow> http_GetReq hp;
     if cstr (t_s t) \<noteq> ''GET'' then http_SetH hp HTTP_HDR_REQ (lit ''GET'') else Some hp
   }"

definition http_CopyResp :: "http \<Rightarrow> http \<Rightarrow> http option" where
  "http_CopyResp hp fm = do {
     hp \<leftarrow> http_SetH hp HTTP_HDR_PROTO (lit ''HTTP/1.1'');
     http_copyh (hp\<lparr>h_status := h_status fm\<rparr>) fm HTTP_HDR_RESPONSE
   }"

definition http_SetResp :: "http \<Rightarrow> htxt \<Rightarrow> nat \<Rightarrow> htxt \<Rightarrow> http option" where
  "http_SetResp hp proto status response = do {
     hp \<leftarrow> http_SetH hp HTTP_HDR_PROTO proto;
     vassert (status \<ge> 100 \<and> status \<le> 999);
     http_SetH (hp\<lparr>h_status := status\<rparr>) HTTP_HDR_RESPONSE response
   }"

definition http_copyheader :: "http \<Rightarrow> http \<Rightarrow> nat \<Rightarrow> http option" where
  "http_copyheader hp fm n = do {
     vassert (n < h_shd fm);
     Tcheck (h_hd fm n);
     Some (if h_nhd hp < h_shd hp
           then hp\<lparr>h_hd := (h_hd hp)(h_nhd hp := h_hd fm n), h_hdf := (h_hdf hp)(h_nhd hp := 0),
                   h_nhd := h_nhd hp + 1\<rparr>
           else hp\<lparr>h_losthdr := h_losthdr hp + 1\<rparr>)
   }"

text \<open>A header line that a filter operation \<open>how\<close> suppresses.\<close>

definition suppressed :: "u32 \<Rightarrow> string \<Rightarrow> bool" where
  "suppressed how s = list_ex (\<lambda>(b, e). e AND how \<noteq> 0 \<and> hdr_is b s) http_headers"

primrec estimate_loop :: "http \<Rightarrow> u32 \<Rightarrow> nat list \<Rightarrow> u32 \<Rightarrow> nat \<Rightarrow> u32 \<times> nat" where
  "estimate_loop fm how [] l nhd = (l, nhd)"
| "estimate_loop fm how (u # us) l nhd =
     (case h_hd fm u of
        None \<Rightarrow> estimate_loop fm how us l nhd
      | Some t \<Rightarrow>
          if h_hdf fm u AND HDF_FILTER \<noteq> 0 \<or> suppressed how (t_s t) then estimate_loop fm how us l nhd
          else estimate_loop fm how us (l + prndup32 (of_nat (length (t_s t)) + 1)) (nhd + 1))"

text \<open>The second result, the number of headers, is a \<open>uint16_t\<close> in C; it is at most the size of the header array.\<close>

definition http_EstimateWS :: "http \<Rightarrow> u32 \<Rightarrow> u32 \<times> nat" where
  "http_EstimateWS fm how = estimate_loop fm how [0..<h_nhd fm] 0 HTTP_HDR_FIRST"

primrec filter_loop :: "http \<Rightarrow> http \<Rightarrow> u32 \<Rightarrow> nat list \<Rightarrow> http option" where
  "filter_loop hp fm how [] = Some hp"
| "filter_loop hp fm how (u # us) =
     (case h_hd fm u of
        None \<Rightarrow> filter_loop hp fm how us
      | Some t \<Rightarrow>
          if h_hdf fm u AND HDF_FILTER \<noteq> 0 \<or> suppressed how (t_s t) then filter_loop hp fm how us
          else do { hp \<leftarrow> http_copyheader hp fm u; filter_loop hp fm how us })"

definition http_FilterFields :: "http \<Rightarrow> http \<Rightarrow> u32 \<Rightarrow> http option" where
  "http_FilterFields hp fm how =
     filter_loop (hp\<lparr>h_nhd := HTTP_HDR_FIRST, h_status := h_status fm\<rparr>) fm how
       [HTTP_HDR_FIRST..<h_nhd fm]"

text \<open>The formatted text is an argument.\<close>

definition http_PrintfHeader :: "http \<Rightarrow> string \<Rightarrow> http option" where
  "http_PrintfHeader hp out = do {
     (ws, l) \<leftarrow> WS_Reserve (h_ws hp) 0;
     let n = (of_nat (length out) :: u32);
     if n + 1 \<ge> l \<or> h_nhd hp \<ge> h_shd hp then do {
       ws' \<leftarrow> WS_Release ws 0;
       Some (hp\<lparr>h_ws := ws', h_losthdr := h_losthdr hp + 1\<rparr>)
     } else do {
       ws' \<leftarrow> WS_Release ws (n + 1);
       Some (hp\<lparr>h_ws := ws', h_hd := (h_hd hp)(h_nhd hp \<mapsto> \<lparr>t_b = ws_f ws, t_s = out\<rparr>),
                h_hdf := (h_hdf hp)(h_nhd hp := 0), h_nhd := h_nhd hp + 1\<rparr>)
     }
   }"

fun dec_digits :: "nat \<Rightarrow> string" where
  "dec_digits n = (if n < 10 then [char_of (48 + n)] else dec_digits (n div 10) @ [char_of (48 + n mod 10)])"

declare dec_digits.simps [simp del]

text \<open>\<open>bereq\<close> from the client's request \<open>req\<close>; \<open>xid\<close> is the transaction number.\<close>

definition http_FilterHeader :: "http \<Rightarrow> http \<Rightarrow> u32 \<Rightarrow> nat \<Rightarrow> http option" where
  "http_FilterHeader bereq req how xid = do {
     hp \<leftarrow> http_copyh bereq req HTTP_HDR_REQ;
     hp \<leftarrow> http_copyh hp req HTTP_HDR_URL;
     hp \<leftarrow> (if how = HTTPH_R_FETCH then http_SetH hp HTTP_HDR_PROTO (lit ''HTTP/1.1'')
             else http_copyh hp req HTTP_HDR_PROTO);
     hp \<leftarrow> http_FilterFields hp req how;
     http_PrintfHeader hp (''X-Varnish: '' @ dec_digits xid)
   }"

primrec copyhome_loop :: "http \<Rightarrow> nat list \<Rightarrow> http option" where
  "copyhome_loop hp [] = Some hp"
| "copyhome_loop hp (u # us) =
     (case h_hd hp u of
        None \<Rightarrow> copyhome_loop hp us
      | Some t \<Rightarrow>
          if t_b t \<ge> ws_s (h_ws hp) \<and> t_b t + length (t_s t) \<le> ws_e (h_ws hp) then copyhome_loop hp us
          else do {
            (ws, p) \<leftarrow> WS_Alloc (h_ws hp) (of_nat (length (t_s t)) + 1);
            copyhome_loop
              (case p of
                 Some b \<Rightarrow> hp\<lparr>h_ws := ws, h_hd := (h_hd hp)(u \<mapsto> t\<lparr>t_b := b\<rparr>)\<rparr>
               | None \<Rightarrow> hp\<lparr>h_ws := ws, h_hd := (h_hd hp)(u := None), h_losthdr := h_losthdr hp + 1\<rparr>) us
          })"

definition http_CopyHome :: "http \<Rightarrow> http option" where
  "http_CopyHome hp = copyhome_loop hp [0..<h_nhd hp]"

definition http_ClrHeader :: "http \<Rightarrow> http" where
  "http_ClrHeader hp = hp\<lparr>h_nhd := HTTP_HDR_FIRST, h_status := 0, h_protover := 0, h_conds := False,
     h_hd := (\<lambda>n. if n < h_shd hp then None else h_hd hp n)\<rparr>"

definition http_SetHeader :: "http \<Rightarrow> htxt \<Rightarrow> http option" where
  "http_SetHeader hp hdr =
     (if h_nhd hp \<ge> h_shd hp then Some (hp\<lparr>h_losthdr := h_losthdr hp + 1\<rparr>)
      else http_SetH (hp\<lparr>h_nhd := h_nhd hp + 1\<rparr>) (h_nhd hp) hdr)"

definition http_PutField :: "http \<Rightarrow> nat \<Rightarrow> string \<Rightarrow> http option" where
  "http_PutField hp field str = do {
     let s = cstr str;
     (ws, p) \<leftarrow> WS_Alloc (h_ws hp) (of_nat (length s) + 1);
     Some (hp\<lparr>h_ws := ws, h_hdf := (h_hdf hp)(field := 0),
              h_hd := (h_hd hp)(field := map_option (\<lambda>b. \<lparr>t_b = b, t_s = s\<rparr>) p)\<rparr>)
   }"

definition http_PutProtocol :: "http \<Rightarrow> string \<Rightarrow> http option" where
  "http_PutProtocol hp protocol = do {
     hp \<leftarrow> http_PutField hp HTTP_HDR_PROTO protocol;
     hp \<leftarrow> (if h_hd hp HTTP_HDR_PROTO = None then http_SetH hp HTTP_HDR_PROTO (lit ''HTTP/1.1'')
             else Some hp);
     Tcheck (h_hd hp HTTP_HDR_PROTO);
     Some hp
   }"

definition http_PutStatus :: "http \<Rightarrow> nat \<Rightarrow> http option" where
  "http_PutStatus hp status = do {
     vassert (status \<ge> 100 \<and> status \<le> 999);
     Some (hp\<lparr>h_status := status\<rparr>)
   }"

definition http_PutResponse :: "http \<Rightarrow> string \<Rightarrow> http option" where
  "http_PutResponse hp response = do {
     hp \<leftarrow> http_PutField hp HTTP_HDR_RESPONSE response;
     hp \<leftarrow> (if h_hd hp HTTP_HDR_RESPONSE = None
             then http_SetH hp HTTP_HDR_RESPONSE (lit ''Lost Response'') else Some hp);
     Tcheck (h_hd hp HTTP_HDR_RESPONSE);
     Some hp
   }"

text \<open>The loop of \<open>http_Unset\<close>: \<open>v\<close> is the next slot to fill.\<close>

primrec unset_loop :: "string \<Rightarrow> http \<Rightarrow> nat \<Rightarrow> nat list \<Rightarrow> (http \<times> nat) option" where
  "unset_loop hdr hp v [] = Some (hp, v)"
| "unset_loop hdr hp v (u # us) =
     (if h_hd hp u = None then unset_loop hdr hp v us
      else do {
        m \<leftarrow> http_IsHdr (h_hd hp u) hdr;
        if m then unset_loop hdr hp v us
        else unset_loop hdr
          (if v \<noteq> u then hp\<lparr>h_hd := (h_hd hp)(v := h_hd hp u), h_hdf := (h_hdf hp)(v := h_hdf hp u)\<rparr>
           else hp) (v + 1) us
      })"

definition http_Unset :: "http \<Rightarrow> string \<Rightarrow> http option" where
  "http_Unset hp hdr = do {
     (hp, v) \<leftarrow> unset_loop hdr hp HTTP_HDR_FIRST [HTTP_HDR_FIRST..<h_nhd hp];
     Some (hp\<lparr>h_nhd := v\<rparr>)
   }"

definition HTTP_Copy :: "http \<Rightarrow> http \<Rightarrow> http option" where
  "HTTP_Copy hp fm = do {
     vassert (h_nhd fm \<le> h_shd hp);
     Some (hp\<lparr>h_conds := h_conds fm, h_status := h_status fm, h_protover := h_protover fm,
              h_nhd := h_nhd fm,
              h_hd := (\<lambda>n. if n < h_nhd fm then h_hd fm n else h_hd hp n),
              h_hdf := (\<lambda>n. if n < h_nhd fm then h_hdf fm n else h_hdf hp n)\<rparr>)
   }"

text \<open>\<open>sprintf\<close> with \<open>%3d\<close>.\<close>

definition fmt_3d :: "nat \<Rightarrow> string" where
  "fmt_3d n = replicate (3 - length (dec_digits n)) (CHR '' '') @ dec_digits n"

definition WRW_WriteH :: "htxt option \<Rightarrow> string \<Rightarrow> string option" where
  "WRW_WriteH hh suf = do { t \<leftarrow> hh; Some (t_s t @ suf) }"

primrec write_hdrs :: "http \<Rightarrow> nat list \<Rightarrow> string" where
  "write_hdrs hp [] = []"
| "write_hdrs hp (u # us) =
     (case h_hd hp u of None \<Rightarrow> [] | Some t \<Rightarrow> t_s t @ [CR, LF]) @ write_hdrs hp us"

text \<open>The bytes sent; their number is the return value.\<close>

definition http_Write :: "http \<Rightarrow> bool \<Rightarrow> (http \<times> string) option" where
  "http_Write hp resp = do {
     (hp, first) \<leftarrow> (if resp then do {
         a \<leftarrow> WRW_WriteH (h_hd hp HTTP_HDR_PROTO) '' '';
         (ws, p) \<leftarrow> WS_Alloc (h_ws hp) 4;
         b \<leftarrow> p;
         let st = \<lparr>t_b = b, t_s = take 3 (fmt_3d (h_status hp))\<rparr>;
         let hp = set_hd (hp\<lparr>h_ws := ws\<rparr>) HTTP_HDR_STATUS st;
         c \<leftarrow> WRW_WriteH (Some st) '' '';
         d \<leftarrow> WRW_WriteH (h_hd hp HTTP_HDR_RESPONSE) [CR, LF];
         Some (hp, a @ c @ d)
       } else do {
         a \<leftarrow> WRW_WriteH (h_hd hp HTTP_HDR_REQ) '' '';
         c \<leftarrow> WRW_WriteH (h_hd hp HTTP_HDR_URL) '' '';
         d \<leftarrow> WRW_WriteH (h_hd hp HTTP_HDR_PROTO) [CR, LF];
         Some (hp, a @ c @ d)
       });
     Some (hp, first @ write_hdrs hp [HTTP_HDR_FIRST..<h_nhd hp] @ [CR, LF])
   }"

end
