(* ===== verification/Http_Fields.thy ===== *)
theory Http_Fields
  imports Http
begin

text \<open>
  Properties of the header array operations of cache_http.c: finding, removing, adding,
  filtering and copying header lines.
\<close>

section \<open>Header names\<close>

definition good_hdr :: "string \<Rightarrow> bool" where
  "good_hdr hdr \<longleftrightarrow> hdr \<noteq> [] \<and> last hdr = CHR '':'' \<and> NUL \<notin> set hdr"

lemma of_char_eq_nat: "c = d \<longleftrightarrow> of_char c = (of_char d :: nat)"
  by simp

lemma c_tolower_colon: "c_tolower c = CHR '':'' \<longleftrightarrow> c = CHR '':''"
proof -
  have n: "(of_char c :: nat) < 256" by simp
  have "of_char (char_of (of_char c + 32 :: nat) :: char) \<noteq> (58 :: nat)" if "65 \<le> (of_char c :: nat)" "of_char c \<le> (90 :: nat)"
    using that by simp
  then show ?thesis unfolding c_tolower_def Let_def of_char_eq_nat [of _ "CHR '':''"] by auto
qed

lemma take_cstr_nth:
  assumes "l < length (cstr s)"
  shows "cstr s ! l = s ! l" "l < length s"
  using assms
proof (induction s arbitrary: l)
  case (Cons c s)
  { case 1 then show ?case using Cons.IH(1) by (cases l) (auto split: if_splits) }
  { case 2 then show ?case using Cons.IH(2) by (cases l) (auto split: if_splits) }
qed auto

lemma length_cstr_gt:
  assumes "l \<le> length (cstr s)" and "l < length s" and "s ! l \<noteq> NUL"
  shows "l < length (cstr s)"
  using assms
proof (induction s arbitrary: l)
  case (Cons c s)
  then show ?case by (cases l) (auto split: if_splits)
qed simp

text \<open>\<open>http_findhdr\<close> and \<open>http_IsHdr\<close> agree on what a header name matches.\<close>

lemma find_matches_is:
  assumes g: "good_hdr hdr" and l: "l = length hdr - 1"
  shows "(\<not> length s < l + 1 \<and> s ! l = CHR '':'' \<and> strncasecmp_eq hdr s l) \<longleftrightarrow> hdr_is hdr s"
proof -
  obtain n where h: "hdr = n @ '':''" using g by (metis append_butlast_last_id good_hdr_def)
  then have n: "l = length n" "NUL \<notin> set n" "length hdr = Suc l" using g l by (auto simp: good_hdr_def)
  have ch: "cstr hdr = n @ '':''" using g by (simp add: cstr_id good_hdr_def h)
  have col: "c_tolower (CHR '':'') = CHR '':''" by (simp add: c_tolower_colon)
  have ls: "strncasecmp_eq hdr s l \<longleftrightarrow> map c_tolower n = map c_tolower (take l (cstr s))"
    by (simp add: strncasecmp_eq_def ch n(1))
  have "hdr_is hdr s \<longleftrightarrow> map c_tolower n @ '':'' = map c_tolower (take (Suc l) (cstr s))"
    by (simp add: hdr_is_def strncasecmp_eq_def ch n col)
  also have "\<dots> \<longleftrightarrow> l < length (cstr s) \<and> map c_tolower n = map c_tolower (take l (cstr s)) \<and> cstr s ! l = CHR '':''"
  proof (cases "l < length (cstr s)")
    case True
    have e: "CHR '':'' = c_tolower x \<longleftrightarrow> x = CHR '':''" for x using c_tolower_colon [of x] by metis
    have "length (map c_tolower n) = length (map c_tolower (take l (cstr s)))" using True n(1) by simp
    then show ?thesis using True by (simp add: take_Suc_conv_app_nth e)
  next
    case False
    then have "length (take (Suc l) (cstr s)) \<noteq> Suc l" by simp
    then have "map c_tolower n @ '':'' \<noteq> map c_tolower (take (Suc l) (cstr s))"
      using n(1) by (metis length_append_singleton length_map)
    then show ?thesis using False by simp
  qed
  also have "\<dots> \<longleftrightarrow> \<not> length s < l + 1 \<and> s ! l = CHR '':'' \<and> strncasecmp_eq hdr s l"
  proof
    assume "l < length (cstr s) \<and> map c_tolower n = map c_tolower (take l (cstr s)) \<and> cstr s ! l = CHR '':''"
    then show "\<not> length s < l + 1 \<and> s ! l = CHR '':'' \<and> strncasecmp_eq hdr s l"
      using take_cstr_nth [of l s] ls by auto
  next
    assume a: "\<not> length s < l + 1 \<and> s ! l = CHR '':'' \<and> strncasecmp_eq hdr s l"
    then have "length n = length (take l (cstr s))" using ls by (metis length_map)
    then have "l \<le> length (cstr s)" using n(1) by simp
    then have "l < length (cstr s)" using a by (intro length_cstr_gt) auto
    then show "l < length (cstr s) \<and> map c_tolower n = map c_tolower (take l (cstr s)) \<and> cstr s ! l = CHR '':''"
      using a ls take_cstr_nth by auto
  qed
  finally show ?thesis by blast
qed

definition hd_s :: "http \<Rightarrow> nat \<Rightarrow> string" where
  "hd_s hp u = t_s (the (h_hd hp u))"

definition filled :: "http \<Rightarrow> bool" where
  "filled hp \<longleftrightarrow> (\<forall>u. HTTP_HDR_FIRST \<le> u \<and> u < h_nhd hp \<longrightarrow> h_hd hp u \<noteq> None)"

lemma findhdr_loop_find:
  assumes "good_hdr hdr" and "\<forall>u \<in> set us. h_hd hp u \<noteq> None"
  shows "findhdr_loop hp (length hdr - 1) hdr us =
    Some (case find (\<lambda>u. hdr_is hdr (hd_s hp u)) us of None \<Rightarrow> 0 | Some u \<Rightarrow> u)"
  using assms(2)
proof (induction us)
  case (Cons u us)
  then obtain t where t: "h_hd hp u = Some t" by auto
  then show ?case using Cons find_matches_is [OF assms(1) refl, of "t_s t"] by (auto simp: hd_s_def)
qed simp

lemma GetHdr_find:
  assumes "good_hdr hdr" and "filled hp"
  shows "http_GetHdr hp hdr = Some (case find (\<lambda>u. hdr_is hdr (hd_s hp u)) [HTTP_HDR_FIRST..<h_nhd hp] of
    None \<Rightarrow> None | Some u \<Rightarrow> Some (dropWhile vct_issp (drop (length hdr) (hd_s hp u))))"
proof -
  let ?f = "find (\<lambda>u. hdr_is hdr (hd_s hp u)) [HTTP_HDR_FIRST..<h_nhd hp]"
  have f: "http_findhdr hp (length hdr - 1) hdr = Some (case ?f of None \<Rightarrow> 0 | Some u \<Rightarrow> u)"
    unfolding http_findhdr_def by (rule findhdr_loop_find [OF assms(1)]) (use assms(2) in \<open>auto simp: filled_def\<close>)
  show ?thesis
  proof (cases ?f)
    case None
    then show ?thesis using f assms(1) by (simp add: http_GetHdr_def good_hdr_def)
  next
    case (Some u)
    then have "HTTP_HDR_FIRST \<le> u" "u < h_nhd hp" by (auto simp: find_Some_iff)
    then have "u \<noteq> 0" "h_hd hp u \<noteq> None" using assms(2) by (auto simp: HTTP_HDR_FIRST_def filled_def)
    then show ?thesis using f Some assms(1) by (auto simp: http_GetHdr_def good_hdr_def hd_s_def)
  qed
qed

section \<open>Removing and adding header lines\<close>

definition slot :: "http \<Rightarrow> nat \<Rightarrow> htxt option \<times> u8" where
  "slot hp u = (h_hd hp u, h_hdf hp u)"

definition keep :: "string \<Rightarrow> htxt option \<times> u8 \<Rightarrow> bool" where
  "keep hdr s = (case fst s of None \<Rightarrow> False | Some t \<Rightarrow> \<not> hdr_is hdr (t_s t))"

lemma unset_loop_spec:
  assumes "good_hdr hdr" and "v \<le> u" and "u \<le> n"
  shows "\<exists>hp' v'. unset_loop hdr hp v [u..<n] = Some (hp', v') \<and> v \<le> v' \<and> v' \<le> n \<and>
    (\<forall>i < v. slot hp' i = slot hp i) \<and>
    map (slot hp') [v..<v'] = filter (keep hdr) (map (slot hp) [u..<n]) \<and>
    (\<exists>hd hdf. hp' = hp\<lparr>h_hd := hd, h_hdf := hdf\<rparr>)"
  using assms(2,3)
proof (induction "n - u" arbitrary: u v hp)
  case 0
  then show ?case by (intro exI [of _ hp] exI [of _ v]) (auto intro!: exI [of _ "h_hd hp"] exI [of _ "h_hdf hp"])
next
  case (Suc k)
  then have ul: "[u..<n] = u # [Suc u..<n]" by (simp add: upt_conv_Cons)
  show ?case
  proof (cases "keep hdr (slot hp u)")
    case False
    obtain hp' v' where i: "unset_loop hdr hp v [Suc u..<n] = Some (hp', v')" "v \<le> v'" "v' \<le> n"
      "\<forall>i < v. slot hp' i = slot hp i"
      "map (slot hp') [v..<v'] = filter (keep hdr) (map (slot hp) [Suc u..<n])"
      "\<exists>hd hdf. hp' = hp\<lparr>h_hd := hd, h_hdf := hdf\<rparr>"
    proof -
      have "k = n - Suc u" "v \<le> Suc u" "Suc u \<le> n" using Suc.hyps(2) Suc.prems by auto
      from Suc.hyps(1) [OF this, of hp] show thesis using that by blast
    qed
    have "unset_loop hdr hp v [u..<n] = Some (hp', v')"
      using False i(1) assms(1)
      by (cases "h_hd hp u") (auto simp: ul keep_def slot_def http_IsHdr_def good_hdr_def)
    then show ?thesis using i False by (intro exI [of _ hp'] exI [of _ v']) (auto simp: ul)
  next
    case True
    define hp1 where "hp1 = (if v \<noteq> u then hp\<lparr>h_hd := (h_hd hp)(v := h_hd hp u), h_hdf := (h_hdf hp)(v := h_hdf hp u)\<rparr> else hp)"
    have s1: "slot hp1 v = slot hp u" "\<And>i. i \<noteq> v \<Longrightarrow> slot hp1 i = slot hp i"
      by (auto simp: hp1_def slot_def)
    obtain hp' v' where i: "unset_loop hdr hp1 (v + 1) [Suc u..<n] = Some (hp', v')" "v + 1 \<le> v'" "v' \<le> n"
      "\<forall>i < v + 1. slot hp' i = slot hp1 i"
      "map (slot hp') [v + 1..<v'] = filter (keep hdr) (map (slot hp1) [Suc u..<n])"
      "\<exists>hd hdf. hp' = hp1\<lparr>h_hd := hd, h_hdf := hdf\<rparr>"
    proof -
      have "k = n - Suc u" "v + 1 \<le> Suc u" "Suc u \<le> n" using Suc.hyps(2) Suc.prems by auto
      from Suc.hyps(1) [OF this, of hp1] show thesis using that by blast
    qed
    have ev: "unset_loop hdr hp v [u..<n] = Some (hp', v')"
      using True i(1) assms(1)
      by (cases "h_hd hp u") (auto simp: ul keep_def slot_def http_IsHdr_def good_hdr_def hp1_def)
    have e1: "map (slot hp1) [Suc u..<n] = map (slot hp) [Suc u..<n]"
      using s1 Suc.prems by (intro map_cong) auto
    moreover have "[v..<v'] = v # [v + 1..<v']" using i(2) by (simp add: upt_conv_Cons)
    moreover have hd: "\<exists>hd hdf. hp' = hp\<lparr>h_hd := hd, h_hdf := hdf\<rparr>"
    proof -
      obtain hd hdf where "hp' = hp1\<lparr>h_hd := hd, h_hdf := hdf\<rparr>" using i(6) by blast
      then have "hp' = hp\<lparr>h_hd := hd, h_hdf := hdf\<rparr>" by (simp add: hp1_def)
      then show ?thesis by blast
    qed
    moreover have "slot hp' v = slot hp u" using i(4) s1(1) by simp
    ultimately have "map (slot hp') [v..<v'] = filter (keep hdr) (map (slot hp) [u..<n])"
      using i(5) [unfolded e1] True by (simp add: ul)
    moreover have "\<forall>i < v. slot hp' i = slot hp i" using i(4) s1(2) by simp
    ultimately show ?thesis using i(2,3) ev hd by (intro exI [of _ hp'] exI [of _ v']) simp
  qed
qed

lemma Unset_spec:
  assumes "good_hdr hdr" and "HTTP_HDR_FIRST \<le> h_nhd hp"
  shows "\<exists>hp'. http_Unset hp hdr = Some hp' \<and> HTTP_HDR_FIRST \<le> h_nhd hp' \<and> h_nhd hp' \<le> h_nhd hp \<and>
    map (slot hp') [HTTP_HDR_FIRST..<h_nhd hp'] = filter (keep hdr) (map (slot hp) [HTTP_HDR_FIRST..<h_nhd hp]) \<and>
    (\<forall>i < HTTP_HDR_FIRST. slot hp' i = slot hp i) \<and> h_shd hp' = h_shd hp \<and> h_ws hp' = h_ws hp"
proof -
  obtain hp1 v where u: "unset_loop hdr hp HTTP_HDR_FIRST [HTTP_HDR_FIRST..<h_nhd hp] = Some (hp1, v)"
    "HTTP_HDR_FIRST \<le> v" "v \<le> h_nhd hp" "\<forall>i < HTTP_HDR_FIRST. slot hp1 i = slot hp i"
    "map (slot hp1) [HTTP_HDR_FIRST..<v] = filter (keep hdr) (map (slot hp) [HTTP_HDR_FIRST..<h_nhd hp])"
    "\<exists>hd hdf. hp1 = hp\<lparr>h_hd := hd, h_hdf := hdf\<rparr>"
    using unset_loop_spec [OF assms(1) order.refl assms(2), of hp] by blast
  have sl: "slot (hp1\<lparr>h_nhd := v\<rparr>) = slot hp1" by (auto simp: slot_def)
  show ?thesis
    using u by (intro exI [of _ "hp1\<lparr>h_nhd := v\<rparr>"]) (auto simp: http_Unset_def sl)
qed

lemma slots_kept:
  assumes "map (slot hp') [a..<n] = filter (keep hdr) xs" and "a \<le> u" and "u < n"
  shows "\<exists>t. h_hd hp' u = Some t \<and> \<not> hdr_is hdr (t_s t)"
proof -
  have "slot hp' u \<in> set (map (slot hp') [a..<n])" using assms(2,3) by simp
  then have "keep hdr (slot hp' u)" unfolding assms(1) by simp
  then show ?thesis by (auto simp: keep_def slot_def split: option.splits)
qed

lemma find_snoc: "\<forall>x \<in> set xs. \<not> P x \<Longrightarrow> P y \<Longrightarrow> find P (xs @ [y]) = Some y"
  by (induction xs) auto

lemma SetHeader_slots:
  assumes "h_nhd hp < h_shd hp" and "http_SetHeader hp t = Some hp'"
  shows "h_nhd hp' = h_nhd hp + 1" "h_hd hp' (h_nhd hp) = Some (t\<lparr>t_s := cstr (t_s t)\<rparr>)"
    "u \<noteq> h_nhd hp \<Longrightarrow> slot hp' u = slot hp u"
  using assms by (auto simp: http_SetHeader_def http_SetH_def slot_def vas)

text \<open>A line put behind lines of other names is what \<open>http_GetHdr\<close> finds.\<close>

lemma snoc_get:
  assumes "good_hdr hdr" and "HTTP_HDR_FIRST \<le> n" and k: "\<And>u. HTTP_HDR_FIRST \<le> u \<Longrightarrow> u < n \<Longrightarrow> \<exists>t. h_hd hp u = Some t \<and> \<not> hdr_is hdr (t_s t)"
    and "h_nhd hp = n + 1" and "h_hd hp n = Some t" and "t_s t = hdr @ v"
  shows "http_GetHdr hp hdr = Some (Some (dropWhile vct_issp v))"
proof -
  have f: "filled hp"
    unfolding filled_def
  proof (intro allI impI)
    fix u assume "HTTP_HDR_FIRST \<le> u \<and> u < h_nhd hp"
    then show "h_hd hp u \<noteq> None" using k [of u] assms(4,5) by (cases "u = n") auto
  qed
  have m: "hdr_is hdr (hdr @ v)" using assms(1) by (simp add: hdr_is_def strncasecmp_eq_def cstr_append good_hdr_def cstr_id)
  have nf: "\<not> hdr_is hdr (hd_s hp u)" if "u \<in> set [HTTP_HDR_FIRST..<n]" for u using k [of u] that by (auto simp: hd_s_def)
  have "find (\<lambda>u. hdr_is hdr (hd_s hp u)) ([HTTP_HDR_FIRST..<n] @ [n]) = Some n"
    using nf m assms(5,6) by (intro find_snoc) (auto simp: hd_s_def)
  moreover have "[HTTP_HDR_FIRST..<h_nhd hp] = [HTTP_HDR_FIRST..<n] @ [n]" using assms(2,4) by simp
  ultimately show ?thesis using GetHdr_find [OF assms(1) f] assms(5,6) by (simp add: hd_s_def)
qed

text \<open>
  C24.  Replacing a header as VCL does, \<open>http_Unset\<close> followed by \<open>http_SetHeader\<close>, in a message
  with a free header slot: neither call aborts; all other header lines keep their order and their flags, every old line of
  that name (in any spelling of upper and lower case) and every lost slot is gone, and
  \<open>http_GetHdr\<close> then returns exactly the new value, without its leading white space.
\<close>

theorem unset_set_get:
  assumes "good_hdr hdr" and "HTTP_HDR_FIRST \<le> h_nhd hp" and "h_nhd hp < h_shd hp" and "NUL \<notin> set v"
  shows "\<exists>hp1 hp2. http_Unset hp hdr = Some hp1 \<and> http_GetHdr hp1 hdr = Some None \<and>
    map (slot hp1) [HTTP_HDR_FIRST..<h_nhd hp1]
      = filter (keep hdr) (map (slot hp) [HTTP_HDR_FIRST..<h_nhd hp]) \<and>
    http_SetHeader hp1 \<lparr>t_b = b, t_s = hdr @ v\<rparr> = Some hp2 \<and>
    h_nhd hp2 = h_nhd hp1 + 1 \<and> (\<forall>u < h_nhd hp1. slot hp2 u = slot hp1 u) \<and>
    http_GetHdr hp2 hdr = Some (Some (dropWhile vct_issp v))"
proof -
  obtain hp1 where u: "http_Unset hp hdr = Some hp1" "HTTP_HDR_FIRST \<le> h_nhd hp1" "h_nhd hp1 \<le> h_nhd hp"
    "map (slot hp1) [HTTP_HDR_FIRST..<h_nhd hp1] = filter (keep hdr) (map (slot hp) [HTTP_HDR_FIRST..<h_nhd hp])"
    "h_shd hp1 = h_shd hp"
    using Unset_spec [OF assms(1,2)] by blast
  have k: "h_hd hp1 u \<noteq> None \<and> \<not> hdr_is hdr (hd_s hp1 u)" if "HTTP_HDR_FIRST \<le> u" "u < h_nhd hp1" for u
    using slots_kept [OF u(4) that] by (auto simp: hd_s_def)
  then have f1: "filled hp1" by (auto simp: filled_def)
  have "find (\<lambda>u. hdr_is hdr (hd_s hp1 u)) [HTTP_HDR_FIRST..<h_nhd hp1] = None"
    using k by (auto simp: find_None_iff)
  then have g1: "http_GetHdr hp1 hdr = Some None" by (simp add: GetHdr_find [OF assms(1) f1])
  have lt: "h_nhd hp1 < h_shd hp1" using u assms(3) by simp
  let ?t = "\<lparr>t_b = b, t_s = hdr @ v\<rparr>"
  obtain hp2 where s: "http_SetHeader hp1 ?t = Some hp2" using lt by (auto simp: http_SetHeader_def http_SetH_def)
  note ss = SetHeader_slots [OF lt s]
  have cs: "cstr (hdr @ v) = hdr @ v" using assms(1,4) by (intro cstr_id) (auto simp: good_hdr_def)
  have old: "h_hd hp2 u = h_hd hp1 u" if "u \<noteq> h_nhd hp1" for u using ss(3) [OF that] by (simp add: slot_def)
  have "http_GetHdr hp2 hdr = Some (Some (dropWhile vct_issp v))"
    by (rule snoc_get [OF assms(1) u(2) _ ss(1,2)]) (use slots_kept [OF u(4)] old cs in auto)
  then show ?thesis using u g1 s ss(1,3) by (intro exI [of _ hp1] exI [of _ hp2]) auto
qed

definition http_ex :: http where
  "http_ex = \<lparr>h_ws = \<lparr>ws_overflow = 0, ws_s = 4096, ws_f = 4096, ws_r = None, ws_e = 8192\<rparr>,
     h_hd = [5 \<mapsto> lit ''Host: a'', 6 \<mapsto> lit ''cookie: x'', 7 \<mapsto> lit ''Accept: y''],
     h_hdf = (\<lambda>_. 0), h_shd = 20, h_nhd = 8, h_status = 0, h_protover = 11, h_conds = False, h_losthdr = 0\<rparr>"

theorem unset_set_get_witness:
  "\<exists>hp1 hp2. http_Unset http_ex ''Cookie:'' = Some hp1 \<and> http_SetHeader hp1 \<lparr>t_b = 64, t_s = ''Cookie: z''\<rparr> = Some hp2 \<and>
     http_GetHdr hp2 ''Cookie:'' = Some (Some ''z'')"
proof -
  have "good_hdr ''Cookie:''" "HTTP_HDR_FIRST \<le> h_nhd http_ex" "h_nhd http_ex < h_shd http_ex" "NUL \<notin> set '' z''"
    by (simp_all add: good_hdr_def http_ex_def HTTP_HDR_FIRST_def)
  from unset_set_get [OF this, of 64] show ?thesis by (auto simp: vct_issp_iff)
qed

section \<open>Filtering and copying into a workspace\<close>

definition passes :: "u32 \<Rightarrow> http \<Rightarrow> nat \<Rightarrow> bool" where
  "passes how fm u = (case h_hd fm u of None \<Rightarrow> False
     | Some t \<Rightarrow> h_hdf fm u AND HDF_FILTER = 0 \<and> \<not> suppressed how (t_s t))"

lemma filter_loop_spec:
  assumes "\<forall>u \<in> set us. u < h_shd fm" and "h_nhd hp \<le> h_shd hp"
  shows "\<exists>hp'. filter_loop hp fm how us = Some hp' \<and>
    (let ps = filter (passes how fm) us; k = min (length ps) (h_shd hp - h_nhd hp) in
     h_nhd hp' = h_nhd hp + k \<and> map (h_hd hp') [h_nhd hp..<h_nhd hp + k] = map (h_hd fm) (take k ps) \<and>
     h_losthdr hp' = h_losthdr hp + (length ps - k) \<and> (\<forall>i < h_nhd hp. h_hd hp' i = h_hd hp i) \<and>
     h_ws hp' = h_ws hp \<and> h_shd hp' = h_shd hp)"
  using assms
proof (induction us arbitrary: hp)
  case (Cons u us)
  show ?case
  proof (cases "passes how fm u")
    case False
    then have "filter_loop hp fm how (u # us) = filter_loop hp fm how us"
      by (auto simp: passes_def split: option.splits)
    then show ?thesis using Cons False by simp
  next
    case True
    then obtain t where t: "h_hd fm u = Some t" "h_hdf fm u AND HDF_FILTER = 0" "\<not> suppressed how (t_s t)"
      by (auto simp: passes_def split: option.splits)
    let ?ps = "filter (passes how fm) us"
    show ?thesis
    proof (cases "h_nhd hp < h_shd hp")
      case room: True
      define hp1 where "hp1 = hp\<lparr>h_hd := (h_hd hp)(h_nhd hp := h_hd fm u), h_hdf := (h_hdf hp)(h_nhd hp := 0),
                   h_nhd := h_nhd hp + 1\<rparr>"
      have e: "filter_loop hp fm how (u # us) = filter_loop hp1 fm how us"
        using t room Cons.prems(1) by (simp add: http_copyheader_def Tcheck_def hp1_def)
      define k where "k = min (length ?ps) (h_shd hp - (h_nhd hp + 1))"
      obtain hp' where i: "filter_loop hp1 fm how us = Some hp'" "h_nhd hp' = h_nhd hp + 1 + k"
        "map (h_hd hp') [h_nhd hp + 1..<h_nhd hp + 1 + k] = map (h_hd fm) (take k ?ps)"
        "h_losthdr hp' = h_losthdr hp + (length ?ps - k)" "\<forall>i < h_nhd hp + 1. h_hd hp' i = h_hd hp1 i"
        "h_ws hp' = h_ws hp" "h_shd hp' = h_shd hp"
        using Cons.IH [of hp1] Cons.prems(1) room by (auto simp: hp1_def Let_def k_def)
      have k: "min (length (u # ?ps)) (h_shd hp - h_nhd hp) = Suc k" using room by (simp add: k_def)
      have "[h_nhd hp..<h_nhd hp + Suc k] = h_nhd hp # [h_nhd hp + 1..<h_nhd hp + 1 + k]"
        by (simp add: upt_conv_Cons)
      then show ?thesis
        using e i True k by (intro exI [of _ hp']) (auto simp: Let_def hp1_def)
    next
      case full: False
      let ?hp = "hp\<lparr>h_losthdr := h_losthdr hp + 1\<rparr>"
      have e: "filter_loop hp fm how (u # us) = filter_loop ?hp fm how us"
        using t full Cons.prems(1) by (simp add: http_copyheader_def Tcheck_def)
      have "h_shd hp - h_nhd hp = 0" using full by simp
      then show ?thesis using Cons.IH [of ?hp] Cons.prems e True by (auto simp: Let_def)
    qed
  qed
qed (simp add: Let_def)

definition txt_cost :: "htxt option \<Rightarrow> nat" where
  "txt_cost t = (case t of None \<Rightarrow> 0 | Some t \<Rightarrow> prnd (length (t_s t) + 1))"

definition txt_small :: "htxt option \<Rightarrow> bool" where
  "txt_small t = (case t of None \<Rightarrow> True | Some t \<Rightarrow> length (t_s t) + 1 \<le> 2 ^ 32 - 8)"

lemma prndup_len:
  assumes "length s + 1 \<le> 2 ^ 32 - 8"
  shows "unat (prndup32 (of_nat (length s) + 1)) = prnd (length s + 1)"
proof -
  have "of_nat (length s) + 1 = (of_nat (length s + 1) :: u32)" by simp
  then show ?thesis using ws_fits_word [OF assms] by (simp only:)
qed

definition homed :: "ws \<Rightarrow> htxt option \<Rightarrow> bool" where
  "homed w t = (case t of None \<Rightarrow> True | Some t \<Rightarrow> ws_s w \<le> t_b t \<and> t_b t + length (t_s t) \<le> ws_e w)"

lemma copyhome_spec:
  assumes "ws_idle (h_ws hp)" and "\<forall>u \<in> set us. txt_small (h_hd hp u)"
    and "ws_f (h_ws hp) + sum_list (map (\<lambda>u. txt_cost (h_hd hp u)) us) \<le> ws_e (h_ws hp)"
  shows "\<exists>hp'. copyhome_loop hp us = Some hp' \<and> (\<forall>u. map_option t_s (h_hd hp' u) = map_option t_s (h_hd hp u)) \<and>
    (\<forall>u. homed (h_ws hp) (h_hd hp u) \<longrightarrow> h_hd hp' u = h_hd hp u) \<and>
    (\<forall>u \<in> set us. homed (h_ws hp) (h_hd hp' u)) \<and>
    h_losthdr hp' = h_losthdr hp \<and> h_nhd hp' = h_nhd hp"
  using assms
proof (induction us arbitrary: hp)
  case (Cons u us)
  let ?w = "h_ws hp"
  have small: "\<forall>u \<in> set us. txt_small (h_hd hp u)" using Cons.prems(2) by simp
  show ?case
  proof (cases "homed ?w (h_hd hp u)")
    case True
    then have e: "copyhome_loop hp (u # us) = copyhome_loop hp us"
      by (auto simp: homed_def split: option.splits)
    have "ws_f ?w + sum_list (map (\<lambda>u. txt_cost (h_hd hp u)) us) \<le> ws_e ?w" using Cons.prems(3) by simp
    from Cons.IH [OF Cons.prems(1) small this] show ?thesis using e True by fastforce
  next
    case False
    then obtain t where t: "h_hd hp u = Some t" by (auto simp: homed_def split: option.splits)
    have len: "length (t_s t) + 1 \<le> 2 ^ 32 - 8" using Cons.prems(2) t by (simp add: txt_small_def)
    let ?c = "prnd (length (t_s t) + 1)"
    let ?w1 = "?w\<lparr>ws_f := ws_f ?w + ?c\<rparr>"
    define hp1 where "hp1 = hp\<lparr>h_ws := ?w1, h_hd := (h_hd hp)(u \<mapsto> t\<lparr>t_b := ws_f ?w\<rparr>)\<rparr>"
    have fit: "ws_f ?w + ?c \<le> ws_e ?w" using Cons.prems(3) t by (simp add: txt_cost_def)
    have ok: "ws_ok ?w" "ws_r ?w = None" using Cons.prems(1) by auto
    have al: "WS_Alloc ?w (of_nat (length (t_s t)) + 1) = Some (?w1, Some (ws_f ?w))"
      using WS_Alloc_eq [OF ok] fit prndup_len [OF len] by simp
    then have e: "copyhome_loop hp (u # us) = copyhome_loop hp1 us"
      using False t by (auto simp: hp1_def homed_def)
    have w1: "ws_idle (h_ws hp1)"
      using WS_Alloc_inv [OF _ al] Cons.prems(1) by (simp add: hp1_def)
    have h1: "homed (h_ws hp1) x = homed ?w x" for x by (simp add: homed_def hp1_def split: option.split)
    have cost: "txt_cost (h_hd hp1 x) = txt_cost (h_hd hp x)" "txt_small (h_hd hp1 x) = txt_small (h_hd hp x)" for x
      using t by (auto simp: hp1_def txt_cost_def txt_small_def)
    have "ws_f (h_ws hp1) + sum_list (map (\<lambda>u. txt_cost (h_hd hp1 u)) us) \<le> ws_e (h_ws hp1)"
      using Cons.prems(3) t unfolding cost by (simp add: hp1_def txt_cost_def)
    with Cons.IH [OF w1] small obtain hp' where i: "copyhome_loop hp1 us = Some hp'"
      "\<forall>x. map_option t_s (h_hd hp' x) = map_option t_s (h_hd hp1 x)"
      "\<forall>x. homed ?w (h_hd hp1 x) \<longrightarrow> h_hd hp' x = h_hd hp1 x"
      "\<forall>x \<in> set us. homed ?w (h_hd hp' x)" "h_losthdr hp' = h_losthdr hp" "h_nhd hp' = h_nhd hp"
      unfolding cost h1 by (auto simp: hp1_def)
    have le: "ws_s ?w \<le> ws_f ?w" "length (t_s t) \<le> ?c"
      using ok prnd_ge [of "length (t_s t) + 1"] by (auto simp: ws_ok_def)
    then have hu: "homed ?w (h_hd hp1 u)" using fit by (simp add: hp1_def homed_def)
    have "map_option t_s (h_hd hp1 x) = map_option t_s (h_hd hp x)" for x using t by (simp add: hp1_def)
    moreover have "h_hd hp' x = h_hd hp x" if "homed ?w (h_hd hp x)" for x
    proof -
      have "x \<noteq> u" using that False by auto
      then show ?thesis using i(3) that by (simp add: hp1_def)
    qed
    ultimately show ?thesis using e i hu by (intro exI [of _ hp']) auto
  qed
qed simp

lemma estimate_spec:
  assumes "\<forall>u \<in> set us. txt_small (h_hd fm u)"
  shows "estimate_loop fm how us l n =
    (l + of_nat (sum_list (map (\<lambda>u. txt_cost (h_hd fm u)) (filter (passes how fm) us))),
     n + length (filter (passes how fm) us))"
  using assms
proof (induction us arbitrary: l n)
  case (Cons u us)
  show ?case
  proof (cases "h_hd fm u")
    case None
    then show ?thesis using Cons by (simp add: passes_def)
  next
    case (Some t)
    have "unat (prndup32 (of_nat (length (t_s t)) + 1)) = prnd (length (t_s t) + 1)"
      using Cons.prems Some by (intro prndup_len) (simp add: txt_small_def)
    moreover have "prndup32 (of_nat (length (t_s t)) + 1) = of_nat (unat (prndup32 (of_nat (length (t_s t)) + 1)))"
      by simp
    ultimately have "prndup32 (of_nat (length (t_s t)) + 1) = of_nat (prnd (length (t_s t) + 1))"
      by (simp only:)
    then show ?thesis
      using Cons Some by (simp add: passes_def txt_cost_def)
  qed
qed simp

lemma sum_list_upt_split:
  fixes f :: "nat \<Rightarrow> nat"
  assumes "a \<le> n"
  shows "sum_list (map f (filter P [a..<n])) \<le> sum_list (map f (filter P [0..<n]))"
    "length (filter P [a..<n]) \<le> length (filter P [0..<n])"
proof -
  have "[0..<n] = [0..<a] @ [a..<n]" using assms by (metis le_add_diff_inverse upt_add_eq_append zero_le)
  then show "sum_list (map f (filter P [a..<n])) \<le> sum_list (map f (filter P [0..<n]))"
    "length (filter P [a..<n]) \<le> length (filter P [0..<n])" by simp_all
qed

text \<open>
  C25.  \<open>http_EstimateWS\<close> is enough: when a message is filtered into a fresh header array
  with at least the number of slots it returns, on a workspace with at least the number of
  free bytes it returns, then \<open>http_FilterFields\<close> and \<open>http_CopyHome\<close> lose no
  header.  The result has exactly the headers that are neither suppressed by the
  operation nor marked by \<open>Connection:\<close>, in order, and all of them lie in the workspace.
\<close>

theorem estimate_suffices:
  assumes "HTTP_HDR_FIRST \<le> h_nhd fm" and "h_nhd fm \<le> h_shd fm"
    and "\<forall>u < h_nhd fm. txt_small (h_hd fm u)"
    and "sum_list (map (\<lambda>u. txt_cost (h_hd fm u)) (filter (passes how fm) [0..<h_nhd fm])) < 2 ^ 32"
    and "http_EstimateWS fm how = (l, n)" and "n \<le> h_shd hp"
    and "ws_idle w" and "ws_f w + unat l \<le> ws_e w"
  shows "\<exists>hp1 hp2. http_FilterFields (http_Setup hp w) fm how = Some hp1 \<and> http_CopyHome hp1 = Some hp2 \<and>
    h_losthdr hp2 = h_losthdr hp \<and>
    map (\<lambda>u. map_option t_s (h_hd hp2 u)) [HTTP_HDR_FIRST..<h_nhd hp2]
      = map (\<lambda>u. map_option t_s (h_hd fm u)) (filter (passes how fm) [HTTP_HDR_FIRST..<h_nhd fm]) \<and>
    (\<forall>u < h_nhd hp2. homed w (h_hd hp2 u))"
proof -
  let ?ps = "filter (passes how fm) [HTTP_HDR_FIRST..<h_nhd fm]"
  let ?c = "\<lambda>u. txt_cost (h_hd fm u)"
  define S where "S = sum_list (map ?c (filter (passes how fm) [0..<h_nhd fm]))"
  have est: "l = of_nat S" "n = HTTP_HDR_FIRST + length (filter (passes how fm) [0..<h_nhd fm])"
    using assms(5) estimate_spec [of "[0..<h_nhd fm]" fm how 0 HTTP_HDR_FIRST] assms(3)
    by (auto simp: http_EstimateWS_def S_def)
  have ul: "unat l = S" using assms(4) est(1) by (simp add: unat_of_nat S_def)
  note sp = sum_list_upt_split(1) [OF assms(1), of ?c "passes how fm"] sum_list_upt_split(2) [OF assms(1), of "passes how fm"]
  define hp0 where "hp0 = (http_Setup hp w)\<lparr>h_nhd := HTTP_HDR_FIRST, h_status := h_status fm\<rparr>"
  have f0: "h_nhd hp0 = HTTP_HDR_FIRST" "h_shd hp0 = h_shd hp" "h_ws hp0 = w" "h_losthdr hp0 = h_losthdr hp"
    "h_hd hp0 = (\<lambda>_. None)" by (simp_all add: hp0_def http_Setup_def)
  have room: "length ?ps \<le> h_shd hp - HTTP_HDR_FIRST" "HTTP_HDR_FIRST \<le> h_shd hp"
    using assms(6) est(2) sp(2) by simp_all
  obtain hp1 where f1: "filter_loop hp0 fm how [HTTP_HDR_FIRST..<h_nhd fm] = Some hp1"
    "h_nhd hp1 = HTTP_HDR_FIRST + length ?ps"
    "map (h_hd hp1) [HTTP_HDR_FIRST..<HTTP_HDR_FIRST + length ?ps] = map (h_hd fm) ?ps"
    "h_losthdr hp1 = h_losthdr hp" "\<forall>i < HTTP_HDR_FIRST. h_hd hp1 i = None" "h_ws hp1 = w"
    using filter_loop_spec [of "[HTTP_HDR_FIRST..<h_nhd fm]" fm hp0 how] assms(2) room f0
    by (auto simp: Let_def min_absorb1)
  have nn: "[0..<h_nhd hp1] = [0..<HTTP_HDR_FIRST] @ [HTTP_HDR_FIRST..<HTTP_HDR_FIRST + length ?ps]"
    unfolding f1(2) by (metis le_add1 le_add_diff_inverse upt_add_eq_append zero_le)
  have low: "map (\<lambda>u. txt_cost (h_hd hp1 u)) [0..<HTTP_HDR_FIRST] = map (\<lambda>_. 0) [0..<HTTP_HDR_FIRST]"
    using f1(5) by (auto simp: txt_cost_def)
  have hi: "map (\<lambda>u. txt_cost (h_hd hp1 u)) [HTTP_HDR_FIRST..<HTTP_HDR_FIRST + length ?ps] = map ?c ?ps"
    using arg_cong [OF f1(3), of "map txt_cost"] by (simp add: comp_def)
  have "sum_list (map (\<lambda>u. txt_cost (h_hd hp1 u)) [0..<h_nhd hp1]) = sum_list (map ?c ?ps)"
    unfolding nn map_append low hi by (simp add: sum_list_triv)
  then have cost: "ws_f (h_ws hp1) + sum_list (map (\<lambda>u. txt_cost (h_hd hp1 u)) [0..<h_nhd hp1]) \<le> ws_e (h_ws hp1)"
    using sp(1) ul assms(8) f1(6) by (simp add: S_def)
  have small: "\<forall>u \<in> set [0..<h_nhd hp1]. txt_small (h_hd hp1 u)"
  proof
    fix u assume "u \<in> set [0..<h_nhd hp1]"
    then consider "u < HTTP_HDR_FIRST" | "HTTP_HDR_FIRST \<le> u" "u < HTTP_HDR_FIRST + length ?ps" using f1(2) by force
    then show "txt_small (h_hd hp1 u)"
    proof cases
      case 2
      then have "h_hd hp1 u \<in> set (map (h_hd hp1) [HTTP_HDR_FIRST..<HTTP_HDR_FIRST + length ?ps])" by simp
      then have "h_hd hp1 u \<in> set (map (h_hd fm) ?ps)" unfolding f1(3) .
      then show ?thesis using assms(3) by auto
    qed (use f1(5) in \<open>simp add: txt_small_def\<close>)
  qed
  have idle: "ws_idle (h_ws hp1)" using assms(7) f1(6) by simp
  obtain hp2 where c2: "copyhome_loop hp1 [0..<h_nhd hp1] = Some hp2"
    "\<forall>u. map_option t_s (h_hd hp2 u) = map_option t_s (h_hd hp1 u)"
    "\<forall>u \<in> set [0..<h_nhd hp1]. homed (h_ws hp1) (h_hd hp2 u)" "h_losthdr hp2 = h_losthdr hp1" "h_nhd hp2 = h_nhd hp1"
    using copyhome_spec [OF idle small cost] by blast
  have "map (\<lambda>u. map_option t_s (h_hd hp2 u)) [HTTP_HDR_FIRST..<h_nhd hp2]
      = map (\<lambda>u. map_option t_s (h_hd fm u)) ?ps"
    using arg_cong [OF f1(3), of "map (map_option t_s)"] c2(2,5) f1(2) by (simp add: comp_def)
  moreover have "http_FilterFields (http_Setup hp w) fm how = Some hp1"
    using f1(1) by (simp add: http_FilterFields_def hp0_def)
  ultimately show ?thesis
    using c2 f1(4,6) by (intro exI [of _ hp1] exI [of _ hp2]) (auto simp: http_CopyHome_def)
qed

theorem estimate_suffices_witness:
  "\<exists>hp1 hp2. http_FilterFields (http_Setup http_ex (h_ws http_ex)) http_ex HTTPH_R_PASS = Some hp1 \<and>
    http_CopyHome hp1 = Some hp2 \<and> h_losthdr hp2 = 0 \<and>
    map (\<lambda>u. map_option t_s (h_hd hp2 u)) [HTTP_HDR_FIRST..<h_nhd hp2]
      = [Some ''Host: a'', Some ''cookie: x'', Some ''Accept: y'']"
proof -
  have e: "http_EstimateWS http_ex HTTPH_R_PASS = (40, 8)" by code_simp
  have f: "filter (passes HTTPH_R_PASS http_ex) [0..<h_nhd http_ex] = [5, 6, 7]"
    "filter (passes HTTPH_R_PASS http_ex) [HTTP_HDR_FIRST..<h_nhd http_ex] = [5, 6, 7]" by code_simp+
  have c: "sum_list (map (\<lambda>u. txt_cost (h_hd http_ex u)) [5, 6, 7]) < 2 ^ 32"
    by (simp add: http_ex_def txt_cost_def lit_def prnd_def)
  have w: "ws_idle (h_ws http_ex)" "ws_f (h_ws http_ex) + unat (40 :: u32) \<le> ws_e (h_ws http_ex)"
    by (simp_all add: http_ex_def ws_inv_def ws_ok_def)
  have "\<forall>u < h_nhd http_ex. txt_small (h_hd http_ex u)"
    by (simp add: http_ex_def txt_small_def lit_def)
  with estimate_suffices [of http_ex HTTPH_R_PASS 40 8 http_ex "h_ws http_ex"] e f c w
  show ?thesis by (auto simp: http_ex_def HTTP_HDR_FIRST_def lit_def)
qed

text \<open>
  A header \<open>http_CopyHome\<close> has no room for leaves a NULL slot, and the next lookup of any
  header aborts on it.
\<close>

lemma lost_header_aborts_lookup:
  "(do { hp \<leftarrow> http_CopyHome (http_ex\<lparr>h_ws := \<lparr>ws_overflow = 0, ws_s = 4096, ws_f = 4096, ws_r = None, ws_e = 4112\<rparr>\<rparr>);
         Some (h_losthdr hp, http_GetHdr hp ''Cookie:'') }) = Some (2, None)"
  by code_simp

end
