(* ===== verification/Http_Wire.thy ===== *)
theory Http_Wire
  imports Http_Fields
begin

text \<open>
  Sending and receiving: what \<open>http_Write\<close> sends is what \<open>http_DissectRequest\<close> receives, and
  what the dissectors do on arbitrary input.
\<close>

section \<open>One header line\<close>

lemma scan_hdr_line:
  assumes "\<forall>c \<in> set h. \<not> vct_iscrlf c" and "rest = [] \<or> \<not> vct_issp (hd rest)"
    and "buf = pre @ h @ CR # LF # rest"
  shows "scan_hdr buf q (length pre) = (buf, length pre + length h, length pre + length h + 2)"
  using assms(1,3)
proof (induction h arbitrary: pre)
  case Nil
  have d: "drop (length pre) buf = CR # LF # rest" "buf ! length pre = CR" "length pre < length buf"
    using Nil.prems by (auto simp: nth_append)
  have n: "buf ! (length pre + 2) = hd rest" if "rest \<noteq> []"
    using Nil.prems that by (cases rest) (auto simp: nth_append)
  have "length buf \<le> length pre + 2 \<longleftrightarrow> rest = []" using Nil.prems by auto
  then show ?case
    using d n assms(2) by (subst scan_hdr.simps) (auto simp: vct_iscrlf_iff vct_skipcrlf_def Let_def)
next
  case (Cons c h)
  then have d: "buf ! length pre = c" "length pre < length buf" by (auto simp: nth_append)
  have "scan_hdr buf q (length (pre @ [c])) = (buf, length (pre @ [c]) + length h, length (pre @ [c]) + length h + 2)"
    using Cons.prems by (intro Cons.IH) auto
  then show ?case using d Cons.prems(1) by (subst scan_hdr.simps) simp
qed

lemma trim_sp_stop: "\<not> vct_issp (cchar buf (q - 1)) \<Longrightarrow> trim_sp buf p q = q"
  by (subst trim_sp.simps) simp

definition good_line :: "nat \<Rightarrow> string \<Rightarrow> bool" where
  "good_line n h \<longleftrightarrow> h \<noteq> [] \<and> (\<forall>c \<in> set h. \<not> vct_iscrlf c) \<and> \<not> vct_issp (hd h) \<and>
     \<not> vct_issp (last h) \<and> length h \<le> n"

lemma dissect_line:
  assumes h: "good_line (maxhdr htc) h" and rest: "rest = [] \<or> \<not> vct_issp (hd rest)"
    and buf: "buf = pre @ h @ CR # LF # rest" and room: "h_nhd hp < h_shd hp"
  shows "\<exists>hp'. dissect_loop htc buf hp (length pre) = dissect_loop htc (pre @ h @ NUL # LF # rest) hp' (length (pre @ h @ [NUL, LF]))
    \<and> h_nhd hp' = h_nhd hp + 1 \<and> h_shd hp' = h_shd hp \<and>
    h_hd hp' = (h_hd hp)(h_nhd hp \<mapsto> \<lparr>t_b = rx_b htc + length pre, t_s = h\<rparr>)"
proof -
  let ?p = "length pre" and ?q = "length pre + length h"
  have h': "h \<noteq> []" "\<forall>c \<in> set h. \<not> vct_iscrlf c" "\<not> vct_issp (last h)" "length h \<le> maxhdr htc"
    using h by (auto simp: good_line_def)
  have s: "scan_hdr buf ?p ?p = (buf, ?q, ?q + 2)" by (rule scan_hdr_line [OF h'(2) rest buf])
  have "cchar buf (?q - 1) = last h"
    using h'(1) buf by (cases h rule: rev_cases) (auto simp: cchar_def nth_append)
  then have t: "trim_sp buf ?p ?q = ?q" using h'(3) by (intro trim_sp_stop) simp
  have u: "buf[?q := NUL] = pre @ h @ NUL # LF # rest" using buf by (simp add: list_update_append)
  have pl: "?p < length buf" "?p \<noteq> ?q" "\<not> ?q - ?p > maxhdr htc" using h'(1,4) buf by auto
  have tk: "take (?q - ?p) (drop ?p (buf[?q := NUL])) = h" unfolding u by simp
  define hp1 where "hp1 = (if (cchar buf ?p = CHR ''i'' \<or> cchar buf ?p = CHR ''I'') \<and>
                              (cchar buf (?p + 1) = CHR ''f'' \<or> cchar buf (?p + 1) = CHR ''F'') \<and>
                              cchar buf (?p + 2) = CHR ''-''
                           then hp\<lparr>h_conds := True\<rparr> else hp)"
  have f: "h_nhd hp1 = h_nhd hp" "h_shd hp1 = h_shd hp" "h_hd hp1 = h_hd hp" "h_hdf hp1 = h_hdf hp"
    by (simp_all add: hp1_def)
  define hp2 where "hp2 = hp1\<lparr>h_hdf := (h_hdf hp1)(h_nhd hp1 := 0),
                            h_hd := (h_hd hp1)(h_nhd hp1 \<mapsto> \<lparr>t_b = rx_b htc + ?p, t_s = h\<rparr>),
                            h_nhd := h_nhd hp1 + 1\<rparr>"
  have "dissect_loop htc buf hp ?p = dissect_loop htc (buf[?q := NUL]) hp2 (?q + 2)"
    unfolding dissect_loop.simps [of htc buf hp] s prod.case Let_def t hp1_def [symmetric] tk
    using pl room f by (simp add: hp2_def)
  then show ?thesis using f unfolding u by (intro exI [of _ hp2]) (simp add: hp2_def)
qed

abbreviation wire :: "string list \<Rightarrow> string" where
  "wire hs \<equiv> concat (map (\<lambda>h. h @ [CR, LF]) hs)"

lemma dissect_lines:
  assumes "\<forall>h \<in> set hs. good_line (maxhdr htc) h" and "h_nhd hp + length hs \<le> h_shd hp"
  shows "\<exists>hp'. dissect_loop htc (pre @ wire hs @ [CR, LF]) hp (length pre) = (hp', 0) \<and>
    h_nhd hp' = h_nhd hp + length hs \<and> (\<forall>u < h_nhd hp. h_hd hp' u = h_hd hp u) \<and>
    (\<forall>i < length hs. \<exists>b. h_hd hp' (h_nhd hp + i) = Some \<lparr>t_b = b, t_s = hs ! i\<rparr>)"
  using assms
proof (induction hs arbitrary: pre hp)
  case Nil
  have s: "scan_hdr (pre @ [CR, LF]) (length pre) (length pre) = (pre @ [CR, LF], length pre, length pre + 2)"
    using scan_hdr_line [of "[]" "[]" "pre @ [CR, LF]" pre "length pre"] by simp
  have "dissect_loop htc (pre @ [CR, LF]) hp (length pre) = (hp, 0)"
    unfolding dissect_loop.simps [of htc "pre @ [CR, LF]"] s by simp
  then show ?case by simp
next
  case (Cons h hs)
  let ?rest = "wire hs @ [CR, LF]"
  have rest: "?rest = [] \<or> \<not> vct_issp (hd ?rest)"
    using Cons.prems(1) by (cases hs) (auto simp: good_line_def vct_issp_iff)
  obtain hp1 where l: "dissect_loop htc (pre @ h @ CR # LF # ?rest) hp (length pre)
      = dissect_loop htc (pre @ h @ NUL # LF # ?rest) hp1 (length (pre @ h @ [NUL, LF]))"
    "h_nhd hp1 = h_nhd hp + 1" "h_shd hp1 = h_shd hp"
    "h_hd hp1 = (h_hd hp)(h_nhd hp \<mapsto> \<lparr>t_b = rx_b htc + length pre, t_s = h\<rparr>)"
    using dissect_line [OF _ rest refl, of htc h hp pre] Cons.prems by auto
  have hs: "\<forall>h \<in> set hs. good_line (maxhdr htc) h" "h_nhd hp1 + length hs \<le> h_shd hp1"
    using Cons.prems l(2,3) by auto
  obtain hp' where i: "dissect_loop htc ((pre @ h @ [NUL, LF]) @ ?rest) hp1 (length (pre @ h @ [NUL, LF])) = (hp', 0)"
    "h_nhd hp' = h_nhd hp1 + length hs" "\<forall>u < h_nhd hp1. h_hd hp' u = h_hd hp1 u"
    "\<forall>i < length hs. \<exists>b. h_hd hp' (h_nhd hp1 + i) = Some \<lparr>t_b = b, t_s = hs ! i\<rparr>"
    using Cons.IH [OF hs] by blast
  have "\<exists>b. h_hd hp' (h_nhd hp + i) = Some \<lparr>t_b = b, t_s = (h # hs) ! i\<rparr>" if "i < length (h # hs)" for i
    using that i(3,4) l(2,4) by (cases i) auto
  moreover have "dissect_loop htc (pre @ wire (h # hs) @ [CR, LF]) hp (length pre) = (hp', 0)"
    using l(1) i(1) by simp
  ultimately show ?case using i(2,3) l(2,4) by (intro exI [of _ hp']) auto
qed

text \<open>The dissector first skips a CR, which is there when the header is empty.\<close>

lemma dissect_hdrs_eq:
  assumes "\<forall>h \<in> set hs. good_line (maxhdr htc) h" and "HTTP_HDR_FIRST + length hs \<le> h_shd hp"
    and "rx_s htc = pre @ wire hs @ [CR, LF]"
  shows "\<exists>hp'. http_dissect_hdrs hp htc (length pre) = (hp', 0) \<and> h_nhd hp' = HTTP_HDR_FIRST + length hs \<and>
    (\<forall>u < HTTP_HDR_FIRST. h_hd hp' u = h_hd hp u) \<and>
    (\<forall>i < length hs. \<exists>b. h_hd hp' (HTTP_HDR_FIRST + i) = Some \<lparr>t_b = b, t_s = hs ! i\<rparr>)"
proof (cases hs)
  case Nil
  let ?buf = "pre @ [CR, LF]" and ?hp = "hp\<lparr>h_nhd := HTTP_HDR_FIRST, h_conds := False\<rparr>"
  have c: "cchar ?buf (length pre) = CR" by (simp add: cchar_def nth_append)
  have n: "?buf ! (length pre + 1) = LF" by (simp add: nth_append)
  have "scan_hdr ?buf (length pre + 1) (length pre + 1) = (?buf, length pre + 1, length pre + 2)"
    using n by (subst scan_hdr.simps) (simp add: vct_iscrlf_iff vct_skipcrlf_def cchar_def)
  then have "dissect_loop htc ?buf ?hp (length pre + 1) = (?hp, 0)"
    unfolding dissect_loop.simps [of htc ?buf] by simp
  then show ?thesis using Nil assms(3) c by (simp add: http_dissect_hdrs_def)
next
  case (Cons h t)
  have "h \<noteq> []" "\<not> vct_iscrlf (hd h)" using assms(1) Cons by (auto simp: good_line_def)
  then have "cchar (rx_s htc) (length pre) \<noteq> CR"
    unfolding assms(3) Cons by (cases h) (auto simp: cchar_def nth_append vct_iscrlf_iff)
  then show ?thesis
    using dissect_lines [OF assms(1), of "hp\<lparr>h_nhd := HTTP_HDR_FIRST, h_conds := False\<rparr>" pre] assms(2,3)
    by (auto simp: http_dissect_hdrs_def)
qed

section \<open>The first line\<close>

lemma scan_field_eq:
  assumes "\<forall>c \<in> set f. \<not> stop c \<and> \<not> bad c" and "stop d"
  shows "scan_field stop bad (f @ d # r) = Some (length f)"
  using assms by (induction f) auto

lemma skip_sp_ctl_one: "r \<noteq> [] \<Longrightarrow> \<not> vct_issp (hd r) \<Longrightarrow> skip_sp_ctl (CHR '' '' # r) = Some r"
  by (cases r) (auto simp: vct_issp_iff vct_isctl_iff)

definition good_first :: "string \<Rightarrow> string \<Rightarrow> string \<Rightarrow> bool" where
  "good_first a b c \<longleftrightarrow> a \<noteq> [] \<and> (\<forall>x \<in> set a. \<not> vct_islws x \<and> \<not> vct_isctl x) \<and>
     b \<noteq> [] \<and> (\<forall>x \<in> set b. \<not> vct_islws x \<and> \<not> vct_isctl x) \<and>
     c \<noteq> [] \<and> \<not> vct_issp (hd c) \<and> (\<forall>x \<in> set c. \<not> vct_iscrlf x \<and> (vct_issep x \<or> \<not> vct_isctl x))"

lemma splitline_eq:
  assumes g: "good_first a b c" and rx: "rx_s htc = a @ '' '' @ b @ '' '' @ c @ [CR, LF] @ rest"
  shows "http_splitline hp htc h1 h2 h3 =
    http_dissect_hdrs (set_hd (set_hd (set_hd hp h1 \<lparr>t_b = rx_b htc, t_s = a\<rparr>)
        h2 \<lparr>t_b = rx_b htc + length a + 1, t_s = b\<rparr>) h3 \<lparr>t_b = rx_b htc + length a + length b + 2, t_s = c\<rparr>)
      htc (length (a @ '' '' @ b @ '' '' @ c @ [CR, LF]))"
proof -
  have ga: "a \<noteq> []" "\<forall>x \<in> set a. \<not> vct_islws x \<and> \<not> vct_isctl x" and gb: "b \<noteq> []" "\<forall>x \<in> set b. \<not> vct_islws x \<and> \<not> vct_isctl x"
    and gc: "c \<noteq> []" "\<not> vct_issp (hd c)" "\<forall>x \<in> set c. \<not> vct_iscrlf x \<and> (vct_issep x \<or> \<not> vct_isctl x)"
    using g by (auto simp: good_first_def)
  have p1: "dropWhile vct_islws (rx_s htc) = a @ CHR '' '' # b @ '' '' @ c @ [CR, LF] @ rest"
    using ga rx by (cases a) auto
  have f1: "scan_field vct_issp vct_isctl (a @ CHR '' '' # b @ '' '' @ c @ [CR, LF] @ rest) = Some (length a)"
    using ga(2) by (intro scan_field_eq) (auto simp: vct_islws_iff vct_issp_iff)
  have s2: "skip_sp_ctl (CHR '' '' # b @ '' '' @ c @ [CR, LF] @ rest) = Some (b @ CHR '' '' # c @ [CR, LF] @ rest)"
    using gb by (cases b) (auto simp: vct_islws_iff vct_issp_iff vct_isctl_iff)
  have f2: "scan_field vct_islws vct_isctl (b @ CHR '' '' # c @ [CR, LF] @ rest) = Some (length b)"
    using gb(2) by (intro scan_field_eq) (auto simp: vct_islws_iff vct_issp_iff)
  have s3: "skip_sp_ctl (CHR '' '' # c @ [CR, LF] @ rest) = Some (c @ CR # LF # rest)"
    using gc by (cases c) (auto simp: vct_issp_iff vct_isctl_iff)
  have f3: "scan_field vct_iscrlf (\<lambda>c. \<not> vct_issep c \<and> vct_isctl c) (c @ CR # LF # rest) = Some (length c)"
    using gc(3) by (intro scan_field_eq) (auto simp: vct_iscrlf_iff)
  have sk: "vct_skipcrlf (CR # LF # rest) = 2" by (simp add: vct_skipcrlf_def)
  show ?thesis
    unfolding http_splitline_def Let_def p1 f1 option.case append_eq_conv_conj
    using f1 s2 f2 gb(1) s3 f3 sk rx by (simp add: rx_txt_def ac_simps)
qed

section \<open>The Host check\<close>

lemma host_loop_eq:
  assumes "\<forall>u \<in> set us. h_hd hp u \<noteq> None"
  shows "host_loop hp seen us = Some (if length (filter (\<lambda>u. hdr_is H_Host (hd_s hp u)) us) + (if seen then 1 else 0) \<le> 1 then 0 else 400)"
  using assms
proof (induction us arbitrary: seen)
  case (Cons u us)
  then obtain t where "h_hd hp u = Some t" by auto
  then show ?case using Cons by (auto simp: http_IsHdr_def hd_s_def H_Host_def)
qed simp

lemma write_hdrs_wire:
  "\<forall>u \<in> set us. h_hd hp u \<noteq> None \<Longrightarrow> write_hdrs hp us = wire (map (hd_s hp) us)"
  by (induction us) (auto simp: hd_s_def)

text \<open>
  C11.  A request survives the wire: whatever \<open>http_Write\<close> sends for a request with a
  well-formed first line and well-formed header lines (no CR or LF, no white space at
  either end, at most one \<open>Host:\<close>), \<open>http_DissectRequest\<close> on the other side accepts it
  and recovers method, URL, protocol and every header line, byte for byte and in order,
  provided it has as many header slots and allows headers that long.
\<close>

theorem request_roundtrip:
  assumes first: "good_first (hd_s hp HTTP_HDR_REQ) (hd_s hp HTTP_HDR_URL) (hd_s hp HTTP_HDR_PROTO)"
    and some: "\<forall>u \<le> HTTP_HDR_PROTO. h_hd hp u \<noteq> None"
    and fill: "filled hp" and nhd: "HTTP_HDR_FIRST \<le> h_nhd hp"
    and lines: "\<forall>u. HTTP_HDR_FIRST \<le> u \<and> u < h_nhd hp \<longrightarrow> good_line mx (hd_s hp u)"
    and host: "length (filter (\<lambda>u. hdr_is H_Host (hd_s hp u)) [HTTP_HDR_FIRST..<h_nhd hp]) \<le> 1"
    and room: "h_nhd hp \<le> h_shd hp0"
  shows "\<exists>bytes. http_Write hp False = Some (hp, bytes) \<and>
    (\<exists>hp'. http_DissectRequest hp0 \<lparr>rx_b = b, rx_s = bytes, maxhdr = mx\<rparr> = Some (hp', 0) \<and>
      h_nhd hp' = h_nhd hp \<and> (\<forall>u. u \<le> HTTP_HDR_PROTO \<or> (HTTP_HDR_FIRST \<le> u \<and> u < h_nhd hp) \<longrightarrow>
        map_option t_s (h_hd hp' u) = map_option t_s (h_hd hp u)))"
proof -
  let ?a = "hd_s hp HTTP_HDR_REQ" and ?u = "hd_s hp HTTP_HDR_URL" and ?c = "hd_s hp HTTP_HDR_PROTO"
  let ?hs = "map (hd_s hp) [HTTP_HDR_FIRST..<h_nhd hp]"
  let ?pre = "?a @ '' '' @ ?u @ '' '' @ ?c @ [CR, LF]"
  let ?bytes = "?pre @ wire ?hs @ [CR, LF]"
  let ?htc = "\<lparr>rx_b = b, rx_s = ?bytes, maxhdr = mx\<rparr>"
  have "write_hdrs hp [HTTP_HDR_FIRST..<h_nhd hp] = wire ?hs"
    using fill by (intro write_hdrs_wire) (auto simp: filled_def)
  moreover have "WRW_WriteH (h_hd hp u) x = Some (hd_s hp u @ x)" if u: "u \<le> HTTP_HDR_PROTO" for u x
  proof -
    obtain t where "h_hd hp u = Some t" using some u by blast
    then show ?thesis by (simp add: WRW_WriteH_def hd_s_def)
  qed
  ultimately have w: "http_Write hp False = Some (hp, ?bytes)"
    by (simp add: http_Write_def HTTP_HDR_PROTO_def HTTP_HDR_URL_def HTTP_HDR_REQ_def)
  define hp1 where "hp1 = set_hd (set_hd (set_hd hp0 HTTP_HDR_REQ \<lparr>t_b = b, t_s = ?a\<rparr>)
        HTTP_HDR_URL \<lparr>t_b = b + length ?a + 1, t_s = ?u\<rparr>) HTTP_HDR_PROTO \<lparr>t_b = b + length ?a + length ?u + 2, t_s = ?c\<rparr>"
  have f1: "h_shd hp1 = h_shd hp0" by (simp add: hp1_def set_hd_def)
  have t1: "map_option t_s (h_hd hp1 u) = Some (hd_s hp u)" if "u \<le> HTTP_HDR_PROTO" for u
  proof -
    have "u = 0 \<or> u = 1 \<or> u = 2" using that by (auto simp: HTTP_HDR_PROTO_def)
    then show ?thesis by (auto simp: hp1_def set_hd_def HTTP_HDR_PROTO_def HTTP_HDR_URL_def HTTP_HDR_REQ_def)
  qed
  have hs: "\<forall>h \<in> set ?hs. good_line (maxhdr ?htc) h" "HTTP_HDR_FIRST + length ?hs \<le> h_shd hp1"
    using lines nhd room f1 by auto
  obtain hp2 where d: "http_dissect_hdrs hp1 ?htc (length ?pre) = (hp2, 0)"
    "h_nhd hp2 = HTTP_HDR_FIRST + length ?hs" "\<forall>u < HTTP_HDR_FIRST. h_hd hp2 u = h_hd hp1 u"
    "\<forall>i < length ?hs. \<exists>x. h_hd hp2 (HTTP_HDR_FIRST + i) = Some \<lparr>t_b = x, t_s = ?hs ! i\<rparr>"
    using dissect_hdrs_eq [OF hs, of ?pre] by auto
  have sp: "http_splitline hp0 ?htc HTTP_HDR_REQ HTTP_HDR_URL HTTP_HDR_PROTO = (hp2, 0)"
    using splitline_eq [OF first, of ?htc "wire ?hs @ [CR, LF]" hp0] d(1) by (simp add: hp1_def)
  have n2: "h_nhd hp2 = h_nhd hp" using d(2) nhd by simp
  have t2: "map_option t_s (h_hd hp2 u) = Some (hd_s hp u)" if "HTTP_HDR_FIRST \<le> u" "u < h_nhd hp" for u
  proof -
    have "u = HTTP_HDR_FIRST + (u - HTTP_HDR_FIRST)" "u - HTTP_HDR_FIRST < length ?hs" using that by auto
    then show ?thesis using d(4) that by (metis (no_types, lifting) htxt.select_convs(2) length_map nth_map nth_upt option.simps(9) length_upt)
  qed
  have t02: "map_option t_s (h_hd hp2 u) = Some (hd_s hp u)" if "u \<le> HTTP_HDR_PROTO" for u
    using t1 [OF that] d(3) that by (simp add: HTTP_HDR_PROTO_def HTTP_HDR_FIRST_def)
  obtain t where "h_hd hp2 HTTP_HDR_PROTO = Some t" using t02 [of HTTP_HDR_PROTO] by auto
  then obtain v where pv: "http_ProtoVer hp2 = Some (hp2\<lparr>h_protover := v\<rparr>)" by (simp add: http_ProtoVer_def)
  let ?hp' = "hp2\<lparr>h_protover := v\<rparr>"
  have "hd_s ?hp' u = hd_s hp u" "h_hd ?hp' u \<noteq> None" if "u \<in> set [HTTP_HDR_FIRST..<h_nhd hp]" for u
    using t2 [of u] that by (auto simp: hd_s_def)
  then have "filter (\<lambda>u. hdr_is H_Host (hd_s ?hp' u)) [HTTP_HDR_FIRST..<h_nhd hp]
      = filter (\<lambda>u. hdr_is H_Host (hd_s hp u)) [HTTP_HDR_FIRST..<h_nhd hp]"
    "\<forall>u \<in> set [HTTP_HDR_FIRST..<h_nhd hp]. h_hd ?hp' u \<noteq> None" by (auto intro: filter_cong)
  then have "htc_request_check_host_hdr ?hp' = Some 0"
    using host_loop_eq [of "[HTTP_HDR_FIRST..<h_nhd hp]" ?hp' False] host n2
    by (simp add: htc_request_check_host_hdr_def)
  then have dr: "http_DissectRequest hp0 ?htc = Some (?hp', 0)" using sp pv by (simp add: http_DissectRequest_def)
  moreover have "map_option t_s (h_hd ?hp' u) = map_option t_s (h_hd hp u)"
    if "u \<le> HTTP_HDR_PROTO \<or> (HTTP_HDR_FIRST \<le> u \<and> u < h_nhd hp)" for u
  proof -
    have "h_hd hp u \<noteq> None" using that some fill unfolding filled_def by blast
    then have "map_option t_s (h_hd hp u) = Some (hd_s hp u)" by (auto simp: hd_s_def)
    then show ?thesis using that t2 t02 by auto
  qed
  ultimately show ?thesis using w n2 by (intro exI [of _ ?bytes]) auto
qed

definition req_ex :: http where
  "req_ex = http_ex\<lparr>h_hd := (h_hd http_ex)(0 \<mapsto> lit ''GET'', 1 \<mapsto> lit ''/'', 2 \<mapsto> lit ''HTTP/1.1'')\<rparr>"

theorem request_roundtrip_witness:
  "\<exists>bytes hp'. http_Write req_ex False = Some (req_ex, bytes) \<and>
    http_DissectRequest (http_Setup http_ex (h_ws http_ex)) \<lparr>rx_b = 4096, rx_s = bytes, maxhdr = 8192\<rparr> = Some (hp', 0) \<and>
    h_nhd hp' = 8 \<and> map_option t_s (h_hd hp' 6) = Some ''cookie: x''"
proof -
  have lines: "good_line 8192 ''Host: a''" "good_line 8192 ''cookie: x''" "good_line 8192 ''Accept: y''"
    by (simp_all add: good_line_def vct_iscrlf_iff vct_issp_iff)
  have s: "hd_s req_ex 0 = ''GET''" "hd_s req_ex 1 = ''/''" "hd_s req_ex 2 = ''HTTP/1.1''" "hd_s req_ex 5 = ''Host: a''"
    "hd_s req_ex 6 = ''cookie: x''" "hd_s req_ex 7 = ''Accept: y''" "h_nhd req_ex = 8"
    by (simp_all add: req_ex_def http_ex_def hd_s_def lit_def)
  have c: "\<And>u. u \<le> 2 \<Longrightarrow> u = 0 \<or> u = 1 \<or> u = (2 :: nat)" "\<And>u. 5 \<le> u \<and> u < 8 \<Longrightarrow> u = 5 \<or> u = 6 \<or> u = (7 :: nat)"
    by auto
  have "good_first ''GET'' ''/'' ''HTTP/1.1''"
    by (simp add: good_first_def vct_islws_iff vct_issp_iff vct_iscrlf_iff vct_isctl_iff)
  then have h1: "good_first (hd_s req_ex HTTP_HDR_REQ) (hd_s req_ex HTTP_HDR_URL) (hd_s req_ex HTTP_HDR_PROTO)"
    using s by (simp add: HTTP_HDR_REQ_def HTTP_HDR_URL_def HTTP_HDR_PROTO_def)
  have h2: "\<forall>u \<le> HTTP_HDR_PROTO. h_hd req_ex u \<noteq> None" "filled req_ex" "HTTP_HDR_FIRST \<le> h_nhd req_ex"
    using c by (auto simp: HTTP_HDR_PROTO_def HTTP_HDR_FIRST_def filled_def req_ex_def http_ex_def dest: c)
  have h3: "\<forall>u. HTTP_HDR_FIRST \<le> u \<and> u < h_nhd req_ex \<longrightarrow> good_line 8192 (hd_s req_ex u)"
  proof (intro allI impI)
    fix u assume "HTTP_HDR_FIRST \<le> u \<and> u < h_nhd req_ex"
    then have "u = 5 \<or> u = 6 \<or> u = 7" using c(2) s(7) by (simp add: HTTP_HDR_FIRST_def)
    then show "good_line 8192 (hd_s req_ex u)" using lines s by (elim disjE) simp_all
  qed
  have h4: "length (filter (\<lambda>u. hdr_is H_Host (hd_s req_ex u)) [HTTP_HDR_FIRST..<h_nhd req_ex]) \<le> 1" by code_simp
  have h5: "h_nhd req_ex \<le> h_shd (http_Setup http_ex (h_ws http_ex))"
    by (simp add: http_Setup_def req_ex_def http_ex_def)
  from request_roundtrip [OF h1 h2 h3 h4 h5, of 4096] obtain bytes hp' where
    r: "http_Write req_ex False = Some (req_ex, bytes)"
    "http_DissectRequest (http_Setup http_ex (h_ws http_ex)) \<lparr>rx_b = 4096, rx_s = bytes, maxhdr = 8192\<rparr> = Some (hp', 0)"
    "h_nhd hp' = h_nhd req_ex"
    "\<forall>u. u \<le> HTTP_HDR_PROTO \<or> (HTTP_HDR_FIRST \<le> u \<and> u < h_nhd req_ex) \<longrightarrow>
        map_option t_s (h_hd hp' u) = map_option t_s (h_hd req_ex u)" by blast
  have "map_option t_s (h_hd hp' 6) = Some ''cookie: x''"
    using r(4) [rule_format, of 6] s(7) by (simp add: HTTP_HDR_FIRST_def req_ex_def http_ex_def lit_def)
  then show ?thesis using r s(7) by auto
qed

section \<open>Arbitrary input\<close>

lemma dissect_loop_safe:
  assumes "filled hp" and "HTTP_HDR_FIRST \<le> h_nhd hp" and "h_nhd hp \<le> h_shd hp"
    and "dissect_loop htc buf hp p = (hp', r)"
  shows "filled hp' \<and> HTTP_HDR_FIRST \<le> h_nhd hp' \<and> h_nhd hp' \<le> h_shd hp' \<and> h_shd hp' = h_shd hp \<and>
    (r = 0 \<or> r = 413) \<and> (\<forall>u < HTTP_HDR_FIRST. h_hd hp' u = h_hd hp u)"
  using assms
proof (induction htc buf hp p arbitrary: hp' r rule: dissect_loop.induct)
  case (1 htc buf hp p)
  show ?case
  proof (cases "p < length buf")
    case False
    then show ?thesis using 1 dissect_loop.simps [of htc buf hp p] by auto
  next
    case True
    obtain b1 q n where s: "scan_hdr buf p p = (b1, q, n)" by (metis prod_cases3)
    define hp1 where "hp1 = (if (cchar b1 p = CHR ''i'' \<or> cchar b1 p = CHR ''I'') \<and>
                              (cchar b1 (p + 1) = CHR ''f'' \<or> cchar b1 (p + 1) = CHR ''F'') \<and>
                              cchar b1 (p + 2) = CHR ''-''
                           then hp\<lparr>h_conds := True\<rparr> else hp)"
    have f: "h_nhd hp1 = h_nhd hp" "h_shd hp1 = h_shd hp" "h_hd hp1 = h_hd hp" "filled hp1"
      using 1(2) by (simp_all add: hp1_def filled_def)
    define b2 where "b2 = b1[trim_sp b1 p q := NUL]"
    define hp2 where "hp2 = hp1\<lparr>h_hdf := (h_hdf hp1)(h_nhd hp1 := 0),
        h_hd := (h_hd hp1)(h_nhd hp1 \<mapsto> \<lparr>t_b = rx_b htc + p, t_s = take (trim_sp b1 p q - p) (drop p b2)\<rparr>),
        h_nhd := h_nhd hp1 + 1\<rparr>"
    have ev: "dissect_loop htc buf hp p =
      (if q - p > maxhdr htc then (hp\<lparr>h_losthdr := h_losthdr hp + 1\<rparr>, 413)
       else if p = q then (hp, 0)
       else if h_nhd hp1 < h_shd hp1 then dissect_loop htc b2 hp2 n
       else (hp1\<lparr>h_losthdr := h_losthdr hp1 + 1\<rparr>, 413))"
      using True unfolding dissect_loop.simps [of htc buf hp p] s prod.case Let_def hp1_def [symmetric] b2_def [symmetric]
        hp2_def [symmetric] by simp
    show ?thesis
    proof (cases "\<not> q - p > maxhdr htc \<and> p \<noteq> q \<and> h_nhd hp1 < h_shd hp1")
      case rec: True
      have fl: "filled hp2" using f by (auto simp: filled_def hp2_def)
      have "filled hp' \<and> HTTP_HDR_FIRST \<le> h_nhd hp' \<and> h_nhd hp' \<le> h_shd hp' \<and> h_shd hp' = h_shd hp2 \<and>
          (r = 0 \<or> r = 413) \<and> (\<forall>u < HTTP_HDR_FIRST. h_hd hp' u = h_hd hp2 u)"
      proof (rule 1(1) [OF True s [symmetric] refl _ _ hp1_def refl b2_def, folded hp2_def])
        show "HTTP_HDR_FIRST \<le> h_nhd hp2" "h_nhd hp2 \<le> h_shd hp2" using rec f 1(3) by (simp_all add: hp2_def)
        show "dissect_loop htc b2 hp2 n = (hp', r)" using ev rec 1(5) by simp
      qed (use rec fl in auto)
      then show ?thesis using f 1(3) by (auto simp: hp2_def)
    next
      case False
      then show ?thesis using 1(2-5) ev f by (auto simp: filled_def split: if_splits)
    qed
  qed
qed


definition sound_http :: "http \<Rightarrow> bool" where
  "sound_http hp \<longleftrightarrow> filled hp \<and> HTTP_HDR_FIRST \<le> h_nhd hp \<and> h_nhd hp \<le> h_shd hp"

lemma set_hd_simps [simp]: "h_nhd (set_hd hp n t) = h_nhd hp" "h_shd (set_hd hp n t) = h_shd hp"
  "h_hd (set_hd hp n t) = (h_hd hp)(n \<mapsto> t)"
  by (simp_all add: set_hd_def)

lemma sound_set_hd: "sound_http hp \<Longrightarrow> sound_http (set_hd hp n t)"
  by (auto simp: sound_http_def filled_def)

lemma dissect_hdrs_safe:
  assumes "sound_http hp" and "http_dissect_hdrs hp htc p = (hp', r)"
  shows "sound_http hp' \<and> (r = 0 \<or> r = 413) \<and> (\<forall>u < HTTP_HDR_FIRST. h_hd hp' u = h_hd hp u)"
proof -
  let ?hp = "hp\<lparr>h_nhd := HTTP_HDR_FIRST, h_conds := False\<rparr>"
  have "filled ?hp" "HTTP_HDR_FIRST \<le> h_nhd ?hp" "h_nhd ?hp \<le> h_shd ?hp"
    using assms(1) by (auto simp: filled_def sound_http_def)
  from dissect_loop_safe [OF this, of htc "rx_s htc" "if cchar (rx_s htc) p = CR then p + 1 else p" hp' r] assms(2)
  show ?thesis by (simp add: http_dissect_hdrs_def sound_http_def)
qed

lemma splitline_safe:
  assumes s: "sound_http hp" and r: "http_splitline hp htc h1 h2 h3 = (hp', r)"
    and h: "h1 < HTTP_HDR_FIRST" "h2 < HTTP_HDR_FIRST" "h3 < HTTP_HDR_FIRST"
  shows "sound_http hp' \<and> (r = 0 \<or> r = 400 \<or> r = 413) \<and>
    (r = 0 \<longrightarrow> h_hd hp' h1 \<noteq> None \<and> h_hd hp' h2 \<noteq> None \<and> h_hd hp' h3 \<noteq> None)"
proof -
  note D = dissect_hdrs_safe [OF sound_set_hd [OF sound_set_hd [OF sound_set_hd [OF s]]]]
  show ?thesis
    using r s h unfolding http_splitline_def Let_def
    by (auto split: option.splits if_splits intro: sound_set_hd dest!: D simp del: fun_upd_apply) auto
qed

lemma host_loop_code: "host_loop hp seen us = Some r \<Longrightarrow> r = 0 \<or> r = 400"
  by (induction us arbitrary: seen) (auto simp: vas split: if_splits)

lemma host_loop_total: "\<exists>r. host_loop hp seen us = Some r"
  by (induction us arbitrary: seen) (auto simp: http_IsHdr_def H_Host_def)

text \<open>
  C12.  No bytes a client sends can make \<open>http_DissectRequest\<close> abort: it always returns, with 0,
  400 or 413; the header array is well formed (at most \<open>shd\<close> entries, no hole); and
  with 0 there are a method, a URL and a protocol, and at most one \<open>Host:\<close> line.
\<close>

theorem dissect_request_safe:
  assumes "sound_http hp"
  shows "\<exists>hp' r. http_DissectRequest hp htc = Some (hp', r) \<and> (r = 0 \<or> r = 400 \<or> r = 413) \<and> sound_http hp' \<and>
    (r = 0 \<longrightarrow> (\<forall>u \<le> HTTP_HDR_PROTO. h_hd hp' u \<noteq> None) \<and>
       length (filter (\<lambda>u. hdr_is H_Host (hd_s hp' u)) [HTTP_HDR_FIRST..<h_nhd hp']) \<le> 1)"
proof -
  obtain hp1 r1 where s: "http_splitline hp htc HTTP_HDR_REQ HTTP_HDR_URL HTTP_HDR_PROTO = (hp1, r1)"
    by (metis surj_pair)
  have k: "sound_http hp1" "r1 = 0 \<or> r1 = 400 \<or> r1 = 413"
    "r1 = 0 \<Longrightarrow> h_hd hp1 0 \<noteq> None \<and> h_hd hp1 1 \<noteq> None \<and> h_hd hp1 2 \<noteq> None"
    using splitline_safe [OF assms s] by (auto simp: HTTP_HDR_REQ_def HTTP_HDR_URL_def HTTP_HDR_PROTO_def HTTP_HDR_FIRST_def)
  show ?thesis
  proof (cases "r1 = 0")
    case False
    then show ?thesis using s k by (auto simp: http_DissectRequest_def)
  next
    case True
    then obtain t where "h_hd hp1 HTTP_HDR_PROTO = Some t" using k(3) by (auto simp: HTTP_HDR_PROTO_def)
    then obtain v where v: "http_ProtoVer hp1 = Some (hp1\<lparr>h_protover := v\<rparr>)" by (simp add: http_ProtoVer_def)
    let ?hp = "hp1\<lparr>h_protover := v\<rparr>"
    obtain r where h: "host_loop ?hp False [HTTP_HDR_FIRST..<h_nhd hp1] = Some r" using host_loop_total by blast
    have f: "\<forall>u \<in> set [HTTP_HDR_FIRST..<h_nhd hp1]. h_hd ?hp u \<noteq> None" using k(1) by (auto simp: sound_http_def filled_def)
    have "http_DissectRequest hp htc = Some (?hp, r)"
      using s True v h by (simp add: http_DissectRequest_def htc_request_check_host_hdr_def)
    moreover have "u = 0 \<or> u = 1 \<or> u = 2" if "u \<le> HTTP_HDR_PROTO" for u using that by (auto simp: HTTP_HDR_PROTO_def)
    then have "\<forall>u \<le> HTTP_HDR_PROTO. h_hd ?hp u \<noteq> None" using k(3) [OF True] by fastforce
    moreover have "sound_http ?hp" using k(1) by (simp add: sound_http_def filled_def)
    moreover have "r = 0 \<longrightarrow> length (filter (\<lambda>u. hdr_is H_Host (hd_s ?hp u)) [HTTP_HDR_FIRST..<h_nhd ?hp]) \<le> 1"
      using host_loop_eq [OF f, of False] h by (simp split: if_splits)
    ultimately show ?thesis using host_loop_code [OF h] by (intro exI [of _ ?hp] exI [of _ r]) auto
  qed
qed

theorem dissect_request_safe_witness:
  "\<exists>hp' r. http_DissectRequest (http_Setup http_ex (h_ws http_ex))
     \<lparr>rx_b = 4096, rx_s = ''GET'', maxhdr = 8192\<rparr> = Some (hp', r) \<and> sound_http hp'"
proof -
  have "sound_http (http_Setup http_ex (h_ws http_ex))"
    by (simp add: sound_http_def filled_def http_Setup_def http_ex_def HTTP_HDR_FIRST_def)
  from dissect_request_safe [OF this, of "\<lparr>rx_b = 4096, rx_s = ''GET'', maxhdr = 8192\<rparr>"] show ?thesis by blast
qed

text \<open>
  A response is not as safe: a backend that sends a status below 100 and no reason makes
  \<open>http_StatusMessage\<close> abort, and so does every request sent to it.
\<close>

theorem dissect_response_aborts:
  "http_DissectResponse \<lparr>rx_b = 4096, rx_s = ''HTTP/1.1 000 '' @ [CR, LF, CR, LF], maxhdr = 8192\<rparr>
     (http_Setup http_ex (h_ws http_ex)) = None"
  by code_simp

end
