(* ===== verification/Tim.thy ===== *)
theory Tim
  imports Complex_Main Prelude
begin

text \<open>
  lib/libvarnish/time.c: HTTP time stamps.  A \<open>double\<close> is a rational number here, a
  \<open>time_t\<close> an integer.  Of the C library the file uses \<open>gmtime_r\<close>, \<open>timegm\<close>,
  \<open>strftime\<close> and \<open>strptime\<close>; they are written out as POSIX describes them in the C locale,
  for the conversions that occur in the format strings.  Where POSIX leaves \<open>strptime\<close> a
  choice (spaces before a number, how many digits a number may have) the model does what the
  GNU library does.
\<close>

section \<open>Broken-down time\<close>

record tm =
  tm_sec :: int
  tm_min :: int
  tm_hour :: int
  tm_mday :: int
  tm_mon :: int
  tm_year :: int
  tm_wday :: int

definition tm_zero :: tm where
  "tm_zero = \<lparr>tm_sec = 0, tm_min = 0, tm_hour = 0, tm_mday = 0, tm_mon = 0, tm_year = 0, tm_wday = 0\<rparr>"

definition leap :: "int \<Rightarrow> bool" where
  "leap y \<longleftrightarrow> y mod 4 = 0 \<and> (y mod 100 \<noteq> 0 \<or> y mod 400 = 0)"

definition ylen :: "int \<Rightarrow> int" where
  "ylen y = (if leap y then 366 else 365)"

definition mlens :: "int \<Rightarrow> int list" where
  "mlens y = [31, if leap y then 29 else 28, 31, 30, 31, 30, 31, 31, 30, 31, 30, 31]"

text \<open>The year of a day counted from the first of January of year \<open>y\<close>, and the day in it.\<close>

function gm_year :: "int \<Rightarrow> int \<Rightarrow> int \<times> int" where
  "gm_year y d = (if d < 0 then gm_year (y - 1) (d + ylen (y - 1))
                  else if d < ylen y then (y, d)
                  else gm_year (y + 1) (d - ylen y))"
  by pat_completeness auto

termination
  by (relation "measure (\<lambda>(y, d). nat (if d < 0 then 400 - d else d))") (auto simp: ylen_def split: if_splits)

declare gm_year.simps [simp del]

fun gm_month :: "int list \<Rightarrow> int \<Rightarrow> int \<Rightarrow> int \<times> int" where
  "gm_month [] m d = (m, d)"
| "gm_month (l # ls) m d = (if d < l then (m, d) else gm_month ls (m + 1) (d - l))"

definition gmtime_r :: "int \<Rightarrow> tm" where
  "gmtime_r t =
     (let day = t div 86400; rem = t mod 86400;
          (y, yd) = gm_year 1970 day;
          (m, md) = gm_month (mlens y) 0 yd
      in \<lparr>tm_sec = rem mod 60, tm_min = rem div 60 mod 60, tm_hour = rem div 3600,
          tm_mday = md + 1, tm_mon = m, tm_year = y - 1900, tm_wday = (day + 4) mod 7\<rparr>)"

text \<open>The formula for seconds since the Epoch of POSIX, with the day of the year computed from the month.\<close>

definition timegm :: "tm \<Rightarrow> int" where
  "timegm tm =
     (let y = tm_year tm;
          yday = sum_list (take (nat (tm_mon tm)) (mlens (y + 1900))) + tm_mday tm - 1
      in tm_sec tm + tm_min tm * 60 + tm_hour tm * 3600 + yday * 86400 + (y - 70) * 31536000 +
         ((y - 69) div 4) * 86400 - ((y - 1) div 100) * 86400 + ((y + 299) div 400) * 86400)"

section \<open>Formats\<close>

definition abday :: "string list" where
  "abday = [''Sun'', ''Mon'', ''Tue'', ''Wed'', ''Thu'', ''Fri'', ''Sat'']"

definition day_names :: "string list" where
  "day_names = [''Sunday'', ''Monday'', ''Tuesday'', ''Wednesday'', ''Thursday'', ''Friday'', ''Saturday'']"

definition abmon :: "string list" where
  "abmon = [''Jan'', ''Feb'', ''Mar'', ''Apr'', ''May'', ''Jun'', ''Jul'', ''Aug'', ''Sep'', ''Oct'', ''Nov'', ''Dec'']"

definition mon_names :: "string list" where
  "mon_names = [''January'', ''February'', ''March'', ''April'', ''May'', ''June'', ''July'', ''August'',
     ''September'', ''October'', ''November'', ''December'']"

definition digit :: "int \<Rightarrow> char" where
  "digit n = char_of (nat (48 + n))"

definition dec2 :: "int \<Rightarrow> string" where
  "dec2 n = [digit (n div 10), digit (n mod 10)]"

function decimal :: "int \<Rightarrow> string" where
  "decimal n = (if n < 10 then [digit n] else decimal (n div 10) @ [digit (n mod 10)])"
  by auto

termination by (relation "measure nat") auto

declare decimal.simps [simp del]

definition fmt_Y :: "int \<Rightarrow> string" where
  "fmt_Y y = (if y < 0 then CHR ''-'' # decimal (- y) else decimal y)"

datatype conv = Lit char | Sp | Ca | Cd | Cb | CY | Cy | CH | CM | CS | Cm

text \<open>\<open>strftime\<close>: the text, or \<open>None\<close> (return value 0) when it does not fit in \<open>maxsize\<close> bytes.\<close>

definition fmt_conv :: "tm \<Rightarrow> conv \<Rightarrow> string" where
  "fmt_conv tm c = (case c of
      Lit ch \<Rightarrow> [ch]
    | Sp \<Rightarrow> '' ''
    | Ca \<Rightarrow> abday ! nat (tm_wday tm)
    | Cd \<Rightarrow> dec2 (tm_mday tm)
    | Cb \<Rightarrow> abmon ! nat (tm_mon tm)
    | CY \<Rightarrow> fmt_Y (tm_year tm + 1900)
    | Cy \<Rightarrow> dec2 (tm_year tm mod 100)
    | CH \<Rightarrow> dec2 (tm_hour tm)
    | CM \<Rightarrow> dec2 (tm_min tm)
    | CS \<Rightarrow> dec2 (tm_sec tm)
    | Cm \<Rightarrow> dec2 (tm_mon tm + 1))"

definition strftime :: "nat \<Rightarrow> conv list \<Rightarrow> tm \<Rightarrow> string option" where
  "strftime maxsize fmt tm =
     (let s = concat (map (fmt_conv tm) fmt) in if length s < maxsize then Some s else None)"

abbreviation fmt_T :: "conv list" where
  "fmt_T \<equiv> [CH, Lit CHR '':'', CM, Lit CHR '':'', CS]"

abbreviation fmt_GMT :: "conv list" where
  "fmt_GMT \<equiv> [Sp, Lit CHR ''G'', Lit CHR ''M'', Lit CHR ''T'']"

definition fmts :: "conv list list" where
  "fmts = [[Ca, Lit CHR '','', Sp, Cd, Sp, Cb, Sp, CY, Sp] @ fmt_T @ fmt_GMT,
           [Ca, Lit CHR '','', Sp, Cd, Lit CHR ''-'', Cb, Lit CHR ''-'', Cy, Sp] @ fmt_T @ fmt_GMT,
           [Ca, Sp, Cb, Sp, Cd, Sp] @ fmt_T @ [Sp, CY],
           [CY, Lit CHR ''-'', Cm, Lit CHR ''-'', Cd, Sp] @ fmt_T]"

section \<open>Parsing\<close>

definition c_isspace :: "char \<Rightarrow> bool" where
  "c_isspace c = (let n = of_char c :: nat in n = 32 \<or> (9 \<le> n \<and> n \<le> 13))"

definition c_isdigit :: "char \<Rightarrow> bool" where
  "c_isdigit c = (let n = of_char c :: nat in 48 \<le> n \<and> n \<le> 57)"

definition c_digit :: "char \<Rightarrow> int" where
  "c_digit c = int (of_char c) - 48"

text \<open>The digits of a number: at most \<open>n\<close> more, and none that would exceed \<open>hi\<close>.\<close>

fun more_digits :: "nat \<Rightarrow> int \<Rightarrow> int \<Rightarrow> string \<Rightarrow> int \<times> string" where
  "more_digits (Suc n) hi v (c # s) =
     (if v * 10 \<le> hi \<and> c_isdigit c then more_digits n hi (v * 10 + c_digit c) s else (v, c # s))"
| "more_digits n hi v s = (v, s)"

definition get_number :: "int \<Rightarrow> int \<Rightarrow> nat \<Rightarrow> string \<Rightarrow> (int \<times> string) option" where
  "get_number lo hi n s =
     (case dropWhile (\<lambda>c. c = CHR '' '') s of
        [] \<Rightarrow> None
      | c # s \<Rightarrow>
          if \<not> c_isdigit c then None
          else (case more_digits (n - 1) hi (c_digit c) s of
                  (v, s) \<Rightarrow> if v < lo \<or> hi < v then None else Some (v, s)))"

text \<open>The first name in the list that the text starts with, in any case.\<close>

fun match_name :: "string list \<Rightarrow> nat \<Rightarrow> string \<Rightarrow> (nat \<times> string) option" where
  "match_name [] i s = None"
| "match_name (nm # ns) i s =
     (if length nm \<le> length s \<and> map c_tolower (take (length nm) s) = map c_tolower nm
      then Some (i, drop (length nm) s) else match_name ns (i + 1) s)"

definition match_either :: "string list \<Rightarrow> string list \<Rightarrow> string \<Rightarrow> (nat \<times> string) option" where
  "match_either full ab s = (case match_name full 0 s of Some r \<Rightarrow> Some r | None \<Rightarrow> match_name ab 0 s)"

definition parse_conv :: "conv \<Rightarrow> string \<Rightarrow> tm \<Rightarrow> (tm \<times> string) option" where
  "parse_conv c s tm = (case c of
      Lit ch \<Rightarrow> (case s of [] \<Rightarrow> None | d # s \<Rightarrow> if d = ch then Some (tm, s) else None)
    | Sp \<Rightarrow> Some (tm, dropWhile c_isspace s)
    | Ca \<Rightarrow> do { (i, s) \<leftarrow> match_either day_names abday s; Some (tm\<lparr>tm_wday := int i\<rparr>, s) }
    | Cd \<Rightarrow> do { (v, s) \<leftarrow> get_number 1 31 2 s; Some (tm\<lparr>tm_mday := v\<rparr>, s) }
    | Cb \<Rightarrow> do { (i, s) \<leftarrow> match_either mon_names abmon s; Some (tm\<lparr>tm_mon := int i\<rparr>, s) }
    | CY \<Rightarrow> do { (v, s) \<leftarrow> get_number 0 9999 4 s; Some (tm\<lparr>tm_year := v - 1900\<rparr>, s) }
    | Cy \<Rightarrow> do { (v, s) \<leftarrow> get_number 0 99 2 s; Some (tm\<lparr>tm_year := (if v \<ge> 69 then v else v + 100)\<rparr>, s) }
    | CH \<Rightarrow> do { (v, s) \<leftarrow> get_number 0 23 2 s; Some (tm\<lparr>tm_hour := v\<rparr>, s) }
    | CM \<Rightarrow> do { (v, s) \<leftarrow> get_number 0 59 2 s; Some (tm\<lparr>tm_min := v\<rparr>, s) }
    | CS \<Rightarrow> do { (v, s) \<leftarrow> get_number 0 61 2 s; Some (tm\<lparr>tm_sec := v\<rparr>, s) }
    | Cm \<Rightarrow> do { (v, s) \<leftarrow> get_number 1 12 2 s; Some (tm\<lparr>tm_mon := v - 1\<rparr>, s) })"

fun strptime :: "string \<Rightarrow> conv list \<Rightarrow> tm \<Rightarrow> tm option" where
  "strptime s [] tm = Some tm"
| "strptime s (c # cs) tm = do { (tm, s) \<leftarrow> parse_conv c s tm; strptime s cs tm }"

section \<open>The operations of time.c\<close>

definition TIM_FORMAT_SIZE :: nat where
  "TIM_FORMAT_SIZE = 30"

definition c_trunc :: "rat \<Rightarrow> int" where
  "c_trunc t = (if t < 0 then \<lceil>t\<rceil> else \<lfloor>t\<rfloor>)"

text \<open>The format string of \<open>TIM_format\<close> is the same as the first one of the table.\<close>

definition TIM_format :: "rat \<Rightarrow> string option" where
  "TIM_format t = strftime TIM_FORMAT_SIZE (fmts ! 0) (gmtime_r (c_trunc t))"

fun parse_fmts :: "conv list list \<Rightarrow> string \<Rightarrow> int" where
  "parse_fmts [] p = 0"
| "parse_fmts (r # rs) p = (case strptime p r tm_zero of Some tm \<Rightarrow> timegm tm | None \<Rightarrow> parse_fmts rs p)"

definition TIM_parse :: "string \<Rightarrow> int" where
  "TIM_parse p = parse_fmts fmts (cstr p)"

record timeval =
  tv_sec :: int
  tv_frac :: int

definition TIM_timeval :: "rat \<Rightarrow> timeval" where
  "TIM_timeval t = (let s = c_trunc t in \<lparr>tv_sec = s, tv_frac = c_trunc (1000000 * (t - of_int s))\<rparr>)"

definition TIM_timespec :: "rat \<Rightarrow> timeval" where
  "TIM_timespec t = (let s = c_trunc t in \<lparr>tv_sec = s, tv_frac = c_trunc (1000000000 * (t - of_int s))\<rparr>)"

section \<open>The calendar\<close>

definition days_before :: "int \<Rightarrow> int" where
  "days_before y = (y - 1970) * 365 + (y - 1969) div 4 - (y - 1901) div 100 + (y - 1601) div 400"

lemma div_step:
  assumes "0 < (k :: int)"
  shows "(n + 1) div k = n div k + (if (n + 1) mod k = 0 then 1 else 0)"
proof (cases "(n + 1) mod k = 0")
  case True
  then obtain q where "n + 1 = k * q" by (auto simp: mod_eq_0_iff_dvd elim: dvdE)
  moreover have "(k * q - 1) div k = q - 1"
    using assms by (intro int_div_pos_eq [of _ _ _ "k - 1"]) (auto simp: algebra_simps)
  ultimately show ?thesis using assms by (metis True add_diff_cancel_right' diff_add_cancel less_irrefl nonzero_mult_div_cancel_left)
next
  case False
  have "0 < (n + 1) mod k" "(n + 1) mod k < k"
    using assms False pos_mod_sign [of k "n + 1"] pos_mod_bound [of k "n + 1"] by linarith+
  moreover have "n = k * ((n + 1) div k) + ((n + 1) mod k - 1)"
    using mult_div_mod_eq [of k "n + 1"] by linarith
  ultimately have "n div k = (n + 1) div k" by (intro int_div_pos_eq [of _ _ _ "(n + 1) mod k - 1"]) linarith+
  then show ?thesis using False by simp
qed

lemma days_before_step: "days_before (y + 1) = days_before y + ylen y"
proof -
  define a b c where "a = (y - 1969) div 4" and "b = (y - 1901) div 100" and "c = (y - 1601) div 400"
  define l l100 l400 where "l \<longleftrightarrow> y mod 4 = 0" and "l100 \<longleftrightarrow> y mod 100 = 0" and "l400 \<longleftrightarrow> y mod 400 = 0"
  have m: "(y - 1968) mod 4 = y mod 4" "(y - 1900) mod 100 = y mod 100" "(y - 1600) mod 400 = y mod 400"
    using mod_mult_self2 [of y 4 "- 492"] mod_mult_self2 [of y 100 "- 19"] mod_mult_self2 [of y 400 "- 4"] by simp_all
  have i: "l400 \<longrightarrow> l100" "l100 \<longrightarrow> l"
    unfolding l_def l100_def l400_def
    using dvd_trans [of 100 400 y] dvd_trans [of 4 100 y] by (auto simp only: mod_eq_0_iff_dvd) simp_all
  have r: "y - 1969 + 1 = y - 1968" "y - 1901 + 1 = y - 1900" "y - 1601 + 1 = y - 1600"
    "y + 1 - 1969 = y - 1968" "y + 1 - 1901 = y - 1900" "y + 1 - 1601 = y - 1600" by simp_all
  have p: "0 < (4 :: int)" "0 < (100 :: int)" "0 < (400 :: int)" by simp_all
  have e: "(y - 1968) div 4 = a + (if l then 1 else 0)"
    "(y - 1900) div 100 = b + (if l100 then 1 else 0)"
    "(y - 1600) div 400 = c + (if l400 then 1 else 0)"
    unfolding a_def b_def c_def l_def l100_def l400_def
    using div_step [OF p(1), of "y - 1969", unfolded r m] div_step [OF p(2), of "y - 1901", unfolded r m]
      div_step [OF p(3), of "y - 1601", unfolded r m] by blast+
  show ?thesis
    unfolding days_before_def r e a_def [symmetric] b_def [symmetric] c_def [symmetric] ylen_def leap_def
      l_def [symmetric] l100_def [symmetric] l400_def [symmetric]
    using i by (cases l; cases l100; cases l400) simp_all
qed

lemma gm_year_inv:
  "gm_year y d = (y', d') \<Longrightarrow> days_before y' + d' = days_before y + d \<and> 0 \<le> d' \<and> d' < ylen y'"
proof (induction y d arbitrary: y' d' rule: gm_year.induct)
  case (1 y d)
  consider "d < 0" | "0 \<le> d" "d < ylen y" | "0 \<le> d" "\<not> d < ylen y" by linarith
  then show ?case
  proof cases
    case 1
    then show ?thesis
      using "1.IH"(1) [OF 1, of y' d'] "1.prems" days_before_step [of "y - 1"] by (simp add: gm_year.simps [of y d])
  next
    case 2
    then show ?thesis using "1.prems" by (simp add: gm_year.simps [of y d])
  next
    case 3
    then show ?thesis
      using "1.IH"(2) [of y' d'] "1.prems" days_before_step [of y] by (simp add: gm_year.simps [of y d])
  qed
qed

lemma gm_month_inv:
  assumes "gm_month ls m d = (m', d')" and "0 \<le> d" and "d < sum_list ls"
  shows "\<exists>k < length ls. m' = m + int k \<and> 0 \<le> d' \<and> d' < ls ! k \<and> sum_list (take k ls) + d' = d"
  using assms
proof (induction ls m d rule: gm_month.induct)
  case (2 l ls m d)
  show ?case
  proof (cases "d < l")
    case True
    then show ?thesis using 2(2-4) by (intro exI [of _ 0]) auto
  next
    case False
    then obtain k where "k < length ls" "m' = m + 1 + int k" "0 \<le> d'" "d' < ls ! k" "sum_list (take k ls) + d' = d - l"
      using 2 by auto
    then show ?thesis by (intro exI [of _ "Suc k"]) auto
  qed
qed simp

lemma sum_mlens: "sum_list (mlens y) = ylen y" by (simp add: mlens_def ylen_def)

text \<open>What \<open>gmtime_r\<close> promises: fields in range, and \<open>timegm\<close> as its inverse.\<close>

lemma gmtime_timegm:
  defines "g \<equiv> gmtime_r"
  shows "timegm (g t) = t" "0 \<le> tm_sec (g t) \<and> tm_sec (g t) < 60" "0 \<le> tm_min (g t) \<and> tm_min (g t) < 60"
    "0 \<le> tm_hour (g t) \<and> tm_hour (g t) < 24" "0 \<le> tm_mon (g t) \<and> tm_mon (g t) < 12"
    "1 \<le> tm_mday (g t) \<and> tm_mday (g t) \<le> 31" "0 \<le> tm_wday (g t) \<and> tm_wday (g t) < 7"
    "days_before (tm_year (g t) + 1900) \<le> t div 86400" "t div 86400 < days_before (tm_year (g t) + 1901)"
proof -
  obtain y yd where y: "gm_year 1970 (t div 86400) = (y, yd)" by fastforce
  obtain m md where m: "gm_month (mlens y) 0 yd = (m, md)" by fastforce
  let ?r = "t mod 86400"
  have gt: "g t = \<lparr>tm_sec = ?r mod 60, tm_min = ?r div 60 mod 60, tm_hour = ?r div 3600,
          tm_mday = md + 1, tm_mon = m, tm_year = y - 1900, tm_wday = (t div 86400 + 4) mod 7\<rparr>"
    by (simp add: g_def gmtime_r_def y m Let_def)
  have yi: "days_before y + yd = t div 86400" "0 \<le> yd" "yd < ylen y"
    using gm_year_inv [OF y] by (auto simp: days_before_def)
  obtain k where k: "k < length (mlens y)" "m = int k" "0 \<le> md" "md < mlens y ! k" "sum_list (take k (mlens y)) + md = yd"
    using gm_month_inv [OF m yi(2)] yi(3) by (auto simp: sum_mlens)
  have "mlens y ! k \<in> set (mlens y)" using k(1) by simp
  then have l31: "mlens y ! k \<le> 31" by (auto simp: mlens_def)
  have r: "0 \<le> ?r" "?r < 86400" by simp_all
  have rs: "?r mod 60 + ?r div 60 mod 60 * 60 + ?r div 3600 * 3600 = ?r"
  proof -
    have "?r div 3600 = ?r div 60 div 60" by (simp add: div_mult2_eq [symmetric] zdiv_zmult2_eq [symmetric])
    then show ?thesis
      using div_mult_mod_eq [of ?r 60] div_mult_mod_eq [of "?r div 60" 60] by linarith
  qed
  have "timegm (g t) = (?r mod 60 + ?r div 60 mod 60 * 60 + ?r div 3600 * 3600) + (yd + days_before y) * 86400"
    unfolding timegm_def gt Let_def days_before_def
    by (simp add: k(2) k(5) [symmetric] algebra_simps)
  also have "\<dots> = t" unfolding rs using yi(1) div_mult_mod_eq [of t 86400] by (simp add: algebra_simps)
  finally show "timegm (g t) = t" .
  show "0 \<le> tm_sec (g t) \<and> tm_sec (g t) < 60" "0 \<le> tm_min (g t) \<and> tm_min (g t) < 60"
    "0 \<le> tm_hour (g t) \<and> tm_hour (g t) < 24" "0 \<le> tm_wday (g t) \<and> tm_wday (g t) < 7"
    using r unfolding gt by auto
  show "0 \<le> tm_mon (g t) \<and> tm_mon (g t) < 12" "1 \<le> tm_mday (g t) \<and> tm_mday (g t) \<le> 31"
    using k l31 unfolding gt by (auto simp: mlens_def)
  show "days_before (tm_year (g t) + 1900) \<le> t div 86400" "t div 86400 < days_before (tm_year (g t) + 1901)"
    using yi days_before_step [of y] unfolding gt by (auto simp: add.commute)
qed


lemma days_before_mono: "y \<le> z \<Longrightarrow> days_before y \<le> days_before z"
proof (induction z rule: int_ge_induct)
  case (step z)
  then show ?case using days_before_step [of z] by (simp add: ylen_def split: if_splits)
qed simp

lemma gmtime_year:
  assumes "days_before a \<le> t div 86400" and "t div 86400 < days_before b"
  shows "a \<le> tm_year (gmtime_r t) + 1900" "tm_year (gmtime_r t) + 1900 < b"
proof -
  let ?y = "tm_year (gmtime_r t) + 1900"
  show "a \<le> ?y" using gmtime_timegm(9) [of t] assms(1) days_before_mono [of "?y + 1" a] by (force simp: add.commute)
  show "?y < b" using gmtime_timegm(8) [of t] assms(2) days_before_mono [of b ?y] by force
qed

section \<open>Texts\<close>

lemma digit_facts [simp]:
  assumes "0 \<le> d" and "d < 10"
  shows "c_isdigit (digit d)" "c_digit (digit d) = d" "digit d \<noteq> CHR '' ''" "\<not> c_isspace (digit d)"
    "digit d \<noteq> NUL"
proof -
  have n: "of_char (digit d) = nat (48 + d)" using assms by (simp add: digit_def)
  then show "c_isdigit (digit d)" "c_digit (digit d) = d" "\<not> c_isspace (digit d)"
    using assms by (auto simp: c_isdigit_def c_digit_def c_isspace_def Let_def)
  show "digit d \<noteq> CHR '' ''" "digit d \<noteq> NUL" using n assms by auto
qed

lemma get_number_dec2:
  assumes "0 \<le> n" "lo \<le> n" "n \<le> hi" "hi < 100"
  shows "get_number lo hi 2 (dec2 n @ s) = Some (n, s)"
proof -
  have d: "0 \<le> n div 10" "n div 10 < 10" "0 \<le> n mod 10" "n mod 10 < 10" "n div 10 * 10 \<le> hi"
    "n div 10 * 10 + n mod 10 = n" using assms by auto
  have "more_digits (Suc 0) hi (n div 10) (digit (n mod 10) # s) = (n, s)" using d by simp
  then show ?thesis using d assms by (simp add: get_number_def dec2_def numeral_2_eq_2)
qed

lemma fmt_Y_4:
  assumes "1000 \<le> y" "y \<le> 9999"
  shows "fmt_Y y = [digit (y div 1000), digit (y div 100 mod 10), digit (y div 10 mod 10), digit (y mod 10)]"
proof -
  have d: "y div 10 div 10 = y div 100" "y div 100 div 10 = y div 1000" by (simp_all add: zdiv_zmult2_eq [symmetric])
  have n: "\<not> y < 0" "\<not> y < 10" using assms by linarith+
  have m: "\<not> y div 10 < 10" "\<not> y div 100 < 10" "y div 1000 < 10" using assms by auto
  show ?thesis
    by (simp only: fmt_Y_def decimal.simps [of y] decimal.simps [of "y div 10"]
      decimal.simps [of "y div 100"] decimal.simps [of "y div 1000"] n m d if_True if_False append.simps)
qed

lemma get_number_Y:
  assumes "1000 \<le> y" "y \<le> 9999"
  shows "get_number 0 9999 4 (fmt_Y y @ s) = Some (y, s)"
proof -
  let ?a = "y div 1000" and ?b = "y div 100 mod 10" and ?c = "y div 10 mod 10" and ?d = "y mod 10"
  have e: "?a * 10 + ?b = y div 100" "y div 100 * 10 + ?c = y div 10" "y div 10 * 10 + ?d = y"
    using div_mult_mod_eq [of "y div 100" 10] div_mult_mod_eq [of "y div 10" 10] div_mult_mod_eq [of y 10]
    by (simp_all add: zdiv_zmult2_eq [symmetric])
  have r: "0 \<le> ?a" "?a < 10" "?a * 10 \<le> 9999" "y div 100 * 10 \<le> 9999" "y div 10 * 10 \<le> 9999" using assms by auto
  have b: "0 \<le> ?b" "?b < 10" "0 \<le> ?c" "?c < 10" "0 \<le> ?d" "?d < 10" by simp_all
  have "more_digits 3 9999 ?a (digit ?b # digit ?c # digit ?d # s) = (y, s)"
    by (simp only: numeral_3_eq_3 more_digits.simps digit_facts [OF b(1,2)] digit_facts [OF b(3,4)]
      digit_facts [OF b(5,6)] r e simp_thms if_True)
  then show ?thesis using r assms by (simp add: get_number_def fmt_Y_4 [OF assms])
qed

lemma less_7: "i < 7 \<Longrightarrow> i = 0 \<or> i = 1 \<or> i = 2 \<or> i = 3 \<or> i = 4 \<or> i = 5 \<or> i = (6 :: nat)" by auto
lemma less_12: "i < 12 \<Longrightarrow> i = 0 \<or> i = 1 \<or> i = 2 \<or> i = 3 \<or> i = 4 \<or> i = 5 \<or> i = 6 \<or> i = 7 \<or> i = 8 \<or> i = 9 \<or> i = 10 \<or> i = (11 :: nat)"
  by presburger

lemma match_day: "i < 7 \<Longrightarrow> match_either day_names abday (abday ! i @ CHR '','' # s) = Some (i, CHR '','' # s)"
  by (drule less_7) (elim disjE; simp add: match_either_def day_names_def abday_def c_tolower_def)

lemma match_mon: "i < 12 \<Longrightarrow> match_either mon_names abmon (abmon ! i @ CHR '' '' # s) = Some (i, CHR '' '' # s)"
  by (drule less_12) (elim disjE; simp add: match_either_def mon_names_def abmon_def c_tolower_def)

lemma name_starts:
  "i < 7 \<Longrightarrow> length (abday ! i) = 3 \<and> NUL \<notin> set (abday ! i)"
  "i < 12 \<Longrightarrow> length (abmon ! i) = 3 \<and> NUL \<notin> set (abmon ! i) \<and> (\<exists>c cs. abmon ! i = c # cs \<and> \<not> c_isspace c)"
  by (drule less_7, elim disjE; simp add: abday_def)
    (drule less_12, elim disjE; simp add: abmon_def c_isspace_def)


text \<open>The text \<open>TIM_format\<close> makes for a year of four digits.\<close>

lemma TIM_format_eq:
  assumes "days_before 1000 \<le> c_trunc t div 86400" and "c_trunc t div 86400 < days_before 10000"
  defines "g \<equiv> gmtime_r (c_trunc t)"
  shows "TIM_format t = Some (abday ! nat (tm_wday g) @ CHR '','' # CHR '' '' # dec2 (tm_mday g) @ CHR '' '' #
    abmon ! nat (tm_mon g) @ CHR '' '' # fmt_Y (tm_year g + 1900) @ CHR '' '' # dec2 (tm_hour g) @ CHR '':'' #
    dec2 (tm_min g) @ CHR '':'' # dec2 (tm_sec g) @ '' GMT'')"
proof -
  have y: "1000 \<le> tm_year g + 1900" "tm_year g + 1900 \<le> 9999" using gmtime_year [OF assms(1,2)] by (auto simp: g_def)
  have "length (abday ! nat (tm_wday g)) = 3" "length (abmon ! nat (tm_mon g)) = 3"
    using gmtime_timegm(5,7) [of "c_trunc t"] by (auto simp: g_def name_starts)
  then show ?thesis
    by (simp add: TIM_format_def strftime_def fmts_def fmt_conv_def g_def [symmetric] fmt_Y_4 [OF y] dec2_def
      TIM_FORMAT_SIZE_def)
qed

lemma cstr_digits: "0 \<le> n \<Longrightarrow> n < 100 \<Longrightarrow> NUL \<notin> set (dec2 n)"
  "1000 \<le> y \<Longrightarrow> y \<le> 9999 \<Longrightarrow> NUL \<notin> set (fmt_Y y)"
  using digit_facts(5) [THEN not_sym] by (simp_all add: dec2_def fmt_Y_4)

lemma c_isspace_sp [simp]: "c_isspace CHR '' ''"
  by (simp add: c_isspace_def)

lemma skip_sp_dec2: "0 \<le> n \<Longrightarrow> n < 100 \<Longrightarrow> dropWhile c_isspace (CHR '' '' # dec2 n @ s) = dec2 n @ s"
  by (simp add: dec2_def)

lemma skip_sp_Y: "1000 \<le> y \<Longrightarrow> y \<le> 9999 \<Longrightarrow> dropWhile c_isspace (CHR '' '' # fmt_Y y @ s) = fmt_Y y @ s"
  by (simp add: fmt_Y_4)

lemma skip_sp_mon: "i < 12 \<Longrightarrow> dropWhile c_isspace (CHR '' '' # abmon ! i @ s) = abmon ! i @ s"
  using name_starts(2) [of i] by (auto simp: c_isspace_def)

lemma strptime_TIM_format:
  assumes g: "0 \<le> tm_sec g \<and> tm_sec g < 60" "0 \<le> tm_min g \<and> tm_min g < 60" "0 \<le> tm_hour g \<and> tm_hour g < 24"
    "0 \<le> tm_mon g \<and> tm_mon g < 12" "1 \<le> tm_mday g \<and> tm_mday g \<le> 31" "0 \<le> tm_wday g \<and> tm_wday g < 7"
    and y: "1000 \<le> tm_year g + 1900" "tm_year g + 1900 \<le> 9999"
  shows "strptime (abday ! nat (tm_wday g) @ CHR '','' # CHR '' '' # dec2 (tm_mday g) @ CHR '' '' #
    abmon ! nat (tm_mon g) @ CHR '' '' # fmt_Y (tm_year g + 1900) @ CHR '' '' # dec2 (tm_hour g) @ CHR '':'' #
    dec2 (tm_min g) @ CHR '':'' # dec2 (tm_sec g) @ '' GMT'') (fmts ! 0) tm_zero = Some g"
proof -
  have sp: "dropWhile c_isspace '' GMT'' = ''GMT''" by (simp add: c_isspace_def)
  have n: "nat (tm_wday g) < 7" "nat (tm_mon g) < 12" "int (nat (tm_wday g)) = tm_wday g" "int (nat (tm_mon g)) = tm_mon g"
    using g by auto
  show ?thesis
    using g n y
    by (simp add: fmts_def parse_conv_def match_day match_mon get_number_dec2 get_number_Y skip_sp_dec2 skip_sp_Y
      skip_sp_mon sp tm_zero_def del: dropWhile.simps)
qed

text \<open>The round trip of a time through its text.\<close>

lemma TIM_format_parse:
  assumes "days_before 1000 \<le> c_trunc t div 86400" and "c_trunc t div 86400 < days_before 10000"
  shows "\<exists>s. TIM_format t = Some s \<and> length s + 1 \<le> TIM_FORMAT_SIZE \<and> TIM_parse s = c_trunc t"
proof -
  let ?g = "gmtime_r (c_trunc t)"
  let ?s = "abday ! nat (tm_wday ?g) @ CHR '','' # CHR '' '' # dec2 (tm_mday ?g) @ CHR '' '' #
    abmon ! nat (tm_mon ?g) @ CHR '' '' # fmt_Y (tm_year ?g + 1900) @ CHR '' '' # dec2 (tm_hour ?g) @ CHR '':'' #
    dec2 (tm_min ?g) @ CHR '':'' # dec2 (tm_sec ?g) @ '' GMT''"
  have y: "1000 \<le> tm_year ?g + 1900" "tm_year ?g + 1900 \<le> 9999" using gmtime_year [OF assms] by auto
  note g = gmtime_timegm [of "c_trunc t"]
  have f: "TIM_format t = Some ?s" by (rule TIM_format_eq [OF assms])
  have "NUL \<notin> set ?s"
    using g y by (auto simp: name_starts cstr_digits)
  then have "cstr ?s = ?s" by (rule cstr_id)
  moreover have "fmts = fmts ! 0 # tl fmts" by (simp add: fmts_def)
  ultimately have "TIM_parse ?s = timegm ?g"
    unfolding TIM_parse_def using strptime_TIM_format [OF g(2-7) y] by (metis option.simps(5) parse_fmts.simps(2))
  moreover have "length ?s + 1 \<le> TIM_FORMAT_SIZE"
    using f by (auto simp: TIM_format_def strftime_def Let_def split: if_splits)
  ultimately show ?thesis using f g(1) by auto
qed

text \<open>
  C27.  A time stamp survives the header it is written to: for every time in the years 1000 to
  9999, \<open>TIM_format\<close> fits its 30 byte buffer and \<open>TIM_parse\<close> of the text is the time
  again, to the second.
\<close>

theorem TIM_roundtrip:
  assumes "days_before 1000 \<le> c_trunc t div 86400" and "c_trunc t div 86400 < days_before 10000"
  shows "\<exists>s. TIM_format t = Some s \<and> length s + 1 \<le> TIM_FORMAT_SIZE \<and> TIM_parse s = c_trunc t"
  by (rule TIM_format_parse [OF assms])

theorem TIM_roundtrip_witness:
  "\<exists>s. TIM_format 784111777 = Some s \<and> length s + 1 \<le> TIM_FORMAT_SIZE \<and> TIM_parse s = 784111777"
proof -
  have c: "c_trunc 784111777 = 784111777" by (simp add: c_trunc_def)
  show ?thesis using TIM_roundtrip [of 784111777] by (simp add: c days_before_def)
qed

text \<open>The example of RFC 2616, section 3.3.1, in the second format.\<close>

lemma rfc850_example: "TIM_parse ''Sunday, 06-Nov-94 08:49:37 GMT'' = 784111777"
  by code_simp

text \<open>From the year 10000 on the text needs more than 30 bytes and the assertion in \<open>TIM_format\<close> fails.\<close>

lemma decimal_longer:
  assumes "k \<le> n div 10" "1 \<le> k" "l \<le> length (decimal (n div 10))"
  shows "Suc l \<le> length (decimal n)"
proof -
  have "\<not> n < 10" using assms(1,2) div_pos_pos_trivial [of n 10] div_neg_pos_less0 [of n 10] by linarith
  then show ?thesis using assms(3) by (simp add: decimal.simps [of n])
qed

lemma decimal_length: "1 \<le> length (decimal n)" by (subst decimal.simps) simp

lemma fmt_Y_5:
  assumes "10000 \<le> y"
  shows "5 \<le> length (fmt_Y y)"
proof -
  have d: "k \<le> n div 10" if "10 * k \<le> n" for k n :: int using that by auto
  have a: "1000 \<le> y div 10" by (rule d) (use assms in simp)
  have b: "100 \<le> y div 10 div 10" by (rule d) (use a in simp)
  have c: "10 \<le> y div 10 div 10 div 10" by (rule d) (use b in simp)
  have e: "1 \<le> y div 10 div 10 div 10 div 10" by (rule d) (use c in simp)
  have "Suc (Suc (Suc (Suc 1))) \<le> length (decimal y)"
    by (intro decimal_longer [OF a] decimal_longer [OF b] decimal_longer [OF c] decimal_longer [OF e] decimal_length) simp_all
  then show ?thesis using assms by (simp add: fmt_Y_def)
qed

lemma TIM_format_aborts:
  assumes "days_before 10000 \<le> c_trunc t div 86400"
  shows "TIM_format t = None"
proof -
  let ?g = "gmtime_r (c_trunc t)"
  have "10000 \<le> tm_year ?g + 1900"
    by (rule gmtime_year(1) [OF assms, of "tm_year ?g + 1901"]) (rule gmtime_timegm)
  then have "5 \<le> length (fmt_Y (tm_year ?g + 1900))" by (rule fmt_Y_5)
  moreover have "length (abday ! nat (tm_wday ?g)) = 3" "length (abmon ! nat (tm_mon ?g)) = 3"
    using gmtime_timegm(5,7) [of "c_trunc t"] by (auto simp: name_starts)
  ultimately show ?thesis
    by (simp add: TIM_format_def strftime_def fmts_def fmt_conv_def dec2_def TIM_FORMAT_SIZE_def)
qed

end
