(* ===== verification/Exp.thy ===== *)
theory Exp
  imports Complex_Main Prelude
begin

text \<open>
  The timers of an object, \<open>struct exp\<close> of bin/varnishd/cache.h and the first part of
  bin/varnishd/cache_expire.c.  Times and durations are rational numbers; the defaults are
  the run-time parameters \<open>default_keep\<close> and \<open>default_grace\<close>.  The session whose limits apply
  is an argument, \<open>None\<close> for a NULL pointer.
\<close>

record exp_t =
  ttl :: rat
  grace :: rat
  keep :: rat
  age :: rat
  entered :: rat

definition EXP_Clr :: exp_t where
  "EXP_Clr = \<lparr>ttl = -1, grace = -1, keep = -1, age = 0, entered = 0\<rparr>"

definition EXP_Get_ttl :: "exp_t \<Rightarrow> rat" where
  "EXP_Get_ttl e = (if ttl e > 0 then ttl e else -1)"

definition EXP_Get_grace :: "exp_t \<Rightarrow> rat" where
  "EXP_Get_grace e = (if grace e > 0 then grace e else 0)"

definition EXP_Get_keep :: "exp_t \<Rightarrow> rat" where
  "EXP_Get_keep e = (if keep e > 0 then keep e else 0)"

definition EXP_Set_ttl :: "exp_t \<Rightarrow> rat \<Rightarrow> exp_t" where
  "EXP_Set_ttl e v = (if v > 0 then e\<lparr>ttl := v\<rparr> else e\<lparr>ttl := -1, grace := -1, keep := -1\<rparr>)"

definition EXP_Set_grace :: "exp_t \<Rightarrow> rat \<Rightarrow> exp_t" where
  "EXP_Set_grace e v = (if v > 0 then e\<lparr>grace := v\<rparr> else e\<lparr>grace := -1\<rparr>)"

definition EXP_Set_keep :: "exp_t \<Rightarrow> rat \<Rightarrow> exp_t" where
  "EXP_Set_keep e v = (if v > 0 then e\<lparr>keep := v\<rparr> else e\<lparr>keep := -1\<rparr>)"

record exp_params =
  default_keep :: nat
  default_grace :: nat

definition EXP_Ttl :: "exp_t option \<Rightarrow> exp_t \<Rightarrow> rat" where
  "EXP_Ttl sp o' =
     (let r = ttl o';
          r = (case sp of Some s \<Rightarrow> if ttl s > 0 \<and> ttl s < r then ttl s else r | None \<Rightarrow> r)
      in entered o' + r)"

definition EXP_Grace :: "exp_params \<Rightarrow> exp_t option \<Rightarrow> exp_t \<Rightarrow> rat" where
  "EXP_Grace params sp o' =
     (let r = of_nat (default_grace params);
          r = (if grace o' \<ge> 0 then grace o' else r);
          r = (case sp of Some s \<Rightarrow> if grace s > 0 \<and> grace s < r then grace s else r | None \<Rightarrow> r)
      in EXP_Ttl sp o' + r)"

definition EXP_Keep :: "exp_params \<Rightarrow> exp_t option \<Rightarrow> exp_t \<Rightarrow> rat" where
  "EXP_Keep params sp o' =
     (let r = of_nat (default_keep params);
          r = (if keep o' > 0 then keep o' else r);
          r = (case sp of Some s \<Rightarrow> if keep s > 0 \<and> keep s < r then keep s else r | None \<Rightarrow> r)
      in EXP_Ttl sp o' + r)"

text \<open>When the timer of an object fires: the later of the ends of keep and grace.\<close>

definition exp_when :: "exp_params \<Rightarrow> exp_t \<Rightarrow> rat" where
  "exp_when params o' =
     (let when = EXP_Keep params None o'; w2 = EXP_Grace params None o'
      in if w2 > when then w2 else when)"

section \<open>Properties\<close>

lemma EXP_get_set [simp]:
  "EXP_Get_ttl (EXP_Set_ttl e v) = (if v > 0 then v else -1)"
  "EXP_Get_grace (EXP_Set_grace e v) = max 0 v"
  "EXP_Get_keep (EXP_Set_keep e v) = max 0 v"
  by (auto simp: EXP_Get_ttl_def EXP_Set_ttl_def EXP_Get_grace_def EXP_Set_grace_def EXP_Get_keep_def EXP_Set_keep_def)

lemma EXP_Ttl_limit: "EXP_Ttl sp o' \<le> EXP_Ttl None o'"
  by (auto simp: EXP_Ttl_def Let_def split: option.split)

lemma EXP_Grace_limit: "EXP_Grace params sp o' \<le> EXP_Grace params None o'"
  using EXP_Ttl_limit [of sp o'] by (auto simp: EXP_Grace_def Let_def intro!: add_mono split: option.split)

lemma EXP_Keep_limit: "EXP_Keep params sp o' \<le> EXP_Keep params None o'"
  using EXP_Ttl_limit [of sp o'] by (auto simp: EXP_Keep_def Let_def intro!: add_mono split: option.split)

lemma EXP_Ttl_le_Grace: "EXP_Ttl sp o' \<le> EXP_Grace params sp o'"
  by (auto simp: EXP_Grace_def Let_def split: option.split)

lemma EXP_Ttl_le_Keep: "EXP_Ttl sp o' \<le> EXP_Keep params sp o'"
  by (auto simp: EXP_Keep_def Let_def split: option.split)

text \<open>
  C28.  The timer of an object never fires while any session could still be served from it:
  it is not earlier than the end of TTL, of grace and of keep that any session with limits
  of its own computes, and it is reached by a session without limits.  Limits of a
  session only ever shorten the times.
\<close>

theorem timer_covers_sessions:
  "EXP_Ttl sp o' \<le> EXP_Grace params sp o' \<and> EXP_Ttl sp o' \<le> EXP_Keep params sp o' \<and>
   EXP_Grace params sp o' \<le> exp_when params o' \<and> EXP_Keep params sp o' \<le> exp_when params o' \<and>
   exp_when params o' \<in> {EXP_Grace params None o', EXP_Keep params None o'}"
  using EXP_Grace_limit [of params sp o'] EXP_Keep_limit [of params sp o'] EXP_Ttl_le_Grace [of sp o' params]
    EXP_Ttl_le_Keep [of sp o' params]
  by (auto simp: exp_when_def Let_def)

text \<open>Setting grace to zero does not turn it off: the object gets the default grace instead.\<close>

lemma zero_grace_is_default:
  "EXP_Grace params None (EXP_Set_grace e 0) = EXP_Ttl None e + of_nat (default_grace params)"
  by (simp add: EXP_Grace_def EXP_Set_grace_def EXP_Ttl_def)

end
