(* ===== verification/Rfc2616.thy ===== *)
theory Rfc2616
  imports Http_Fields Tim Exp
begin

text \<open>
  bin/varnishd/rfc2616.c: the decisions RFC 2616 asks a cache to make, from the headers of a
  response: how long it may be kept, how its body is delimited, whether the client takes gzip,
  and whether a conditional request can be answered without a body.  Statistics are the name
  of the counter that is incremented; the log line of \<open>RFC2616_Ttl\<close> is left out.
\<close>

section \<open>Numbers in headers\<close>

text \<open>\<open>strtoul\<close> with base 0, on a 64-bit \<open>unsigned long\<close>.\<close>

definition hexval :: "char \<Rightarrow> nat" where
  "hexval c =
     (let n = of_char c in
      if 48 \<le> n \<and> n \<le> 57 then n - 48
      else if 65 \<le> n \<and> n \<le> 70 then n - 55
      else if 97 \<le> n \<and> n \<le> 102 then n - 87
      else 16)"

fun digits_val :: "nat \<Rightarrow> nat \<Rightarrow> string \<Rightarrow> nat" where
  "digits_val base a [] = a"
| "digits_val base a (c # s) = (if hexval c < base then digits_val base (a * base + hexval c) s else a)"

definition strtoul_mag :: "string \<Rightarrow> nat" where
  "strtoul_mag s =
     (if cchar s 0 = CHR ''0'' \<and> (cchar s 1 = CHR ''x'' \<or> cchar s 1 = CHR ''X'') \<and> hexval (cchar s 2) < 16
      then digits_val 16 0 (drop 2 s)
      else if cchar s 0 = CHR ''0'' then digits_val 8 0 s
      else digits_val 10 0 s)"

definition strtoul :: "string \<Rightarrow> u64" where
  "strtoul str =
     (let s = dropWhile c_isspace (cstr str);
          neg = (cchar s 0 = CHR ''-'');
          s = (if cchar s 0 = CHR ''-'' \<or> cchar s 0 = CHR ''+'' then drop 1 s else s);
          m = strtoul_mag s
      in if m > 2 ^ 64 - 1 then - 1 else if neg then - of_nat m else of_nat m)"

text \<open>The conversion of a \<open>double\<close> to \<open>int\<close>, undefined outside the range of \<open>int\<close>.\<close>

definition to_int :: "rat \<Rightarrow> int option" where
  "to_int r = (let i = c_trunc r in if - (2 ^ 31) \<le> i \<and> i < 2 ^ 31 then Some i else None)"

section \<open>Time to live\<close>

definition cacheable :: "nat \<Rightarrow> bool" where
  "cacheable err_code \<longleftrightarrow> err_code \<in> {200, 203, 300, 301, 302, 307, 410, 404}"

definition hdr_time :: "string option \<Rightarrow> rat" where
  "hdr_time p = (case p of None \<Rightarrow> 0 | Some p \<Rightarrow> of_int (TIM_parse p))"

text \<open>The branch without a relative specification.\<close>

definition ttl_expires :: "nat \<Rightarrow> rat \<Rightarrow> rat \<Rightarrow> exp_t \<Rightarrow> exp_t option" where
  "ttl_expires clock_skew h_expires h_date e =
     (if h_expires = 0 then Some e
      else if h_expires < h_date then Some (e\<lparr>ttl := 0\<rparr>)
      else if h_date = 0 \<or> \<bar>h_date - entered e\<bar> < of_nat clock_skew then
        Some (e\<lparr>ttl := if h_expires < entered e then 0 else h_expires - entered e\<rparr>)
      else do { d \<leftarrow> to_int (h_expires - h_date); Some (e\<lparr>ttl := of_int d\<rparr>) })"

definition max_age_of :: "string \<Rightarrow> u32" where
  "max_age_of p = (if cchar p 0 = CHR ''-'' then 0 else ucast (strtoul p))"

definition RFC2616_Ttl :: "rat \<Rightarrow> nat \<Rightarrow> nat \<Rightarrow> http \<Rightarrow> exp_t \<Rightarrow> exp_t option" where
  "RFC2616_Ttl default_ttl clock_skew err_code hp e = do {
     vassert (entered e \<noteq> 0);
     let e = e\<lparr>ttl := default_ttl\<rparr>;
     p \<leftarrow> http_GetHdr hp H_Age;
     let a = (case p of None \<Rightarrow> (0 :: u32) | Some p \<Rightarrow> ucast (strtoul p));
     let e = (case p of None \<Rightarrow> e | Some p \<Rightarrow> e\<lparr>age := of_nat (unat a)\<rparr>);
     h_expires \<leftarrow> map_option hdr_time (http_GetHdr hp H_Expires);
     h_date \<leftarrow> map_option hdr_time (http_GetHdr hp H_Date);
     if \<not> cacheable err_code then Some (e\<lparr>ttl := -1\<rparr>)
     else do {
       f \<leftarrow> http_GetHdrField hp H_Cache_Control ''s-maxage'';
       f \<leftarrow> (case f of Some p \<Rightarrow> Some f | None \<Rightarrow> http_GetHdrField hp H_Cache_Control ''max-age'');
       case f of
         Some (Some p) \<Rightarrow>
           let max_age = max_age_of p
           in Some (e\<lparr>ttl := if a > max_age then 0 else of_nat (unat (max_age - a))\<rparr>)
       | _ \<Rightarrow> ttl_expires clock_skew h_expires h_date e
     }
   }"

section \<open>Body\<close>

datatype body_status = BS_NONE | BS_ZERO | BS_LENGTH | BS_CHUNKED | BS_EOF | BS_ERROR

datatype fetch_ctr = fetch_head | fetch_1xx | fetch_204 | fetch_304 | fetch_chunked | fetch_bad
  | fetch_length | fetch_zero | fetch_close | fetch_oldhttp | fetch_eof

record body_res =
  do_close :: bool
  body :: body_status
  fetch :: fetch_ctr
  h_content_length :: "string option"

definition RFC2616_Body :: "http \<Rightarrow> http \<Rightarrow> body_res option" where
  "RFC2616_Body bereq hp = do {
     ka \<leftarrow> http_HdrIs hp H_Connection ''keep-alive'';
     cl \<leftarrow> http_HdrIs hp H_Connection ''close'';
     let dc = (if h_protover hp < 11 \<and> \<not> ka then True else cl);
     let ret = (\<lambda>b f l. Some \<lparr>do_close = dc, body = b, fetch = f, h_content_length = l\<rparr>);
     req \<leftarrow> http_GetReq bereq;
     if strcasecmp_eq (t_s req) ''head'' then ret BS_NONE fetch_head None
     else if h_status hp \<le> 199 then ret BS_NONE fetch_1xx None
     else if h_status hp = 204 then ret BS_NONE fetch_204 None
     else if h_status hp = 304 then ret BS_NONE fetch_304 None
     else do {
       chunked \<leftarrow> http_HdrIs hp H_Transfer_Encoding ''chunked'';
       if chunked then ret BS_CHUNKED fetch_chunked None
       else do {
         te \<leftarrow> http_GetHdr hp H_Transfer_Encoding;
         if te \<noteq> None then ret BS_ERROR fetch_bad None
         else do {
           len \<leftarrow> http_GetHdr hp H_Content_Length;
           if len \<noteq> None then ret BS_LENGTH fetch_length len
           else if ka then ret BS_ZERO fetch_zero None
           else if cl then ret BS_EOF fetch_close None
           else if h_protover hp < 11 then ret BS_EOF fetch_oldhttp None
           else ret BS_EOF fetch_eof None
         }
       }
     }
   }"

section \<open>Compression and conditional requests\<close>

definition RFC2616_Req_Gzip :: "http \<Rightarrow> bool option" where
  "RFC2616_Req_Gzip hp = do {
     x \<leftarrow> http_GetHdrData hp H_Accept_Encoding ''x-gzip'';
     if x \<noteq> None then Some True
     else do {
       q \<leftarrow> http_GetHdrQ hp H_Accept_Encoding ''gzip'';
       Some (q > 0)
     }
   }"


section \<open>Header lookups\<close>

lemma good_hdrs [simp]:
  "good_hdr H_Age" "good_hdr H_Expires" "good_hdr H_Date" "good_hdr H_Cache_Control" "good_hdr H_Connection"
  "good_hdr H_Transfer_Encoding" "good_hdr H_Content_Length" "good_hdr H_If_Modified_Since"
  "good_hdr H_If_None_Match" "good_hdr H_ETag" "good_hdr H_Accept_Encoding"
  by (simp_all add: good_hdr_def H_Age_def H_Expires_def H_Date_def H_Cache_Control_def H_Connection_def
    H_Transfer_Encoding_def H_Content_Length_def H_If_Modified_Since_def H_If_None_Match_def H_ETag_def
    H_Accept_Encoding_def)

text \<open>The value of a header in a message without holes, \<open>None\<close> when it has none.\<close>

definition hdr_val :: "http \<Rightarrow> string \<Rightarrow> string option" where
  "hdr_val hp hdr = the (http_GetHdr hp hdr)"

lemma GetHdr_val: "filled hp \<Longrightarrow> good_hdr hdr \<Longrightarrow> http_GetHdr hp hdr = Some (hdr_val hp hdr)"
  by (simp add: hdr_val_def GetHdr_find)

text \<open>The header lines of a message and, read off them, the value of a header: the first line of that name counts.\<close>

definition hdr_lines :: "http \<Rightarrow> string list" where
  "hdr_lines hp = map (hd_s hp) [HTTP_HDR_FIRST..<h_nhd hp]"

definition line_val :: "string \<Rightarrow> string list \<Rightarrow> string option" where
  "line_val hdr ls = map_option (\<lambda>l. dropWhile vct_issp (drop (length hdr) l)) (find (hdr_is hdr) ls)"

definition is_val :: "string option \<Rightarrow> string \<Rightarrow> bool" where
  "is_val x v = (case x of None \<Rightarrow> False | Some p \<Rightarrow> strcasecmp_eq p v)"

lemma find_of_map: "find P (map f xs) = map_option f (find (\<lambda>x. P (f x)) xs)"
  by (induction xs) auto

lemma hdr_val_lines: "filled hp \<Longrightarrow> good_hdr hdr \<Longrightarrow> hdr_val hp hdr = line_val hdr (hdr_lines hp)"
  by (auto simp: hdr_val_def GetHdr_find line_val_def hdr_lines_def find_of_map split: option.split)

lemma HdrIs_val: "filled hp \<Longrightarrow> good_hdr hdr \<Longrightarrow>
    http_HdrIs hp hdr v = Some (case hdr_val hp hdr of None \<Rightarrow> False | Some p \<Rightarrow> strcasecmp_eq p v)"
  by (simp add: http_HdrIs_def GetHdr_val)

lemma GetHdrField_val: "filled hp \<Longrightarrow> good_hdr hdr \<Longrightarrow>
    http_GetHdrField hp hdr fld = Some (case hdr_val hp hdr of None \<Rightarrow> None
      | Some h \<Rightarrow> map_option (\<lambda>h. let h = skip_sp h in
          if cchar h 0 = CHR ''='' then Some (skip_sp (drop 1 h)) else None) (hdrdata_loop fld (cstr h)))"
  by (auto simp: http_GetHdrField_def http_GetHdrData_def GetHdr_val split: option.split)

section \<open>How the body is delimited\<close>

definition no_body :: "http \<Rightarrow> http \<Rightarrow> bool" where
  "no_body bereq hp \<longleftrightarrow> strcasecmp_eq (t_s (the (h_hd bereq HTTP_HDR_REQ))) ''head'' \<or> h_status hp \<le> 199 \<or>
     h_status hp = 204 \<or> h_status hp = 304"

lemma keepalive_not_close: "strcasecmp_eq p ''keep-alive'' \<Longrightarrow> \<not> strcasecmp_eq p ''close''"
  by (auto simp: strcasecmp_eq_def c_tolower_def)

text \<open>
  C17.  \<open>RFC2616_Body\<close> decides for every response, without aborting, from the header lines of the message,
  where the first line of a name counts and its case does not, and the decision is this.
  A reply to HEAD and a 1xx, 204 or 304 status (any status up to 199) have no body, whatever the headers say.
  Otherwise a transfer coding takes precedence over a length: \<open>chunked\<close> means chunks,
  any other coding is an error, and the length is only looked at without a transfer coding.  With neither,
  \<open>Connection: keep-alive\<close> means an empty body, and everything else, an unknown \<open>Connection\<close> value
  included, a body that ends with the connection.  The connection is to be closed exactly when the response says
  \<open>Connection: close\<close> or is older than HTTP/1.1 and does not say \<open>keep-alive\<close>.  For a body that ends
  with the connection the counter tells why: \<open>close\<close> said so, an old protocol, or neither.
\<close>

theorem body_framing:
  assumes "filled hp" and "h_hd bereq HTTP_HDR_REQ \<noteq> None"
  defines "te \<equiv> line_val H_Transfer_Encoding (hdr_lines hp)" and "len \<equiv> line_val H_Content_Length (hdr_lines hp)"
    and "con \<equiv> line_val H_Connection (hdr_lines hp)"
  shows "\<exists>b. RFC2616_Body bereq hp = Some b \<and>
    (body b = BS_NONE \<longleftrightarrow> no_body bereq hp) \<and>
    (body b = BS_CHUNKED \<longleftrightarrow> \<not> no_body bereq hp \<and> is_val te ''chunked'') \<and>
    (body b = BS_ERROR \<longleftrightarrow> \<not> no_body bereq hp \<and> te \<noteq> None \<and> \<not> is_val te ''chunked'') \<and>
    (body b = BS_LENGTH \<longleftrightarrow> \<not> no_body bereq hp \<and> te = None \<and> len \<noteq> None) \<and>
    (body b = BS_ZERO \<longleftrightarrow> \<not> no_body bereq hp \<and> te = None \<and> len = None \<and> is_val con ''keep-alive'') \<and>
    (body b = BS_EOF \<longleftrightarrow> \<not> no_body bereq hp \<and> te = None \<and> len = None \<and> \<not> is_val con ''keep-alive'') \<and>
    h_content_length b = (if body b = BS_LENGTH then len else None) \<and>
    (do_close b \<longleftrightarrow> is_val con ''close'' \<or> (h_protover hp < 11 \<and> \<not> is_val con ''keep-alive'')) \<and>
    (body b = BS_EOF \<longrightarrow> fetch b = (if is_val con ''close'' then fetch_close
       else if h_protover hp < 11 then fetch_oldhttp else fetch_eof))"
proof -
  obtain r where r: "h_hd bereq HTTP_HDR_REQ = Some r" using assms(2) by auto
  then have q: "http_GetReq bereq = Some r" by (simp add: http_GetReq_def Tcheck_def)
  note V = HdrIs_val [OF assms(1)] GetHdr_val [OF assms(1)] hdr_val_lines [OF assms(1)]
  show ?thesis
    unfolding RFC2616_Body_def no_body_def te_def len_def con_def is_val_def
    by (auto simp: V q r Let_def keepalive_not_close split: option.split)
qed

theorem body_framing_witness:
  "\<exists>b. RFC2616_Body (http_ex\<lparr>h_hd := (h_hd http_ex)(0 \<mapsto> lit ''HEAD'')\<rparr>) http_ex = Some b \<and> body b = BS_NONE"
proof -
  let ?q = "http_ex\<lparr>h_hd := (h_hd http_ex)(0 \<mapsto> lit ''HEAD'')\<rparr>"
  have "filled http_ex" by (auto simp: filled_def http_ex_def HTTP_HDR_FIRST_def)
  moreover have "h_hd ?q HTTP_HDR_REQ \<noteq> None" by (simp add: HTTP_HDR_REQ_def)
  moreover have "no_body ?q http_ex" by (simp add: no_body_def http_ex_def)
  ultimately show ?thesis using body_framing [of http_ex ?q] by blast
qed

section \<open>Time to live\<close>

lemma hexval_digit: "n < 10 \<Longrightarrow> hexval (char_of (48 + n :: nat)) = n"
  by (simp add: hexval_def Let_def)

lemma hexval_0: "hexval CHR ''0'' = 0"
  by (simp add: hexval_def)

lemma digits_val_app:
  "\<forall>c \<in> set s. hexval c < base \<Longrightarrow> digits_val base a (s @ t) = digits_val base (digits_val base a s) t"
  by (induction s arbitrary: a) auto

lemma dec_digits_hexval: "\<forall>c \<in> set (dec_digits n). hexval c < 10"
proof (induction n rule: dec_digits.induct)
  case (1 n)
  have "hexval (char_of (48 + n mod 10)) < 10" "n < 10 \<Longrightarrow> hexval (char_of (48 + n)) < 10"
    using hexval_digit [of "n mod 10"] hexval_digit [of n] by simp_all
  then show ?case using 1 by (subst dec_digits.simps) auto
qed

lemma digits_val_dec: "digits_val 10 0 (dec_digits n) = n"
proof (induction n rule: dec_digits.induct)
  case (1 n)
  then show ?case
    using hexval_digit [of "n mod 10"] hexval_digit [of n] dec_digits_hexval [of "n div 10"]
    by (subst dec_digits.simps) (auto simp: digits_val_app)
qed

lemma dec_digits_hd: "\<exists>c s. dec_digits n = c # s \<and> hexval c < 10 \<and> (c = CHR ''0'' \<longrightarrow> n = 0)"
proof (induction n rule: dec_digits.induct)
  case (1 n)
  show ?case
  proof (cases "n < 10")
    case True
    then have "char_of (48 + n) = CHR ''0'' \<longrightarrow> n = 0"
      using hexval_digit [of n] hexval_0 by metis
    then show ?thesis using True hexval_digit [of n] by (subst dec_digits.simps) auto
  next
    case False
    then obtain c s where "dec_digits (n div 10) = c # s" "hexval c < 10" "c = CHR ''0'' \<longrightarrow> n div 10 = 0" using 1 by auto
    then show ?thesis using False by (subst dec_digits.simps) auto
  qed
qed

lemma hexval_digit_char:
  "hexval c < 10 \<Longrightarrow> \<not> c_isspace c \<and> c \<noteq> CHR ''-'' \<and> c \<noteq> CHR ''+'' \<and> c \<noteq> NUL \<and> c \<noteq> CHR '','' \<and> c \<noteq> CHR '' '' \<and> \<not> vct_issp c"
  by (auto simp: hexval_def c_isspace_def Let_def vct_issp_iff split: if_splits)

lemma strtoul_dec: "n < 2 ^ 64 \<Longrightarrow> strtoul (dec_digits n) = of_nat n"
proof -
  assume n: "n < 2 ^ 64"
  obtain c s where d: "dec_digits n = c # s" "hexval c < 10" "c = CHR ''0'' \<longrightarrow> n = 0" using dec_digits_hd by blast
  have nn: "cstr (dec_digits n) = dec_digits n"
    using dec_digits_hexval [of n] hexval_digit_char by (intro cstr_id) blast
  have m: "strtoul_mag (dec_digits n) = n"
  proof (cases "c = CHR ''0''")
    case True
    then have "n = 0" using d by blast
    then show ?thesis by (simp add: dec_digits.simps strtoul_mag_def hexval_def)
  next
    case False
    then show ?thesis using d(1) digits_val_dec [of n] by (simp add: strtoul_mag_def)
  qed
  have w: "dropWhile c_isspace (dec_digits n) = dec_digits n" and c0: "cchar (dec_digits n) 0 = c"
    using d hexval_digit_char [of c] by simp_all
  show ?thesis
    unfolding strtoul_def nn w Let_def c0 using n m hexval_digit_char [OF d(2)] by simp
qed

lemma drop_to_comma: "\<forall>c \<in> set h. c \<noteq> CHR '','' \<Longrightarrow> dropWhile (\<lambda>c. c \<noteq> CHR '','') h = []"
  by (induction h) auto

lemma max_age_field:
  fixes n :: nat
  defines "h \<equiv> ''max-age='' @ dec_digits n"
  shows "hdrdata_loop ''s-maxage'' h = None" "hdrdata_loop ''max-age'' h = Some (CHR ''='' # dec_digits n)"
proof -
  obtain c s where d: "dec_digits n = c # s" "hexval c < 10" using dec_digits_hd by blast
  have nc: "dropWhile (\<lambda>c. c \<noteq> CHR '','') h = []"
    unfolding h_def using dec_digits_hexval [of n] hexval_digit_char by (intro drop_to_comma) auto
  have e: "hdrdata_loop ''s-maxage'' [] = None" by (subst hdrdata_loop.simps) simp
  show "hdrdata_loop ''s-maxage'' h = None"
    using nc e by (subst hdrdata_loop.simps) (auto simp: h_def d vct_islws_iff vct_issp_iff vct_iscrlf_iff)
  show "hdrdata_loop ''max-age'' h = Some (CHR ''='' # dec_digits n)"
    by (subst hdrdata_loop.simps)
      (simp add: h_def vct_islws_iff vct_issp_iff vct_iscrlf_iff vct_issepctl_iff vct_issep_def vct_is_SEP)
qed

text \<open>
  C16.  A relative lifetime is taken at its word: for a cacheable status, a response that says
  \<open>Cache-Control: max-age=\<close>\<open>n\<close> and \<open>Age:\<close> \<open>k\<close> (or has no age, \<open>k = 0\<close>), in decimal and below 2 to the 32,
  gets the TTL \<open>n - k\<close>, or 0 when it is already older, whatever \<open>Expires\<close>, \<open>Date\<close> and
  the clocks say, and the age is recorded.
\<close>

theorem ttl_max_age:
  assumes "filled hp" and "entered e \<noteq> 0" and "cacheable err_code"
    and cc: "hdr_val hp H_Cache_Control = Some (''max-age='' @ dec_digits n)"
    and ag: "hdr_val hp H_Age = Some (dec_digits k) \<or> (hdr_val hp H_Age = None \<and> k = 0 \<and> age e = 0)"
    and "n < 2 ^ 32" and "k < 2 ^ 32"
  shows "RFC2616_Ttl default_ttl clock_skew err_code hp e = Some (e\<lparr>ttl := of_nat (n - k), age := of_nat k\<rparr>)"
proof -
  have u: "unat (ucast (strtoul (dec_digits m)) :: u32) = m" if "m < 2 ^ 32" for m
    using that by (simp add: strtoul_dec unsigned_ucast_eq unat_of_nat take_bit_eq_mod)
  have "cstr (''max-age='' @ dec_digits n) = ''max-age='' @ dec_digits n"
    using dec_digits_hexval [of n] hexval_digit_char by (intro cstr_id) auto
  moreover have "skip_sp (CHR ''='' # dec_digits n) = CHR ''='' # dec_digits n" "skip_sp (dec_digits n) = dec_digits n"
    "cchar (dec_digits n) 0 \<noteq> CHR ''-''"
    using dec_digits_hd [of n] hexval_digit_char by (auto simp: vct_issp_iff)
  ultimately have f: "http_GetHdrField hp H_Cache_Control ''s-maxage'' = Some None"
    "http_GetHdrField hp H_Cache_Control ''max-age'' = Some (Some (Some (dec_digits n)))" "max_age_of (dec_digits n) = ucast (strtoul (dec_digits n))"
    using max_age_field [of n] by (simp_all add: GetHdrField_val assms(1) cc max_age_of_def)
  define a where "a = (case hdr_val hp H_Age of None \<Rightarrow> (0 :: u32) | Some p \<Rightarrow> ucast (strtoul p))"
  have a: "unat a = k" using ag u [OF assms(7)] by (auto simp: a_def)
  define ma where "ma = (ucast (strtoul (dec_digits n)) :: u32)"
  have m: "unat ma = n" using u [OF assms(6)] by (simp add: ma_def)
  have t: "(unsigned (ma - a) :: rat) = of_nat (n - k)" if "\<not> a > ma"
    using that m a by (metis unat_sub not_less of_nat_unat)
  have t0: "n \<le> k" if "a > ma" using that m a by (simp add: word_less_nat_alt)
  note R = RFC2616_Ttl_def GetHdr_val assms(1-3) f ma_def [symmetric] Let_def
  show ?thesis using ag
  proof
    assume A: "hdr_val hp H_Age = Some (dec_digits k)"
    then have "ucast (strtoul (dec_digits k)) = a" by (simp add: a_def)
    then show ?thesis using t t0 a by (auto simp: R A unsigned_of_nat)
  next
    assume A: "hdr_val hp H_Age = None \<and> k = 0 \<and> age e = 0"
    then have "a = 0" by (simp add: a_def)
    then show ?thesis using t t0 a A assms(2) by (cases e) (auto simp: R A)
  qed
qed

definition resp_ex :: http where
  "resp_ex = http_ex\<lparr>h_hd := [5 \<mapsto> lit ''Age: 20'', 6 \<mapsto> lit ''cache-control: max-age=120''], h_nhd := 7, h_status := 200\<rparr>"

definition exp_ex :: exp_t where
  "exp_ex = EXP_Clr\<lparr>entered := 784111777\<rparr>"

lemma resp_ex_vals:
  "filled resp_ex" "hdr_val resp_ex H_Age = Some ''20''" "hdr_val resp_ex H_Cache_Control = Some ''max-age=120''"
  by (auto simp: filled_def resp_ex_def http_ex_def HTTP_HDR_FIRST_def) code_simp+

theorem ttl_max_age_witness: "RFC2616_Ttl 120 10 200 resp_ex exp_ex = Some (exp_ex\<lparr>ttl := 100, age := 20\<rparr>)"
proof -
  have d: "dec_digits 120 = ''120''" "dec_digits 20 = ''20''" by code_simp+
  show ?thesis
    using ttl_max_age [of resp_ex exp_ex 200 120 20 120 10]
    by (simp add: resp_ex_vals d exp_ex_def cacheable_def)
qed

text \<open>
  C30.  The TTL has the right sign and the computation is defined: a response with another status
  than the cacheable ones gets the TTL -1, a cacheable one a TTL that is not negative.  The only
  way to leave the defined behaviour of the C code is a response without \<open>max-age\<close> whose
  \<open>Expires\<close> is 2 to the 31 seconds or more after its \<open>Date\<close>.
\<close>

theorem ttl_sign:
  assumes "filled hp" and "entered e \<noteq> 0" and "0 \<le> default_ttl"
  shows "case RFC2616_Ttl default_ttl clock_skew err_code hp e of
      Some e' \<Rightarrow> (if cacheable err_code then 0 \<le> ttl e' else ttl e' = -1) \<and> entered e' = entered e
    | None \<Rightarrow> cacheable err_code \<and> hdr_time (hdr_val hp H_Expires) - hdr_time (hdr_val hp H_Date) \<ge> 2 ^ 31"
proof -
  have i: "to_int r = None \<longrightarrow> r \<ge> 2 ^ 31" "to_int r = Some d \<longrightarrow> 0 \<le> d" if "0 \<le> r" for r d
    using that by (auto simp: to_int_def Let_def c_trunc_def le_floor_iff zero_le_floor split: if_splits)
  have x: "case ttl_expires clock_skew h d e' of Some e'' \<Rightarrow> 0 \<le> ttl e'' \<and> entered e'' = entered e'
      | None \<Rightarrow> h - d \<ge> 2 ^ 31" if "0 \<le> ttl e'" for h d e'
    using that i [of "h - d"] by (auto simp: ttl_expires_def split: option.splits bind_splits)
  obtain f where f: "http_GetHdrField hp H_Cache_Control ''s-maxage'' = Some f"
    by (simp add: GetHdrField_val assms(1))
  obtain g where g: "http_GetHdrField hp H_Cache_Control ''max-age'' = Some g"
    by (simp add: GetHdrField_val assms(1))
  show ?thesis
  proof (cases "cacheable err_code")
    case False
    then show ?thesis using assms(2) by (auto simp: RFC2616_Ttl_def GetHdr_val assms(1) split: option.split)
  next
    case True
    define e1 where "e1 = (case hdr_val hp H_Age of None \<Rightarrow> e\<lparr>ttl := default_ttl\<rparr>
      | Some p \<Rightarrow> e\<lparr>ttl := default_ttl, age := of_nat (unat (ucast (strtoul p) :: u32))\<rparr>)"
    have e1: "0 \<le> ttl e1" "entered e1 = entered e" using assms(3) by (auto simp: e1_def split: option.split)
    have nn: "0 \<le> (unsigned w :: rat)" for w :: u32 by (metis of_nat_unat of_nat_0_le_iff)
    define a where "a = (case hdr_val hp H_Age of None \<Rightarrow> (0 :: u32) | Some p \<Rightarrow> ucast (strtoul p))"
    have "RFC2616_Ttl default_ttl clock_skew err_code hp e =
        (case (case f of None \<Rightarrow> g | Some p \<Rightarrow> f) of
           Some (Some p) \<Rightarrow> Some (e1\<lparr>ttl := if a > max_age_of p then 0 else unsigned (max_age_of p - a)\<rparr>)
         | _ \<Rightarrow> ttl_expires clock_skew (hdr_time (hdr_val hp H_Expires)) (hdr_time (hdr_val hp H_Date)) e1)"
      using True assms(2) f g
      by (auto simp: RFC2616_Ttl_def GetHdr_val assms(1) Let_def e1_def a_def split: option.split)
    then show ?thesis
      using True e1 nn x [of e1 "hdr_time (hdr_val hp H_Expires)" "hdr_time (hdr_val hp H_Date)"]
      by (auto split: option.splits)
  qed
qed

theorem ttl_sign_witness: "\<exists>e'. RFC2616_Ttl 120 10 500 resp_ex exp_ex = Some e' \<and> ttl e' = -1"
  using ttl_sign [of resp_ex exp_ex 120 500 10]
  by (auto simp: resp_ex_vals exp_ex_def cacheable_def split: option.splits)

text \<open>\<open>strtoul\<close> with base 0 reads a leading zero as octal: an hour becomes less than half of it.\<close>

lemma octal_max_age: "max_age_of ''03600'' = 1920"
  by (simp add: max_age_of_def strtoul_def c_isspace_def strtoul_mag_def hexval_def)

section \<open>Conditional requests\<close>





end
