(* ===== verification/Vary.thy ===== *)
theory Vary
  imports Http_Fields
begin

text \<open>
  bin/varnishd/cache_vary.c: which variant of an object fits a request.  \<open>VRY_Create\<close> stores
  with an object the value each header named in \<open>Vary:\<close> had in the request it was
  fetched for, \<open>VRY_Match\<close> compares that with a later request.  The string buffers of
  \<open>VRY_Create\<close> extend automatically and appear as the text in them.  The buffer in
  which \<open>VRY_Match\<close> keeps what it has computed is memory, a function from the offset to
  \<open>vary_b\<close>; \<open>vary_e\<close> is the offset of its end.  The vary string of an object is the list of
  its bytes, and reading past its end is undefined (\<open>None\<close>).
\<close>

section \<open>Creating the vary string\<close>

definition be16 :: "nat \<Rightarrow> string" where
  "be16 l = [char_of (l div 256), char_of (l mod 256)]"

definition trim_tail :: "string \<Rightarrow> string" where
  "trim_tail h = rev (dropWhile vct_issp (rev (cstr h)))"

text \<open>
  \<open>http_GetHdr\<close> called with a name in a buffer: the length byte is a \<open>char\<close>, and one with the
  top bit set is a negative length, with which the code reads far outside the buffer.
\<close>

definition GetHdr_buf :: "http \<Rightarrow> string \<Rightarrow> string option option" where
  "GetHdr_buf hp hdr = do { vassert (length hdr < 128); http_GetHdr hp hdr }"

datatype vary_err = Name_Too_Long | Value_Too_Long | Malformed

definition issp_or_comma :: "char \<Rightarrow> bool" where
  "issp_or_comma c \<longleftrightarrow> vct_issp c \<or> c = CHR '',''"

lemma tl_drop_shorter:
  "p \<noteq> [] \<Longrightarrow> dropWhile P (dropWhile Q p) \<noteq> [] \<Longrightarrow> length (dropWhile P (dropWhile Q p)) - Suc 0 < length p"
proof -
  assume a: "p \<noteq> []" "dropWhile P (dropWhile Q p) \<noteq> []"
  have "length (dropWhile P (dropWhile Q p)) \<le> length (dropWhile Q p)" "length (dropWhile Q p) \<le> length p"
    by (rule length_dropWhile_le)+
  moreover have "0 < length (dropWhile P (dropWhile Q p))" using a(2) by simp
  ultimately show ?thesis by linarith
qed

function create_loop :: "http \<Rightarrow> string \<Rightarrow> string \<Rightarrow> (vary_err + string) option" where
  "create_loop req p sb =
     (if p = [] then Some (Inr sb)
      else if vct_issp (hd p) then create_loop req (tl p) sb
      else (let name = takeWhile (\<lambda>c. \<not> issp_or_comma c) p;
                q = dropWhile (\<lambda>c. \<not> issp_or_comma c) p in
        if length name > 127 then Some (Inl Name_Too_Long)
        else do {
          r \<leftarrow> GetHdr_buf req (name @ '':'');
          let h = (case r of None \<Rightarrow> [] | Some h \<Rightarrow> trim_tail h);
          let l = (case r of None \<Rightarrow> 65535 | Some _ \<Rightarrow> length h);
          if r \<noteq> None \<and> l > 65534 then Some (Inl Value_Too_Long)
          else do {
            let sb = sb @ be16 l @ [char_of (1 + length name)] @ name @ '':'' @ [NUL] @ h;
            let q = dropWhile vct_issp q;
            if q = [] then Some (Inr sb)
            else if hd q \<noteq> CHR '','' then Some (Inl Malformed)
            else create_loop req (tl q) sb
          }
        }))"
  by pat_completeness auto

termination
  by (relation "measure (\<lambda>(r, p, s). length p)") (auto intro!: tl_drop_shorter)

declare create_loop.simps [simp del]

text \<open>No \<open>Vary:\<close> header: nothing to store.\<close>

definition VRY_Create :: "http \<Rightarrow> http \<Rightarrow> (vary_err + string option) option" where
  "VRY_Create req hp = do {
     v \<leftarrow> http_GetHdr hp H_Vary;
     case v of None \<Rightarrow> Some (Inr None)
     | Some v \<Rightarrow> do {
         r \<leftarrow> create_loop req (cstr v) [];
         Some (case r of Inl x \<Rightarrow> Inl x | Inr sb \<Rightarrow> Inr (Some (sb @ [CHR 0xFF, CHR 0xFF, NUL])))
       }
   }"

section \<open>Matching\<close>

definition bte :: "char \<Rightarrow> nat" where
  "bte c = of_char c"

definition vbe16dec :: "string \<Rightarrow> nat" where
  "vbe16dec p = 256 * bte (p ! 0) + bte (p ! 1)"

definition vry_len :: "string \<Rightarrow> nat" where
  "vry_len p = (let l = vbe16dec p in 2 + bte (p ! 2) + 2 + (if l = 65535 then 0 else l))"

type_synonym mem = "nat \<Rightarrow> char"

definition rd :: "mem \<Rightarrow> nat \<Rightarrow> nat \<Rightarrow> string" where
  "rd m p n = map m [p..<p + n]"

definition wr :: "mem \<Rightarrow> nat \<Rightarrow> string \<Rightarrow> mem" where
  "wr m p s = (\<lambda>a. if p \<le> a \<and> a < p + length s then s ! (a - p) else m a)"

definition H_AE_buf :: string where
  "H_AE_buf = CHR 0x10 # H_Accept_Encoding"

definition vry_cmp :: "bool \<Rightarrow> string \<Rightarrow> mem \<Rightarrow> nat \<Rightarrow> nat" where
  "vry_cmp http_gzip_support v1 m v2 =
     (if take (vry_len v1) v1 = rd m v2 (vry_len v1) then 0
      else if take (bte (v1 ! 2) + 2) (drop 2 v1) \<noteq> rd m (v2 + 2) (bte (v1 ! 2) + 2) then 1
      else if http_gzip_support \<and> strcasecmp_eq H_AE_buf (drop 2 v1) then 0
      else 2)"

text \<open>Build a new entry for the header of \<open>vary\<close> at \<open>vsp\<close>: the memory, \<open>vsp\<close> and the overflow flag.\<close>

definition new_entry :: "http \<Rightarrow> nat \<Rightarrow> string \<Rightarrow> mem \<Rightarrow> nat \<Rightarrow> bool \<Rightarrow> (mem \<times> nat \<times> bool) option" where
  "new_entry req vary_e vary m vsp oflo = do {
     r \<leftarrow> GetHdr_buf req (take (bte (vary ! 2)) (drop 3 vary));
     let h = (case r of None \<Rightarrow> [] | Some h \<Rightarrow> trim_tail h);
     let lh = (case r of None \<Rightarrow> 65535 | Some _ \<Rightarrow> length h);
     vassert (r \<noteq> None \<longrightarrow> lh < 65535);
     let ln = 2 + bte (vary ! 2) + 2 + length h;
     let (vsp, oflo) = (if vsp + ln \<ge> vary_e then (0, True) else (vsp, oflo));
     vassert (vsp + ln + 2 < vary_e);
     let m = wr m vsp (be16 lh);
     let m = wr m (vsp + 2) (take (bte (vary ! 2) + 2) (drop 2 vary));
     let m = wr m (vsp + 2 + bte (m (vsp + 2)) + 2) h;
     let m = wr m (vsp + 2 + bte (vary ! 2) + 2 + length h + 2) [NUL];
     Some (m, vsp, oflo)
   }"

lemma vry_len_pos: "vry_len v = Suc (Suc (Suc (Suc (bte (v ! 2) + (if vbe16dec v = 65535 then 0 else vbe16dec v)))))"
  by (simp add: vry_len_def Let_def)

function match_loop :: "bool \<Rightarrow> http \<Rightarrow> nat \<Rightarrow> string \<Rightarrow> mem \<Rightarrow> nat \<Rightarrow> bool \<Rightarrow> bool \<Rightarrow> (mem \<times> nat \<times> bool \<times> bool) option" where
  "match_loop gz req vary_e vary m vsp oflo retval =
     (if length vary < 3 then None
      else if bte (vary ! 2) = 0 then Some (m, vsp, oflo, retval)
      else if length vary < vry_len vary then None
      else do {
        let i = vry_cmp gz vary m vsp;
        (m, vsp, oflo, i) \<leftarrow> (if i = 1 then do {
            (m, vsp, oflo) \<leftarrow> new_entry req vary_e vary m vsp oflo;
            let i = vry_cmp gz vary m vsp;
            vassert (i \<noteq> 1);
            Some (m, vsp, oflo, i)
          } else Some (m, vsp, oflo, i));
        match_loop gz req vary_e (drop (vry_len vary) vary) m (vsp + vry_len (rd m vsp 3)) oflo (if i \<noteq> 0 then False else retval)
      })"
  by pat_completeness auto

termination
  by (relation "measure (\<lambda>(gz, r, e, v, m, p, o', t). length v)") (auto simp: vry_len_pos)

declare match_loop.simps [simp del]

text \<open>The memory, \<open>vary_l\<close> (\<open>None\<close> for NULL) and the return value.\<close>

definition VRY_Match :: "bool \<Rightarrow> http \<Rightarrow> nat \<Rightarrow> mem \<Rightarrow> string \<Rightarrow> (mem \<times> nat option \<times> bool) option" where
  "VRY_Match gz req vary_e m vary = do {
     (m, vsp, oflo, retval) \<leftarrow> match_loop gz req vary_e vary m 0 False True;
     let oflo = (if vsp + 3 > vary_e then True else oflo);
     let vsp = (if oflo then 0 else vsp);
     let m = wr m vsp [CHR 0xFF, CHR 0xFF, NUL];
     Some (m, if oflo then None else Some (vsp + 3), retval)
   }"

function VRY_Validate :: "string \<Rightarrow> unit option" where
  "VRY_Validate vary =
     (if length vary < 3 then None
      else if bte (vary ! 2) = 0 then Some ()
      else if length vary < vry_len vary then None
      else do {
        vassert (length (cstr (drop 3 vary)) = bte (vary ! 2));
        VRY_Validate (drop (vry_len vary) vary)
      })"
  by auto

termination by (relation "measure length") (auto simp: vry_len_pos)

declare VRY_Validate.simps [simp del]

section \<open>Entries\<close>

definition enc :: "string \<Rightarrow> string option \<Rightarrow> string" where
  "enc n v = be16 (case v of None \<Rightarrow> 65535 | Some x \<Rightarrow> length x) @ [char_of (1 + length n)] @ n @ '':'' @ [NUL] @
     (case v of None \<Rightarrow> [] | Some x \<Rightarrow> x)"

abbreviation vend :: string where
  "vend \<equiv> [CHR 0xFF, CHR 0xFF, NUL]"

definition vstring :: "(string \<times> string option) list \<Rightarrow> string" where
  "vstring vs = concat (map (\<lambda>(n, v). enc n v) vs) @ vend"

definition ok_name :: "string \<Rightarrow> bool" where
  "ok_name n \<longleftrightarrow> NUL \<notin> set n \<and> length n \<le> 126"

definition ok_val :: "string option \<Rightarrow> bool" where
  "ok_val v \<longleftrightarrow> (case v of None \<Rightarrow> True | Some x \<Rightarrow> length x < 65535)"

text \<open>The value of a header in a request, as the vary code sees it.\<close>

definition req_val :: "http \<Rightarrow> string \<Rightarrow> string option" where
  "req_val req n = map_option trim_tail (the (http_GetHdr req (n @ '':'')))"

lemma bte_char_of: "k < 256 \<Longrightarrow> bte (char_of (k :: nat)) = k"
  by (simp add: bte_def)

lemma vbe16dec_be16: "l < 65536 \<Longrightarrow> vbe16dec (be16 l @ s) = l"
  by (simp add: vbe16dec_def be16_def bte_def)

lemma be16_inject: "be16 l = be16 k \<Longrightarrow> l < 65536 \<Longrightarrow> k < 65536 \<Longrightarrow> l = k"
  by (metis vbe16dec_be16)

lemma length_be16 [simp]: "length (be16 l) = 2"
  by (simp add: be16_def)

lemma enc_len: "ok_val v \<Longrightarrow> (case v of None \<Rightarrow> 65535 | Some x \<Rightarrow> length x) < (65536 :: nat)"
  by (auto simp: ok_val_def split: option.splits)

lemma enc_nth2: "(enc n v @ s) ! 2 = char_of (1 + length n)"
  by (simp add: enc_def nth_append)

lemma bte_enc: "ok_name n \<Longrightarrow> bte ((enc n v @ s) ! 2) = 1 + length n"
  unfolding enc_nth2 by (rule bte_char_of) (simp add: ok_name_def)

lemma vbe16dec_enc: "ok_val v \<Longrightarrow> vbe16dec (enc n v @ s) = (case v of None \<Rightarrow> 65535 | Some x \<Rightarrow> length x)"
  unfolding enc_def append_assoc using enc_len by (rule vbe16dec_be16)

lemma length_enc: "length (enc n v) = 5 + length n + (case v of None \<Rightarrow> 0 | Some x \<Rightarrow> length x)"
  by (auto simp: enc_def split: option.split)

lemma vry_len_enc: "ok_name n \<Longrightarrow> ok_val v \<Longrightarrow> vry_len (enc n v @ s) = length (enc n v)"
  by (auto simp: vry_len_def bte_enc vbe16dec_enc length_enc ok_val_def Let_def split: option.split)

lemma enc_hdr: "take (3 + length n) (drop 2 (enc n v @ s)) = [char_of (1 + length n)] @ n @ '':'' @ [NUL]"
  by (simp add: enc_def be16_def numeral_3_eq_3)

lemma enc_name: "take (1 + length n) (drop 3 (enc n v @ s)) = n @ '':''"
  by (simp add: enc_def be16_def)

lemma enc_inject:
  assumes "enc n v = enc n w" "ok_val v" "ok_val w" shows "v = w"
proof -
  have "be16 (case v of None \<Rightarrow> 65535 | Some x \<Rightarrow> length x) = be16 (case w of None \<Rightarrow> 65535 | Some x \<Rightarrow> length x)"
    "(case v of None \<Rightarrow> [] | Some x \<Rightarrow> x) = (case w of None \<Rightarrow> [] | Some x \<Rightarrow> x)"
    using assms(1) by (auto simp: enc_def append_eq_append_conv)
  then show ?thesis
    using be16_inject [OF _ enc_len [OF assms(2)] enc_len [OF assms(3)]] assms(2,3)
    by (cases v; cases w) (auto simp: ok_val_def)
qed

lemma char_of_len: "ok_name n \<Longrightarrow> of_char (char_of (1 + length n) :: char) = 1 + length n"
  by (simp add: ok_name_def)

lemma char_len_NUL: assumes "ok_name n" shows "char_of (1 + length n) \<noteq> NUL"
proof
  assume e: "char_of (1 + length n) = NUL"
  have "of_char (char_of (1 + length n) :: char) = (0 :: nat)" unfolding e by simp
  then show False using char_of_len [OF assms] by linarith
qed

text \<open>An entry that is not compared when Varnish handles gzip itself.\<close>

definition exempt :: "bool \<Rightarrow> string \<Rightarrow> bool" where
  "exempt gz n \<longleftrightarrow> gz \<and> strcasecmp_eq n ''Accept-Encoding''"

lemma AE_buf:
  assumes "ok_name n"
  shows "strcasecmp_eq H_AE_buf (drop 2 (enc n v @ s)) \<longleftrightarrow> strcasecmp_eq n ''Accept-Encoding''"
proof -
  let ?k = "char_of (1 + length n) :: char"
  note k = char_of_len [OF assms] and k0 = char_len_NUL [OF assms]
  have c: "cstr (drop 2 (enc n v @ s)) = ?k # n @ '':''"
    using assms k0 by (simp add: enc_def be16_def ok_name_def cstr_append)
  have h: "cstr H_AE_buf = CHR 0x10 # ''Accept-Encoding'' @ '':''" by (simp add: H_AE_buf_def H_Accept_Encoding_def)
  have n: "cstr n = n" using assms by (simp add: ok_name_def cstr_id)
  have "strcasecmp_eq H_AE_buf (drop 2 (enc n v @ s)) \<longleftrightarrow>
      c_tolower CHR 0x10 = c_tolower ?k \<and> map c_tolower ''Accept-Encoding'' = map c_tolower n"
    unfolding strcasecmp_eq_def c h by (simp only: list.map map_append list.inject same_append_eq append_same_eq)
  moreover have "?k = CHR 0x10" if "map c_tolower ''Accept-Encoding'' = map c_tolower n"
  proof -
    have "length n = 15" using map_eq_imp_length_eq [OF that] by simp
    then have "1 + length n = 16" by linarith
    moreover have "char_of (16 :: nat) = CHR 0x10" by code_simp
    ultimately show ?thesis by simp
  qed
  moreover have "cstr ''Accept-Encoding'' = ''Accept-Encoding''" by simp
  ultimately show ?thesis
    unfolding strcasecmp_eq_def [of n] n by metis
qed

section \<open>The comparison buffer\<close>

lemma rd_append: "rd m p (a + b) = rd m p a @ rd m (p + a) b"
proof -
  have "[p..<p + (a + b)] = [p..<p + a] @ [p + a..<p + a + b]" by (metis add.assoc le_add1 upt_add_eq_append)
  then show ?thesis by (simp add: rd_def)
qed

lemma length_rd [simp]: "length (rd m p n) = n"
  by (simp add: rd_def)

lemma rd_nth: "i < n \<Longrightarrow> rd m p n ! i = m (p + i)"
  by (simp add: rd_def)

lemma rd_wr: "rd (wr m p s) p (length s) = s"
  by (rule nth_equalityI) (auto simp: rd_nth wr_def)

lemma rd_wr_other: "q + n \<le> p \<or> p + length s \<le> q \<Longrightarrow> rd (wr m p s) q n = rd m q n"
  by (auto simp: rd_def wr_def)

lemma wr_wr: "wr (wr m p s) (p + length s) t = wr m p (s @ t)"
  by (rule ext) (auto simp: wr_def nth_append)

abbreviation cc :: "http \<Rightarrow> string list \<Rightarrow> string" where
  "cc req es \<equiv> concat (map (\<lambda>n. enc n (req_val req n)) es)"

text \<open>
  From offset \<open>p\<close> on the buffer holds entries for headers \<open>es\<close> with their values in the current
  request, and then an end marker.
\<close>

definition vbuf :: "http \<Rightarrow> mem \<Rightarrow> nat \<Rightarrow> string list \<Rightarrow> bool" where
  "vbuf req m p es \<longleftrightarrow> (\<forall>n \<in> set es. ok_name n \<and> ok_val (req_val req n)) \<and>
     rd m p (length (cc req es)) = cc req es \<and> m (p + length (cc req es) + 2) = NUL"

lemma vbuf_Cons:
  "vbuf req m p (n # es) \<longleftrightarrow> ok_name n \<and> ok_val (req_val req n) \<and>
     rd m p (length (enc n (req_val req n))) = enc n (req_val req n) \<and>
     vbuf req m (p + length (enc n (req_val req n))) es"
  by (auto simp: vbuf_def rd_append add.assoc)

lemma rd_take: "k \<le> n \<Longrightarrow> take k (rd m p n) = rd m p k"
  by (metis append_eq_conv_conj le_add_diff_inverse length_rd rd_append)

lemma rd_drop: "drop k (rd m p (k + n)) = rd m (p + k) n"
  by (simp add: rd_append)

text \<open>The header part of what the buffer has at \<open>p\<close>.\<close>

lemma rd_hdr_part:
  assumes "rd m p (length (enc e w)) = enc e w"
  shows "rd m (p + 2) (3 + length e) = [char_of (1 + length e)] @ e @ '':'' @ [NUL]"
proof -
  have "length (enc e w) = 2 + ((3 + length e) + (length (enc e w) - 5 - length e))" by (simp add: length_enc)
  then have "rd m (p + 2) (3 + length e) = take (3 + length e) (drop 2 (rd m p (length (enc e w))))"
    by (metis rd_drop rd_take le_add1)
  then show ?thesis using assms enc_hdr [of e w "[]"] by simp
qed

lemma cmp_eq:
  assumes n: "ok_name n" and v: "ok_val v"
  shows "vry_cmp gz (enc n v @ s) m p =
    (if rd m p (length (enc n v)) = enc n v then 0
     else if rd m (p + 2) (3 + length n) \<noteq> [char_of (1 + length n)] @ n @ '':'' @ [NUL] then 1
     else if exempt gz n then 0 else 2)"
proof -
  have bt: "bte ((enc n v @ s) ! 2) + 2 = 3 + length n" using bte_enc [OF n] by simp
  have tk: "take (length (enc n v)) (enc n v @ s) = enc n v" by simp
  show ?thesis
    unfolding vry_cmp_def vry_len_enc [OF n v] bt tk enc_hdr AE_buf [OF n] exempt_def
    by (simp only: eq_commute [of "enc n v" "rd m p (length (enc n v))"]
      eq_commute [of "[char_of (1 + length n)] @ n @ '':'' @ [NUL]" "rd m (p + 2) (3 + length n)"])
qed

lemma same_entry:
  assumes "ok_val v" "ok_val w" and w: "rd m p (length (enc n w)) = enc n w"
  shows "rd m p (length (enc n v)) = enc n v \<longleftrightarrow> v = w"
proof
  let ?L = "\<lambda>v. case v of None \<Rightarrow> 65535 | Some x \<Rightarrow> length x"
  assume a: "rd m p (length (enc n v)) = enc n v"
  have "take 2 (enc n u) = be16 (?L u)" "2 \<le> length (enc n u)" for u by (simp_all add: enc_def)
  then have "be16 (?L v) = be16 (?L w)" using a w rd_take by metis
  then have "?L v = ?L w" using be16_inject [OF _ enc_len [OF assms(1)] enc_len [OF assms(2)]] by blast
  then have "length (enc n v) = length (enc n w)"
    using assms(1,2) by (cases v; cases w) (auto simp: length_enc ok_val_def)
  then show "v = w" using a w enc_inject [OF _ assms(1,2)] by metis
qed (use w in simp)

lemma cmp_entry:
  assumes n: "ok_name n" and v: "ok_val v" and b: "vbuf req m p es"
  shows "vry_cmp gz (enc n v @ s) m p =
    (case es of [] \<Rightarrow> 1 | e # _ \<Rightarrow> if e = n then (if v = req_val req n \<or> exempt gz n then 0 else 2) else 1)"
proof -
  let ?hp = "[char_of (1 + length n)] @ n @ '':'' @ [NUL]"
  have one: "vry_cmp gz (enc n v @ s) m p = 1" if "rd m (p + 2) (3 + length n) \<noteq> ?hp"
  proof -
    have "rd m p (length (enc n v)) \<noteq> enc n v" using that rd_hdr_part [of m p n v] by blast
    then show ?thesis unfolding cmp_eq [OF n v] using that by (simp only: if_False if_True simp_thms)
  qed
  show ?thesis
  proof (cases es)
    case Nil
    then have "m (p + 2) = NUL" using b by (simp add: vbuf_def)
    then have "rd m (p + 2) (3 + length n) ! 0 = NUL" by (simp add: rd_nth)
    moreover have "?hp ! 0 \<noteq> NUL" using char_len_NUL [OF n] by (simp only: append_Cons nth_Cons_0 not_False_eq_True)
    ultimately show ?thesis using one Nil by (metis list.simps(4))
  next
    case (Cons e es')
    then have e: "ok_name e" "ok_val (req_val req e)" "rd m p (length (enc e (req_val req e))) = enc e (req_val req e)"
      using b by (auto simp: vbuf_Cons)
    note he = rd_hdr_part [OF e(3)]
    show ?thesis
    proof (cases "e = n")
      case False
      have "rd m (p + 2) (3 + length n) \<noteq> ?hp"
      proof
        assume a: "rd m (p + 2) (3 + length n) = ?hp"
        have "rd m (p + 2) (3 + length n) ! 0 = rd m (p + 2) (3 + length e) ! 0" by (simp add: rd_nth)
        then have "char_of (1 + length n) = (char_of (1 + length e) :: char)" unfolding a he by simp
        then have l: "length n = length e" using char_of_len [OF n] char_of_len [OF e(1)] by (metis add_left_cancel)
        then show False using a he False by simp
      qed
      then show ?thesis using one Cons False by simp
    next
      case True
      then have h: "rd m (p + 2) (3 + length n) = ?hp" using he by blast
      show ?thesis using same_entry [OF v, of "req_val req n" m p n] True e(2,3) Cons
        unfolding cmp_eq [OF n v] h by simp
    qed
  qed
qed

lemma GetHdr_buf_val:
  assumes "filled req" and "ok_name n"
  shows "\<exists>r. GetHdr_buf req (n @ '':'') = Some r \<and> map_option trim_tail r = req_val req n"
proof -
  have "good_hdr (n @ '':'')" using assms(2) by (auto simp: good_hdr_def ok_name_def)
  then obtain r where "http_GetHdr req (n @ '':'') = Some r" using GetHdr_find [OF _ assms(1)] by blast
  then show ?thesis using assms(2) by (simp add: GetHdr_buf_def req_val_def ok_name_def)
qed

lemma wr_outside: "a < p \<or> p + length s \<le> a \<Longrightarrow> wr m p s a = m a"
  by (auto simp: wr_def)

lemma new_entry_eq:
  assumes "filled req" and n: "ok_name n" and w: "ok_val (req_val req n)" and we: "w = req_val req n"
    and room: "p + length (enc n w) + 2 < vary_e"
  shows "new_entry req vary_e (enc n v @ s) m p oflo =
    Some (wr (wr m p (enc n w)) (p + length (enc n w) + 2) [NUL], p, oflo)"
proof -
  obtain r where r: "GetHdr_buf req (n @ '':'') = Some r" "map_option trim_tail r = w"
    using GetHdr_buf_val [OF assms(1) n] by (auto simp: we)
  let ?h = "case r of None \<Rightarrow> [] | Some h \<Rightarrow> trim_tail h"
  let ?lh = "case r of None \<Rightarrow> 65535 | Some _ \<Rightarrow> length ?h"
  have h: "?h = (case w of None \<Rightarrow> [] | Some x \<Rightarrow> x)" "?lh = (case w of None \<Rightarrow> 65535 | Some x \<Rightarrow> length x)"
    using r(2) by (auto split: option.splits)
  have ln: "2 + (1 + length n) + 2 + length ?h = length (enc n w)" using h(1) by (simp add: length_enc split: option.splits)
  have ok: "r \<noteq> None \<longrightarrow> ?lh < 65535" using w r(2) by (auto simp: ok_val_def we split: option.splits)
  have nm: "take (1 + length n) (drop 3 (enc n v @ s)) = n @ '':''" by (rule enc_name)
  have hd: "take (1 + length n + 2) (drop 2 (enc n v @ s)) = [char_of (1 + length n)] @ n @ '':'' @ [NUL]"
    using enc_hdr [of n v s] by (simp add: numeral_3_eq_3)
  let ?m1 = "wr (wr m p (be16 ?lh)) (p + 2) ([char_of (1 + length n)] @ n @ '':'' @ [NUL])"
  have m1: "?m1 = wr m p (be16 ?lh @ [char_of (1 + length n)] @ n @ '':'' @ [NUL])"
    using wr_wr [of m p "be16 ?lh"] by simp
  have b: "bte (?m1 (p + 2)) = 1 + length n" using char_of_len [OF n] by (simp add: wr_def bte_def)
  have m2: "wr ?m1 (p + 2 + (1 + length n) + 2) ?h = wr m p (enc n w)"
    unfolding m1 using wr_wr [of m p "be16 ?lh @ [char_of (1 + length n)] @ n @ '':'' @ [NUL]" ?h] h
    by (simp add: enc_def add.assoc)
  show ?thesis
    unfolding new_entry_def bte_enc [OF n] nm r(1) hd Let_def
    using ok room m2 b by (simp add: ln [symmetric] ac_simps)
qed

lemma vbuf_wr:
  assumes "ok_name n" and "ok_val (req_val req n)" and "w = req_val req n"
  shows "vbuf req (wr (wr m p (enc n w)) (p + length (enc n w) + 2) [NUL]) p [n]"
proof -
  let ?m = "wr (wr m p (enc n w)) (p + length (enc n w) + 2) [NUL]"
  have "rd ?m p (length (enc n w)) = enc n w" by (simp add: rd_wr_other rd_wr)
  moreover have "?m (p + length (enc n w) + 2) = NUL" by (simp add: wr_def)
  ultimately show ?thesis using assms by (simp add: vbuf_def)
qed

text \<open>One entry of a vary string, with room for the entry of the request.\<close>

lemma match_step:
  assumes f: "filled req" and n: "ok_name n" and v: "ok_val v" and w: "ok_val (req_val req n)"
    and b: "vbuf req m p es" and room: "p + length (enc n (req_val req n)) + 2 < vary_e"
  shows "\<exists>m' es'. match_loop gz req vary_e (enc n v @ s) m p oflo ret =
      match_loop gz req vary_e s m' (p + length (enc n (req_val req n))) oflo
        (ret \<and> (v = req_val req n \<or> exempt gz n)) \<and>
    vbuf req m' p (n # es') \<and> (\<forall>a. a < p \<or> vary_e \<le> a \<longrightarrow> m' a = m a)"
proof -
  let ?w = "req_val req n"
  have nz: "bte ((enc n v @ s) ! 2) \<noteq> 0" "\<not> length (enc n v @ s) < 3" "\<not> length (enc n v @ s) < vry_len (enc n v @ s)"
    using bte_enc [OF n, of v s] by (auto simp: vry_len_enc [OF n v] length_enc)
  have adv: "vry_len (rd m' p 3) = length (enc n ?w)" if "vbuf req m' p (n # es')" for m' es'
  proof -
    have "rd m' p (length (enc n ?w)) = enc n ?w" using that by (simp add: vbuf_Cons)
    then have "rd m' p 3 = take 3 (enc n ?w)" using rd_take [of 3 "length (enc n ?w)" m' p] by (simp add: length_enc)
    then have "vry_len (rd m' p 3) = vry_len (enc n ?w)" by (simp add: vry_len_def vbe16dec_def)
    then show ?thesis using vry_len_enc [OF n w, of "[]"] by simp
  qed
  have dr: "drop (vry_len (enc n v @ s)) (enc n v @ s) = s" by (simp add: vry_len_enc [OF n v])
  let ?ok = "v = ?w \<or> exempt gz n"
  show ?thesis
  proof (cases "\<exists>es'. es = n # es'")
    case True
    then obtain es' where e: "es = n # es'" by blast
    have c: "vry_cmp gz (enc n v @ s) m p = (if ?ok then 0 else 2)" using cmp_entry [OF n v b] e by simp
    have "match_loop gz req vary_e (enc n v @ s) m p oflo ret =
        match_loop gz req vary_e s m (p + length (enc n ?w)) oflo (ret \<and> ?ok)"
      unfolding match_loop.simps [of gz req vary_e "enc n v @ s"] c dr
      using nz adv [of m es'] b e by auto
    then show ?thesis using b e by blast
  next
    case False
    let ?m = "wr (wr m p (enc n ?w)) (p + length (enc n ?w) + 2) [NUL]"
    have c: "vry_cmp gz (enc n v @ s) m p = 1" using cmp_entry [OF n v b] False by (auto split: list.splits)
    have b': "vbuf req ?m p [n]" by (rule vbuf_wr [OF n w refl])
    have c': "vry_cmp gz (enc n v @ s) ?m p = (if ?ok then 0 else 2)" using cmp_entry [OF n v b'] by simp
    have "match_loop gz req vary_e (enc n v @ s) m p oflo ret =
        match_loop gz req vary_e s ?m (p + length (enc n ?w)) oflo (ret \<and> ?ok)"
      unfolding match_loop.simps [of gz req vary_e "enc n v @ s"] c dr new_entry_eq [OF f n w refl room]
      using nz adv [OF b'] c' by auto
    moreover have "?m a = m a" if "a < p \<or> vary_e \<le> a" for a using that room by (auto simp: wr_def)
    ultimately show ?thesis using b' by blast
  qed
qed

lemma match_all:
  assumes f: "filled req" and ok: "\<forall>(n, v) \<in> set vs. ok_name n \<and> ok_val v \<and> ok_val (req_val req n)"
    and b: "vbuf req m p es" and room: "p + length (cc req (map fst vs)) + 2 < vary_e"
  shows "\<exists>m'. match_loop gz req vary_e (vstring vs) m p oflo ret =
      Some (m', p + length (cc req (map fst vs)), oflo, ret \<and> (\<forall>(n, v) \<in> set vs. v = req_val req n \<or> exempt gz n)) \<and>
    rd m' p (length (cc req (map fst vs))) = cc req (map fst vs) \<and>
    (\<forall>a. a < p \<or> vary_e \<le> a \<longrightarrow> m' a = m a)"
  using ok b room
proof (induction vs arbitrary: m p es ret)
  case Nil
  then show ?case by (subst match_loop.simps) (simp add: vstring_def bte_def rd_def)
next
  case (Cons nv vs)
  obtain n v where nv: "nv = (n, v)" by fastforce
  let ?l = "length (enc n (req_val req n))" and ?ok = "v = req_val req n \<or> exempt gz n"
  have s: "ok_name n" "ok_val v" "ok_val (req_val req n)" "p + ?l + 2 < vary_e" using Cons.prems nv by auto
  have vs: "vstring (nv # vs) = enc n v @ vstring vs" by (simp add: vstring_def nv)
  obtain m1 es' where 1: "match_loop gz req vary_e (vstring (nv # vs)) m p oflo ret =
      match_loop gz req vary_e (vstring vs) m1 (p + ?l) oflo (ret \<and> ?ok)"
    "vbuf req m1 p (n # es')" "\<forall>a. a < p \<or> vary_e \<le> a \<longrightarrow> m1 a = m a"
    using match_step [OF f s(1-3) Cons.prems(2) s(4), of gz "vstring vs" oflo ret] unfolding vs by blast
  have "vbuf req m1 (p + ?l) es'" using 1(2) by (simp add: vbuf_Cons)
  from Cons.IH [OF _ this, of "ret \<and> ?ok"] Cons.prems nv obtain m2 where
    2: "match_loop gz req vary_e (vstring vs) m1 (p + ?l) oflo (ret \<and> ?ok) =
      Some (m2, p + ?l + length (cc req (map fst vs)), oflo, (ret \<and> ?ok) \<and> (\<forall>(n, v) \<in> set vs. v = req_val req n \<or> exempt gz n))"
    "rd m2 (p + ?l) (length (cc req (map fst vs))) = cc req (map fst vs)"
    "\<forall>a. a < p + ?l \<or> vary_e \<le> a \<longrightarrow> m2 a = m1 a" by (auto simp: add.assoc)
  have "rd m2 p ?l = rd m1 p ?l" using 2(3) by (auto simp: rd_def)
  then have "rd m2 p ?l = enc n (req_val req n)" using 1(2) by (simp add: vbuf_Cons)
  then show ?case using 1 2 nv by (auto simp: rd_append add.assoc)
qed

text \<open>A vary string as \<open>VRY_Create\<close> makes it passes \<open>VRY_Validate\<close>.\<close>

lemma validate_vstring: "\<forall>(n, v) \<in> set vs. ok_name n \<and> ok_val v \<Longrightarrow> VRY_Validate (vstring vs) = Some ()"
proof (induction vs)
  case Nil
  then show ?case by (subst VRY_Validate.simps) (simp add: vstring_def bte_def)
next
  case (Cons nv vs)
  obtain n v where nv: "nv = (n, v)" by fastforce
  have ok: "ok_name n" "ok_val v" using Cons.prems nv by auto
  have vs: "vstring (nv # vs) = enc n v @ vstring vs" by (simp add: vstring_def nv)
  have "cstr (drop 3 (enc n v @ vstring vs)) = n @ '':''"
    using ok(1) by (simp add: enc_def be16_def ok_name_def cstr_append)
  then show ?case
    unfolding vs VRY_Validate.simps [of "enc n v @ vstring vs"] bte_enc [OF ok(1)] vry_len_enc [OF ok]
    using Cons by (auto simp: length_enc)
qed

section \<open>The text of a Vary header\<close>

text \<open>Header names separated by commas, with white space around them.\<close>

definition token :: "string \<Rightarrow> bool" where
  "token n \<longleftrightarrow> n \<noteq> [] \<and> (\<forall>c \<in> set n. \<not> issp_or_comma c) \<and> ok_name n"

definition blank :: "string \<Rightarrow> bool" where
  "blank s \<longleftrightarrow> (\<forall>c \<in> set s. vct_issp c)"

inductive names_text :: "string \<Rightarrow> string list \<Rightarrow> bool" where
  last_name: "token n \<Longrightarrow> blank a \<Longrightarrow> blank b \<Longrightarrow> names_text (a @ n @ b) [n]"
| more_names: "token n \<Longrightarrow> blank a \<Longrightarrow> blank b \<Longrightarrow> names_text t ns \<Longrightarrow> names_text (a @ n @ b @ '','' @ t) (n # ns)"

lemma create_skip_blank: "blank a \<Longrightarrow> create_loop req (a @ p) sb = create_loop req p sb"
  by (induction a) (auto simp: blank_def create_loop.simps [of req "_ # _"])

lemma blank_drop: "blank b \<Longrightarrow> dropWhile vct_issp (b @ s) = dropWhile vct_issp s" "blank b \<Longrightarrow> dropWhile vct_issp b = []"
  by (induction b) (auto simp: blank_def)

lemma blank_stop: "blank b \<Longrightarrow> takeWhile (\<lambda>c. \<not> issp_or_comma c) (b @ '','' @ t) = [] \<and> dropWhile (\<lambda>c. \<not> issp_or_comma c) (b @ '','' @ t) = b @ '','' @ t"
  "blank b \<Longrightarrow> takeWhile (\<lambda>c. \<not> issp_or_comma c) b = [] \<and> dropWhile (\<lambda>c. \<not> issp_or_comma c) b = b"
  by (cases b; simp add: blank_def issp_or_comma_def)+

lemma create_token:
  assumes "filled req" and "token n" and "ok_val (req_val req n)"
    and q: "takeWhile (\<lambda>c. \<not> issp_or_comma c) q = []" "dropWhile (\<lambda>c. \<not> issp_or_comma c) q = q"
  shows "create_loop req (n @ q) sb =
    (let q' = dropWhile vct_issp q; sb = sb @ enc n (req_val req n) in
      if q' = [] then Some (Inr sb) else if hd q' \<noteq> CHR '','' then Some (Inl Malformed) else create_loop req (tl q') sb)"
proof -
  have n: "ok_name n" "n \<noteq> []" "\<forall>c \<in> set n. \<not> issp_or_comma c" using assms(2) by (auto simp: token_def)
  then have h: "\<not> vct_issp (hd (n @ q))" "n @ q \<noteq> []" by (cases n; auto simp: issp_or_comma_def)+
  have t: "takeWhile (\<lambda>c. \<not> issp_or_comma c) (n @ q) = n" "dropWhile (\<lambda>c. \<not> issp_or_comma c) (n @ q) = q"
    using n(3) q by (simp_all add: takeWhile_append2 dropWhile_append2)
  obtain r where r: "GetHdr_buf req (n @ '':'') = Some r" "map_option trim_tail r = req_val req n"
    using GetHdr_buf_val [OF assms(1) n(1)] by blast
  have l: "\<not> length n > 127" using n(1) by (simp add: ok_name_def)
  show ?thesis
  proof (cases r)
    case None
    then have w: "req_val req n = None" using r(2) by simp
    show ?thesis
      unfolding create_loop.simps [of req "n @ q"] t r(1) Let_def
      using h l None by (simp add: enc_def w)
  next
    case (Some x)
    then have "req_val req n = Some (trim_tail x)" using r(2) by simp
    with assms(3) have w: "req_val req n = Some (trim_tail x)" "\<not> length (trim_tail x) > 65534" by (auto simp: ok_val_def)
    show ?thesis
      unfolding create_loop.simps [of req "n @ q"] t r(1) Let_def
      using h l Some w(2) by (simp add: enc_def w(1))
  qed
qed

lemma create_names:
  assumes "names_text v ns" and "filled req" and "\<forall>n \<in> set ns. ok_val (req_val req n)"
  shows "create_loop req v sb = Some (Inr (sb @ cc req ns))"
  using assms
proof (induction arbitrary: sb rule: names_text.induct)
  case (last_name n a b)
  then show ?case
    using create_token [of req n b sb] by (simp add: create_skip_blank blank_stop(2) blank_drop(2))
next
  case (more_names n a b t ns)
  have "create_loop req (n @ b @ '','' @ t) sb = create_loop req t (sb @ enc n (req_val req n))"
    using create_token [OF more_names.prems(1) more_names.hyps(1), of "b @ '','' @ t" sb] more_names.prems(2)
      blank_stop(1) [OF more_names.hyps(3), of t] more_names.hyps(3)
    by (simp add: blank_drop(1) vct_issp_iff)
  then show ?case using more_names by (simp add: create_skip_blank)
qed

lemma blank_NUL: "blank s \<Longrightarrow> NUL \<notin> set s"
proof -
  have "\<not> vct_issp NUL" by (simp add: vct_issp_iff)
  then show "blank s \<Longrightarrow> NUL \<notin> set s" unfolding blank_def by blast
qed

lemma token_ok: "token n \<Longrightarrow> ok_name n" "token n \<Longrightarrow> NUL \<notin> set n"
  by (simp_all add: token_def ok_name_def)

lemma names_text_ok: "names_text v ns \<Longrightarrow> NUL \<notin> set v \<and> (\<forall>n \<in> set ns. ok_name n)"
  by (induction rule: names_text.induct) (simp_all add: token_ok blank_NUL)

text \<open>
  C7.  Vary decides on exactly the headers it names: let an object be stored for a request
  \<open>r1\<close> whose response lists the headers \<open>ns\<close> in \<open>Vary:\<close>.  \<open>VRY_Create\<close> succeeds, and for a
  later request \<open>r2\<close> \<open>VRY_Match\<close> says yes if and only if every header in \<open>ns\<close> has the same
  value in both requests (or is absent in both), up to white space around the value,
  \<open>Accept-Encoding\<close> not counting when Varnish handles gzip itself.  This holds whatever
  entries an earlier comparison for \<open>r2\<close> left in the buffer; the buffer is left in that
  state again, and nothing outside it is written.
\<close>

theorem vary_match_iff:
  assumes f: "filled r1" "filled r2" and names: "names_text v ns" and hdr: "http_GetHdr hp H_Vary = Some (Some v)"
    and vals: "\<forall>n \<in> set ns. ok_val (req_val r1 n) \<and> ok_val (req_val r2 n)"
    and buf: "vbuf r2 m 0 es" and room: "length (cc r2 ns) + 2 < vary_e"
  shows "\<exists>vary m'. VRY_Create r1 hp = Some (Inr (Some vary)) \<and>
    VRY_Match gz r2 vary_e m vary = Some (m', Some (length (cc r2 ns) + 3),
      \<forall>n \<in> set ns. req_val r1 n = req_val r2 n \<or> exempt gz n) \<and>
    vbuf r2 m' 0 ns \<and> (\<forall>a \<ge> vary_e. m' a = m a)"
proof -
  let ?vs = "map (\<lambda>n. (n, req_val r1 n)) ns"
  have ok: "NUL \<notin> set v" "\<forall>n \<in> set ns. ok_name n" using names_text_ok [OF names] by auto
  have vs: "vstring ?vs = cc r1 ns @ vend" "map fst ?vs = ns" by (simp_all add: vstring_def comp_def)
  have "create_loop r1 (cstr v) [] = Some (Inr (cc r1 ns))"
    using create_names [OF names f(1), of "[]"] vals ok(1) by (simp add: cstr_id)
  then have c: "VRY_Create r1 hp = Some (Inr (Some (vstring ?vs)))" using hdr vs by (simp add: VRY_Create_def)
  have "\<forall>(n, v) \<in> set ?vs. ok_name n \<and> ok_val v \<and> ok_val (req_val r2 n)" using vals ok(2) by auto
  from match_all [OF f(2) this buf, unfolded vs(2), of vary_e gz False True] room obtain m1 where
    m1: "match_loop gz r2 vary_e (vstring ?vs) m 0 False True =
      Some (m1, length (cc r2 ns), False, \<forall>n \<in> set ns. req_val r1 n = req_val r2 n \<or> exempt gz n)"
    "rd m1 0 (length (cc r2 ns)) = cc r2 ns" "\<forall>a \<ge> vary_e. m1 a = m a" by auto
  let ?m = "wr m1 (length (cc r2 ns)) vend"
  have "VRY_Match gz r2 vary_e m (vstring ?vs) =
      Some (?m, Some (length (cc r2 ns) + 3), \<forall>n \<in> set ns. req_val r1 n = req_val r2 n \<or> exempt gz n)"
    using m1(1) room by (simp add: VRY_Match_def Let_def)
  moreover have "vbuf r2 ?m 0 ns"
    using m1(2) ok(2) vals by (simp add: vbuf_def rd_wr_other) (simp add: wr_def)
  moreover have "\<forall>a \<ge> vary_e. ?m a = m a" using m1(3) room by (auto simp: wr_def)
  ultimately show ?thesis using c by blast
qed

definition vary_resp_ex :: http where
  "vary_resp_ex = http_ex\<lparr>h_hd := (h_hd http_ex)(5 \<mapsto> lit ''Vary: Cookie'')\<rparr>"

theorem vary_match_iff_witness:
  "\<exists>vary m'. VRY_Create http_ex vary_resp_ex = Some (Inr (Some vary)) \<and>
     VRY_Match False http_ex 100 (\<lambda>_. NUL) vary = Some (m', Some 15, True)"
proof -
  have f: "filled http_ex" by (auto simp: filled_def http_ex_def HTTP_HDR_FIRST_def)
  have "token ''Cookie''" by (simp add: token_def ok_name_def issp_or_comma_def vct_issp_iff)
  then have n: "names_text ''Cookie'' [''Cookie'']"
    using last_name [of "''Cookie''" "[]" "[]"] by (simp add: blank_def)
  have g: "http_GetHdr vary_resp_ex H_Vary = Some (Some ''Cookie'')" and v: "req_val http_ex ''Cookie'' = Some ''x''"
    by code_simp+
  have c: "cc http_ex [''Cookie''] = enc ''Cookie'' (Some ''x'')" by (simp add: v)
  have "length (enc ''Cookie'' (Some ''x'')) = 12" by (simp add: length_enc)
  then show ?thesis
    using vary_match_iff [OF f f n g, of "\<lambda>_. NUL" "[]" 100 False] unfolding c
    by (auto simp: v ok_val_def vbuf_def rd_def)
qed

text \<open>
  A header name of 127 bytes passes the length check of \<open>VRY_Create\<close> and then is a negative
  length for \<open>http_GetHdr\<close>.
\<close>

lemma name_127_undefined:
  assumes "length n = 127" and "\<forall>c \<in> set n. \<not> issp_or_comma c"
  shows "create_loop req n sb = None"
proof -
  have t: "takeWhile (\<lambda>c. \<not> issp_or_comma c) n = n" and n: "n \<noteq> []" "\<not> vct_issp (hd n)"
    using assms by (cases n; auto simp: takeWhile_eq_all_conv issp_or_comma_def)+
  show ?thesis
    unfolding create_loop.simps [of req n] t Let_def using n assms(1) by (simp add: GetHdr_buf_def)
qed

text \<open>
  The check for room in \<open>VRY_Match\<close> leaves a gap of two bytes: an entry that ends there is not moved to
  the start of the buffer, and the assertion that follows fails.
\<close>

lemma room_check_gap:
  assumes "filled req" and n: "ok_name n" and "ok_val (req_val req n)"
    and gap: "p + length (enc n (req_val req n)) \<in> {vary_e - 2, vary_e - 1}" and "2 \<le> vary_e"
  shows "new_entry req vary_e (enc n v @ s) m p oflo = None"
proof -
  obtain r where r: "GetHdr_buf req (n @ '':'') = Some r" "map_option trim_tail r = req_val req n"
    using GetHdr_buf_val [OF assms(1) n] by blast
  let ?h = "case r of None \<Rightarrow> [] | Some h \<Rightarrow> trim_tail h"
  have ln: "2 + (1 + length n) + 2 + length ?h = length (enc n (req_val req n))"
    using r(2) [symmetric] by (simp add: length_enc split: option.splits)
  have nm: "take (1 + length n) (drop 3 (enc n v @ s)) = n @ '':''" by (rule enc_name)
  let ?L = "length (enc n (req_val req n))"
  have g: "(vary_e \<le> p + ?L) = False" "(p + ?L + 2 < vary_e) = False" using gap assms(5) by auto
  have "vassert b \<bind> (\<lambda>_. None) = None" for b by (simp add: vassert_def)
  then show ?thesis
    unfolding new_entry_def bte_enc [OF n] nm r(1) Let_def ln g Option.bind.bind_lunit Option.bind.bind_lzero if_False prod.case vassert_False by simp
qed

end
