(* ===== verification/Slinger.thy ===== *)
theory Slinger
  imports Prelude
begin

text \<open>
  The index of the cache: object heads found by the digest of their hash key.  The code has
  one interface, \<open>struct hash_slinger\<close> of bin/varnishd/hash_slinger.h, and three
  implementations; this theory has the interface as a locale, and the implementations
  bin/varnishd/hash_simple_list.c and bin/varnishd/hash_classic.c.  An object head is its
  address; of its fields the index uses the digest and the reference count.  The locks
  make each operation atomic.
\<close>

type_synonym digest = "u8 list"

definition DIGEST_LEN :: nat where
  "DIGEST_LEN = 32"

fun memcmp :: "u8 list \<Rightarrow> u8 list \<Rightarrow> int" where
  "memcmp (a # as) (b # bs) = (if a = b then memcmp as bs else if a < b then -1 else 1)"
| "memcmp as bs = 0"

lemma memcmp_eq: "length a = length b \<Longrightarrow> memcmp a b = 0 \<longleftrightarrow> a = b"
  by (induction a b rule: list_induct2) auto

lemma memcmp_trans:
  "length a = length b \<Longrightarrow> length b = length c \<Longrightarrow> memcmp a b < 0 \<Longrightarrow> memcmp b c < 0 \<Longrightarrow> memcmp a c < 0"
  by (induction a b c rule: list_induct3) (auto split: if_splits)

lemma memcmp_swap: "length a = length b \<Longrightarrow> memcmp a b > 0 \<longleftrightarrow> memcmp b a < 0"
  by (induction a b rule: list_induct2) auto

section \<open>The interface\<close>

text \<open>What an index is to its clients: the number of references held for each digest.\<close>

definition index_map :: "'h set \<Rightarrow> ('h \<Rightarrow> digest) \<Rightarrow> ('h \<Rightarrow> int) \<Rightarrow> digest \<rightharpoonup> int" where
  "index_map H dg cn d = (if \<exists>h \<in> H. dg h = d then Some (cn (THE h. h \<in> H \<and> dg h = d)) else None)"

definition map_get :: "(digest \<rightharpoonup> int) \<Rightarrow> digest \<Rightarrow> (digest \<rightharpoonup> int)" where
  "map_get M d = M(d \<mapsto> (case M d of None \<Rightarrow> 1 | Some n \<Rightarrow> n + 1))"

definition map_put :: "(digest \<rightharpoonup> int) \<Rightarrow> digest \<Rightarrow> (digest \<rightharpoonup> int)" where
  "map_put M d = M(d := (case M d of None \<Rightarrow> None | Some n \<Rightarrow> if n = 1 then None else Some (n - 1)))"

lemma index_map_in:
  assumes "inj_on dg H" and "h \<in> H"
  shows "index_map H dg cn (dg h) = Some (cn h)"
proof -
  have "(THE x. x \<in> H \<and> dg x = dg h) = h" using assms by (auto simp: inj_on_def)
  then show ?thesis using assms(2) by (auto simp: index_map_def)
qed

lemma index_map_out: "\<forall>h \<in> H. dg h \<noteq> d \<Longrightarrow> index_map H dg cn d = None"
  by (auto simp: index_map_def)

text \<open>An index map is determined by its values on the digests of the heads.\<close>

lemma index_map_eqI:
  assumes "inj_on dg H" and "\<And>h. h \<in> H \<Longrightarrow> M (dg h) = Some (cn h)" and "\<And>d. \<forall>h \<in> H. dg h \<noteq> d \<Longrightarrow> M d = None"
  shows "index_map H dg cn = M"
proof
  fix d
  show "index_map H dg cn d = M d"
  proof (cases "\<exists>h \<in> H. dg h = d")
    case True
    then show ?thesis using assms(1,2) index_map_in by metis
  next
    case False
    then show ?thesis using assms(3) index_map_out by metis
  qed
qed

text \<open>
  \<open>heads\<close> are the object heads in the index.  \<open>lookup\<close> is called with a fresh head that holds
  the digest wanted and one reference; it returns a head with that digest, and the caller has a
  reference to it.  \<open>deref\<close> gives one back; the head whose last reference it was leaves the
  index, and either the caller frees it (result \<open>False\<close>) or the index does so later (\<open>cool\<close>).
\<close>

locale hash_slinger =
  fixes inv :: "'s \<Rightarrow> bool" and heads :: "'s \<Rightarrow> 'h set" and dig :: "'s \<Rightarrow> 'h \<Rightarrow> digest"
    and cnt :: "'s \<Rightarrow> 'h \<Rightarrow> int" and cool :: "'s \<Rightarrow> 'h set" and ready :: "'s \<Rightarrow> 'h \<Rightarrow> bool"
    and lookup :: "'s \<Rightarrow> 'h \<Rightarrow> ('s \<times> 'h) option" and deref :: "'s \<Rightarrow> 'h \<Rightarrow> ('s \<times> bool) option"
  assumes unique: "inv s \<Longrightarrow> a \<in> heads s \<Longrightarrow> b \<in> heads s \<Longrightarrow> dig s a = dig s b \<Longrightarrow> a = b"
    and held: "inv s \<Longrightarrow> a \<in> heads s \<Longrightarrow> cnt s a > 0"
    and hit: "inv s \<Longrightarrow> noh \<notin> heads s \<Longrightarrow> cnt s noh = 1 \<Longrightarrow> length (dig s noh) = DIGEST_LEN \<Longrightarrow> ready s noh \<Longrightarrow>
      oh \<in> heads s \<Longrightarrow> dig s oh = dig s noh \<Longrightarrow>
      \<exists>s'. lookup s noh = Some (s', oh) \<and> inv s' \<and> heads s' = heads s \<and> dig s' = dig s \<and>
        cnt s' = (cnt s)(oh := cnt s oh + 1) \<and> cool s' = cool s"
    and miss: "inv s \<Longrightarrow> noh \<notin> heads s \<Longrightarrow> cnt s noh = 1 \<Longrightarrow> length (dig s noh) = DIGEST_LEN \<Longrightarrow> ready s noh \<Longrightarrow>
      \<forall>oh \<in> heads s. dig s oh \<noteq> dig s noh \<Longrightarrow>
      \<exists>s'. lookup s noh = Some (s', noh) \<and> inv s' \<and> heads s' = insert noh (heads s) \<and> dig s' = dig s \<and>
        cnt s' = cnt s \<and> cool s' = cool s"
    and release: "inv s \<Longrightarrow> oh \<in> heads s \<Longrightarrow>
      \<exists>s' r. deref s oh = Some (s', r) \<and> inv s' \<and> dig s' = dig s \<and> cnt s' = (cnt s)(oh := cnt s oh - 1) \<and>
        (if cnt s oh = 1 then heads s' = heads s - {oh} \<and> cool s' = (if r then insert oh (cool s) else cool s)
         else heads s' = heads s \<and> r \<and> cool s' = cool s)"
begin

text \<open>
  What a client sees: looking up a digest twice gives the same head as long as a reference
  is held in between.
\<close>

lemma lookup_lookup:
  assumes "inv s" and "n1 \<notin> heads s" and "cnt s n1 = 1" and "length (dig s n1) = DIGEST_LEN" and "ready s n1"
    and "lookup s n1 = Some (s1, oh)" and "n2 \<notin> heads s1" and "cnt s1 n2 = 1" and "dig s1 n2 = dig s n1" and "ready s1 n2"
  shows "\<exists>s2. lookup s1 n2 = Some (s2, oh) \<and> inv s2 \<and> heads s2 = heads s1 \<and> dig s2 = dig s1 \<and>
    cnt s2 = (cnt s1)(oh := cnt s1 oh + 1)"
proof -
  have "inv s1 \<and> oh \<in> heads s1 \<and> dig s1 oh = dig s n1 \<and> dig s1 = dig s"
  proof (cases "\<exists>x \<in> heads s. dig s x = dig s n1")
    case True
    then obtain x where "x \<in> heads s" "dig s x = dig s n1" by blast
    with hit [OF assms(1-5) this] assms(6) show ?thesis by auto
  next
    case False
    then have "\<forall>x \<in> heads s. dig s x \<noteq> dig s n1" by blast
    with miss [OF assms(1-5) this] assms(6) show ?thesis by auto
  qed
  then show ?thesis using hit [of s1 n2 oh] assms(4,7-10) by auto
qed

definition refs :: "'s \<Rightarrow> digest \<rightharpoonup> int" where
  "refs s = index_map (heads s) (dig s) (cnt s)"

lemma dig_inj: "inv s \<Longrightarrow> inj_on (dig s) (heads s)"
  using unique by (auto simp: inj_on_def)

text \<open>A lookup counts one reference more for its digest, a release one less.\<close>

lemma lookup_refines:
  assumes a: "inv s" "noh \<notin> heads s" "cnt s noh = 1" "length (dig s noh) = DIGEST_LEN" "ready s noh"
  shows "\<exists>s' oh. lookup s noh = Some (s', oh) \<and> inv s' \<and> oh \<in> heads s' \<and> dig s' oh = dig s noh \<and> dig s' = dig s \<and>
    refs s' = map_get (refs s) (dig s noh)"
proof (cases "\<exists>oh \<in> heads s. dig s oh = dig s noh")
  case True
  then obtain oh where oh: "oh \<in> heads s" "dig s oh = dig s noh" by blast
  obtain s' where s': "lookup s noh = Some (s', oh)" "inv s'" "heads s' = heads s" "dig s' = dig s" "cnt s' = (cnt s)(oh := cnt s oh + 1)"
    using hit [OF a oh] by blast
  note i = dig_inj [OF a(1)]
  have "index_map (heads s) (dig s) (cnt s) (dig s noh) = Some (cnt s oh)" using index_map_in [OF i oh(1)] oh(2) by simp
  then have "refs s' = map_get (refs s) (dig s noh)"
    unfolding refs_def s'(3-5) using i oh index_map_in [OF i] index_map_out [of "heads s" "dig s"] unique [OF a(1)]
    by (intro index_map_eqI) (auto simp: map_get_def)
  then show ?thesis using s' oh by auto
next
  case False
  then have m: "\<forall>oh \<in> heads s. dig s oh \<noteq> dig s noh" by blast
  obtain s' where s': "lookup s noh = Some (s', noh)" "inv s'" "heads s' = insert noh (heads s)" "dig s' = dig s" "cnt s' = cnt s"
    using miss [OF a m] by blast
  note i = dig_inj [OF a(1)]
  have "inj_on (dig s) (insert noh (heads s))" using i m by auto
  then have "refs s' = map_get (refs s) (dig s noh)"
    unfolding refs_def s'(3-5) using a(3) index_map_in [OF i] index_map_out [OF m] index_map_out [of "heads s" "dig s"] m
    by (intro index_map_eqI) (auto simp: map_get_def)
  then show ?thesis using s' by auto
qed

lemma deref_refines:
  assumes "inv s" and "oh \<in> heads s"
  shows "\<exists>s' r. deref s oh = Some (s', r) \<and> inv s' \<and> dig s' = dig s \<and> refs s' = map_put (refs s) (dig s oh) \<and>
    (oh \<in> heads s' \<longleftrightarrow> cnt s oh > 1)"
proof -
  obtain s' r where s': "deref s oh = Some (s', r)" "inv s'" "dig s' = dig s" "cnt s' = (cnt s)(oh := cnt s oh - 1)"
    and h: "heads s' = (if cnt s oh = 1 then heads s - {oh} else heads s)"
    using release [OF assms] by (auto split: if_splits)
  note i = dig_inj [OF assms(1)]
  have "inj_on (dig s) (heads s')" using i h by (auto simp: inj_on_def)
  then have "refs s' = map_put (refs s) (dig s oh)"
    unfolding refs_def s'(3,4)
  proof (rule index_map_eqI)
    fix x
    assume x: "x \<in> heads s'"
    then have "x \<in> heads s" using h by (auto split: if_splits)
    then show "map_put (index_map (heads s) (dig s) (cnt s)) (dig s oh) (dig s x) = Some (((cnt s)(oh := cnt s oh - 1)) x)"
      using index_map_in [OF i] assms(2) unique [OF assms(1)] x h by (auto simp: map_put_def split: if_splits)
  next
    fix d
    assume d: "\<forall>x \<in> heads s'. dig s x \<noteq> d"
    show "map_put (index_map (heads s) (dig s) (cnt s)) (dig s oh) d = None"
    proof (cases "d = dig s oh")
      case True
      then show ?thesis using d h assms(2) index_map_in [OF i assms(2)] by (auto simp: map_put_def split: if_splits)
    next
      case False
      then have "\<forall>x \<in> heads s. dig s x \<noteq> d" using d h by (auto split: if_splits)
      then show ?thesis using False index_map_out by (auto simp: map_put_def)
    qed
  qed
  moreover have "oh \<in> heads s' \<longleftrightarrow> cnt s oh > 1" using h held [OF assms] assms(2) by auto
  ultimately show ?thesis using s' by blast
qed

end

section \<open>A sorted list\<close>

text \<open>The position \<open>lookup\<close> stops at, and whether the digest is there.\<close>

fun scan_heads :: "(addr \<Rightarrow> digest) \<Rightarrow> digest \<Rightarrow> addr list \<Rightarrow> nat \<times> bool" where
  "scan_heads dg d [] = (0, False)"
| "scan_heads dg d (oh # l) =
     (let i = memcmp (dg oh) d in
      if i < 0 then (case scan_heads dg d l of (n, f) \<Rightarrow> (n + 1, f))
      else if i > 0 then (0, False) else (0, True))"

definition insert_at :: "nat \<Rightarrow> 'a \<Rightarrow> 'a list \<Rightarrow> 'a list" where
  "insert_at n x l = take n l @ x # drop n l"

definition sorted_heads :: "(addr \<Rightarrow> digest) \<Rightarrow> addr list \<Rightarrow> bool" where
  "sorted_heads dg l \<longleftrightarrow> sorted_wrt (\<lambda>a b. memcmp (dg a) (dg b) < 0) l \<and> (\<forall>a \<in> set l. length (dg a) = DIGEST_LEN)"

lemma sorted_heads_Cons:
  "sorted_heads dg (a # l) \<longleftrightarrow> (\<forall>b \<in> set l. memcmp (dg a) (dg b) < 0) \<and> length (dg a) = DIGEST_LEN \<and> sorted_heads dg l"
  by (auto simp: sorted_heads_def)

lemma memcmp_self: "memcmp a a = 0"
  by (induction a) auto

lemma sorted_heads_unique:
  "sorted_heads dg l \<Longrightarrow> a \<in> set l \<Longrightarrow> b \<in> set l \<Longrightarrow> dg a = dg b \<Longrightarrow> a = b"
proof (induction l)
  case (Cons x l)
  have "dg x \<noteq> dg y \<and> dg y \<noteq> dg x" if "y \<in> set l" for y
    using that Cons.prems(1) memcmp_self [of "dg x"] by (fastforce simp: sorted_heads_Cons)
  then show ?case using Cons by (auto simp: sorted_heads_Cons)
qed simp

lemma sorted_heads_distinct: "sorted_heads dg l \<Longrightarrow> distinct l"
  by (induction l) (auto simp: sorted_heads_Cons memcmp_self)

lemma scan_hit:
  assumes "sorted_heads dg l" and "oh \<in> set l" and "length d = DIGEST_LEN" and "dg oh = d"
  shows "\<exists>n. scan_heads dg d l = (n, True) \<and> n < length l \<and> l ! n = oh"
  using assms
proof (induction l)
  case (Cons a l)
  show ?case
  proof (cases "a = oh")
    case True
    then show ?thesis using Cons.prems by (simp add: memcmp_self)
  next
    case False
    then have o: "oh \<in> set l" using Cons.prems by simp
    then have "memcmp (dg a) d < 0" using Cons.prems by (auto simp: sorted_heads_Cons)
    then show ?thesis using Cons o by (auto simp: sorted_heads_Cons)
  qed
qed simp

lemma scan_miss:
  assumes "sorted_heads dg l" and "\<forall>oh \<in> set l. dg oh \<noteq> d" and "length d = DIGEST_LEN" and "dg x = d"
  shows "\<exists>n. scan_heads dg d l = (n, False) \<and> sorted_heads dg (insert_at n x l) \<and> set (insert_at n x l) = insert x (set l)"
  using assms
proof (induction l)
  case Nil
  then show ?case by (simp add: insert_at_def sorted_heads_def)
next
  case (Cons a l)
  then have la: "length (dg a) = length d" "memcmp (dg a) d \<noteq> 0" by (auto simp: sorted_heads_Cons memcmp_eq)
  show ?case
  proof (cases "memcmp (dg a) d < 0")
    case True
    obtain n where n: "scan_heads dg d l = (n, False)" "sorted_heads dg (insert_at n x l)" "set (insert_at n x l) = insert x (set l)"
      using Cons by (auto simp: sorted_heads_Cons)
    then have "sorted_heads dg (a # insert_at n x l)" using True Cons.prems by (simp add: sorted_heads_Cons)
    then show ?thesis using n True by (auto simp: insert_at_def)
  next
    case False
    then have lt: "memcmp d (dg a) < 0" using la memcmp_swap [of "dg a" d] by linarith
    have "memcmp d (dg b) < 0" if "b \<in> set l" for b
      using that lt Cons.prems by (intro memcmp_trans [OF _ _ lt]) (auto simp: sorted_heads_Cons sorted_heads_def)
    then have "sorted_heads dg (x # a # l)" using Cons.prems lt by (simp add: sorted_heads_Cons)
    then show ?thesis using False la by (auto simp: insert_at_def)
  qed
qed

lemma sorted_heads_remove: "sorted_heads dg l \<Longrightarrow> sorted_heads dg (remove1 a l) \<and> set (remove1 a l) = set l - {a}"
proof (intro conjI)
  assume s: "sorted_heads dg l"
  then show "set (remove1 a l) = set l - {a}" using sorted_heads_distinct by (metis set_remove1_eq)
  show "sorted_heads dg (remove1 a l)" using s
    by (induction l) (auto simp: sorted_heads_Cons dest: notin_set_remove1 [rotated] set_mp [OF set_remove1_subset])
qed

record hsl =
  hsl_head :: "addr list"
  hsl_digest :: "addr \<Rightarrow> digest"
  hsl_refcnt :: "addr \<Rightarrow> int"

definition hsl_lookup :: "hsl \<Rightarrow> addr \<Rightarrow> (hsl \<times> addr) option" where
  "hsl_lookup s noh =
     (case scan_heads (hsl_digest s) (hsl_digest s noh) (hsl_head s) of (n, found) \<Rightarrow>
        if found then
          (let oh = hsl_head s ! n
           in Some (s\<lparr>hsl_refcnt := (hsl_refcnt s)(oh := hsl_refcnt s oh + 1)\<rparr>, oh))
        else Some (s\<lparr>hsl_head := insert_at n noh (hsl_head s)\<rparr>, noh))"

definition hsl_deref :: "hsl \<Rightarrow> addr \<Rightarrow> (hsl \<times> bool) option" where
  "hsl_deref s oh =
     (let s = s\<lparr>hsl_refcnt := (hsl_refcnt s)(oh := hsl_refcnt s oh - 1)\<rparr>
      in if hsl_refcnt s oh = 0 then Some (s\<lparr>hsl_head := remove1 oh (hsl_head s)\<rparr>, False)
         else Some (s, True))"

definition hsl_inv :: "hsl \<Rightarrow> bool" where
  "hsl_inv s \<longleftrightarrow> sorted_heads (hsl_digest s) (hsl_head s) \<and> (\<forall>a \<in> set (hsl_head s). hsl_refcnt s a > 0)"

interpretation hsl: hash_slinger hsl_inv "\<lambda>s. set (hsl_head s)" hsl_digest hsl_refcnt "\<lambda>_. {}" "\<lambda>_ _. True"
  hsl_lookup hsl_deref
proof
  fix s :: hsl and noh oh a b :: addr
  assume inv: "hsl_inv s"
  then have so: "sorted_heads (hsl_digest s) (hsl_head s)" by (simp add: hsl_inv_def)
  show "a = b" if "a \<in> set (hsl_head s)" "b \<in> set (hsl_head s)" "hsl_digest s a = hsl_digest s b"
    using sorted_heads_unique [OF so that] .
  show "0 < hsl_refcnt s a" if "a \<in> set (hsl_head s)" using inv that by (simp add: hsl_inv_def)
  show "\<exists>s'. hsl_lookup s noh = Some (s', oh) \<and> hsl_inv s' \<and> set (hsl_head s') = set (hsl_head s) \<and>
      hsl_digest s' = hsl_digest s \<and> hsl_refcnt s' = (hsl_refcnt s)(oh := hsl_refcnt s oh + 1) \<and> {} = {}"
    if "length (hsl_digest s noh) = DIGEST_LEN" "oh \<in> set (hsl_head s)" "hsl_digest s oh = hsl_digest s noh"
  proof -
    have "0 \<le> hsl_refcnt s oh" using inv that(2) by (auto simp: hsl_inv_def intro: less_imp_le)
    then show ?thesis using scan_hit [OF so that(2,1,3)] inv by (auto simp: hsl_lookup_def hsl_inv_def Let_def)
  qed
  show "\<exists>s'. hsl_lookup s noh = Some (s', noh) \<and> hsl_inv s' \<and> set (hsl_head s') = insert noh (set (hsl_head s)) \<and>
      hsl_digest s' = hsl_digest s \<and> hsl_refcnt s' = hsl_refcnt s \<and> {} = {}"
    if "hsl_refcnt s noh = 1" "length (hsl_digest s noh) = DIGEST_LEN" "\<forall>oh \<in> set (hsl_head s). hsl_digest s oh \<noteq> hsl_digest s noh"
    using scan_miss [OF so that(3,2) refl] inv that(1) by (auto simp: hsl_lookup_def hsl_inv_def)
  show "\<exists>s' r. hsl_deref s oh = Some (s', r) \<and> hsl_inv s' \<and> hsl_digest s' = hsl_digest s \<and>
      hsl_refcnt s' = (hsl_refcnt s)(oh := hsl_refcnt s oh - 1) \<and>
      (if hsl_refcnt s oh = 1 then set (hsl_head s') = set (hsl_head s) - {oh} \<and> {} = (if r then insert oh {} else {})
       else set (hsl_head s') = set (hsl_head s) \<and> r \<and> {} = {})"
    if "oh \<in> set (hsl_head s)"
  proof (cases "hsl_refcnt s oh = 1")
    case True
    let ?s = "s\<lparr>hsl_refcnt := (hsl_refcnt s)(oh := 0), hsl_head := remove1 oh (hsl_head s)\<rparr>"
    have "hsl_deref s oh = Some (?s, False)" using True by (simp add: hsl_deref_def)
    moreover have "hsl_inv ?s" using sorted_heads_remove [OF so, of oh] inv by (auto simp: hsl_inv_def)
    ultimately show ?thesis using True sorted_heads_remove [OF so, of oh] by (intro exI [of _ ?s] exI [of _ False]) simp
  next
    case False
    have "0 < hsl_refcnt s oh" using inv that by (simp add: hsl_inv_def)
    then show ?thesis using inv False by (auto simp: hsl_deref_def hsl_inv_def)
  qed
qed

section \<open>Buckets\<close>

record hcl =
  hcl_nhash :: u32
  hcl_head :: "u32 \<Rightarrow> addr list"
  hcl_digest :: "addr \<Rightarrow> digest"
  hcl_refcnt :: "addr \<Rightarrow> int"
  hoh_head :: "addr \<Rightarrow> u32"

text \<open>
  The arguments of \<open>-hclassic\<close>, each as what \<open>sscanf\<close> reads there (\<open>None\<close> when it is not a number);
  the result is \<open>None\<close> when the process exits.
\<close>

definition hcl_init :: "hcl \<Rightarrow> u32 option list \<Rightarrow> hcl option" where
  "hcl_init s av = (case av of
       [] \<Rightarrow> Some s
     | [None] \<Rightarrow> Some s
     | [Some u] \<Rightarrow> if u = 0 then Some s
         else Some (s\<lparr>hcl_nhash := if u > 2 \<and> u AND (u - 1) = 0 then u - 1 else u\<rparr>)
     | _ \<Rightarrow> None)"

definition hcl_start :: "hcl \<Rightarrow> hcl" where
  "hcl_start s = s\<lparr>hcl_head := (\<lambda>_. [])\<rparr>"

text \<open>The first four bytes of a digest as the \<open>unsigned\<close> they are on a little-endian machine.\<close>

definition digest_word :: "digest \<Rightarrow> u32" where
  "digest_word d = ucast (d ! 0) OR push_bit 8 (ucast (d ! 1)) OR push_bit 16 (ucast (d ! 2)) OR push_bit 24 (ucast (d ! 3))"

definition hcl_bucket :: "hcl \<Rightarrow> digest \<Rightarrow> u32" where
  "hcl_bucket s d = digest_word d mod hcl_nhash s"

definition hcl_lookup :: "hcl \<Rightarrow> addr \<Rightarrow> (hcl \<times> addr) option" where
  "hcl_lookup s noh =
     (if hcl_nhash s = 0 then None
      else let hp = hcl_bucket s (hcl_digest s noh) in
        case scan_heads (hcl_digest s) (hcl_digest s noh) (hcl_head s hp) of (n, found) \<Rightarrow>
        if found then
          (let oh = hcl_head s hp ! n
           in Some (s\<lparr>hcl_refcnt := (hcl_refcnt s)(oh := hcl_refcnt s oh + 1)\<rparr>, oh))
        else Some (s\<lparr>hcl_head := (hcl_head s)(hp := insert_at n noh (hcl_head s hp)),
                     hoh_head := (hoh_head s)(noh := hp)\<rparr>, noh))"

definition hcl_deref :: "hcl \<Rightarrow> addr \<Rightarrow> (hcl \<times> bool) option" where
  "hcl_deref s oh = do {
     let hp = hoh_head s oh;
     vassert (hcl_refcnt s oh > 0);
     let s = s\<lparr>hcl_refcnt := (hcl_refcnt s)(oh := hcl_refcnt s oh - 1)\<rparr>;
     if hcl_refcnt s oh = 0
     then Some (s\<lparr>hcl_head := (hcl_head s)(hp := remove1 oh (hcl_head s hp))\<rparr>, False)
     else Some (s, True)
   }"

text \<open>The number of buckets is never zero, so the remainder in \<open>hcl_lookup\<close> is defined.\<close>

lemma hcl_init_nhash:
  assumes "hcl_init s av = Some s'" and "hcl_nhash s \<noteq> 0"
  shows "hcl_nhash s' \<noteq> 0"
  using assms by (auto simp: hcl_init_def split: list.splits option.splits if_splits)

definition hcl_heads :: "hcl \<Rightarrow> addr set" where
  "hcl_heads s = (\<Union>u. set (hcl_head s u))"

definition hcl_inv :: "hcl \<Rightarrow> bool" where
  "hcl_inv s \<longleftrightarrow> hcl_nhash s \<noteq> 0 \<and>
     (\<forall>u. sorted_heads (hcl_digest s) (hcl_head s u) \<and>
       (\<forall>a \<in> set (hcl_head s u). hcl_refcnt s a > 0 \<and> hcl_bucket s (hcl_digest s a) = u \<and> hoh_head s a = u))"

lemma hcl_heads_bucket:
  assumes "hcl_inv s"
  shows "a \<in> hcl_heads s \<longleftrightarrow> a \<in> set (hcl_head s (hcl_bucket s (hcl_digest s a)))"
  using assms by (auto simp: hcl_heads_def hcl_inv_def)

lemma hcl_bucket_upd [simp]:
  "hcl_bucket (s\<lparr>hcl_head := x\<rparr>) d = hcl_bucket s d" "hcl_bucket (s\<lparr>hoh_head := y\<rparr>) d = hcl_bucket s d"
  "hcl_bucket (s\<lparr>hcl_refcnt := z\<rparr>) d = hcl_bucket s d"
  by (simp_all add: hcl_bucket_def)

interpretation hcl: hash_slinger hcl_inv hcl_heads hcl_digest hcl_refcnt "\<lambda>_. {}" "\<lambda>_ _. True" hcl_lookup hcl_deref
proof
  fix s :: hcl and noh oh a b :: addr
  assume inv: "hcl_inv s"
  then have so: "sorted_heads (hcl_digest s) (hcl_head s u)" for u by (simp add: hcl_inv_def)
  note hb = hcl_heads_bucket [OF inv]
  let ?u = "hcl_bucket s (hcl_digest s noh)" and ?v = "hcl_bucket s (hcl_digest s oh)"
  show "a = b" if "a \<in> hcl_heads s" "b \<in> hcl_heads s" "hcl_digest s a = hcl_digest s b"
    using that sorted_heads_unique [OF so _ _ that(3)] by (simp add: hb)
  show "0 < hcl_refcnt s a" if "a \<in> hcl_heads s" using inv that by (auto simp: hcl_inv_def hcl_heads_def)
  show "\<exists>s'. hcl_lookup s noh = Some (s', oh) \<and> hcl_inv s' \<and> hcl_heads s' = hcl_heads s \<and>
      hcl_digest s' = hcl_digest s \<and> hcl_refcnt s' = (hcl_refcnt s)(oh := hcl_refcnt s oh + 1) \<and> {} = {}"
    if "length (hcl_digest s noh) = DIGEST_LEN" "oh \<in> hcl_heads s" "hcl_digest s oh = hcl_digest s noh"
  proof -
    have "oh \<in> set (hcl_head s ?u)" using that(2,3) by (simp add: hb)
    moreover from this have hp: "0 \<le> hcl_refcnt s oh" using inv unfolding hcl_inv_def by (meson less_imp_le)
    ultimately have "hcl_lookup s noh = Some (s\<lparr>hcl_refcnt := (hcl_refcnt s)(oh := hcl_refcnt s oh + 1)\<rparr>, oh)"
      using scan_hit [OF so _ that(1,3), of ?u] inv by (auto simp: hcl_lookup_def hcl_inv_def Let_def)
    moreover have "hcl_inv (s\<lparr>hcl_refcnt := (hcl_refcnt s)(oh := hcl_refcnt s oh + 1)\<rparr>)"
      using inv hp by (auto simp: hcl_inv_def)
    ultimately show ?thesis by (simp add: hcl_heads_def)
  qed
  show "\<exists>s'. hcl_lookup s noh = Some (s', noh) \<and> hcl_inv s' \<and> hcl_heads s' = insert noh (hcl_heads s) \<and>
      hcl_digest s' = hcl_digest s \<and> hcl_refcnt s' = hcl_refcnt s \<and> {} = {}"
    if "noh \<notin> hcl_heads s" "hcl_refcnt s noh = 1" "length (hcl_digest s noh) = DIGEST_LEN"
      "\<forall>oh \<in> hcl_heads s. hcl_digest s oh \<noteq> hcl_digest s noh"
  proof -
    have "\<forall>oh \<in> set (hcl_head s ?u). hcl_digest s oh \<noteq> hcl_digest s noh" using that(4) by (auto simp: hcl_heads_def)
    from scan_miss [OF so this that(3) refl] obtain n where
      n: "scan_heads (hcl_digest s) (hcl_digest s noh) (hcl_head s ?u) = (n, False)"
      "sorted_heads (hcl_digest s) (insert_at n noh (hcl_head s ?u))"
      "set (insert_at n noh (hcl_head s ?u)) = insert noh (set (hcl_head s ?u))" by blast
    let ?s = "s\<lparr>hcl_head := (hcl_head s)(?u := insert_at n noh (hcl_head s ?u)), hoh_head := (hoh_head s)(noh := ?u)\<rparr>"
    have "hcl_lookup s noh = Some (?s, noh)" using n(1) inv by (simp add: hcl_lookup_def hcl_inv_def Let_def)
    moreover have "hcl_inv ?s" using n(2,3) inv that(1,2) by (auto simp: hcl_inv_def hcl_heads_def)
    moreover have "hcl_heads ?s = insert noh (hcl_heads s)" using n(3) by (auto simp: hcl_heads_def split: if_splits)
    ultimately show ?thesis by auto
  qed
  show "\<exists>s' r. hcl_deref s oh = Some (s', r) \<and> hcl_inv s' \<and> hcl_digest s' = hcl_digest s \<and>
      hcl_refcnt s' = (hcl_refcnt s)(oh := hcl_refcnt s oh - 1) \<and>
      (if hcl_refcnt s oh = 1 then hcl_heads s' = hcl_heads s - {oh} \<and> {} = (if r then insert oh {} else {})
       else hcl_heads s' = hcl_heads s \<and> r \<and> {} = {})"
    if "oh \<in> hcl_heads s"
  proof -
    have o: "hoh_head s oh = ?v" "oh \<in> set (hcl_head s ?v)" "hcl_refcnt s oh > 0" "\<forall>u. u \<noteq> ?v \<longrightarrow> oh \<notin> set (hcl_head s u)"
      using inv that by (auto simp: hcl_inv_def hcl_heads_def)
    note rm = sorted_heads_remove [OF so [of ?v], of oh]
    show ?thesis
    proof (cases "hcl_refcnt s oh = 1")
      case True
      let ?s = "s\<lparr>hcl_refcnt := (hcl_refcnt s)(oh := 0), hcl_head := (hcl_head s)(?v := remove1 oh (hcl_head s ?v))\<rparr>"
      have "hcl_deref s oh = Some (?s, False)" using True o by (simp add: hcl_deref_def Let_def)
      moreover have "hcl_inv ?s" unfolding hcl_inv_def
      proof (intro conjI allI ballI)
        show "hcl_nhash ?s \<noteq> 0" using inv by (simp add: hcl_inv_def)
        fix u
        show "sorted_heads (hcl_digest ?s) (hcl_head ?s u)" using rm so by simp
        fix a assume "a \<in> set (hcl_head ?s u)"
        then have "a \<in> set (hcl_head s u)" "a \<noteq> oh" using rm o(4) by (auto split: if_splits)
        then show "0 < hcl_refcnt ?s a" "hcl_bucket ?s (hcl_digest ?s a) = u" "hoh_head ?s a = u"
          using inv by (auto simp: hcl_inv_def)
      qed
      moreover have "set (hcl_head ?s u) = set (hcl_head s u) - {oh}" for u using rm o(4) by auto
      then have "hcl_heads ?s = hcl_heads s - {oh}" unfolding hcl_heads_def by blast
      ultimately show ?thesis using True by (intro exI [of _ ?s] exI [of _ False]) simp
    next
      case False
      let ?s = "s\<lparr>hcl_refcnt := (hcl_refcnt s)(oh := hcl_refcnt s oh - 1)\<rparr>"
      have "hcl_deref s oh = Some (?s, True)" using False o(3) by (simp add: hcl_deref_def)
      moreover have "hcl_inv ?s" using inv False o(3) by (simp add: hcl_inv_def)
      ultimately show ?thesis using False by (auto simp: hcl_heads_def)
    qed
  qed
qed

end
