(* ===== verification/Critbit.thy ===== *)
theory Critbit
  imports Slinger
begin

text \<open>
  bin/varnishd/hash_critbit.c: the index as a crit-bit tree.  An inner node (\<open>hcb_y\<close>) has two
  words, each a pointer to another inner node or to an object head, told apart by the two
  low bits; the model keeps these words, the inner nodes in a memory \<open>ymem\<close>
  (\<open>None\<close> where nothing is allocated), and a pointer to such a word as a \<open>word_ptr\<close>.  The
  two walks down the tree are loops over memory, so they are partial functions; that they
  end is proved for the trees the operations build.  Lookups without the lock are
  modelled as they run when no other thread changes the tree in between.  There is one field \<open>nhashpriv\<close>,
  the spare node of the worker at hand (in C every worker has its own), and reference counts are unbounded.  Memory barriers,
  statistics and the dump of the tree are left out.
\<close>

section \<open>Bits in common\<close>

text \<open>The loop that fills the table; entries from 128 on stay zero.\<close>

fun fill_bittbl :: "nat list \<Rightarrow> nat \<Rightarrow> u8 list \<Rightarrow> u8 list" where
  "fill_bittbl [] y tbl = tbl"
| "fill_bittbl (x # xs) y tbl =
     fill_bittbl xs (max y (2 ^ x)) (foldl (\<lambda>t i. t[i := of_nat (8 - x)]) tbl [y..<2 ^ x])"

definition hcb_build_bittbl :: "u8 list" where
  "hcb_build_bittbl = fill_bittbl [0, 1, 2, 3, 4, 5, 6, 7] 0 (replicate 256 0)"

definition hcb_bits :: "u8 \<Rightarrow> u8 \<Rightarrow> u8" where
  "hcb_bits x y = hcb_build_bittbl ! unat (x XOR y)"

section \<open>Tagged pointers\<close>

definition HCB_BIT_NODE :: u64 where "HCB_BIT_NODE = 1"
definition HCB_BIT_Y :: u64 where "HCB_BIT_Y = 2"

definition hcb_is_node :: "u64 \<Rightarrow> bool" where
  "hcb_is_node u \<longleftrightarrow> u AND HCB_BIT_NODE \<noteq> 0"

definition hcb_is_y :: "u64 \<Rightarrow> bool" where
  "hcb_is_y u \<longleftrightarrow> u AND HCB_BIT_Y \<noteq> 0"

definition hcb_r_node :: "u64 \<Rightarrow> u64 option" where
  "hcb_r_node n = do { vassert (n AND (HCB_BIT_NODE OR HCB_BIT_Y) = 0); Some (HCB_BIT_NODE OR n) }"

definition hcb_l_node :: "u64 \<Rightarrow> u64 option" where
  "hcb_l_node u = do { vassert (u AND HCB_BIT_NODE \<noteq> 0); vassert (u AND HCB_BIT_Y = 0); Some (u AND NOT HCB_BIT_NODE) }"

definition hcb_r_y :: "u64 \<Rightarrow> u64 option" where
  "hcb_r_y y = do { vassert (y AND (HCB_BIT_NODE OR HCB_BIT_Y) = 0); Some (HCB_BIT_Y OR y) }"

definition hcb_l_y :: "u64 \<Rightarrow> u64 option" where
  "hcb_l_y u = do { vassert (u AND HCB_BIT_NODE = 0); vassert (u AND HCB_BIT_Y \<noteq> 0); Some (u AND NOT HCB_BIT_Y) }"

section \<open>State\<close>

record hcb_y =
  critbit :: u16
  ptr :: u8
  bitmask :: u8
  leaf0 :: u64
  leaf1 :: u64

record hcb =
  origo :: u64
  ymem :: "u64 \<Rightarrow> hcb_y option"
  hcb_digest :: "u64 \<Rightarrow> digest"
  hcb_refcnt :: "u64 \<Rightarrow> int"
  nhashpriv :: "u64 option"
  cool_y :: "u64 list"
  dead_y :: "u64 list"
  cool_h :: "u64 list"
  dead_h :: "u64 list"

datatype word_ptr = Origo | Leaf u64 bool

definition rd_cell :: "hcb \<Rightarrow> word_ptr \<Rightarrow> u64 option" where
  "rd_cell r p = (case p of Origo \<Rightarrow> Some (origo r)
     | Leaf a s \<Rightarrow> map_option (\<lambda>y. if s then leaf1 y else leaf0 y) (ymem r a))"

definition set_leaf :: "bool \<Rightarrow> u64 \<Rightarrow> hcb_y \<Rightarrow> hcb_y" where
  "set_leaf s u y = (if s then y\<lparr>leaf1 := u\<rparr> else y\<lparr>leaf0 := u\<rparr>)"

definition wr_cell :: "hcb \<Rightarrow> word_ptr \<Rightarrow> u64 \<Rightarrow> hcb" where
  "wr_cell r p u = (case p of Origo \<Rightarrow> r\<lparr>origo := u\<rparr>
     | Leaf a s \<Rightarrow> r\<lparr>ymem := (ymem r)(a := map_option (set_leaf s u) (ymem r a))\<rparr>)"

text \<open>The bit of a digest an inner node looks at.\<close>

definition y_side :: "hcb_y \<Rightarrow> digest \<Rightarrow> bool" where
  "y_side y d \<longleftrightarrow> d ! unat (ptr y) AND bitmask y \<noteq> 0"

definition hcb_crit_bit :: "digest \<Rightarrow> digest \<Rightarrow> hcb_y \<Rightarrow> hcb_y option" where
  "hcb_crit_bit d1 d2 y = do {
     let u = length (takeWhile (\<lambda>(a, b). a = b) (zip d1 d2));
     vassert (u < DIGEST_LEN);
     let r = hcb_bits (d1 ! u) (d2 ! u);
     Some (y\<lparr>ptr := of_nat u, bitmask := drop_bit (unat r) 0x80, critbit := of_nat u * 8 + ucast r\<rparr>)
   }"

section \<open>Operations\<close>

text \<open>Down to a word that is not an inner node: where it is and its value.\<close>

partial_function (option) hcb_walk :: "hcb \<Rightarrow> digest \<Rightarrow> word_ptr \<Rightarrow> (word_ptr \<times> u64) option" where
  "hcb_walk r d p = do {
     pp \<leftarrow> rd_cell r p;
     if hcb_is_y pp then do {
       a \<leftarrow> hcb_l_y pp;
       y \<leftarrow> ymem r a;
       vassert (unat (ptr y) < DIGEST_LEN);
       hcb_walk r d (Leaf a (y_side y d))
     } else Some (p, pp)
   }"

text \<open>Down to the place where an inner node for bit \<open>c\<close> belongs.\<close>

partial_function (option) hcb_place :: "hcb \<Rightarrow> digest \<Rightarrow> u16 \<Rightarrow> word_ptr \<Rightarrow> (word_ptr \<times> u64) option" where
  "hcb_place r d c p = do {
     pp \<leftarrow> rd_cell r p;
     if hcb_is_y pp then do {
       a \<leftarrow> hcb_l_y pp;
       y \<leftarrow> ymem r a;
       vassert (critbit y \<noteq> c);
       if critbit y > c then Some (p, pp)
       else do {
         vassert (unat (ptr y) < DIGEST_LEN);
         hcb_place r d c (Leaf a (y_side y d))
       }
     } else Some (p, pp)
   }"

text \<open>The result is \<open>None\<close> for a NULL pointer.\<close>

definition hcb_insert :: "hcb \<Rightarrow> u64 \<Rightarrow> bool \<Rightarrow> (hcb \<times> u64 option) option" where
  "hcb_insert r oh has_lock =
     (if origo r = 0 then
        (if \<not> has_lock then Some (r, None)
         else do { u \<leftarrow> hcb_r_node oh; Some (r\<lparr>origo := u\<rparr>, Some oh) })
      else do {
        let d = hcb_digest r oh;
        (p, pp) \<leftarrow> hcb_walk r d Origo;
        if pp = 0 then do { vassert (\<not> has_lock); Some (r, None) }
        else do {
          vassert (hcb_is_node pp);
          oh2 \<leftarrow> hcb_l_node pp;
          if hcb_digest r oh2 = d then Some (r, Some oh2)
          else if \<not> has_lock then Some (r, None)
          else do {
            a2 \<leftarrow> nhashpriv r;
            y2 \<leftarrow> ymem r a2;
            y2 \<leftarrow> hcb_crit_bit d (hcb_digest r oh2) y2;
            let s2 = y_side y2 d;
            u \<leftarrow> hcb_r_node oh;
            let y2 = set_leaf s2 u y2;
            vassert (origo r \<noteq> 0);
            (p, pp) \<leftarrow> hcb_place r d (critbit y2) Origo;
            let y2 = set_leaf (\<not> s2) pp y2;
            u \<leftarrow> hcb_r_y a2;
            Some (wr_cell (r\<lparr>nhashpriv := None, ymem := (ymem r)(a2 \<mapsto> y2)\<rparr>) p u, Some oh)
          }
        }
      })"

partial_function (option) hcb_delete_loop :: "hcb \<Rightarrow> u64 \<Rightarrow> word_ptr \<Rightarrow> hcb option" where
  "hcb_delete_loop r oh p = do {
     pp \<leftarrow> rd_cell r p;
     vassert (hcb_is_y pp);
     a \<leftarrow> hcb_l_y pp;
     y \<leftarrow> ymem r a;
     vassert (unat (ptr y) < DIGEST_LEN);
     let s = y_side y (hcb_digest r oh);
     u \<leftarrow> hcb_r_node oh;
     if (if s then leaf1 y else leaf0 y) = u
     then (let r = wr_cell r p (if s then leaf0 y else leaf1 y)
           in Some (r\<lparr>cool_y := cool_y r @ [a]\<rparr>))
     else hcb_delete_loop r oh (Leaf a s)
   }"

definition hcb_delete :: "hcb \<Rightarrow> u64 \<Rightarrow> hcb option" where
  "hcb_delete r oh = do {
     u \<leftarrow> hcb_r_node oh;
     if origo r = u then Some (r\<lparr>origo := 0\<rparr>)
     else do { vassert (hcb_is_y (origo r)); hcb_delete_loop r oh Origo }
   }"

text \<open>One round of the cleaner thread: what was cooling in the last round is freed.\<close>

definition hcb_cleaner :: "hcb \<Rightarrow> hcb" where
  "hcb_cleaner r =
     (let r = r\<lparr>ymem := (\<lambda>a. if a \<in> set (dead_y r) then None else ymem r a), dead_y := [], dead_h := []\<rparr>
      in r\<lparr>dead_y := cool_y r, cool_y := [], dead_h := cool_h r, cool_h := []\<rparr>)"

text \<open>With the checks of the table at its end.\<close>

definition hcb_start :: "hcb \<Rightarrow> hcb option" where
  "hcb_start r = do {
     let r = r\<lparr>origo := 0\<rparr>;
     vassert (hcb_bits 0x34 0x34 = 8);
     vassert (hcb_bits 0xaa 0x55 = 0);
     vassert (hcb_bits 0x01 0x22 = 2);
     vassert (hcb_bits 0x10 0x0b = 3);
     Some r
   }"

text \<open>The head goes to the cooling list and the caller is told not to free it.\<close>

definition hcb_deref :: "hcb \<Rightarrow> u64 \<Rightarrow> (hcb \<times> bool) option" where
  "hcb_deref r oh = do {
     vassert (hcb_refcnt r oh > 0);
     let r = r\<lparr>hcb_refcnt := (hcb_refcnt r)(oh := hcb_refcnt r oh - 1)\<rparr>;
     if hcb_refcnt r oh = 0 then do {
       r \<leftarrow> hcb_delete r oh;
       Some (r\<lparr>cool_h := cool_h r @ [oh]\<rparr>, True)
     } else Some (r, True)
   }"

partial_function (option) hcb_lookup_loop :: "hcb \<Rightarrow> u64 \<Rightarrow> bool \<Rightarrow> (hcb \<times> u64) option" where
  "hcb_lookup_loop r noh with_lock = do {
     (r, oh) \<leftarrow> (if with_lock then do {
                   vassert (nhashpriv r \<noteq> None);
                   vassert (hcb_refcnt r noh = 1);
                   hcb_insert r noh True
                 } else hcb_insert r noh False);
     if oh = Some noh then do {
       vassert with_lock;
       vassert (hcb_refcnt r noh > 0);
       Some (r, noh)
     } else (case oh of
         None \<Rightarrow> do { vassert (\<not> with_lock); hcb_lookup_loop r noh True }
       | Some oh \<Rightarrow>
           if hcb_refcnt r oh > 0
           then Some (r\<lparr>hcb_refcnt := (hcb_refcnt r)(oh := hcb_refcnt r oh + 1)\<rparr>, oh)
           else hcb_lookup_loop r noh True)
   }"

definition hcb_lookup :: "hcb \<Rightarrow> u64 \<Rightarrow> (hcb \<times> u64) option" where
  "hcb_lookup r noh = hcb_lookup_loop r noh False"

text \<open>A new inner node for the worker: \<open>a\<close> is what \<open>ALLOC_OBJ\<close> returns, zeroed.\<close>

definition hcb_prep :: "hcb \<Rightarrow> u64 \<Rightarrow> hcb" where
  "hcb_prep r a =
     (case nhashpriv r of
        Some _ \<Rightarrow> r
      | None \<Rightarrow> r\<lparr>nhashpriv := Some a,
                  ymem := (ymem r)(a \<mapsto> \<lparr>critbit = 0, ptr = 0, bitmask = 0, leaf0 = 0, leaf1 = 0\<rparr>)\<rparr>)"

section \<open>Tags\<close>

definition aligned :: "u64 \<Rightarrow> bool" where
  "aligned a \<longleftrightarrow> \<not> bit a 0 \<and> \<not> bit a 1"

lemma and_1_2 [simp]: "(u :: u64) AND 1 = 0 \<longleftrightarrow> \<not> bit u 0" "u AND 2 = 0 \<longleftrightarrow> \<not> bit u 1"
  using and_exp_eq_0_iff_not_bit [of u 0] and_exp_eq_0_iff_not_bit [of u 1] by simp_all

lemma bit_12 [simp]: "bit (1 :: u64) n \<longleftrightarrow> n = 0" "bit (2 :: u64) n \<longleftrightarrow> n = 1"
proof -
  show "bit (1 :: u64) n \<longleftrightarrow> n = 0" by (simp add: bit_simps)
  have "(2 :: u64) = push_bit 1 1" by simp
  then show "bit (2 :: u64) n \<longleftrightarrow> n = 1" by (simp only: bit_push_bit_iff) (auto simp: bit_simps)
qed

lemma aligned_mask: "a AND (HCB_BIT_NODE OR HCB_BIT_Y) = 0 \<longleftrightarrow> aligned a"
proof -
  have "a AND (HCB_BIT_NODE OR HCB_BIT_Y) = (a AND HCB_BIT_NODE) OR (a AND HCB_BIT_Y)"
    by (rule bit_eqI) (auto simp: bit_and_iff bit_or_iff)
  then show ?thesis by (simp add: aligned_def or_eq_0_iff HCB_BIT_NODE_def HCB_BIT_Y_def)
qed

lemma clear_tag:
  assumes "\<And>n. bit t n \<Longrightarrow> \<not> bit (a :: u64) n"
  shows "(t OR a) AND NOT t = a"
  using assms by (intro bit_eqI) (auto simp: bit_and_iff bit_or_iff bit_not_iff dest: bit_imp_possible_bit)

lemma xor_zero: "(a :: u8) XOR b = 0 \<Longrightarrow> a = b"
proof (rule bit_eqI)
  fix n
  assume "a XOR b = 0"
  then have "\<not> bit (a XOR b) n" by simp
  then show "bit a n = bit b n" by (simp add: bit_xor_iff)
qed

lemma tag_simps [simp]:
  assumes "aligned a"
  shows "hcb_r_node a = Some (1 OR a)" "hcb_r_y a = Some (2 OR a)"
    "hcb_is_node (1 OR a)" "\<not> hcb_is_y (1 OR a)" "\<not> hcb_is_node (2 OR a)" "hcb_is_y (2 OR a)"
    "hcb_l_node (1 OR a) = Some a" "hcb_l_y (2 OR a) = Some a" "1 OR a \<noteq> 0" "2 OR a \<noteq> 0"
proof -
  have b: "bit (1 OR a) 0" "\<not> bit (1 OR a) 1" "\<not> bit (2 OR a) 0" "bit (2 OR a) 1"
    using assms by (auto simp: aligned_def bit_or_iff)
  then show "hcb_is_node (1 OR a)" "\<not> hcb_is_y (1 OR a)" "\<not> hcb_is_node (2 OR a)" "hcb_is_y (2 OR a)"
    by (simp_all add: hcb_is_node_def hcb_is_y_def HCB_BIT_NODE_def HCB_BIT_Y_def)
  have "(1 OR a) AND NOT 1 = a" "(2 OR a) AND NOT 2 = a"
    using assms unfolding aligned_def by (intro clear_tag, simp only: bit_12, blast)+
  then show "hcb_l_node (1 OR a) = Some a" "hcb_l_y (2 OR a) = Some a"
    using b by (simp_all add: hcb_l_node_def hcb_l_y_def HCB_BIT_NODE_def HCB_BIT_Y_def)
  show "hcb_r_node a = Some (1 OR a)" "hcb_r_y a = Some (2 OR a)"
    using assms by (simp_all add: hcb_r_node_def hcb_r_y_def aligned_mask) (simp_all add: HCB_BIT_NODE_def HCB_BIT_Y_def)
  show "1 OR a \<noteq> 0" "2 OR a \<noteq> 0" using b by (metis bit_0_eq bot_apply bot_bool_def)+
qed

lemma tag_inject [simp]: "aligned a \<Longrightarrow> aligned b \<Longrightarrow> 1 OR a = 1 OR b \<longleftrightarrow> a = b"
  "aligned a \<Longrightarrow> aligned b \<Longrightarrow> 2 OR a = 2 OR b \<longleftrightarrow> a = b"
  "aligned a \<Longrightarrow> aligned b \<Longrightarrow> 1 OR a \<noteq> 2 OR b" "aligned a \<Longrightarrow> aligned b \<Longrightarrow> 2 OR b \<noteq> 1 OR a"
  using tag_simps by (metis option.inject)+

section \<open>The table and the critical bit\<close>

lemma foldl_upd_length: "length (foldl (\<lambda>t i. t[i := v]) tbl is) = length tbl"
  by (induction "is" arbitrary: tbl) auto

lemma foldl_upd_nth:
  "n < length tbl \<Longrightarrow> foldl (\<lambda>t i. t[i := v]) tbl is ! n = (if n \<in> set is then v else tbl ! n)"
  by (induction "is" arbitrary: tbl) (auto simp: nth_list_update)

lemma bittbl_nth:
  assumes "n < 256"
  shows "hcb_build_bittbl ! n = (if n = 0 then 8 else if n = 1 then 7 else if n < 4 then 6 else if n < 8 then 5
    else if n < 16 then 4 else if n < 32 then 3 else if n < 64 then 2 else if n < 128 then 1 else 0)"
  using assms
  by (simp add: hcb_build_bittbl_def foldl_upd_nth foldl_upd_length del: upt_rec_numeral)

definition lead :: "nat \<Rightarrow> nat" where
  "lead n = unat (hcb_build_bittbl ! n)"

lemma lead_bounds:
  assumes "0 < n" "n < 256"
  shows "lead n < 8" "2 ^ (7 - lead n) \<le> n" "n < 2 ^ (8 - lead n)"
  using assms by (auto simp: lead_def bittbl_nth)

lemma byte_bits:
  fixes z :: u8
  assumes "z \<noteq> 0"
  defines "r \<equiv> lead (unat z)"
  shows "r < 8" "bit z (7 - r)" "\<And>i. i < r \<Longrightarrow> \<not> bit z (7 - i)"
proof -
  have z: "0 < unat z" "unat z < 256" using assms(1) unsigned_less [of z] by (simp_all add: unat_gt_0)
  note b = lead_bounds [OF z, folded r_def]
  show "r < 8" by (rule b)
  have "(2 :: nat) ^ (8 - r) = 2 * 2 ^ (7 - r)" using b(1) by (simp add: Suc_diff_Suc [symmetric] flip: power_Suc)
  then have "unat z div 2 ^ (7 - r) = 1" using b(2,3) by (intro div_nat_eqI) auto
  then have "bit (unat z) (7 - r)" by (simp add: bit_iff_odd)
  then show "bit z (7 - r)" by (simp add: bit_unsigned_iff)
  show "\<not> bit z (7 - i)" if "i < r" for i
  proof -
    have "(2 :: nat) ^ (8 - r) \<le> 2 ^ (7 - i)" using that b(1) by (intro power_increasing) auto
    with b(3) have "unat z < 2 ^ (7 - i)" by (rule less_le_trans)
    then have "unat z div 2 ^ (7 - i) = 0" by simp
    then have "\<not> bit (unat z) (7 - i)" by (simp only: bit_iff_odd) simp
    then show ?thesis using that b(1) by (simp add: bit_unsigned_iff)
  qed
qed

text \<open>Bit \<open>k\<close> of a digest, counted from the most significant bit of its first byte.\<close>

definition dbit :: "digest \<Rightarrow> nat \<Rightarrow> bool" where
  "dbit d k = bit (d ! (k div 8)) (7 - k mod 8)"

definition y_ok :: "hcb_y \<Rightarrow> bool" where
  "y_ok y \<longleftrightarrow> (let c = unat (critbit y) in c < 256 \<and> unat (ptr y) = c div 8 \<and> bitmask y = drop_bit (c mod 8) 0x80)"

lemma mask_bit: "r < 8 \<Longrightarrow> (w :: u8) AND drop_bit r 0x80 \<noteq> 0 \<longleftrightarrow> bit w (7 - r)"
proof -
  assume r: "r < 8"
  then have "r = 0 \<or> r = 1 \<or> r = 2 \<or> r = 3 \<or> r = 4 \<or> r = 5 \<or> r = 6 \<or> r = 7" by auto
  then have "drop_bit r (0x80 :: u8) = 2 ^ (7 - r)" by (elim disjE) simp_all
  then show ?thesis using and_exp_eq_0_iff_not_bit [of w "7 - r"] by simp
qed

lemma y_side_dbit: "y_ok y \<Longrightarrow> y_side y d \<longleftrightarrow> dbit d (unat (critbit y))"
  by (simp add: y_side_def y_ok_def Let_def mask_bit dbit_def)

lemma y_ok_ptr: "y_ok y \<Longrightarrow> unat (ptr y) < DIGEST_LEN"
  by (auto simp: y_ok_def Let_def DIGEST_LEN_def)

text \<open>The first byte in which two digests differ.\<close>

lemma first_diff:
  assumes "length d1 = length d2" "d1 \<noteq> d2"
  defines "u \<equiv> length (takeWhile (\<lambda>(a, b). a = b) (zip d1 d2))"
  shows "u < length d1" "d1 ! u \<noteq> d2 ! u" "\<And>i. i < u \<Longrightarrow> d1 ! i = d2 ! i"
proof -
  have "\<exists>i < length (zip d1 d2). \<not> (\<lambda>(a, b). a = b) (zip d1 d2 ! i)"
    using assms(1,2) by (auto simp: list_eq_iff_nth_eq)
  then have "takeWhile (\<lambda>(a, b). a = b) (zip d1 d2) \<noteq> zip d1 d2"
    by (metis (mono_tags, lifting) nth_mem takeWhile_eq_all_conv)
  then have u: "u < length (zip d1 d2)"
    by (metis le_neq_implies_less length_takeWhile_le u_def takeWhile_eq_take take_all order_refl)
  then show "u < length d1" by simp
  show "d1 ! u \<noteq> d2 ! u" using nth_length_takeWhile [of "\<lambda>(a, b). a = b" "zip d1 d2"] u by (simp add: u_def)
  show "d1 ! i = d2 ! i" if "i < u" for i
    using takeWhile_nth [of i "\<lambda>(a, b). a = b" "zip d1 d2"] nth_mem [of i "takeWhile (\<lambda>(a, b). a = b) (zip d1 d2)"] that u
    by (auto simp: u_def dest!: set_takeWhileD)
qed

lemma crit_bit_spec:
  assumes "length d1 = DIGEST_LEN" "length d2 = DIGEST_LEN" "d1 \<noteq> d2"
  shows "\<exists>y'. hcb_crit_bit d1 d2 y = Some y' \<and> y_ok y' \<and> leaf0 y' = leaf0 y \<and> leaf1 y' = leaf1 y \<and>
    dbit d1 (unat (critbit y')) \<noteq> dbit d2 (unat (critbit y')) \<and>
    (\<forall>k < unat (critbit y'). dbit d1 k = dbit d2 k)"
proof -
  let ?u = "length (takeWhile (\<lambda>(a, b). a = b) (zip d1 d2))"
  have l: "length d1 = length d2" using assms by simp
  note fd = first_diff [OF l assms(3)]
  let ?z = "d1 ! ?u XOR d2 ! ?u"
  have z: "?z \<noteq> 0" using fd(2) xor_zero by blast
  define r where "r = lead (unat ?z)"
  note bb = byte_bits [OF z, folded r_def]
  have u: "?u < 32" using fd(1) assms(1) by (simp add: DIGEST_LEN_def)
  have hb: "unat (hcb_bits (d1 ! ?u) (d2 ! ?u)) = r" by (simp add: hcb_bits_def r_def lead_def)
  let ?y = "y\<lparr>ptr := of_nat ?u, bitmask := drop_bit r 0x80, critbit := of_nat ?u * 8 + ucast (hcb_bits (d1 ! ?u) (d2 ! ?u))\<rparr>"
  have c: "unat (critbit ?y) = ?u * 8 + r"
  proof -
    have "unat (ucast (hcb_bits (d1 ! ?u) (d2 ! ?u)) :: u16) = r" using hb bb(1) by (simp add: unsigned_ucast_eq take_bit_eq_mod)
    moreover have "unat (of_nat ?u * 8 :: u16) = ?u * 8" using u by (simp add: unat_word_ariths unat_of_nat)
    ultimately show ?thesis using u bb(1) by (simp add: unat_word_ariths)
  qed
  have dm: "(?u * 8 + r) div 8 = ?u" "(?u * 8 + r) mod 8 = r" using bb(1) by auto
  have "hcb_crit_bit d1 d2 y = Some ?y" using u hb by (simp add: hcb_crit_bit_def DIGEST_LEN_def Let_def)
  moreover have "y_ok ?y" unfolding y_ok_def Let_def c dm using u bb(1) by (simp add: unat_of_nat)
  moreover have "dbit d1 (?u * 8 + r) \<noteq> dbit d2 (?u * 8 + r)"
    unfolding dbit_def dm using bb(2) by (simp add: bit_xor_iff)
  moreover have "dbit d1 k = dbit d2 k" if k: "k < ?u * 8 + r" for k
  proof (cases "k div 8 < ?u")
    case True
    then show ?thesis using fd(3) by (simp add: dbit_def)
  next
    case False
    moreover have "k = 8 * (k div 8) + k mod 8" by simp
    ultimately have "k div 8 = ?u" "k mod 8 < r" using k bb(1) by linarith+
    then show ?thesis using bb(3) [of "k mod 8"] by (simp add: dbit_def bit_xor_iff)
  qed
  ultimately show ?thesis using c by (intro exI [of _ ?y]) auto
qed

end
