(* ===== verification/Critbit_Tree.thy ===== *)
theory Critbit_Tree
  imports Critbit
begin

text \<open>
  The words and inner nodes in memory as a tree, the two walks and the two changes of the
  tree, and the crit-bit index as an instance of the index interface.
\<close>

section \<open>Trees in memory\<close>

datatype cbt = Nd u64 | Yt u64 nat cbt cbt

primrec ohs :: "cbt \<Rightarrow> u64 set" where
  "ohs (Nd h) = {h}"
| "ohs (Yt a c l r) = ohs l \<union> ohs r"

primrec ys :: "cbt \<Rightarrow> u64 set" where
  "ys (Nd h) = {}"
| "ys (Yt a c l r) = insert a (ys l \<union> ys r)"

primrec ydistinct :: "cbt \<Rightarrow> bool" where
  "ydistinct (Nd h) = True"
| "ydistinct (Yt a c l r) \<longleftrightarrow> a \<notin> ys l \<and> a \<notin> ys r \<and> ys l \<inter> ys r = {} \<and> ydistinct l \<and> ydistinct r"

primrec cb_tree :: "(u64 \<Rightarrow> hcb_y option) \<Rightarrow> u64 \<Rightarrow> cbt \<Rightarrow> bool" where
  "cb_tree m u (Nd h) \<longleftrightarrow> u = 1 OR h \<and> aligned h"
| "cb_tree m u (Yt a c l r) \<longleftrightarrow> u = 2 OR a \<and> aligned a \<and>
     (\<exists>y. m a = Some y \<and> y_ok y \<and> unat (critbit y) = c \<and> cb_tree m (leaf0 y) l \<and> cb_tree m (leaf1 y) r)"

primrec cb_ok :: "(u64 \<Rightarrow> digest) \<Rightarrow> cbt \<Rightarrow> bool" where
  "cb_ok dg (Nd h) = True"
| "cb_ok dg (Yt a c l r) \<longleftrightarrow> cb_ok dg l \<and> cb_ok dg r \<and>
     (\<forall>h \<in> ohs l. \<not> dbit (dg h) c) \<and> (\<forall>h \<in> ohs r. dbit (dg h) c) \<and>
     (\<forall>h \<in> ohs l \<union> ohs r. \<forall>h' \<in> ohs l \<union> ohs r. \<forall>k < c. dbit (dg h) k = dbit (dg h') k)"

lemma ohs_nonempty: "ohs T \<noteq> {}"
  by (induction T) auto

lemma cb_tree_cong: "\<forall>a \<in> ys T. m a = m' a \<Longrightarrow> cb_tree m u T = cb_tree m' u T"
  by (induction T arbitrary: u) auto

lemma cb_tree_nz: "cb_tree m u T \<Longrightarrow> u \<noteq> 0"
  by (cases T) auto

lemma cb_tree_det: "cb_tree m u T \<Longrightarrow> cb_tree m u T' \<Longrightarrow> T = T'"
proof (induction T arbitrary: u T')
  case (Nd h)
  then show ?case by (cases T') auto
next
  case (Yt a c l r)
  then show ?case by (cases T') auto
qed

lemma cb_ok_unique: "cb_ok dg T \<Longrightarrow> a \<in> ohs T \<Longrightarrow> b \<in> ohs T \<Longrightarrow> dg a = dg b \<Longrightarrow> a = b"
  by (induction T) auto

section \<open>The first walk\<close>

primrec walkT :: "digest \<Rightarrow> cbt \<Rightarrow> u64" where
  "walkT d (Nd h) = h"
| "walkT d (Yt a c l r) = (if dbit d c then walkT d r else walkT d l)"

lemma walkT_in: "walkT d T \<in> ohs T"
  by (induction T) auto

lemma walkT_find: "cb_ok dg T \<Longrightarrow> h \<in> ohs T \<Longrightarrow> walkT (dg h) T = h"
  by (induction T) auto

lemma hcb_walk_tree:
  assumes "cb_tree (ymem r) u T" and "rd_cell r p = Some u"
  shows "\<exists>p'. hcb_walk r d p = Some (p', 1 OR walkT d T) \<and> aligned (walkT d T)"
  using assms
proof (induction T arbitrary: u p)
  case (Nd h)
  then show ?case by (subst hcb_walk.simps) simp
next
  case (Yt a c lt rt)
  then obtain y where y: "u = 2 OR a" "aligned a" "ymem r a = Some y" "y_ok y" "unat (critbit y) = c"
    "cb_tree (ymem r) (leaf0 y) lt" "cb_tree (ymem r) (leaf1 y) rt" by auto
  have e: "hcb_walk r d p = hcb_walk r d (Leaf a (dbit d c))"
    using Yt.prems(2) y y_ok_ptr [OF y(4)] y_side_dbit [OF y(4), of d] by (subst hcb_walk.simps) simp
  show ?case
  proof (cases "dbit d c")
    case True
    with Yt.IH(2) [OF y(7), of "Leaf a True"] y(3) e show ?thesis by (simp add: rd_cell_def)
  next
    case False
    with Yt.IH(1) [OF y(6), of "Leaf a False"] y(3) e show ?thesis by (simp add: rd_cell_def)
  qed
qed

section \<open>Insertion\<close>

primrec insT :: "digest \<Rightarrow> nat \<Rightarrow> u64 \<Rightarrow> u64 \<Rightarrow> cbt \<Rightarrow> cbt" where
  "insT d c a2 oh (Nd h) = (if dbit d c then Yt a2 c (Nd h) (Nd oh) else Yt a2 c (Nd oh) (Nd h))"
| "insT d c a2 oh (Yt a k l r) =
     (if k > c then (if dbit d c then Yt a2 c (Yt a k l r) (Nd oh) else Yt a2 c (Nd oh) (Yt a k l r))
      else if dbit d k then Yt a k l (insT d c a2 oh r) else Yt a k (insT d c a2 oh l) r)"

lemma insT_sets: "ohs (insT d c a2 oh T) = insert oh (ohs T)" "ys (insT d c a2 oh T) = insert a2 (ys T)"
  by (induction T) auto

lemma insT_distinct: "ydistinct T \<Longrightarrow> a2 \<notin> ys T \<Longrightarrow> ydistinct (insT d c a2 oh T)"
  by (induction T) (auto simp: insT_sets)

text \<open>The nodes on the way down for \<open>d\<close> look at other bits than \<open>c\<close>.\<close>

primrec off_path :: "digest \<Rightarrow> nat \<Rightarrow> cbt \<Rightarrow> bool" where
  "off_path d c (Nd h) = True"
| "off_path d c (Yt a k l r) \<longleftrightarrow> k \<noteq> c \<and> (if dbit d k then off_path d c r else off_path d c l)"

lemma off_path_crit:
  "cb_ok dg T \<Longrightarrow> dbit d c \<noteq> dbit (dg (walkT d T)) c \<Longrightarrow> off_path d c T"
proof (induction T)
  case (Yt a k l r)
  have "walkT d r \<in> ohs r" "walkT d l \<in> ohs l" by (rule walkT_in)+
  then show ?case using Yt by (auto split: if_splits)
qed simp

lemma join_ok:
  assumes "cb_ok dg T" and "\<forall>h \<in> ohs T. dbit (dg h) c = (\<not> dbit (dg oh) c)"
    and "\<forall>h \<in> ohs T. \<forall>j < c. dbit (dg h) j = dbit (dg oh) j"
  shows "cb_ok dg (if dbit (dg oh) c then Yt a2 c T (Nd oh) else Yt a2 c (Nd oh) T)"
  using assms by auto

text \<open>The first \<open>c\<close> bits of \<open>d\<close> are those of the head the first walk found, bit \<open>c\<close> is not.\<close>

lemma insT_ok:
  assumes "cb_ok dg T" and "dg oh = d" and "dbit d c \<noteq> dbit (dg (walkT d T)) c"
    and "\<forall>k < c. dbit d k = dbit (dg (walkT d T)) k"
  shows "cb_ok dg (insT d c a2 oh T)"
  using assms
proof (induction T)
  case (Nd h)
  then show ?case by auto
next
  case (Yt a k l r)
  let ?w = "walkT d (Yt a k l r)"
  have w: "?w \<in> ohs l \<union> ohs r" using walkT_in [of d "Yt a k l r"] by simp
  have agree: "dbit (dg h) j = dbit (dg ?w) j" if "h \<in> ohs l \<union> ohs r" "j < k" for h j
  proof -
    have "\<forall>h \<in> ohs l \<union> ohs r. \<forall>h' \<in> ohs l \<union> ohs r. \<forall>j < k. dbit (dg h) j = dbit (dg h') j"
      using Yt.prems(1) unfolding cb_ok.simps by blast
    then show ?thesis using w that by blast
  qed
  show ?case
  proof (cases "k > c")
    case True
    have "dbit (dg h) c = dbit (dg ?w) c" if "h \<in> ohs l \<union> ohs r" for h using agree [OF that True] .
    moreover have "dbit (dg h) j = dbit d j" if "h \<in> ohs l \<union> ohs r" "j < c" for h j
      using agree [OF that(1), of j] that(2) True Yt.prems(4) by simp
    ultimately have "cb_ok dg (if dbit (dg oh) c then Yt a2 c (Yt a k l r) (Nd oh) else Yt a2 c (Nd oh) (Yt a k l r))"
      using Yt.prems(1-3) by (intro join_ok) (auto simp del: walkT.simps cb_ok.simps)
    then show ?thesis using True Yt.prems(2) by simp
  next
    case False
    have ne: "k \<noteq> c" using off_path_crit [OF Yt.prems(1,3)] by simp
    then have kc: "k < c" using False by simp
    have dj: "dbit (dg h) j = dbit d j" if "h \<in> ohs l \<union> ohs r" "j < k" for h j
      using agree [OF that] that(2) kc Yt.prems(4) by simp
    show ?thesis
    proof (cases "dbit d k")
      case True
      then have "cb_ok dg (insT d c a2 oh r)" using Yt by simp
      then show ?thesis using True False Yt.prems(1,2) dj by (auto simp: insT_sets)
    next
      case nb: False
      then have "cb_ok dg (insT d c a2 oh l)" using Yt by simp
      then show ?thesis using nb False Yt.prems(1,2) dj by (auto simp: insT_sets)
    qed
  qed
qed

text \<open>
  Seen from outside, a change inside a tree is a change of the word \<open>p\<close> that points to
  it: \<open>r'\<close> is \<open>r\<close> with \<open>u1\<close> written to \<open>p\<close>, except for inner nodes in \<open>S\<close>.
\<close>

definition as_wr :: "u64 set \<Rightarrow> hcb \<Rightarrow> word_ptr \<Rightarrow> u64 \<Rightarrow> hcb \<Rightarrow> bool" where
  "as_wr S r p u1 r' \<longleftrightarrow> origo r' = origo (wr_cell r p u1) \<and> (\<forall>a. a \<notin> S \<longrightarrow> ymem r' a = ymem (wr_cell r p u1) a)"

definition outside :: "u64 set \<Rightarrow> word_ptr \<Rightarrow> bool" where
  "outside S p \<longleftrightarrow> (case p of Origo \<Rightarrow> True | Leaf a s \<Rightarrow> a \<notin> S)"

lemma wr_cell_other: "ymem (wr_cell r (Leaf b s) u) a = (if a = b then map_option (set_leaf s u) (ymem r b) else ymem r a)"
  "origo (wr_cell r (Leaf b s) u) = origo r" "ymem (wr_cell r Origo u) = ymem r" "origo (wr_cell r Origo u) = u"
  by (simp_all add: wr_cell_def)

lemma leaf_set_leaf [simp]: "leaf1 (set_leaf s u y) = (if s then u else leaf1 y)" "leaf0 (set_leaf s u y) = (if s then leaf0 y else u)"
  "critbit (set_leaf s u y) = critbit y" "y_ok (set_leaf s u y) = y_ok y"
  by (simp_all add: set_leaf_def y_ok_def Let_def)

lemma wr_cell_same:
  assumes "rd_cell r p = Some u"
  shows "ymem (wr_cell r p u) = ymem r" "origo (wr_cell r p u) = origo r"
  using assms by (auto simp: rd_cell_def wr_cell_def set_leaf_def fun_eq_iff split: word_ptr.splits)

lemma as_wr_rd: "as_wr S r p u1 r' \<Longrightarrow> outside S p \<Longrightarrow> rd_cell r p \<noteq> None \<Longrightarrow> rd_cell r' p = Some u1"
  by (auto simp: as_wr_def outside_def rd_cell_def wr_cell_def split: word_ptr.splits)

text \<open>A change below one leaf of an inner node, seen from the word that points to the node.\<close>

lemma as_wr_up:
  assumes w: "as_wr S r (Leaf a s) u1 r'" and p: "rd_cell r p = Some u" and "outside (insert a S) p"
  shows "as_wr (insert a S) r p u r'"
  using w wr_cell_same [OF p] by (auto simp: as_wr_def wr_cell_other)

text \<open>The new inner node \<open>a2\<close> put at \<open>p\<close>, with the old word \<open>pp\<close> and the new head \<open>oh\<close> as its leaves.\<close>

definition put_y :: "hcb \<Rightarrow> u64 \<Rightarrow> hcb_y \<Rightarrow> bool \<Rightarrow> u64 \<Rightarrow> word_ptr \<Rightarrow> u64 \<Rightarrow> hcb" where
  "put_y r a2 y2 s oh p pp =
     wr_cell (r\<lparr>nhashpriv := None, ymem := (ymem r)(a2 \<mapsto> set_leaf (\<not> s) pp (set_leaf s (1 OR oh) y2))\<rparr>) p (2 OR a2)"

lemma place_stop:
  assumes t: "cb_tree (ymem r) u T" and p: "rd_cell r p = Some u"
    and a2: "aligned a2" "a2 \<notin> ys T" and o2: "outside (insert a2 (ys T)) p"
    and y2: "y_ok y2" "unat (critbit y2) = c" and oh: "aligned oh"
  shows "cb_tree (ymem (put_y r a2 y2 s oh p u)) (2 OR a2) (if s then Yt a2 c T (Nd oh) else Yt a2 c (Nd oh) T) \<and>
    as_wr (insert a2 (ys T)) r p (2 OR a2) (put_y r a2 y2 s oh p u)"
proof -
  let ?r = "put_y r a2 y2 s oh p u" and ?y = "set_leaf (\<not> s) u (set_leaf s (1 OR oh) y2)"
  have m: "ymem ?r a2 = Some ?y" "\<forall>a \<in> ys T. ymem ?r a = ymem r a"
    using o2 a2(2) by (auto simp: put_y_def wr_cell_def outside_def split: word_ptr.splits)
  then have "cb_tree (ymem ?r) u T" using t cb_tree_cong by blast
  then have "cb_tree (ymem ?r) (2 OR a2) (if s then Yt a2 c T (Nd oh) else Yt a2 c (Nd oh) T)"
    using m(1) a2(1) y2 oh by auto
  moreover have "as_wr (insert a2 (ys T)) r p (2 OR a2) ?r"
    by (auto simp: as_wr_def put_y_def wr_cell_def split: word_ptr.splits)
  ultimately show ?thesis by blast
qed

lemma hcb_place_tree:
  assumes "cb_tree (ymem r) u T" and "rd_cell r p = Some u" and "ydistinct T" and "off_path d c T"
    and "a2 \<notin> ys T" and "outside (insert a2 (ys T)) p"
    and a2: "aligned a2" and y2: "y_ok y2" "unat (critbit y2) = c" and oh: "aligned oh"
  shows "\<exists>p' pp u1. hcb_place r d (critbit y2) p = Some (p', pp) \<and>
    cb_tree (ymem (put_y r a2 y2 (dbit d c) oh p' pp)) u1 (insT d c a2 oh T) \<and>
    as_wr (insert a2 (ys T)) r p u1 (put_y r a2 y2 (dbit d c) oh p' pp)"
  using assms(1-6)
proof (induction T arbitrary: u p)
  case (Nd h)
  then have "hcb_place r d (critbit y2) p = Some (p, u)" by (subst hcb_place.simps) simp
  then show ?case using place_stop [OF Nd.prems(1,2) a2 Nd.prems(5,6) y2 oh, of "dbit d c"] unfolding insT.simps by blast
next
  case (Yt a k lt rt)
  then obtain y where y: "u = 2 OR a" "aligned a" "ymem r a = Some y" "y_ok y" "unat (critbit y) = k"
    "cb_tree (ymem r) (leaf0 y) lt" "cb_tree (ymem r) (leaf1 y) rt" by auto
  have kc: "k \<noteq> c" "critbit y \<noteq> critbit y2" using Yt.prems(4) y(5) y2(2) by auto
  have gt: "critbit y > critbit y2 \<longleftrightarrow> k > c" using y(5) y2(2) by (simp add: word_less_nat_alt)
  show ?case
  proof (cases "k > c")
    case True
    then have "hcb_place r d (critbit y2) p = Some (p, u)"
      using Yt.prems(2) y kc(2) gt by (subst hcb_place.simps) simp
    moreover have "insT d c a2 oh (Yt a k lt rt) = (if dbit d c then Yt a2 c (Yt a k lt rt) (Nd oh) else Yt a2 c (Nd oh) (Yt a k lt rt))"
      using True by simp
    ultimately show ?thesis
      using place_stop [OF Yt.prems(1,2) a2 Yt.prems(5,6) y2 oh, of "dbit d c"] by (simp only:) blast
  next
    case False
    let ?s = "dbit d k"
    have step: "hcb_place r d (critbit y2) p = hcb_place r d (critbit y2) (Leaf a ?s)"
      using Yt.prems(2) y kc(2) gt False y_ok_ptr [OF y(4)] y_side_dbit [OF y(4), of d] by (subst hcb_place.simps) simp
    define ch oth where "ch = (if ?s then rt else lt)" and "oth = (if ?s then lt else rt)"
    have ch: "rd_cell r (Leaf a ?s) = Some (if ?s then leaf1 y else leaf0 y)" using y(3) by (simp add: rd_cell_def)
    have o: "outside (insert a2 (ys lt)) (Leaf a s)" "outside (insert a2 (ys rt)) (Leaf a s)" "ydistinct lt" "ydistinct rt"
      "a2 \<notin> ys lt" "a2 \<notin> ys rt" for s using Yt.prems(3,5) by (auto simp: outside_def)
    have "\<exists>p' pp u1. hcb_place r d (critbit y2) (Leaf a ?s) = Some (p', pp) \<and>
      cb_tree (ymem (put_y r a2 y2 (dbit d c) oh p' pp)) u1 (insT d c a2 oh ch) \<and>
      as_wr (insert a2 (ys ch)) r (Leaf a ?s) u1 (put_y r a2 y2 (dbit d c) oh p' pp)"
    proof (cases ?s)
      case True
      then show ?thesis
        using Yt.IH(2) [OF y(7) _ o(4) _ o(6) o(2), of True] ch Yt.prems(4) by (simp add: ch_def)
    next
      case F: False
      then show ?thesis
        using Yt.IH(1) [OF y(6) _ o(3) _ o(5) o(1), of False] ch Yt.prems(4) by (simp add: ch_def)
    qed
    then obtain p' pp u1 where 1: "hcb_place r d (critbit y2) (Leaf a ?s) = Some (p', pp)"
      "cb_tree (ymem (put_y r a2 y2 (dbit d c) oh p' pp)) u1 (insT d c a2 oh ch)"
      "as_wr (insert a2 (ys ch)) r (Leaf a ?s) u1 (put_y r a2 y2 (dbit d c) oh p' pp)" by blast
    let ?r = "put_y r a2 y2 (dbit d c) oh p' pp"
    have ya: "ymem ?r a = Some (set_leaf ?s u1 y)"
      using 1(3) Yt.prems(3,5) y(3) by (auto simp: as_wr_def ch_def wr_cell_other)
    have "ymem ?r b = ymem r b" if "b \<in> ys oth" for b
    proof -
      have "b \<notin> insert a2 (ys ch)" "b \<noteq> a" using that Yt.prems(3,5) by (auto simp: ch_def oth_def split: if_splits)
      then show ?thesis using 1(3) by (simp add: as_wr_def wr_cell_other)
    qed
    then have "cb_tree (ymem ?r) (if ?s then leaf0 y else leaf1 y) oth"
      using y(6,7) cb_tree_cong [of oth "ymem ?r" "ymem r"] by (simp add: oth_def)
    then have "cb_tree (ymem ?r) u (insT d c a2 oh (Yt a k lt rt))"
      using 1(2) ya y kc(1) False by (cases ?s) (simp_all add: ch_def oth_def)
    moreover have "as_wr (insert a (insert a2 (ys ch))) r p u ?r"
      by (rule as_wr_up [OF 1(3) Yt.prems(2)]) (use Yt.prems(6) in \<open>auto simp: outside_def ch_def split: word_ptr.splits\<close>)
    then have "as_wr (insert a2 (ys (Yt a k lt rt))) r p u ?r" by (auto simp: as_wr_def ch_def split: if_splits)
    ultimately show ?thesis using step 1(1) by metis
  qed
qed

section \<open>Deletion\<close>

primrec delT :: "digest \<Rightarrow> u64 \<Rightarrow> cbt \<Rightarrow> cbt" where
  "delT d oh (Nd h) = Nd h"
| "delT d oh (Yt a c l r) =
     (if dbit d c then (if r = Nd oh then l else Yt a c l (delT d oh r))
      else (if l = Nd oh then r else Yt a c (delT d oh l) r))"

lemma delT_sub: "ohs (delT d oh T) \<subseteq> ohs T" "ys (delT d oh T) \<subseteq> ys T"
  by (induction T) auto

lemma delT_ohs:
  "cb_ok dg T \<Longrightarrow> oh \<in> ohs T \<Longrightarrow> T \<noteq> Nd oh \<Longrightarrow> ohs (delT (dg oh) oh T) = ohs T - {oh}"
proof (induction T)
  case (Yt a c l r)
  then show ?case by (cases "dbit (dg oh) c") auto
qed simp

lemma cb_ok_mono:
  assumes "cb_ok dg (Yt a c l r)" and "cb_ok dg l'" and "cb_ok dg r'" and s: "ohs l' \<subseteq> ohs l" "ohs r' \<subseteq> ohs r"
  shows "cb_ok dg (Yt a c l' r')"
proof -
  have "\<forall>h \<in> ohs l \<union> ohs r. \<forall>h' \<in> ohs l \<union> ohs r. \<forall>k < c. dbit (dg h) k = dbit (dg h') k"
    "\<forall>h \<in> ohs l. \<not> dbit (dg h) c" "\<forall>h \<in> ohs r. dbit (dg h) c" using assms(1) unfolding cb_ok.simps by blast+
  moreover have "ohs l' \<union> ohs r' \<subseteq> ohs l \<union> ohs r" using s by blast
  ultimately have "\<forall>h \<in> ohs l' \<union> ohs r'. \<forall>h' \<in> ohs l' \<union> ohs r'. \<forall>k < c. dbit (dg h) k = dbit (dg h') k"
    "\<forall>h \<in> ohs l'. \<not> dbit (dg h) c" "\<forall>h \<in> ohs r'. dbit (dg h) c" using s by (meson subsetD)+
  then show ?thesis using assms(2,3) by (simp only: cb_ok.simps simp_thms)
qed

lemma delT_ok: "cb_ok dg T \<Longrightarrow> cb_ok dg (delT d oh T)"
proof (induction T)
  case (Yt a c l r)
  have ok: "cb_ok dg l" "cb_ok dg r" using Yt.prems unfolding cb_ok.simps by blast+
  have "cb_ok dg (Yt a c l (delT d oh r))" using cb_ok_mono [OF Yt.prems ok(1) Yt.IH(2) [OF ok(2)] order_refl delT_sub(1)] .
  moreover have "cb_ok dg (Yt a c (delT d oh l) r)" using cb_ok_mono [OF Yt.prems Yt.IH(1) [OF ok(1)] ok(2) delT_sub(1) order_refl] .
  ultimately show ?case using ok by (auto simp del: cb_ok.simps split: if_splits)
qed simp

lemma delT_distinct: "ydistinct T \<Longrightarrow> ydistinct (delT d oh T)"
proof (induction T)
  case (Yt a c l r)
  have "ys (delT d oh l) \<subseteq> ys l" "ys (delT d oh r) \<subseteq> ys r" by (rule delT_sub)+
  then show ?case using Yt by auto
qed simp

lemma hcb_delete_tree:
  assumes "cb_tree (ymem r) u T" and "rd_cell r p = Some u" and "ydistinct T" and "outside (ys T) p"
    and "cb_ok (hcb_digest r) T" and "oh \<in> ohs T" and "T \<noteq> Nd oh" and d: "d = hcb_digest r oh" and al: "aligned oh"
  shows "\<exists>r' a u1. hcb_delete_loop r oh p = Some (r'\<lparr>cool_y := cool_y r @ [a]\<rparr>) \<and> a \<in> ys T - ys (delT d oh T) \<and>
    cb_tree (ymem r') u1 (delT d oh T) \<and> as_wr (ys T) r p u1 r' \<and>
    r' = r\<lparr>origo := origo r', ymem := ymem r'\<rparr>"
  using assms(1-7)
proof (induction T arbitrary: u p)
  case (Nd h)
  then show ?case by simp
next
  case (Yt a k lt rt)
  then obtain y where y: "u = 2 OR a" "aligned a" "ymem r a = Some y" "y_ok y" "unat (critbit y) = k"
    "cb_tree (ymem r) (leaf0 y) lt" "cb_tree (ymem r) (leaf1 y) rt" by auto
  let ?s = "dbit d k"
  define ch oth where "ch = (if ?s then rt else lt)" and "oth = (if ?s then lt else rt)"
  define cu ou where "cu = (if ?s then leaf1 y else leaf0 y)" and "ou = (if ?s then leaf0 y else leaf1 y)"
  have t: "cb_tree (ymem r) cu ch" "cb_tree (ymem r) ou oth" using y by (simp_all add: ch_def oth_def cu_def ou_def)
  have och: "oh \<in> ohs ch" "cb_ok (hcb_digest r) ch" using Yt.prems(5,6) d by (auto simp: ch_def)
  have leaf: "cu = 1 OR oh \<longleftrightarrow> ch = Nd oh" using t(1) al by (cases ch) auto
  have step: "hcb_delete_loop r oh p = (if cu = 1 OR oh then Some ((wr_cell r p ou)\<lparr>cool_y := cool_y r @ [a]\<rparr>)
      else hcb_delete_loop r oh (Leaf a ?s))"
    using Yt.prems(2) y y_ok_ptr [OF y(4)] y_side_dbit [OF y(4), of d] al d
    by (subst hcb_delete_loop.simps) (simp add: cu_def ou_def wr_cell_def split: word_ptr.split)
  have dj: "a \<notin> ys ch" "a \<notin> ys oth" "ys ch \<inter> ys oth = {}" "ydistinct ch" "ydistinct oth"
    using Yt.prems(3) by (auto simp: ch_def oth_def)
  have ysT: "ys (Yt a k lt rt) = insert a (ys ch \<union> ys oth)" by (auto simp: ch_def oth_def)
  show ?case
  proof (cases "ch = Nd oh")
    case True
    have dT: "delT d oh (Yt a k lt rt) = oth" using True by (auto simp: ch_def oth_def split: if_splits)
    let ?r = "wr_cell r p ou"
    have "\<forall>b \<in> ys oth. ymem ?r b = ymem r b" using Yt.prems(4) ysT by (auto simp: outside_def wr_cell_def split: word_ptr.splits)
    then have "cb_tree (ymem ?r) ou oth" using t(2) cb_tree_cong [of oth "ymem ?r" "ymem r"] by simp
    moreover have "as_wr (ys (Yt a k lt rt)) r p ou ?r" by (simp add: as_wr_def)
    moreover have "?r = r\<lparr>origo := origo ?r, ymem := ymem ?r\<rparr>" by (simp add: wr_cell_def split: word_ptr.split)
    ultimately show ?thesis using step leaf True dT dj ysT by (intro exI [of _ ?r] exI [of _ a] exI [of _ ou]) auto
  next
    case False
    have o: "outside (ys ch) (Leaf a ?s)" using dj by (simp add: outside_def)
    have c: "rd_cell r (Leaf a ?s) = Some cu" using y(3) by (simp add: rd_cell_def cu_def)
    have "\<exists>r' b u1. hcb_delete_loop r oh (Leaf a ?s) = Some (r'\<lparr>cool_y := cool_y r @ [b]\<rparr>) \<and> b \<in> ys ch - ys (delT d oh ch) \<and>
      cb_tree (ymem r') u1 (delT d oh ch) \<and> as_wr (ys ch) r (Leaf a ?s) u1 r' \<and> r' = r\<lparr>origo := origo r', ymem := ymem r'\<rparr>"
      using Yt.IH(1) [of cu "Leaf a ?s"] Yt.IH(2) [of cu "Leaf a ?s"] t(1) c dj(4) o och False
      by (cases ?s) (simp_all add: ch_def)
    then obtain r' b u1 where 1: "hcb_delete_loop r oh (Leaf a ?s) = Some (r'\<lparr>cool_y := cool_y r @ [b]\<rparr>)" "b \<in> ys ch - ys (delT d oh ch)"
      "cb_tree (ymem r') u1 (delT d oh ch)" "as_wr (ys ch) r (Leaf a ?s) u1 r'" "r' = r\<lparr>origo := origo r', ymem := ymem r'\<rparr>" by blast
    have ya: "ymem r' a = Some (set_leaf ?s u1 y)" using 1(4) dj(1) y(3) by (simp add: as_wr_def wr_cell_other)
    have "\<forall>b \<in> ys oth. ymem r' b = ymem r b" using 1(4) dj by (auto simp: as_wr_def wr_cell_other)
    then have "cb_tree (ymem r') ou oth" using t(2) cb_tree_cong [of oth "ymem r'" "ymem r"] by simp
    then have "cb_tree (ymem r') u (delT d oh (Yt a k lt rt))"
      using 1(3) ya y False by (cases ?s) (simp_all add: ch_def oth_def ou_def)
    moreover have "as_wr (insert a (ys ch)) r p u r'"
      by (rule as_wr_up [OF 1(4) Yt.prems(2)]) (use Yt.prems(4) ysT in \<open>auto simp: outside_def split: word_ptr.splits\<close>)
    then have "as_wr (ys (Yt a k lt rt)) r p u r'" unfolding ysT by (auto simp: as_wr_def)
    moreover have "b \<in> ys (Yt a k lt rt) - ys (delT d oh (Yt a k lt rt))"
      using 1(2) dj False by (cases ?s) (auto simp: ch_def oth_def)
    ultimately show ?thesis using step leaf False 1(1,5) by (intro exI [of _ r'] exI [of _ b] exI [of _ u]) simp
  qed
qed

end
