(* ===== verification/Critbit_Index.thy ===== *)
theory Critbit_Index
  imports Critbit_Tree
begin

text \<open>
  The crit-bit index keeps its invariant and is an instance of the index interface.
\<close>

section \<open>The invariant\<close>

text \<open>Inner nodes that wait for the cleaner thread.\<close>

definition y_pool :: "hcb \<Rightarrow> u64 set" where
  "y_pool r = set (cool_y r) \<union> set (dead_y r)"

definition hcb_holds :: "hcb \<Rightarrow> cbt \<Rightarrow> bool" where
  "hcb_holds r T \<longleftrightarrow> cb_tree (ymem r) (origo r) T \<and> cb_ok (hcb_digest r) T \<and> ydistinct T \<and>
     (\<forall>h \<in> ohs T. hcb_refcnt r h > 0 \<and> length (hcb_digest r h) = DIGEST_LEN) \<and>
     ys T \<inter> y_pool r = {} \<and> (\<forall>a. nhashpriv r = Some a \<longrightarrow> a \<notin> ys T)"

definition hcb_inv :: "hcb \<Rightarrow> bool" where
  "hcb_inv r \<longleftrightarrow> (origo r = 0 \<or> (\<exists>T. hcb_holds r T)) \<and> (\<forall>a. nhashpriv r = Some a \<longrightarrow> a \<notin> y_pool r)"

definition hcb_heads :: "hcb \<Rightarrow> u64 set" where
  "hcb_heads r = {h. \<exists>T. cb_tree (ymem r) (origo r) T \<and> h \<in> ohs T}"

definition hcb_ready :: "hcb \<Rightarrow> u64 \<Rightarrow> bool" where
  "hcb_ready r noh \<longleftrightarrow> aligned noh \<and> (\<exists>a y. nhashpriv r = Some a \<and> aligned a \<and> ymem r a = Some y)"

lemma heads_empty: "origo r = 0 \<Longrightarrow> hcb_heads r = {}"
  by (auto simp: hcb_heads_def dest: cb_tree_nz)

lemma heads_tree: "cb_tree (ymem r) (origo r) T \<Longrightarrow> hcb_heads r = ohs T"
  by (auto simp: hcb_heads_def dest: cb_tree_det)

lemma heads_holds: "hcb_holds r T \<Longrightarrow> hcb_heads r = ohs T"
  using heads_tree by (simp add: hcb_holds_def)

lemma hcb_inv_cases:
  assumes "hcb_inv r"
  obtains "origo r = 0" "hcb_heads r = {}" | T where "hcb_holds r T" "hcb_heads r = ohs T" "origo r \<noteq> 0"
  using assms unfolding hcb_inv_def using heads_empty heads_holds cb_tree_nz by (metis hcb_holds_def)

lemma tree_aligned: "cb_tree m u T \<Longrightarrow> h \<in> ohs T \<Longrightarrow> aligned h"
  by (induction T arbitrary: u) auto

lemma tree_alloc: "cb_tree m u T \<Longrightarrow> a \<in> ys T \<Longrightarrow> m a \<noteq> None"
  by (induction T arbitrary: u) auto

lemma holds_aligned: "hcb_holds r T \<Longrightarrow> h \<in> ohs T \<Longrightarrow> aligned h"
  using tree_aligned by (auto simp: hcb_holds_def)

section \<open>Insertion\<close>

text \<open>The word \<open>Origo\<close> holds the tree, so a walk from there finds the one head that can have the digest.\<close>

lemma walk_origo:
  assumes "hcb_holds r T"
  shows "\<exists>p. hcb_walk r d Origo = Some (p, 1 OR walkT d T)" "aligned (walkT d T)"
  using hcb_walk_tree [of r "origo r" T Origo d] assms by (auto simp: hcb_holds_def rd_cell_def)

lemma hcb_insert_found:
  assumes T: "hcb_holds r T" and "oh \<in> ohs T" and d: "hcb_digest r oh = hcb_digest r noh" and nz: "origo r \<noteq> 0"
  shows "hcb_insert r noh lk = Some (r, Some oh)"
proof -
  have w: "walkT (hcb_digest r noh) T = oh"
    using walkT_find [of "hcb_digest r" T oh] T assms(2) d by (simp add: hcb_holds_def)
  then show ?thesis using walk_origo [OF T, of "hcb_digest r noh"] nz d by (auto simp: hcb_insert_def)
qed

lemma hcb_insert_nolock:
  assumes T: "hcb_holds r T" and "\<forall>oh \<in> ohs T. hcb_digest r oh \<noteq> hcb_digest r noh" and nz: "origo r \<noteq> 0"
  shows "hcb_insert r noh False = Some (r, None)"
  using walk_origo [OF T, of "hcb_digest r noh"] assms(2) nz walkT_in [of "hcb_digest r noh" T]
  by (auto simp: hcb_insert_def)

lemma hcb_insert_new:
  assumes T: "hcb_holds r T" and miss: "\<forall>oh \<in> ohs T. hcb_digest r oh \<noteq> hcb_digest r noh" and nz: "origo r \<noteq> 0"
    and rdy: "hcb_ready r noh" and cnt: "hcb_refcnt r noh > 0" and len: "length (hcb_digest r noh) = DIGEST_LEN"
    and pool: "\<forall>a. nhashpriv r = Some a \<longrightarrow> a \<notin> y_pool r"
  shows "\<exists>r' T'. hcb_insert r noh True = Some (r', Some noh) \<and> hcb_holds r' T' \<and> ohs T' = insert noh (ohs T) \<and>
    r' = r\<lparr>nhashpriv := None, origo := origo r', ymem := ymem r'\<rparr>"
proof -
  let ?d = "hcb_digest r noh"
  define oh2 where "oh2 = walkT ?d T"
  have oh2: "oh2 \<in> ohs T" using walkT_in by (simp add: oh2_def)
  note T' = T [unfolded hcb_holds_def]
  obtain p1 where w: "hcb_walk r ?d Origo = Some (p1, 1 OR oh2)" and al2: "aligned oh2"
    using walk_origo [OF T, of ?d] by (auto simp: oh2_def)
  obtain a2 y where a2: "nhashpriv r = Some a2" "aligned a2" "ymem r a2 = Some y" and al: "aligned noh"
    using rdy by (auto simp: hcb_ready_def)
  have ne: "?d \<noteq> hcb_digest r oh2" using miss oh2 by metis
  have l2: "length (hcb_digest r oh2) = DIGEST_LEN" using T' oh2 by blast
  obtain y2 where cb: "hcb_crit_bit ?d (hcb_digest r oh2) y = Some y2" and y2: "y_ok y2"
    and d2: "dbit ?d (unat (critbit y2)) \<noteq> dbit (hcb_digest r oh2) (unat (critbit y2))"
    and p2: "\<forall>k < unat (critbit y2). dbit ?d k = dbit (hcb_digest r oh2) k"
    using crit_bit_spec [OF len l2 ne, of y] by blast
  define c where "c = unat (critbit y2)"
  have t: "cb_tree (ymem r) (origo r) T" and ok: "cb_ok (hcb_digest r) T" and yd: "ydistinct T" and nin: "a2 \<notin> ys T"
    using T' a2(1) by blast+
  have off: "off_path ?d c T" using off_path_crit [OF ok] d2 by (simp add: oh2_def c_def)
  have "\<exists>p' pp u1. hcb_place r ?d (critbit y2) Origo = Some (p', pp) \<and>
      cb_tree (ymem (put_y r a2 y2 (dbit ?d c) noh p' pp)) u1 (insT ?d c a2 noh T) \<and>
      as_wr (insert a2 (ys T)) r Origo u1 (put_y r a2 y2 (dbit ?d c) noh p' pp)"
    by (rule hcb_place_tree [OF t _ yd off nin _ a2(2) y2 _ al]) (simp_all add: rd_cell_def outside_def c_def)
  then obtain p' pp u1 where pl: "hcb_place r ?d (critbit y2) Origo = Some (p', pp)"
    and tr: "cb_tree (ymem (put_y r a2 y2 (dbit ?d c) noh p' pp)) u1 (insT ?d c a2 noh T)"
    and wr: "as_wr (insert a2 (ys T)) r Origo u1 (put_y r a2 y2 (dbit ?d c) noh p' pp)" by blast
  let ?r = "put_y r a2 y2 (dbit ?d c) noh p' pp"
  have "hcb_insert r noh True = Some (?r, Some noh)"
    using nz w al2 ne a2 cb pl al y_side_dbit [OF y2, of ?d] by (simp add: hcb_insert_def put_y_def c_def set_leaf_def)
  moreover have r': "?r = r\<lparr>nhashpriv := None, origo := origo ?r, ymem := ymem ?r\<rparr>"
    by (simp add: put_y_def wr_cell_def split: word_ptr.split)
  moreover have "hcb_holds ?r (insT ?d c a2 noh T)"
  proof -
    have f: "hcb_digest ?r = hcb_digest r" "hcb_refcnt ?r = hcb_refcnt r" "nhashpriv ?r = None" "y_pool ?r = y_pool r"
      by (simp_all add: put_y_def wr_cell_def y_pool_def split: word_ptr.split)
    have "origo ?r = u1" using wr by (simp add: as_wr_def wr_cell_other)
    moreover have "cb_ok (hcb_digest r) (insT ?d c a2 noh T)"
      using insT_ok [OF ok refl] d2 p2 by (simp add: oh2_def c_def)
    moreover have "ydistinct (insT ?d c a2 noh T)" using insT_distinct T' nin by blast
    moreover have "ys (insT ?d c a2 noh T) \<inter> y_pool r = {}" using T' pool a2(1) by (simp add: insT_sets)
    ultimately show ?thesis using tr f T' cnt len by (simp add: hcb_holds_def insT_sets)
  qed
  ultimately show ?thesis using insT_sets(1) by blast
qed

lemma hcb_insert_first:
  assumes "origo r = 0" and rdy: "hcb_ready r noh" and "hcb_refcnt r noh > 0" and "length (hcb_digest r noh) = DIGEST_LEN"
  shows "hcb_insert r noh False = Some (r, None)"
    "\<exists>r'. hcb_insert r noh True = Some (r', Some noh) \<and> hcb_holds r' (Nd noh) \<and> r' = r\<lparr>origo := origo r'\<rparr>"
  using assms by (auto simp: hcb_insert_def hcb_ready_def hcb_holds_def)

section \<open>Lookup and release\<close>

lemma hcb_lookup_hit:
  assumes inv: "hcb_inv r" and n: "noh \<notin> hcb_heads r" and oh: "oh \<in> hcb_heads r" "hcb_digest r oh = hcb_digest r noh"
  shows "\<exists>r'. hcb_lookup r noh = Some (r', oh) \<and> hcb_inv r' \<and> hcb_heads r' = hcb_heads r \<and> hcb_digest r' = hcb_digest r \<and>
    hcb_refcnt r' = (hcb_refcnt r)(oh := hcb_refcnt r oh + 1) \<and> set (cool_h r') = set (cool_h r)"
  using inv
proof (cases rule: hcb_inv_cases)
  case 1
  then show ?thesis using oh by simp
next
  case (2 T)
  let ?r = "r\<lparr>hcb_refcnt := (hcb_refcnt r)(oh := hcb_refcnt r oh + 1)\<rparr>"
  have ins: "hcb_insert r noh False = Some (r, Some oh)" using hcb_insert_found [OF 2(1) _ oh(2) 2(3)] oh(1) 2(2) by simp
  have "oh \<noteq> noh" using n oh(1) by auto
  moreover have pos: "hcb_refcnt r oh > 0" using 2(1,2) oh(1) by (simp add: hcb_holds_def)
  ultimately have "hcb_lookup r noh = Some (?r, oh)"
    unfolding hcb_lookup_def using ins by (subst hcb_lookup_loop.simps) simp
  moreover have "hcb_holds ?r T" using 2(1) pos by (auto simp: hcb_holds_def y_pool_def)
  then have "hcb_inv ?r" using inv by (auto simp: hcb_inv_def y_pool_def)
  moreover have "hcb_heads ?r = hcb_heads r" by (simp add: hcb_heads_def)
  ultimately show ?thesis by auto
qed

lemma hcb_lookup_locked:
  assumes "hcb_insert r noh False = Some (r, None)" and "hcb_insert r noh True = Some (r', Some noh)"
    and "hcb_ready r noh" and "hcb_refcnt r noh = 1" and "hcb_refcnt r' = hcb_refcnt r"
  shows "hcb_lookup r noh = Some (r', noh)"
proof -
  have "hcb_lookup r noh = hcb_lookup_loop r noh True"
    unfolding hcb_lookup_def using assms(1) by (subst hcb_lookup_loop.simps) simp
  also have "\<dots> = Some (r', noh)" using assms(2-5) by (subst hcb_lookup_loop.simps) (auto simp: hcb_ready_def)
  finally show ?thesis .
qed

lemma hcb_lookup_miss:
  assumes inv: "hcb_inv r" and cnt: "hcb_refcnt r noh = 1" and len: "length (hcb_digest r noh) = DIGEST_LEN"
    and rdy: "hcb_ready r noh" and miss: "\<forall>oh \<in> hcb_heads r. hcb_digest r oh \<noteq> hcb_digest r noh"
  shows "\<exists>r'. hcb_lookup r noh = Some (r', noh) \<and> hcb_inv r' \<and> hcb_heads r' = insert noh (hcb_heads r) \<and>
    hcb_digest r' = hcb_digest r \<and> hcb_refcnt r' = hcb_refcnt r \<and> set (cool_h r') = set (cool_h r)"
proof -
  have pos: "hcb_refcnt r noh > 0" using cnt by simp
  have pool: "\<forall>a. nhashpriv r = Some a \<longrightarrow> a \<notin> y_pool r" using inv by (simp add: hcb_inv_def)
  have "\<exists>r' T'. hcb_insert r noh False = Some (r, None) \<and> hcb_insert r noh True = Some (r', Some noh) \<and> hcb_holds r' T' \<and>
    ohs T' = insert noh (hcb_heads r) \<and> (r' = r\<lparr>nhashpriv := None, origo := origo r', ymem := ymem r'\<rparr> \<or> r' = r\<lparr>origo := origo r'\<rparr>)"
    using inv
  proof (cases rule: hcb_inv_cases)
    case 1
    from hcb_insert_first [OF 1(1) rdy pos len] 1(2) show ?thesis
      by (metis ohs.simps(1))
  next
    case (2 T)
    have m: "\<forall>oh \<in> ohs T. hcb_digest r oh \<noteq> hcb_digest r noh" using miss 2(2) by simp
    from hcb_insert_nolock [OF 2(1) m 2(3)] hcb_insert_new [OF 2(1) m 2(3) rdy pos len pool] 2(2) show ?thesis by metis
  qed
  then obtain r' T' where r': "hcb_insert r noh False = Some (r, None)" "hcb_insert r noh True = Some (r', Some noh)"
    "hcb_holds r' T'" "ohs T' = insert noh (hcb_heads r)"
    and e: "r' = r\<lparr>nhashpriv := None, origo := origo r', ymem := ymem r'\<rparr> \<or> r' = r\<lparr>origo := origo r'\<rparr>" by blast
  have f: "hcb_digest r' = hcb_digest r" "hcb_refcnt r' = hcb_refcnt r" "cool_h r' = cool_h r" "cool_y r' = cool_y r"
    "dead_y r' = dead_y r" "nhashpriv r' = None \<or> nhashpriv r' = nhashpriv r"
    using e by (elim disjE; metis hcb.simps hcb.surjective)+
  have "hcb_inv r'" using r'(3) pool f(4-6) by (auto simp: hcb_inv_def y_pool_def)
  then show ?thesis using hcb_lookup_locked [OF r'(1,2) rdy cnt f(2)] heads_holds [OF r'(3)] r'(4) f by simp
qed

lemma hcb_delete_root:
  assumes t: "cb_tree (ymem r) (origo r) T" and ok: "cb_ok (hcb_digest r) T" and yd: "ydistinct T" and oh: "oh \<in> ohs T"
  shows "if T = Nd oh then hcb_delete r oh = Some (r\<lparr>origo := 0\<rparr>)
    else \<exists>r' a. hcb_delete r oh = Some r' \<and> r' = r\<lparr>origo := origo r', ymem := ymem r', cool_y := cool_y r @ [a]\<rparr> \<and>
      cb_tree (ymem r') (origo r') (delT (hcb_digest r oh) oh T) \<and> a \<in> ys T - ys (delT (hcb_digest r oh) oh T)"
proof -
  have al: "aligned oh" using tree_aligned [OF t oh] .
  have root: "origo r = 1 OR oh \<longleftrightarrow> T = Nd oh" using t al by (cases T) auto
  show ?thesis
  proof (cases "T = Nd oh")
    case True
    then show ?thesis using root al by (simp add: hcb_delete_def)
  next
    case False
    then have y: "hcb_is_y (origo r)" using t oh by (cases T) auto
    obtain r' a u1 where 1: "hcb_delete_loop r oh Origo = Some (r'\<lparr>cool_y := cool_y r @ [a]\<rparr>)"
      "a \<in> ys T - ys (delT (hcb_digest r oh) oh T)" "cb_tree (ymem r') u1 (delT (hcb_digest r oh) oh T)"
      "as_wr (ys T) r Origo u1 r'" "r' = r\<lparr>origo := origo r', ymem := ymem r'\<rparr>"
      using hcb_delete_tree [OF t _ yd _ ok oh False refl al, of Origo] by (auto simp: rd_cell_def outside_def)
    let ?r = "r'\<lparr>cool_y := cool_y r @ [a]\<rparr>"
    have "origo r' = u1" using 1(4) by (simp add: as_wr_def wr_cell_other)
    moreover have "?r = r\<lparr>origo := origo ?r, ymem := ymem ?r, cool_y := cool_y r @ [a]\<rparr>" by (subst 1(5)) simp
    moreover have "hcb_delete r oh = Some ?r" using 1(1) y root False al by (simp add: hcb_delete_def)
    ultimately show ?thesis using False 1(2,3) by (simp only: if_False) (rule exI [of _ ?r], rule exI [of _ a], simp)
  qed
qed

lemma hcb_deref_release:
  assumes inv: "hcb_inv r" and oh: "oh \<in> hcb_heads r"
  shows "\<exists>r' b. hcb_deref r oh = Some (r', b) \<and> hcb_inv r' \<and> hcb_digest r' = hcb_digest r \<and>
    hcb_refcnt r' = (hcb_refcnt r)(oh := hcb_refcnt r oh - 1) \<and>
    (if hcb_refcnt r oh = 1 then hcb_heads r' = hcb_heads r - {oh} \<and> set (cool_h r') = (if b then insert oh (set (cool_h r)) else set (cool_h r))
     else hcb_heads r' = hcb_heads r \<and> b \<and> set (cool_h r') = set (cool_h r))"
  using inv
proof (cases rule: hcb_inv_cases)
  case 1
  then show ?thesis using oh by simp
next
  case (2 T)
  note T = 2(1) [unfolded hcb_holds_def]
  let ?r = "r\<lparr>hcb_refcnt := (hcb_refcnt r)(oh := hcb_refcnt r oh - 1)\<rparr>"
  have pos: "hcb_refcnt r oh > 0" using T oh 2(2) by simp
  show ?thesis
  proof (cases "hcb_refcnt r oh = 1")
    case False
    have "hcb_holds ?r T" using T pos False by (auto simp: hcb_holds_def y_pool_def)
    then have "hcb_inv ?r" using inv by (auto simp: hcb_inv_def y_pool_def)
    moreover have "hcb_heads ?r = hcb_heads r" by (simp add: hcb_heads_def)
    moreover have "hcb_deref r oh = Some (?r, True)" using pos False by (simp add: hcb_deref_def)
    ultimately show ?thesis using False by (intro exI [of _ ?r] exI [of _ True]) simp
  next
    case True
    have ohT: "oh \<in> ohs T" using oh 2(2) by simp
    have dr: "hcb_delete ?r oh = Some r2 \<Longrightarrow> hcb_deref r oh = Some (r2\<lparr>cool_h := cool_h r2 @ [oh]\<rparr>, True)" for r2
      using True by (simp add: hcb_deref_def)
    show ?thesis
    proof (cases "T = Nd oh")
      case one: True
      let ?q = "?r\<lparr>origo := 0, cool_h := cool_h r @ [oh]\<rparr>"
      have "hcb_delete ?r oh = Some (?r\<lparr>origo := 0\<rparr>)" using hcb_delete_root [of ?r T oh] T ohT one by simp
      from dr [OF this] have "hcb_deref r oh = Some (?q, True)" by simp
      moreover have "hcb_inv ?q" using inv by (auto simp: hcb_inv_def y_pool_def)
      moreover have "hcb_heads ?q = {}" by (rule heads_empty) simp
      ultimately show ?thesis using True 2(2) one by (intro exI [of _ ?q] exI [of _ True]) simp
    next
      case False
      obtain q a where q: "hcb_delete ?r oh = Some q" "q = ?r\<lparr>origo := origo q, ymem := ymem q, cool_y := cool_y r @ [a]\<rparr>"
        "cb_tree (ymem q) (origo q) (delT (hcb_digest r oh) oh T)" "a \<in> ys T - ys (delT (hcb_digest r oh) oh T)"
        using hcb_delete_root [of ?r T oh] T ohT False by auto
      let ?q = "q\<lparr>cool_h := cool_h q @ [oh]\<rparr>" and ?T = "delT (hcb_digest r oh) oh T"
      have f: "hcb_digest q = hcb_digest r" "hcb_refcnt q = (hcb_refcnt r)(oh := hcb_refcnt r oh - 1)" "cool_h q = cool_h r"
        "cool_y q = cool_y r @ [a]" "dead_y q = dead_y r" "nhashpriv q = nhashpriv r"
        by (subst q(2), simp)+
      have hs: "ohs ?T = ohs T - {oh}" using delT_ohs T ohT False by blast
      have pool: "y_pool ?q = insert a (y_pool r)" by (simp add: y_pool_def f)
      have "hcb_holds ?q ?T"
        unfolding hcb_holds_def pool using q(3,4) T delT_ok [of "hcb_digest r" T] delT_distinct [of T] delT_sub(2) [of "hcb_digest r oh" oh T]
        by (auto simp: f hs)
      moreover have "hcb_inv ?q" unfolding hcb_inv_def pool using calculation inv q(4) T by (auto simp: f hcb_inv_def)
      moreover have "hcb_heads ?q = hcb_heads r - {oh}" using heads_holds calculation(1) hs 2(2) by simp
      ultimately show ?thesis using dr [OF q(1)] True by (intro exI [of _ ?q] exI [of _ True]) (simp add: f)
    qed
  qed
qed

interpretation hcb: hash_slinger hcb_inv hcb_heads hcb_digest hcb_refcnt "\<lambda>r. set (cool_h r)" hcb_ready hcb_lookup hcb_deref
proof
  fix r :: hcb and noh oh a b :: u64
  assume inv: "hcb_inv r"
  show "a = b" if "a \<in> hcb_heads r" "b \<in> hcb_heads r" "hcb_digest r a = hcb_digest r b"
    using inv by (cases rule: hcb_inv_cases) (use that cb_ok_unique in \<open>auto simp: hcb_holds_def\<close>)
  show "0 < hcb_refcnt r a" if "a \<in> hcb_heads r"
    using inv by (cases rule: hcb_inv_cases) (use that in \<open>auto simp: hcb_holds_def\<close>)
qed (rule hcb_lookup_hit hcb_lookup_miss hcb_deref_release; assumption)+

section \<open>The cleaner and the worker's spare node\<close>

lemma hcb_start_inv:
  assumes "\<forall>a. nhashpriv r = Some a \<longrightarrow> a \<notin> y_pool r"
  shows "\<exists>r'. hcb_start r = Some r' \<and> hcb_inv r' \<and> hcb_heads r' = {}"
proof -
  have "hcb_bits 0x34 0x34 = 8" "hcb_bits 0xaa 0x55 = 0" "hcb_bits 0x01 0x22 = 2" "hcb_bits 0x10 0x0b = 3"
    by (simp_all add: hcb_bits_def bittbl_nth)
  then have "hcb_start r = Some (r\<lparr>origo := 0\<rparr>)" by (simp add: hcb_start_def)
  then show ?thesis using assms by (simp add: hcb_inv_def heads_empty y_pool_def)
qed

lemma hcb_prep_keeps:
  assumes inv: "hcb_inv r" and new: "ymem r a = None" "a \<notin> y_pool r"
  shows "hcb_inv (hcb_prep r a) \<and> hcb_heads (hcb_prep r a) = hcb_heads r"
proof (cases "nhashpriv r")
  case (Some b)
  then show ?thesis using inv by (simp add: hcb_prep_def)
next
  case None
  let ?r = "hcb_prep r a"
  have e: "origo ?r = origo r" "nhashpriv ?r = Some a" "y_pool ?r = y_pool r" "hcb_digest ?r = hcb_digest r" "hcb_refcnt ?r = hcb_refcnt r"
    "\<And>b. b \<noteq> a \<Longrightarrow> ymem ?r b = ymem r b" using None by (simp_all add: hcb_prep_def y_pool_def)
  show ?thesis using inv
  proof (cases rule: hcb_inv_cases)
    case 1
    then show ?thesis using e new heads_empty [of ?r] by (simp add: hcb_inv_def)
  next
    case (2 T)
    have an: "a \<notin> ys T" using tree_alloc 2(1) new(1) unfolding hcb_holds_def by blast
    then have "\<forall>b \<in> ys T. ymem ?r b = ymem r b" using e(6) by metis
    then have "hcb_holds ?r T" using 2(1) an e cb_tree_cong [of T "ymem ?r" "ymem r"] by (simp add: hcb_holds_def)
    then show ?thesis using heads_holds 2(2) e(2,3) new(2) by (auto simp: hcb_inv_def)
  qed
qed

lemma hcb_cleaner_keeps:
  assumes inv: "hcb_inv r"
  shows "hcb_inv (hcb_cleaner r) \<and> hcb_heads (hcb_cleaner r) = hcb_heads r"
proof -
  let ?r = "hcb_cleaner r"
  have e: "origo ?r = origo r" "nhashpriv ?r = nhashpriv r" "y_pool ?r = set (cool_y r)" "hcb_digest ?r = hcb_digest r" "hcb_refcnt ?r = hcb_refcnt r"
    "\<And>b. b \<notin> y_pool r \<Longrightarrow> ymem ?r b = ymem r b" "y_pool ?r \<subseteq> y_pool r"
    by (simp_all add: hcb_cleaner_def y_pool_def Let_def)
  have np: "\<forall>a. nhashpriv r = Some a \<longrightarrow> a \<notin> y_pool ?r" using inv e(7) unfolding hcb_inv_def by blast
  show ?thesis using inv
  proof (cases rule: hcb_inv_cases)
    case 1
    then show ?thesis using e np heads_empty [of ?r] by (simp add: hcb_inv_def)
  next
    case (2 T)
    have "\<forall>b \<in> ys T. ymem ?r b = ymem r b" using 2(1) e(6) unfolding hcb_holds_def by blast
    moreover have "ys T \<inter> y_pool ?r = {}" using 2(1) e(7) unfolding hcb_holds_def by blast
    ultimately have "hcb_holds ?r T" using 2(1) e(1,2,4,5) cb_tree_cong [of T "ymem ?r" "ymem r"] by (simp add: hcb_holds_def)
    then show ?thesis using heads_holds 2(2) e(2) np by (auto simp: hcb_inv_def)
  qed
qed

section \<open>Walks without the lock and the cool-off\<close>

text \<open>A deletion writes one word: the one that pointed to the removed node now points to the sibling's tree.\<close>

lemma hcb_delete_writes:
  assumes "cb_tree (ymem r) u T" and "rd_cell r p = Some u" and "ydistinct T" and "outside (ys T) p"
    and "cb_ok (hcb_digest r) T" and "oh \<in> ohs T" and "T \<noteq> Nd oh" and d: "d = hcb_digest r oh" and al: "aligned oh"
  shows "\<exists>a q w W. hcb_delete_loop r oh p = Some ((wr_cell r q w)\<lparr>cool_y := cool_y r @ [a]\<rparr>) \<and>
    a \<in> ys T \<and> cb_tree (ymem r) w W \<and> ohs W \<subseteq> ohs T \<and> ys W \<subseteq> ys T \<and> outside (ys W) q \<and>
    (q = p \<or> (\<exists>b s. q = Leaf b s \<and> b \<in> ys T))"
  using assms(1-7)
proof (induction T arbitrary: u p)
  case (Nd h)
  then show ?case by simp
next
  case (Yt a k lt rt)
  then obtain y where y: "u = 2 OR a" "aligned a" "ymem r a = Some y" "y_ok y" "unat (critbit y) = k"
    "cb_tree (ymem r) (leaf0 y) lt" "cb_tree (ymem r) (leaf1 y) rt" by auto
  let ?s = "dbit d k"
  define ch oth where "ch = (if ?s then rt else lt)" and "oth = (if ?s then lt else rt)"
  define cu ou where "cu = (if ?s then leaf1 y else leaf0 y)" and "ou = (if ?s then leaf0 y else leaf1 y)"
  have t: "cb_tree (ymem r) cu ch" "cb_tree (ymem r) ou oth" using y by (simp_all add: ch_def oth_def cu_def ou_def)
  have och: "oh \<in> ohs ch" "cb_ok (hcb_digest r) ch" using Yt.prems(5,6) d by (auto simp: ch_def)
  have leaf: "cu = 1 OR oh \<longleftrightarrow> ch = Nd oh" using t(1) al by (cases ch) auto
  have step: "hcb_delete_loop r oh p = (if cu = 1 OR oh then Some ((wr_cell r p ou)\<lparr>cool_y := cool_y r @ [a]\<rparr>)
      else hcb_delete_loop r oh (Leaf a ?s))"
    using Yt.prems(2) y y_ok_ptr [OF y(4)] y_side_dbit [OF y(4), of d] al d
    by (subst hcb_delete_loop.simps) (simp add: cu_def ou_def wr_cell_def split: word_ptr.split)
  have sub: "ys (Yt a k lt rt) = insert a (ys ch \<union> ys oth)" "ohs (Yt a k lt rt) = ohs ch \<union> ohs oth" by (auto simp: ch_def oth_def)
  have dj: "a \<notin> ys ch" "ydistinct ch" using Yt.prems(3) by (auto simp: ch_def)
  show ?case
  proof (cases "ch = Nd oh")
    case True
    have "outside (ys oth) p" using Yt.prems(4) sub(1) by (auto simp: outside_def split: word_ptr.splits)
    then show ?thesis using step leaf True t(2) sub by (intro exI [of _ a] exI [of _ p] exI [of _ ou] exI [of _ oth]) auto
  next
    case False
    have o: "outside (ys ch) (Leaf a ?s)" using dj by (simp add: outside_def)
    have c: "rd_cell r (Leaf a ?s) = Some cu" using y(3) by (simp add: rd_cell_def cu_def)
    have "\<exists>b q w W. hcb_delete_loop r oh (Leaf a ?s) = Some ((wr_cell r q w)\<lparr>cool_y := cool_y r @ [b]\<rparr>) \<and>
        b \<in> ys ch \<and> cb_tree (ymem r) w W \<and> ohs W \<subseteq> ohs ch \<and> ys W \<subseteq> ys ch \<and> outside (ys W) q \<and>
        (q = Leaf a ?s \<or> (\<exists>b s. q = Leaf b s \<and> b \<in> ys ch))"
      using Yt.IH(1) [of cu "Leaf a ?s"] Yt.IH(2) [of cu "Leaf a ?s"] t(1) c dj(2) o och False
      by (cases ?s) (simp_all add: ch_def)
    then obtain b q w W where 1: "hcb_delete_loop r oh (Leaf a ?s) = Some ((wr_cell r q w)\<lparr>cool_y := cool_y r @ [b]\<rparr>)"
      "b \<in> ys ch" "cb_tree (ymem r) w W" "ohs W \<subseteq> ohs ch" "ys W \<subseteq> ys ch" "outside (ys W) q"
      "q = Leaf a ?s \<or> (\<exists>b s. q = Leaf b s \<and> b \<in> ys ch)" by blast
    show ?thesis
      by (intro exI [of _ b] exI [of _ q] exI [of _ w] exI [of _ W])
        (use 1 step leaf False in \<open>simp only: sub if_False, blast\<close>)
  qed
qed

text \<open>A write of a word that points to a tree not holding the written node leaves a tree under every word of the old one.\<close>

lemma tree_after_write:
  assumes "m b = Some y" and "cb_tree m w W" and "b \<notin> ys W" and "cb_tree m u T"
  shows "\<exists>T'. cb_tree (m(b \<mapsto> set_leaf s w y)) u T' \<and> ohs T' \<subseteq> ohs T \<union> ohs W \<and> ys T' \<subseteq> ys T \<union> ys W"
  using assms(4)
proof (induction T arbitrary: u)
  case (Nd h)
  then show ?case by (intro exI [of _ "Nd h"]) simp
next
  case (Yt a c lt rt)
  define m' where "m' = m(b \<mapsto> set_leaf s w y)"
  have m': "m' b = Some (set_leaf s w y)" "\<And>x. x \<noteq> b \<Longrightarrow> m' x = m x" by (simp_all add: m'_def)
  obtain z where z: "u = 2 OR a" "aligned a" "m a = Some z" "y_ok z" "unat (critbit z) = c" "cb_tree m (leaf0 z) lt" "cb_tree m (leaf1 z) rt"
    using Yt.prems by auto
  obtain l' where l: "cb_tree m' (leaf0 z) l'" "ohs l' \<subseteq> ohs lt \<union> ohs W" "ys l' \<subseteq> ys lt \<union> ys W" using Yt.IH(1) [OF z(6)] unfolding m'_def by blast
  obtain r' where r: "cb_tree m' (leaf1 z) r'" "ohs r' \<subseteq> ohs rt \<union> ohs W" "ys r' \<subseteq> ys rt \<union> ys W" using Yt.IH(2) [OF z(7)] unfolding m'_def by blast
  have W: "cb_tree m' w W" using assms(2,3) m'(2) cb_tree_cong [of W m' m] by metis
  have "\<exists>T'. cb_tree m' u T' \<and> ohs T' \<subseteq> ohs (Yt a c lt rt) \<union> ohs W \<and> ys T' \<subseteq> ys (Yt a c lt rt) \<union> ys W"
  proof (cases "a = b")
    case True
    then have "z = y" using z(3) assms(1) by simp
    then show ?thesis
      using z True l r W m'(1) by (intro exI [of _ "Yt a c (if s then l' else W) (if s then W else r')"]) auto
  next
    case False
    then show ?thesis using z l r m'(2) by (intro exI [of _ "Yt a c l' r'"]) auto
  qed
  then show ?case by (simp add: m'_def fun_upd_def)
qed

text \<open>Where a walk for a digest can stand: the words it reads on its way down.\<close>

inductive walk_at :: "hcb \<Rightarrow> digest \<Rightarrow> word_ptr \<Rightarrow> bool" for r :: hcb and d :: digest where
  start: "walk_at r d Origo"
| down: "walk_at r d p \<Longrightarrow> rd_cell r p = Some pp \<Longrightarrow> hcb_is_y pp \<Longrightarrow> hcb_l_y pp = Some a \<Longrightarrow> ymem r a = Some y \<Longrightarrow>
    walk_at r d (Leaf a (y_side y d))"

lemma walk_at_tree:
  assumes "walk_at r d p" and "cb_tree (ymem r) (origo r) T"
  shows "(\<exists>u S. rd_cell r p = Some u \<and> cb_tree (ymem r) u S \<and> ys S \<subseteq> ys T \<and> ohs S \<subseteq> ohs T) \<and> (\<forall>a s. p = Leaf a s \<longrightarrow> a \<in> ys T)"
  using assms(1)
proof (induction rule: walk_at.induct)
  case start
  then show ?case using assms(2) by (auto simp: rd_cell_def)
next
  case (down p pp a y)
  then obtain S where S: "cb_tree (ymem r) pp S" "ys S \<subseteq> ys T" "ohs S \<subseteq> ohs T" by auto
  with down(3) obtain b c lt rt where T: "S = Yt b c lt rt" by (cases S) auto
  with S(1) down(4,5) have "b = a" "cb_tree (ymem r) (leaf0 y) lt" "cb_tree (ymem r) (leaf1 y) rt" by auto
  then show ?case using S T down(5)
    by (intro conjI exI [of _ "if y_side y d then leaf1 y else leaf0 y"] exI [of _ "if y_side y d then rt else lt"]) (auto simp: rd_cell_def)
qed

lemma rd_cell_cong: "origo r' = origo r \<Longrightarrow> ymem r' = ymem r \<Longrightarrow> rd_cell r' p = rd_cell r p"
  by (cases p) (simp_all add: rd_cell_def)

lemma rd_wr_cell:
  assumes "rd_cell r p \<noteq> None"
  shows "rd_cell (wr_cell r q w) p = (if p = q then Some w else rd_cell r p)"
proof (cases p)
  case Origo
  then show ?thesis by (cases q) (auto simp: rd_cell_def wr_cell_def)
next
  case (Leaf a s)
  then obtain y where "ymem r a = Some y" using assms by (auto simp: rd_cell_def)
  then show ?thesis using Leaf by (cases s; cases q) (auto simp: rd_cell_def wr_cell_def)
qed

text \<open>What a deletion and the rounds of the cleaner do to the memory of a worker that walks without the lock.\<close>

lemma hcb_delete_walks:
  assumes t: "cb_tree (ymem r) (origo r) T" and ok: "cb_ok (hcb_digest r) T" and yd: "ydistinct T" and oh: "oh \<in> ohs T"
    and S: "rd_cell r p = Some u" "cb_tree (ymem r) u S" "ohs S \<subseteq> ohs T" "ys S \<subseteq> ys T" and pT: "\<forall>a s. p = Leaf a s \<longrightarrow> a \<in> ys T"
  shows "\<exists>r' rem u. hcb_delete r oh = Some r' \<and> r' = r\<lparr>origo := origo r', ymem := ymem r', cool_y := cool_y r @ rem\<rparr> \<and>
    set rem \<subseteq> ys T \<and> dom (ymem r') = dom (ymem r) \<and> rd_cell r' p = Some u \<and>
    (u = 0 \<and> p = Origo \<or> (\<exists>S. cb_tree (ymem r') u S \<and> ohs S \<subseteq> ohs T \<and> ys S \<subseteq> ys T))"
proof -
  have al: "aligned oh" using tree_aligned [OF t oh] .
  have root: "origo r = 1 OR oh \<longleftrightarrow> T = Nd oh" using t al by (cases T) auto
  show ?thesis
  proof (cases "T = Nd oh")
    case True
    then have po: "p = Origo" using pT by (cases p) auto
    show ?thesis
      by (intro exI [of _ "r\<lparr>origo := 0\<rparr>"] exI [of _ "[]"] exI [of _ 0])
        (use True root al po in \<open>simp add: hcb_delete_def rd_cell_def\<close>)
  next
    case False
    then have y: "hcb_is_y (origo r)" using t oh by (cases T) auto
    obtain a q w W where 1: "hcb_delete_loop r oh Origo = Some ((wr_cell r q w)\<lparr>cool_y := cool_y r @ [a]\<rparr>)" "a \<in> ys T"
      "cb_tree (ymem r) w W" "ohs W \<subseteq> ohs T" "outside (ys W) q" "ys W \<subseteq> ys T" "q = Origo \<or> (\<exists>b s. q = Leaf b s \<and> b \<in> ys T)"
      using hcb_delete_writes [OF t _ yd _ ok oh False refl al, of Origo] by (auto simp: rd_cell_def outside_def)
    let ?r = "wr_cell r q w"
    have trees: "\<exists>S'. cb_tree (ymem ?r) v S' \<and> ohs S' \<subseteq> ohs V \<union> ohs W \<and> ys S' \<subseteq> ys V \<union> ys W" if "cb_tree (ymem r) v V" for v V
    proof (cases q)
      case Origo
      then show ?thesis using that by (auto simp: wr_cell_other)
    next
      case (Leaf b s)
      then obtain yb where b: "ymem r b = Some yb" using 1(7) tree_alloc [OF t] by fastforce
      have "ymem ?r = (ymem r)(b \<mapsto> set_leaf s w yb)" using Leaf b by (simp add: wr_cell_def)
      then show ?thesis using tree_after_write [OF b 1(3) _ that, of s] 1(5) Leaf by (simp add: outside_def)
    qed
    have "\<exists>v V. rd_cell ?r p = Some v \<and> cb_tree (ymem r) v V \<and> ohs V \<subseteq> ohs T \<and> ys V \<subseteq> ys T"
    proof (cases "p = q")
      case True
      then have "rd_cell ?r p = Some w" using S(1) rd_wr_cell [of r p q w] by simp
      then show ?thesis using 1(3,4,6) by blast
    next
      case False
      then have "rd_cell ?r p = Some u" using S(1) rd_wr_cell [of r p q w] by simp
      then show ?thesis using S by blast
    qed
    then obtain v V where v: "rd_cell ?r p = Some v" "cb_tree (ymem r) v V" "ohs V \<subseteq> ohs T" "ys V \<subseteq> ys T" by blast
    obtain S' where S': "cb_tree (ymem ?r) v S'" "ohs S' \<subseteq> ohs T" "ys S' \<subseteq> ys T" using trees [OF v(2)] v(3,4) 1(4,6) by blast
    let ?r' = "?r\<lparr>cool_y := cool_y r @ [a]\<rparr>"
    have "hcb_delete r oh = Some ?r'" using 1(1) y root False al by (simp add: hcb_delete_def)
    moreover have "?r' = r\<lparr>origo := origo ?r', ymem := ymem ?r', cool_y := cool_y r @ [a]\<rparr>" by (simp add: wr_cell_def split: word_ptr.split)
    moreover have "dom (ymem ?r') = dom (ymem r)" by (auto simp: wr_cell_def dom_def split: word_ptr.split)
    moreover have "rd_cell ?r' p = rd_cell ?r p" by (simp add: rd_cell_def split: word_ptr.split)
    ultimately show ?thesis using v(1) S' 1(2) by (intro exI [of _ ?r'] exI [of _ "[a]"] exI [of _ v]) auto
  qed
qed

lemma hcb_cleaner_memory:
  "ymem (hcb_cleaner r) = (ymem r) |` (- set (dead_y r))" "dead_y (hcb_cleaner r) = cool_y r" "cool_y (hcb_cleaner r) = []"
  "dead_h (hcb_cleaner r) = cool_h r" "cool_h (hcb_cleaner r) = []" "origo (hcb_cleaner r) = origo r"
  by (auto simp: hcb_cleaner_def Let_def restrict_map_def)

section \<open>Properties\<close>

text \<open>C6. The crit-bit index refines a map from digests to reference counts: a lookup with a fresh
  head returns (it does not hit an assertion and both walks end), the head it returns has the digest
  looked for and one reference more is counted for that digest and no other; the invariant is kept.\<close>

theorem critbit_lookup_refines:
  assumes "hcb_inv r" and "noh \<notin> hcb_heads r" and "hcb_refcnt r noh = 1"
    and "length (hcb_digest r noh) = DIGEST_LEN" and "hcb_ready r noh"
  shows "\<exists>r' oh. hcb_lookup r noh = Some (r', oh) \<and> hcb_inv r' \<and> oh \<in> hcb_heads r' \<and>
    hcb_digest r' oh = hcb_digest r noh \<and>
    index_map (hcb_heads r') (hcb_digest r') (hcb_refcnt r') =
      map_get (index_map (hcb_heads r) (hcb_digest r) (hcb_refcnt r)) (hcb_digest r noh)"
  using hcb.lookup_refines [OF assms] by (auto simp: hcb.refs_def)

text \<open>A worker with its spare node, before and after the first lookup.\<close>

definition wit_hcb :: "u64 \<Rightarrow> hcb" where
  "wit_hcb org = \<lparr>origo = org, ymem = [16 \<mapsto> \<lparr>critbit = 0, ptr = 0, bitmask = 0, leaf0 = 0, leaf1 = 0\<rparr>],
     hcb_digest = (\<lambda>h. replicate 32 (ucast h)), hcb_refcnt = (\<lambda>h. 1), nhashpriv = Some 16,
     cool_y = [], dead_y = [], cool_h = [], dead_h = []\<rparr>"

lemma aligned_lits: "aligned 4" "aligned 8" "aligned 16"
  by (simp_all add: aligned_def)

lemma wit_hcb_inv: "hcb_inv (wit_hcb 0)" "hcb_heads (wit_hcb 0) = {}" "hcb_ready (wit_hcb 0) 4"
  by (simp_all add: hcb_inv_def wit_hcb_def y_pool_def heads_empty hcb_ready_def aligned_lits)

lemma wit_hcb_inv1: "hcb_inv (wit_hcb 5)" "hcb_heads (wit_hcb 5) = {4}" "hcb_ready (wit_hcb 5) 8"
proof -
  have "cb_tree (ymem (wit_hcb 5)) (origo (wit_hcb 5)) (Nd 4)" using aligned_lits by (simp add: wit_hcb_def)
  then have h: "hcb_holds (wit_hcb 5) (Nd 4)" unfolding hcb_holds_def by (simp add: wit_hcb_def DIGEST_LEN_def y_pool_def)
  then show "hcb_heads (wit_hcb 5) = {4}" using heads_holds by simp
  have "\<forall>a. nhashpriv (wit_hcb 5) = Some a \<longrightarrow> a \<notin> y_pool (wit_hcb 5)" by (simp add: wit_hcb_def y_pool_def)
  then show "hcb_inv (wit_hcb 5)" using h unfolding hcb_inv_def by blast
  show "hcb_ready (wit_hcb 5) 8" by (simp add: wit_hcb_def hcb_ready_def aligned_lits)
qed

theorem critbit_lookup_refines_witness:
  "\<exists>r' oh. hcb_lookup (wit_hcb 5) 8 = Some (r', oh) \<and> hcb_inv r' \<and> oh \<in> hcb_heads r' \<and>
    hcb_digest r' oh = hcb_digest (wit_hcb 5) 8 \<and>
    index_map (hcb_heads r') (hcb_digest r') (hcb_refcnt r') =
      map_get (index_map (hcb_heads (wit_hcb 5)) (hcb_digest (wit_hcb 5)) (hcb_refcnt (wit_hcb 5))) (hcb_digest (wit_hcb 5) 8)"
  by (rule critbit_lookup_refines) (simp_all add: wit_hcb_inv1, simp_all add: wit_hcb_def DIGEST_LEN_def)

text \<open>C31. Giving back a reference to a head of the crit-bit index takes one off the count of its digest;
  the head leaves the tree with its last reference, and then it waits in the cooling list for the cleaner
  rather than being freed by the caller.\<close>

theorem critbit_deref_refines:
  assumes "hcb_inv r" and "oh \<in> hcb_heads r"
  shows "\<exists>r'. hcb_deref r oh = Some (r', True) \<and> hcb_inv r' \<and>
    index_map (hcb_heads r') (hcb_digest r') (hcb_refcnt r') =
      map_put (index_map (hcb_heads r) (hcb_digest r) (hcb_refcnt r)) (hcb_digest r oh) \<and>
    (oh \<in> hcb_heads r' \<longleftrightarrow> hcb_refcnt r oh > 1) \<and> (oh \<notin> hcb_heads r' \<longrightarrow> oh \<in> set (cool_h r'))"
proof -
  obtain r' b where 1: "hcb_deref r oh = Some (r', b)" "hcb_inv r'"
    "index_map (hcb_heads r') (hcb_digest r') (hcb_refcnt r') =
      map_put (index_map (hcb_heads r) (hcb_digest r) (hcb_refcnt r)) (hcb_digest r oh)"
    "oh \<in> hcb_heads r' \<longleftrightarrow> hcb_refcnt r oh > 1"
    using hcb.deref_refines [OF assms] by (auto simp: hcb.refs_def)
  have b: "b" using 1(1) by (auto simp: hcb_deref_def Let_def bind_eq_Some_conv split: if_splits)
  have "set (cool_h r') = insert oh (set (cool_h r)) \<or> hcb_heads r' = hcb_heads r"
    using hcb_deref_release [OF assms] 1(1) b by (auto split: if_splits)
  then show ?thesis using 1 b assms(2) by auto
qed

theorem critbit_deref_refines_witness:
  "\<exists>r'. hcb_deref (wit_hcb 5) 4 = Some (r', True) \<and> hcb_inv r' \<and>
    index_map (hcb_heads r') (hcb_digest r') (hcb_refcnt r') =
      map_put (index_map (hcb_heads (wit_hcb 5)) (hcb_digest (wit_hcb 5)) (hcb_refcnt (wit_hcb 5))) (hcb_digest (wit_hcb 5) 4) \<and>
    4 \<notin> hcb_heads r' \<and> 4 \<in> set (cool_h r')"
  using critbit_deref_refines [OF wit_hcb_inv1(1), of 4] by (simp add: wit_hcb_inv1) (fastforce simp: wit_hcb_def)

text \<open>C32. The walk down the crit-bit tree ends, at a head of the index, for every digest; it is the head with
  this digest when the index has one.\<close>

theorem critbit_walk_ends:
  assumes "hcb_inv r" and "origo r \<noteq> 0"
  shows "\<exists>p h. hcb_walk r d Origo = Some (p, 1 OR h) \<and> hcb_l_node (1 OR h) = Some h \<and> h \<in> hcb_heads r \<and>
    (\<forall>oh \<in> hcb_heads r. hcb_digest r oh = d \<longrightarrow> oh = h)"
  using assms(1)
proof (cases rule: hcb_inv_cases)
  case 1
  then show ?thesis using assms(2) by simp
next
  case (2 T)
  obtain p where p: "hcb_walk r d Origo = Some (p, 1 OR walkT d T)" using walk_origo [OF 2(1)] by blast
  have "hcb_digest r oh = d \<longrightarrow> oh = walkT d T" if "oh \<in> ohs T" for oh
    using walkT_find [of "hcb_digest r" T oh] 2(1) that unfolding hcb_holds_def by auto
  then show ?thesis using p walk_origo(2) [OF 2(1)] 2(2) walkT_in by (intro exI [of _ p] exI [of _ "walkT d T"]) simp
qed

theorem critbit_walk_ends_witness:
  "\<exists>p h. hcb_walk (wit_hcb 5) (replicate 32 3) Origo = Some (p, 1 OR h) \<and> hcb_l_node (1 OR h) = Some h \<and> h \<in> hcb_heads (wit_hcb 5)"
proof -
  have "origo (wit_hcb 5) \<noteq> 0" by (simp add: wit_hcb_def)
  from critbit_walk_ends [OF wit_hcb_inv1(1) this, of "replicate 32 3"] show ?thesis by blast
qed

text \<open>C33. What the cool-off is for: a lookup that walks down without the lock, and stands at any word of its way
  when the last reference to a head is given back and the cleaner makes a round, reads no freed memory as it goes on:
  its walk ends, at a head that was in the tree before (perhaps the removed one, whose reference count of zero
  the lookup then sees) or at the empty root.  The round frees exactly the inner nodes that were waiting since
  the round before, not the node just taken out, whose memory and whose head go with the next round; the index counts
  the same references throughout.\<close>

theorem critbit_walk_survives:
  assumes "hcb_inv r" and "oh \<in> hcb_heads r" and "hcb_refcnt r oh = 1" and "walk_at r d p"
  shows "\<exists>r1 rem q u. hcb_deref r oh = Some (r1, True) \<and> cool_y r1 = cool_y r @ rem \<and>
    hcb_walk (hcb_cleaner r1) d p = Some (q, u) \<and> (u = 0 \<or> (\<exists>h \<in> hcb_heads r. u = 1 OR h \<and> aligned h)) \<and>
    dom (ymem (hcb_cleaner r1)) = dom (ymem r) - set (dead_y r) \<and> set rem \<subseteq> dom (ymem (hcb_cleaner r1)) \<and>
    dom (ymem (hcb_cleaner (hcb_cleaner r1))) = dom (ymem r) - set (dead_y r) - set (cool_y r) - set rem \<and>
    oh \<in> set (dead_h (hcb_cleaner r1)) \<and> dead_h (hcb_cleaner (hcb_cleaner r1)) = [] \<and>
    hcb_inv (hcb_cleaner r1) \<and> hcb_heads (hcb_cleaner r1) = hcb_heads r - {oh} \<and>
    hcb_inv (hcb_cleaner (hcb_cleaner r1)) \<and> hcb_heads (hcb_cleaner (hcb_cleaner r1)) = hcb_heads r - {oh}"
  using assms(1)
proof (cases rule: hcb_inv_cases)
  case 1
  then show ?thesis using assms(2) by simp
next
  case (2 T)
  note T = 2(1) [unfolded hcb_holds_def]
  let ?r = "r\<lparr>hcb_refcnt := (hcb_refcnt r)(oh := hcb_refcnt r oh - 1)\<rparr>"
  obtain u0 S where S: "rd_cell r p = Some u0" "cb_tree (ymem r) u0 S" "ohs S \<subseteq> ohs T" "ys S \<subseteq> ys T" "\<forall>a s. p = Leaf a s \<longrightarrow> a \<in> ys T"
    using walk_at_tree [OF assms(4)] T by blast
  have "rd_cell ?r p = Some u0" using S(1) rd_cell_cong [of ?r r] by simp
  then obtain r' rem u where d: "hcb_delete ?r oh = Some r'" "r' = ?r\<lparr>origo := origo r', ymem := ymem r', cool_y := cool_y r @ rem\<rparr>"
    "set rem \<subseteq> ys T" "dom (ymem r') = dom (ymem r)" "rd_cell r' p = Some u"
    "u = 0 \<and> p = Origo \<or> (\<exists>S. cb_tree (ymem r') u S \<and> ohs S \<subseteq> ohs T \<and> ys S \<subseteq> ys T)"
    using hcb_delete_walks [of ?r T oh p u0 S] T S(2-5) assms(2) 2(2) by auto
  define r1 where "r1 = r'\<lparr>cool_h := cool_h r' @ [oh]\<rparr>"
  have dr: "hcb_deref r oh = Some (r1, True)" using d(1) assms(3) by (simp add: hcb_deref_def r1_def)
  have inv: "hcb_inv r1" "hcb_heads r1 = hcb_heads r - {oh}" "oh \<in> set (cool_h r1)"
    using hcb_deref_release [OF assms(1,2)] dr assms(3) by (auto simp: r1_def)
  have f: "cool_y r1 = cool_y r @ rem" "dead_y r1 = dead_y r" unfolding r1_def by (subst d(2), simp)+
  have m: "ymem r1 = ymem r'" "origo r1 = origo r'" by (simp_all add: r1_def)
  let ?c = "hcb_cleaner r1" and ?c2 = "hcb_cleaner (hcb_cleaner r1)"
  have live: "ymem ?c a = ymem r' a" if "a \<in> ys T" for a
    using T that f m by (auto simp: hcb_cleaner_memory y_pool_def restrict_map_def)
  have rdc: "rd_cell ?c p = Some u"
    using d(5) S(5) live m by (cases p) (auto simp: rd_cell_def hcb_cleaner_memory(6))
  have "\<exists>q v. hcb_walk ?c d p = Some (q, v) \<and> (v = 0 \<or> (\<exists>h \<in> hcb_heads r. v = 1 OR h \<and> aligned h))"
    using d(6)
  proof (elim disjE exE conjE)
    assume "u = 0"
    then show ?thesis using rdc by (subst hcb_walk.simps) (simp add: hcb_is_y_def)
  next
    fix V assume V: "cb_tree (ymem r') u V" "ohs V \<subseteq> ohs T" "ys V \<subseteq> ys T"
    then have "cb_tree (ymem ?c) u V" using live cb_tree_cong [of V "ymem ?c" "ymem r'"] by blast
    from hcb_walk_tree [OF this rdc, of d] show ?thesis using walkT_in [of d V] V(2) 2(2) by blast
  qed
  moreover have "set rem \<subseteq> dom (ymem ?c)"
  proof
    fix a assume "a \<in> set rem"
    then have "a \<in> ys T" using d(3) by blast
    moreover from this have "a \<in> dom (ymem r)" using tree_alloc T by blast
    then have "a \<in> dom (ymem r')" using d(4) by simp
    ultimately show "a \<in> dom (ymem ?c)" using live by auto
  qed
  moreover have "dom (ymem ?c) = dom (ymem r) - set (dead_y r)" "dom (ymem ?c2) = dom (ymem r) - set (dead_y r) - set (cool_y r) - set rem"
    using d(4) f m by (auto simp: hcb_cleaner_memory)
  moreover have "oh \<in> set (dead_h ?c)" "dead_h ?c2 = []" using inv(3) by (simp_all add: hcb_cleaner_memory)
  moreover have "hcb_inv ?c" "hcb_heads ?c = hcb_heads r - {oh}" using hcb_cleaner_keeps [OF inv(1)] inv(2) by simp_all
  moreover have "hcb_inv ?c2" "hcb_heads ?c2 = hcb_heads r - {oh}" using hcb_cleaner_keeps [of ?c] calculation(7,8) by simp_all
  ultimately show ?thesis using dr f(1) by blast
qed

text \<open>Two heads under one inner node, a node that waits for this round and one that waits for the next.\<close>

definition wit_hcb2 :: hcb where
  "wit_hcb2 = (wit_hcb 66)\<lparr>ymem := [64 \<mapsto> \<lparr>critbit = 4, ptr = 0, bitmask = 8, leaf0 = 5, leaf1 = 9\<rparr>,
       128 \<mapsto> \<lparr>critbit = 0, ptr = 0, bitmask = 0, leaf0 = 0, leaf1 = 0\<rparr>, 256 \<mapsto> \<lparr>critbit = 0, ptr = 0, bitmask = 0, leaf0 = 0, leaf1 = 0\<rparr>],
     nhashpriv := None, cool_y := [128], dead_y := [256]\<rparr>"

lemma wit_hcb2_inv: "hcb_inv wit_hcb2" "hcb_heads wit_hcb2 = {4, 8}"
proof -
  have "cb_tree (ymem wit_hcb2) (origo wit_hcb2) (Yt 64 4 (Nd 4) (Nd 8))"
    by (simp add: wit_hcb2_def wit_hcb_def y_ok_def aligned_def)
  then have h: "hcb_holds wit_hcb2 (Yt 64 4 (Nd 4) (Nd 8))"
    unfolding hcb_holds_def by (simp add: wit_hcb2_def wit_hcb_def DIGEST_LEN_def y_pool_def) (code_simp | simp)+
  then show "hcb_heads wit_hcb2 = {4, 8}" using heads_holds by auto
  show "hcb_inv wit_hcb2" using h unfolding hcb_inv_def by (auto simp: wit_hcb2_def)
qed

theorem critbit_walk_survives_witness:
  "\<exists>r1 rem q u. hcb_deref wit_hcb2 4 = Some (r1, True) \<and> cool_y r1 = 128 # rem \<and>
    hcb_walk (hcb_cleaner r1) (replicate 32 4) (Leaf 64 False) = Some (q, u) \<and> (u = 0 \<or> u = 5 \<or> u = 9) \<and>
    dom (ymem (hcb_cleaner r1)) = {64, 128} \<and> dom (ymem (hcb_cleaner (hcb_cleaner r1))) = {64} - set rem \<and>
    hcb_heads (hcb_cleaner (hcb_cleaner r1)) = {8}"
proof -
  have "walk_at wit_hcb2 (replicate 32 4) (Leaf 64 (y_side \<lparr>critbit = 4, ptr = 0, bitmask = 8, leaf0 = 5, leaf1 = 9\<rparr> (replicate 32 4)))"
    by (rule walk_at.down [OF walk_at.start, where pp = 66])
      (simp_all add: rd_cell_def wit_hcb2_def wit_hcb_def hcb_is_y_def hcb_l_y_def HCB_BIT_Y_def HCB_BIT_NODE_def)
  then have w: "walk_at wit_hcb2 (replicate 32 4) (Leaf 64 False)" by (simp add: y_side_def)
  have d: "dom (ymem wit_hcb2) - set (dead_y wit_hcb2) = {64, 128}" "set (cool_y wit_hcb2) = {128}" "cool_y wit_hcb2 = [128]"
    "hcb_refcnt wit_hcb2 4 = 1"
    by (auto simp: wit_hcb2_def wit_hcb_def)
  from critbit_walk_survives [OF wit_hcb2_inv(1) _ d(4) w]
  obtain r1 rem q u where 1: "hcb_deref wit_hcb2 4 = Some (r1, True)" "cool_y r1 = cool_y wit_hcb2 @ rem"
    "hcb_walk (hcb_cleaner r1) (replicate 32 4) (Leaf 64 False) = Some (q, u)" "u = 0 \<or> (\<exists>h \<in> hcb_heads wit_hcb2. u = 1 OR h \<and> aligned h)"
    "dom (ymem (hcb_cleaner r1)) = dom (ymem wit_hcb2) - set (dead_y wit_hcb2)"
    "dom (ymem (hcb_cleaner (hcb_cleaner r1))) = dom (ymem wit_hcb2) - set (dead_y wit_hcb2) - set (cool_y wit_hcb2) - set rem"
    "hcb_heads (hcb_cleaner (hcb_cleaner r1)) = hcb_heads wit_hcb2 - {4}"
    by (auto simp: wit_hcb2_inv(2))
  show ?thesis
    by (intro exI [of _ r1] exI [of _ rem] exI [of _ q] exI [of _ u]) (use 1 d wit_hcb2_inv(2) in auto)
qed

text \<open>C34. The three indices agree: when the sorted list, the buckets and the crit-bit tree count the same
  references for every digest, a lookup of the same digest succeeds in all three, returns a head with that
  digest, and leaves them counting the same references again.\<close>

theorem slingers_agree:
  assumes inv: "hsl_inv s" "hcl_inv t" "hcb_inv r"
    and same: "index_map (set (hsl_head s)) (hsl_digest s) (hsl_refcnt s) = M"
      "index_map (hcl_heads t) (hcl_digest t) (hcl_refcnt t) = M"
      "index_map (hcb_heads r) (hcb_digest r) (hcb_refcnt r) = M"
    and new: "n1 \<notin> set (hsl_head s)" "hsl_refcnt s n1 = 1" "hsl_digest s n1 = d"
      "n2 \<notin> hcl_heads t" "hcl_refcnt t n2 = 1" "hcl_digest t n2 = d"
      "n3 \<notin> hcb_heads r" "hcb_refcnt r n3 = 1" "hcb_digest r n3 = d" "hcb_ready r n3"
    and len: "length d = DIGEST_LEN"
  shows "\<exists>s' h1 t' h2 r' h3. hsl_lookup s n1 = Some (s', h1) \<and> hcl_lookup t n2 = Some (t', h2) \<and> hcb_lookup r n3 = Some (r', h3) \<and>
    hsl_digest s' h1 = d \<and> hcl_digest t' h2 = d \<and> hcb_digest r' h3 = d \<and>
    index_map (set (hsl_head s')) (hsl_digest s') (hsl_refcnt s') = map_get M d \<and>
    index_map (hcl_heads t') (hcl_digest t') (hcl_refcnt t') = map_get M d \<and>
    index_map (hcb_heads r') (hcb_digest r') (hcb_refcnt r') = map_get M d"
proof -
  have l: "length (hsl_digest s n1) = DIGEST_LEN" "length (hcl_digest t n2) = DIGEST_LEN" "length (hcb_digest r n3) = DIGEST_LEN"
    using new len by simp_all
  show ?thesis
    using hsl.lookup_refines [OF inv(1) new(1,2) l(1) TrueI] hcl.lookup_refines [OF inv(2) new(4,5) l(2) TrueI]
      hcb.lookup_refines [OF inv(3) new(7,8) l(3) new(10)] same new(3,6,9)
    unfolding hsl.refs_def hcl.refs_def hcb.refs_def by metis
qed

definition wit_hsl :: hsl where
  "wit_hsl = \<lparr>hsl_head = [4], hsl_digest = (\<lambda>h. replicate 32 (of_nat h)), hsl_refcnt = (\<lambda>_. 1)\<rparr>"

definition wit_hcl :: hcl where
  "wit_hcl = \<lparr>hcl_nhash = 1, hcl_head = (\<lambda>u. if u = 0 then [4] else []), hcl_digest = (\<lambda>h. replicate 32 (of_nat h)),
     hcl_refcnt = (\<lambda>_. 1), hoh_head = (\<lambda>_. 0)\<rparr>"

lemma index_map_single: "index_map {h} dg cn = [dg h \<mapsto> cn h]"
  by (rule index_map_eqI) auto

lemma wit_slingers: "hsl_inv wit_hsl" "hcl_inv wit_hcl" "hcl_heads wit_hcl = {4}"
  by (auto simp: hsl_inv_def hcl_inv_def wit_hsl_def wit_hcl_def sorted_heads_def DIGEST_LEN_def hcl_bucket_def hcl_heads_def
      split: if_splits)

theorem slingers_agree_witness:
  "\<exists>s' h1 t' h2 r' h3. hsl_lookup wit_hsl 8 = Some (s', h1) \<and> hcl_lookup wit_hcl 8 = Some (t', h2) \<and> hcb_lookup (wit_hcb 5) 8 = Some (r', h3) \<and>
    hsl_digest s' h1 = replicate 32 8 \<and> hcl_digest t' h2 = replicate 32 8 \<and> hcb_digest r' h3 = replicate 32 8 \<and>
    index_map (set (hsl_head s')) (hsl_digest s') (hsl_refcnt s') = map_get [replicate 32 4 \<mapsto> 1] (replicate 32 8) \<and>
    index_map (hcl_heads t') (hcl_digest t') (hcl_refcnt t') = map_get [replicate 32 4 \<mapsto> 1] (replicate 32 8) \<and>
    index_map (hcb_heads r') (hcb_digest r') (hcb_refcnt r') = map_get [replicate 32 4 \<mapsto> 1] (replicate 32 8)"
  by (rule slingers_agree [OF wit_slingers(1,2) wit_hcb_inv1(1)])
    (simp_all add: wit_slingers wit_hcb_inv1 index_map_single,
     simp_all add: wit_hsl_def wit_hcl_def wit_hcb_def DIGEST_LEN_def index_map_single)

end
