(* ===== verification/Cache_State.thy ===== *)
theory Cache_State
  imports Binheap Exp Critbit_Index
begin

text \<open>
  The shared state of the object cache: \<open>struct objhead\<close>, \<open>struct objcore\<close>, \<open>struct object\<close>,
  \<open>struct lru\<close> and \<open>struct ban\<close> of bin/varnishd/cache.h, hash_slinger.h, stevedore.h and
  cache_ban.c.  Object heads live in the crit-bit index (reference count and digest); everything else
  is reached by address.  A core that has been freed is \<open>None\<close>.  The fields of the object a core owns
  are kept with the core.  A list linked through a field (\<open>objcs\<close>, \<open>lru_head\<close>, \<open>ban_head\<close>, \<open>objcore\<close>)
  is the list of its members; \<open>tailq_remove\<close> fails when the element is not linked there, where
  the macro would corrupt the list.  Of the bytes of a ban specification the first eight, the
  time, are kept as the number \<open>ban_when\<close>; \<open>ban_spec\<close> are the bytes after them.
\<close>

section \<open>Data\<close>

record objcore =
  oc_refcnt :: nat
  oc_methods :: bool
  oc_objhead :: u64
  oc_busyobj :: "string option option"
  timer_when :: rat
  oc_busy :: bool
  oc_pass :: bool
  oc_lrudontmove :: bool
  oc_lurk :: nat
  oc_lru :: addr
  oc_ban :: "addr option"
  o_exp :: exp_t
  o_last_lru :: rat
  o_vary :: "string option"
  o_hits :: nat

record ban =
  ban_refcount :: nat
  ban_gone :: bool
  ban_req :: bool
  ban_lurk :: nat
  ban_objcore :: "addr list"
  ban_when :: rat
  ban_spec :: string

record cache =
  hidx :: hcb
  objcs :: "u64 \<Rightarrow> addr list"
  waitinglist :: "u64 \<Rightarrow> addr list option"
  hash_objhead :: "addr \<Rightarrow> u64 option"
  core :: "addr \<Rightarrow> objcore option"
  exp_heap :: "addr binheap"
  lru_head :: "addr \<Rightarrow> addr list"
  ban_head :: "addr list"
  bmem :: "addr \<Rightarrow> ban option"
  ban_start :: addr

definition tailq_remove :: "'a \<Rightarrow> 'a list \<Rightarrow> 'a list option" where
  "tailq_remove x l = (if x \<in> set l then Some (remove1 x l) else None)"

lemma tailq_remove_in [vas]: "x \<in> set l \<Longrightarrow> tailq_remove x l = Some (remove1 x l)"
  by (simp add: tailq_remove_def)

definition upd_core :: "addr \<Rightarrow> (objcore \<Rightarrow> objcore) \<Rightarrow> cache \<Rightarrow> cache" where
  "upd_core oc f s = s\<lparr>core := (core s)(oc := map_option f (core s oc))\<rparr>"

text \<open>The methods of the storages that are not persistent: the object is in memory and belongs to one LRU list.\<close>

definition oc_getobj :: "cache \<Rightarrow> addr \<Rightarrow> objcore option" where
  "oc_getobj s oc = do { c \<leftarrow> core s oc; vassert (\<not> oc_busy c); vassert (oc_methods c); Some c }"

definition oc_getlru :: "cache \<Rightarrow> addr \<Rightarrow> addr option" where
  "oc_getlru s oc = do { c \<leftarrow> core s oc; vassert (oc_methods c); Some (oc_lru c) }"

definition oc_updatemeta :: "cache \<Rightarrow> addr \<Rightarrow> unit option" where
  "oc_updatemeta s oc = do { c \<leftarrow> core s oc; vassert (oc_methods c) }"

definition HSH_Ref :: "cache \<Rightarrow> addr \<Rightarrow> cache option" where
  "HSH_Ref s oc = do {
     c \<leftarrow> core s oc;
     vassert (oc_refcnt c > 0);
     Some (upd_core oc (\<lambda>c. c\<lparr>oc_refcnt := oc_refcnt c + 1\<rparr>) s)
   }"

lemma upd_core_simps [simp]:
  "hidx (upd_core oc f s) = hidx s" "objcs (upd_core oc f s) = objcs s" "waitinglist (upd_core oc f s) = waitinglist s"
  "hash_objhead (upd_core oc f s) = hash_objhead s" "exp_heap (upd_core oc f s) = exp_heap s" "lru_head (upd_core oc f s) = lru_head s"
  "ban_head (upd_core oc f s) = ban_head s" "bmem (upd_core oc f s) = bmem s" "ban_start (upd_core oc f s) = ban_start s"
  "core (upd_core oc f s) = (core s)(oc := map_option f (core s oc))"
  by (simp_all add: upd_core_def)

section \<open>Timers and LRU lists\<close>

definition timer :: "cache \<Rightarrow> addr \<Rightarrow> rat" where
  "timer s oc = (case core s oc of Some c \<Rightarrow> timer_when c | None \<Rightarrow> 0)"

definition lru_of :: "cache \<Rightarrow> addr \<Rightarrow> addr" where
  "lru_of s oc = (case core s oc of Some c \<Rightarrow> oc_lru c | None \<Rightarrow> 0)"

definition has_obj :: "cache \<Rightarrow> addr \<Rightarrow> bool" where
  "has_obj s oc \<longleftrightarrow> (\<exists>c. core s oc = Some c \<and> oc_methods c)"

definition on_heap :: "cache \<Rightarrow> addr set" where
  "on_heap s = elems (exp_heap s)"

text \<open>
  A core is on the heap exactly when it is on the LRU list of its storage, once; its index
  field says whether it is.
\<close>

definition exp_inv :: "cache \<Rightarrow> bool" where
  "exp_inv s \<longleftrightarrow> heap_inv (key_cmp (timer s)) (exp_heap s) \<and>
     (\<forall>p. p \<notin> on_heap s \<longrightarrow> bh_idx (exp_heap s) p = BINHEAP_NOIDX) \<and>
     (\<forall>oc \<in> on_heap s. has_obj s oc) \<and>
     (\<forall>l. distinct (lru_head s l) \<and> set (lru_head s l) = {oc \<in> on_heap s. lru_of s oc = l})"

lemma exp_inv_heap: "exp_inv s \<Longrightarrow> heap_inv (key_cmp (timer s)) (exp_heap s)"
  by (simp add: exp_inv_def)

lemma exp_inv_idx:
  assumes "exp_inv s"
  shows "bh_idx (exp_heap s) oc = BINHEAP_NOIDX \<longleftrightarrow> oc \<notin> on_heap s"
  using bhq.busy [OF exp_inv_heap [OF assms], of oc] assms by (auto simp: exp_inv_def on_heap_def)

lemma exp_inv_lru: "exp_inv s \<Longrightarrow> distinct (lru_head s l)" "exp_inv s \<Longrightarrow> oc \<in> set (lru_head s l) \<longleftrightarrow> oc \<in> on_heap s \<and> lru_of s oc = l"
  by (auto simp: exp_inv_def)

text \<open>Whatever keeps the heap, the LRU lists and what they look at in the cores keeps the invariant.\<close>

lemma exp_inv_cong:
  assumes "exp_inv s" and "exp_heap s' = exp_heap s" and "lru_head s' = lru_head s"
    and c: "\<And>oc. oc \<in> on_heap s \<Longrightarrow> timer s' oc = timer s oc \<and> lru_of s' oc = lru_of s oc \<and> has_obj s' oc"
  shows "exp_inv s'" "on_heap s' = on_heap s"
proof -
  show oh: "on_heap s' = on_heap s" using assms(2) by (simp add: on_heap_def)
  have "heap_inv (key_cmp (timer s')) (exp_heap s')"
    unfolding assms(2) by (rule bhq.key_local [OF exp_inv_heap [OF assms(1)]]) (use c in \<open>simp add: on_heap_def\<close>)
  moreover have "{oc \<in> on_heap s. lru_of s' oc = l} = {oc \<in> on_heap s. lru_of s oc = l}" for l using c by auto
  ultimately show "exp_inv s'" using assms(1) c unfolding exp_inv_def oh assms(2,3) by simp
qed

lemma exp_inv_upd_core:
  assumes "exp_inv s" and "\<And>c. timer_when (f c) = timer_when c \<and> oc_lru (f c) = oc_lru c \<and> oc_methods (f c) = oc_methods c"
  shows "exp_inv (upd_core oc f s)" "on_heap (upd_core oc f s) = on_heap s"
proof -
  have c: "timer (upd_core oc f s) x = timer s x \<and> lru_of (upd_core oc f s) x = lru_of s x \<and> has_obj (upd_core oc f s) x = has_obj s x" for x
    using assms(2) by (auto simp: timer_def lru_of_def has_obj_def split: option.splits)
  have h: "has_obj s x" if "x \<in> on_heap s" for x using assms(1) that by (simp add: exp_inv_def)
  show "exp_inv (upd_core oc f s)" "on_heap (upd_core oc f s) = on_heap s"
    by (rule exp_inv_cong [OF assms(1)], simp, simp, simp add: c h)+
qed

end
