(* ===== verification/Expire.thy ===== *)
theory Expire
  imports Cache_State
begin

text \<open>
  bin/varnishd/cache_expire.c: objects enter the expiry heap and their LRU list, move when they are
  used or their timers change, and leave when their time has come or space is needed.  The heap is
  the binary heap of lib/libvarnish, used through its priority queue laws.  \<open>junk\<close> is the
  contents of the memory the heap may allocate, \<open>locked\<close> that another thread has the LRU lock.
\<close>

section \<open>Entering and moving\<close>

definition object_cmp :: "cache \<Rightarrow> addr \<Rightarrow> addr \<Rightarrow> bool" where
  "object_cmp s = key_cmp (timer s)"

definition update_object_when :: "exp_params \<Rightarrow> cache \<Rightarrow> addr \<Rightarrow> (cache \<times> bool) option" where
  "update_object_when params s oc = do {
     c \<leftarrow> core s oc;
     let when = exp_when params (o_exp c);
     if when = timer_when c then Some (s, False)
     else Some (upd_core oc (\<lambda>c. c\<lparr>timer_when := when\<rparr>) s, True)
   }"

definition exp_insert :: "(u32 \<Rightarrow> addr option) \<Rightarrow> cache \<Rightarrow> addr \<Rightarrow> addr \<Rightarrow> cache option" where
  "exp_insert junk s oc lru = do {
     vassert (bh_idx (exp_heap s) oc = BINHEAP_NOIDX);
     h \<leftarrow> binheap_insert (object_cmp s) junk (exp_heap s) oc;
     vassert (bh_idx h oc \<noteq> BINHEAP_NOIDX);
     Some (s\<lparr>exp_heap := h, lru_head := (lru_head s)(lru := lru_head s lru @ [oc])\<rparr>)
   }"

definition EXP_Inject :: "(u32 \<Rightarrow> addr option) \<Rightarrow> cache \<Rightarrow> addr \<Rightarrow> addr \<Rightarrow> rat \<Rightarrow> cache option" where
  "EXP_Inject junk s oc lru when = do {
     c \<leftarrow> core s oc;
     exp_insert junk (upd_core oc (\<lambda>c. c\<lparr>timer_when := when\<rparr>) s) oc lru
   }"

definition EXP_Insert :: "exp_params \<Rightarrow> (u32 \<Rightarrow> addr option) \<Rightarrow> cache \<Rightarrow> addr \<Rightarrow> cache option" where
  "EXP_Insert params junk s oc = do {
     c \<leftarrow> core s oc;
     vassert (oc_busy c);
     s \<leftarrow> HSH_Ref s oc;
     vassert (entered (o_exp c) \<noteq> 0);
     let s = upd_core oc (\<lambda>c. c\<lparr>o_last_lru := entered (o_exp c)\<rparr>) s;
     lru \<leftarrow> oc_getlru s oc;
     (s, _) \<leftarrow> update_object_when params s oc;
     s \<leftarrow> exp_insert junk s oc lru;
     oc_updatemeta s oc;
     Some s
   }"

definition EXP_Touch :: "bool \<Rightarrow> cache \<Rightarrow> addr \<Rightarrow> (cache \<times> bool) option" where
  "EXP_Touch locked s oc = do {
     c \<leftarrow> core s oc;
     if oc_lrudontmove c then Some (s, False)
     else do {
       lru \<leftarrow> oc_getlru s oc;
       if locked then Some (s, False)
       else if bh_idx (exp_heap s) oc \<noteq> BINHEAP_NOIDX then do {
         l \<leftarrow> tailq_remove oc (lru_head s lru);
         Some (s\<lparr>lru_head := (lru_head s)(lru := l @ [oc])\<rparr>, True)
       } else Some (s, True)
     }
   }"

text \<open>The argument is the core of the object, \<open>None\<close> when it has none.\<close>

definition EXP_Rearm :: "exp_params \<Rightarrow> cache \<Rightarrow> addr option \<Rightarrow> cache option" where
  "EXP_Rearm params s o' = (case o' of
       None \<Rightarrow> Some s
     | Some oc \<Rightarrow> do {
         lru \<leftarrow> oc_getlru s oc;
         s \<leftarrow> (if bh_idx (exp_heap s) oc \<noteq> BINHEAP_NOIDX then do {
                (s, moved) \<leftarrow> update_object_when params s oc;
                if moved then do {
                  h \<leftarrow> binheap_reorder (object_cmp s) (exp_heap s) (bh_idx (exp_heap s) oc);
                  vassert (bh_idx h oc \<noteq> BINHEAP_NOIDX);
                  Some (s\<lparr>exp_heap := h\<rparr>)
                } else Some s
              } else Some s);
         oc_updatemeta s oc;
         Some s
       })"

section \<open>They keep the invariant\<close>

text \<open>What an operation on the timers may change: \<open>S\<close> are the cores on the heap after it.\<close>

definition timers_only :: "cache \<Rightarrow> addr set \<Rightarrow> cache \<Rightarrow> bool" where
  "timers_only s S s' \<longleftrightarrow> exp_inv s' \<and> on_heap s' = S \<and>
     s'\<lparr>core := core s, exp_heap := exp_heap s, lru_head := lru_head s\<rparr> = s \<and>
     (\<forall>x. map_option (\<lambda>c. c\<lparr>timer_when := 0, o_last_lru := 0\<rparr>) (core s' x) =
          map_option (\<lambda>c. c\<lparr>timer_when := 0, o_last_lru := 0\<rparr>) (core s x))"

lemma set_timer_other: "x \<noteq> oc \<Longrightarrow> timer (upd_core oc f s) x = timer s x"
  "x \<noteq> oc \<Longrightarrow> lru_of (upd_core oc f s) x = lru_of s x" "x \<noteq> oc \<Longrightarrow> has_obj (upd_core oc f s) x = has_obj s x"
  by (simp_all add: timer_def lru_of_def has_obj_def)

lemma exp_inv_set_timer:
  assumes "exp_inv s" and "oc \<notin> on_heap s"
  shows "exp_inv (upd_core oc f s)" "on_heap (upd_core oc f s) = on_heap s"
proof -
  have c: "timer (upd_core oc f s) x = timer s x \<and> lru_of (upd_core oc f s) x = lru_of s x \<and> has_obj (upd_core oc f s) x"
    if "x \<in> on_heap s" for x
  proof -
    have "x \<noteq> oc" "has_obj s x" using assms that by (auto simp: exp_inv_def)
    then show ?thesis by (simp add: set_timer_other)
  qed
  show "exp_inv (upd_core oc f s)" "on_heap (upd_core oc f s) = on_heap s"
    by (rule exp_inv_cong [OF assms(1)]; simp add: c)+
qed

lemma exp_insert_spec:
  assumes inv: "exp_inv s" and new: "oc \<notin> on_heap s" and obj: "has_obj s oc" and lru: "lru_of s oc = lru"
    and room: "unat (bh_next (exp_heap s)) < 2 ^ 32 - 3 * 65536"
  shows "\<exists>h. exp_insert junk s oc lru = Some (s\<lparr>exp_heap := h, lru_head := (lru_head s)(lru := lru_head s lru @ [oc])\<rparr>) \<and>
    exp_inv (s\<lparr>exp_heap := h, lru_head := (lru_head s)(lru := lru_head s lru @ [oc])\<rparr>) \<and> elems h = insert oc (on_heap s)"
proof -
  note hi = exp_inv_heap [OF inv]
  have "oc \<notin> elems (exp_heap s)" using new by (simp add: on_heap_def)
  from bhq.ins_law [OF hi this room, of junk] obtain h where h: "binheap_insert (key_cmp (timer s)) junk (exp_heap s) oc = Some h"
    "heap_inv (key_cmp (timer s)) h" "elems h = insert oc (elems (exp_heap s))"
    "\<forall>x. x \<notin> elems h \<longrightarrow> (bh_idx h x = BINHEAP_NOIDX) = (bh_idx (exp_heap s) x = BINHEAP_NOIDX)" by blast
  let ?s = "s\<lparr>exp_heap := h, lru_head := (lru_head s)(lru := lru_head s lru @ [oc])\<rparr>"
  have idx: "bh_idx (exp_heap s) oc = BINHEAP_NOIDX" using exp_inv_idx [OF inv] new by blast
  have idx': "bh_idx h oc \<noteq> BINHEAP_NOIDX" using bhq.busy [OF h(2)] h(3) by blast
  have same: "timer ?s = timer s" "lru_of ?s = lru_of s" "has_obj ?s = has_obj s" "on_heap ?s = insert oc (on_heap s)"
    using h(3) by (simp_all add: fun_eq_iff timer_def lru_of_def has_obj_def on_heap_def)
  have "exp_inv ?s"
    unfolding exp_inv_def same using inv h new obj lru by (auto simp: exp_inv_def on_heap_def)
  then show ?thesis using h idx idx' by (auto simp: exp_insert_def object_cmp_def on_heap_def)
qed

lemma timers_only_refl: "exp_inv s \<Longrightarrow> timers_only s (on_heap s) s"
  by (simp add: timers_only_def)

lemma timers_only_trans: "timers_only s S s1 \<Longrightarrow> timers_only s1 S' s2 \<Longrightarrow> timers_only s S' s2"
proof -
  assume a: "timers_only s S s1" "timers_only s1 S' s2"
  have "s2\<lparr>core := core s, exp_heap := exp_heap s, lru_head := lru_head s\<rparr> =
    (s2\<lparr>core := core s1, exp_heap := exp_heap s1, lru_head := lru_head s1\<rparr>)\<lparr>core := core s, exp_heap := exp_heap s, lru_head := lru_head s\<rparr>"
    by simp
  also have "\<dots> = s" using a unfolding timers_only_def by metis
  finally show "timers_only s S' s2" using a unfolding timers_only_def by simp
qed

lemma timer_upd: "has_obj s oc \<Longrightarrow> timer (upd_core oc (\<lambda>c. c\<lparr>timer_when := w\<rparr>) s) oc = w"
  by (auto simp: timer_def has_obj_def)

lemma rearm_moved:
  fixes w :: rat
  assumes inv: "exp_inv s" and on: "oc \<in> on_heap s"
  defines "s1 \<equiv> upd_core oc (\<lambda>c. c\<lparr>timer_when := w\<rparr>) s"
  shows "\<exists>h. binheap_reorder (object_cmp s1) (exp_heap s1) (bh_idx (exp_heap s1) oc) = Some h \<and>
    bh_idx h oc \<noteq> BINHEAP_NOIDX \<and> timers_only s (on_heap s) (s1\<lparr>exp_heap := h\<rparr>)"
proof -
  have oc: "oc \<in> elems (exp_heap s)" "has_obj s oc" using on inv by (auto simp: on_heap_def exp_inv_def)
  have "\<forall>x. x \<noteq> oc \<longrightarrow> timer s1 x = timer s x" by (simp add: s1_def set_timer_other)
  from bhq.fixup_law [OF exp_inv_heap [OF inv] oc(1) this] obtain h where
    h: "binheap_reorder (key_cmp (timer s1)) (exp_heap s) (bh_idx (exp_heap s) oc) = Some h"
      "heap_inv (key_cmp (timer s1)) h" "elems h = elems (exp_heap s)"
      "\<forall>x. x \<notin> elems (exp_heap s) \<longrightarrow> (bh_idx h x = BINHEAP_NOIDX) = (bh_idx (exp_heap s) x = BINHEAP_NOIDX)" by blast
  let ?s = "s1\<lparr>exp_heap := h\<rparr>"
  have same: "timer ?s = timer s1" "lru_of ?s = lru_of s" "has_obj ?s = has_obj s" "on_heap ?s = on_heap s" "lru_head ?s = lru_head s"
    using h(3) by (auto simp: s1_def fun_eq_iff timer_def lru_of_def has_obj_def on_heap_def split: option.splits)
  have "exp_inv ?s" unfolding exp_inv_def same using inv h by (simp add: exp_inv_def on_heap_def)
  moreover have "?s\<lparr>core := core s, exp_heap := exp_heap s, lru_head := lru_head s\<rparr> = s" by (simp add: s1_def upd_core_def)
  moreover have "map_option (\<lambda>c. c\<lparr>timer_when := 0, o_last_lru := 0\<rparr>) (core ?s x) =
      map_option (\<lambda>c. c\<lparr>timer_when := 0, o_last_lru := 0\<rparr>) (core s x)" for x
    by (cases "core s x") (auto simp: s1_def)
  ultimately have "timers_only s (on_heap s) ?s" using same(4) by (simp add: timers_only_def)
  moreover have "bh_idx h oc \<noteq> BINHEAP_NOIDX" using bhq.busy [OF h(2), of oc] h(3) oc(1) by blast
  ultimately show ?thesis using h(1) by (auto simp: s1_def object_cmp_def)
qed

lemma EXP_Rearm_spec:
  assumes inv: "exp_inv s" and c: "core s oc = Some c" "oc_methods c"
  shows "\<exists>s'. EXP_Rearm params s (Some oc) = Some s' \<and> timers_only s (on_heap s) s' \<and>
    (oc \<in> on_heap s \<longrightarrow> timer s' oc = exp_when params (o_exp c)) \<and> (\<forall>x. x \<noteq> oc \<longrightarrow> core s' x = core s x)"
proof (cases "oc \<in> on_heap s \<and> exp_when params (o_exp c) \<noteq> timer_when c")
  case True
  let ?w = "exp_when params (o_exp c)"
  obtain h where h: "binheap_reorder (object_cmp (upd_core oc (\<lambda>c. c\<lparr>timer_when := ?w\<rparr>) s)) (exp_heap s) (bh_idx (exp_heap s) oc) = Some h"
    "bh_idx h oc \<noteq> BINHEAP_NOIDX" "timers_only s (on_heap s) ((upd_core oc (\<lambda>c. c\<lparr>timer_when := ?w\<rparr>) s)\<lparr>exp_heap := h\<rparr>)"
    using rearm_moved [OF inv, of oc ?w] True by auto
  let ?s = "(upd_core oc (\<lambda>c. c\<lparr>timer_when := ?w\<rparr>) s)\<lparr>exp_heap := h\<rparr>"
  have "EXP_Rearm params s (Some oc) = Some ?s"
    using True h c exp_inv_idx [OF inv, of oc] by (simp add: EXP_Rearm_def oc_getlru_def update_object_when_def oc_updatemeta_def)
  moreover have "timer ?s oc = ?w" using c by (simp add: timer_def)
  ultimately show ?thesis using h(3) by auto
next
  case False
  then have "EXP_Rearm params s (Some oc) = Some s"
    using c exp_inv_idx [OF inv, of oc] by (auto simp: EXP_Rearm_def oc_getlru_def update_object_when_def oc_updatemeta_def)
  moreover have "oc \<in> on_heap s \<longrightarrow> timer s oc = exp_when params (o_exp c)" using False c by (simp add: timer_def)
  ultimately show ?thesis using timers_only_refl [OF inv] by auto
qed

lemma EXP_Touch_spec:
  assumes inv: "exp_inv s" and c: "core s oc = Some c" "oc_methods c"
  shows "\<exists>s' r. EXP_Touch locked s oc = Some (s', r) \<and> timers_only s (on_heap s) s' \<and> core s' = core s \<and>
    (r \<and> oc \<in> on_heap s \<longrightarrow> last (lru_head s' (oc_lru c)) = oc)"
proof (cases "\<not> oc_lrudontmove c \<and> \<not> locked \<and> oc \<in> on_heap s")
  case True
  have l: "oc \<in> set (lru_head s (oc_lru c))" using exp_inv_lru(2) [OF inv] True c(1) by (simp add: lru_of_def)
  let ?s = "s\<lparr>lru_head := (lru_head s)(oc_lru c := remove1 oc (lru_head s (oc_lru c)) @ [oc])\<rparr>"
  have same: "timer ?s = timer s" "lru_of ?s = lru_of s" "has_obj ?s = has_obj s" "on_heap ?s = on_heap s"
    by (simp_all add: fun_eq_iff timer_def lru_of_def has_obj_def on_heap_def)
  have d: "distinct (lru_head s (oc_lru c))" using exp_inv_lru(1) [OF inv] .
  then have "distinct (lru_head ?s x) \<and> set (lru_head ?s x) = set (lru_head s x)" for x
    using l exp_inv_lru(1) [OF inv, of x] by auto
  then have "exp_inv ?s" unfolding exp_inv_def same using inv by (simp add: exp_inv_def)
  then have "timers_only s (on_heap s) ?s" using same(4) by (simp add: timers_only_def)
  moreover have "EXP_Touch locked s oc = Some (?s, True)"
    using True c l exp_inv_idx [OF inv, of oc] by (simp add: EXP_Touch_def oc_getlru_def tailq_remove_def)
  ultimately show ?thesis by auto
next
  case False
  then show ?thesis
    using c exp_inv_idx [OF inv, of oc] timers_only_refl [OF inv] by (auto simp: EXP_Touch_def oc_getlru_def)
qed

lemma EXP_Insert_spec:
  assumes inv: "exp_inv s" and c: "core s oc = Some c" "oc_methods c" "oc_busy c" "oc_refcnt c > 0" "entered (o_exp c) \<noteq> 0"
    and new: "oc \<notin> on_heap s" and room: "unat (bh_next (exp_heap s)) < 2 ^ 32 - 3 * 65536"
  shows "\<exists>s'. EXP_Insert params junk s oc = Some s' \<and>
    timers_only (upd_core oc (\<lambda>c. c\<lparr>oc_refcnt := oc_refcnt c + 1\<rparr>) s) (insert oc (on_heap s)) s' \<and>
    timer s' oc = exp_when params (o_exp c) \<and> last (lru_head s' (oc_lru c)) = oc"
proof -
  let ?w = "exp_when params (o_exp c)"
  define s0 where "s0 = upd_core oc (\<lambda>c. c\<lparr>oc_refcnt := oc_refcnt c + 1\<rparr>) s"
  define s1 where "s1 = upd_core oc (\<lambda>c. c\<lparr>o_last_lru := entered (o_exp c)\<rparr>) s0"
  define s2 where "s2 = upd_core oc (\<lambda>c. c\<lparr>timer_when := ?w\<rparr>) s1"
  have s2: "\<exists>b. update_object_when params s1 oc = Some (s2, b)"
    using c by (cases "?w = timer_when c") (auto simp: update_object_when_def Let_def s0_def s1_def s2_def upd_core_def)
  have on: "on_heap s1 = on_heap s" "on_heap s2 = on_heap s" "exp_heap s2 = exp_heap s"
    by (simp_all add: on_heap_def s0_def s1_def s2_def)
  have "exp_inv s0" unfolding s0_def by (rule exp_inv_set_timer [OF inv new])
  then have "exp_inv s1" unfolding s1_def by (rule exp_inv_set_timer) (simp add: s0_def on_heap_def new [unfolded on_heap_def])
  then have i2: "exp_inv s2" unfolding s2_def by (rule exp_inv_set_timer) (simp add: on new)
  have o2: "has_obj s2 oc" "lru_of s2 oc = oc_lru c" "timer s2 oc = ?w" using c by (simp_all add: s0_def s1_def s2_def has_obj_def lru_of_def timer_def)
  let ?s = "\<lambda>h. s2\<lparr>exp_heap := h, lru_head := (lru_head s2)(oc_lru c := lru_head s2 (oc_lru c) @ [oc])\<rparr>"
  obtain h where h: "exp_insert junk s2 oc (oc_lru c) = Some (?s h)" "exp_inv (?s h)" "elems h = insert oc (on_heap s)"
    using exp_insert_spec [OF i2 _ o2(1,2), of junk] new room on by auto
  have "EXP_Insert params junk s oc = Some (?s h)"
    using c s2 h(1) by (auto simp: EXP_Insert_def HSH_Ref_def s0_def [symmetric] s1_def [symmetric])
      (auto simp: oc_getlru_def oc_updatemeta_def s0_def s1_def s2_def)
  moreover have "timers_only s0 (insert oc (on_heap s)) (?s h)"
    using h(2,3) c(1) by (auto simp: timers_only_def on_heap_def s0_def s1_def s2_def upd_core_def)
  moreover have "timer (?s h) oc = ?w" using o2(3) by (simp add: timer_def)
  ultimately show ?thesis by (intro exI [of _ "?s h"]) (simp add: s0_def)
qed

end
