(* ===== verification/Ban.thy ===== *)
theory Ban
  imports Expire
begin

text \<open>
  The list of bans of bin/varnishd/cache_ban.c: newest first, each with the cores that were last
  checked against it.  A core is checked against the bans before its own; how one ban
  specification is evaluated is the argument \<open>eval\<close>.  Statistics and the log are left out.
\<close>

section \<open>Operations\<close>

definition upd_ban :: "addr \<Rightarrow> (ban \<Rightarrow> ban) \<Rightarrow> cache \<Rightarrow> cache" where
  "upd_ban b f s = s\<lparr>bmem := (bmem s)(b := map_option f (bmem s b))\<rparr>"

lemma upd_ban_simps [simp]:
  "hidx (upd_ban b f s) = hidx s" "objcs (upd_ban b f s) = objcs s" "waitinglist (upd_ban b f s) = waitinglist s"
  "hash_objhead (upd_ban b f s) = hash_objhead s" "exp_heap (upd_ban b f s) = exp_heap s" "lru_head (upd_ban b f s) = lru_head s"
  "ban_head (upd_ban b f s) = ban_head s" "core (upd_ban b f s) = core s" "ban_start (upd_ban b f s) = ban_start s"
  "bmem (upd_ban b f s) = (bmem s)(b := map_option f (bmem s b))"
  by (simp_all add: upd_ban_def)

definition BAN_TailRef :: "cache \<Rightarrow> (cache \<times> addr) option" where
  "BAN_TailRef s = do {
     vassert (ban_head s \<noteq> []);
     let b = last (ban_head s);
     Some (upd_ban b (\<lambda>b. b\<lparr>ban_refcount := ban_refcount b + 1\<rparr>) s, b)
   }"

definition BAN_TailDeref :: "cache \<Rightarrow> addr \<Rightarrow> cache" where
  "BAN_TailDeref s b = upd_ban b (\<lambda>b. b\<lparr>ban_refcount := ban_refcount b - 1\<rparr>) s"

text \<open>\<open>b\<close> is the address \<open>BAN_New\<close> returned, \<open>lump\<close> what \<open>BAN_AddTest\<close> has collected.\<close>

definition be32 :: "nat \<Rightarrow> string" where
  "be32 n = [char_of (n div 2 ^ 24 mod 256), char_of (n div 2 ^ 16 mod 256), char_of (n div 2 ^ 8 mod 256), char_of (n mod 256)]"

definition mk_spec :: "bool \<Rightarrow> string \<Rightarrow> string" where
  "mk_spec req lump = be32 (length lump + 13) @ (if req then CHR 0x01 else NUL) # lump"

text \<open>The hunt for duplicates among the older bans.\<close>

definition mark_dup :: "string \<Rightarrow> ban \<Rightarrow> ban" where
  "mark_dup spec b = (if ban_gone b \<or> ban_spec b \<noteq> spec then b else b\<lparr>ban_gone := True\<rparr>)"

definition BAN_Insert :: "bool \<Rightarrow> rat \<Rightarrow> cache \<Rightarrow> addr \<Rightarrow> bool \<Rightarrow> string \<Rightarrow> cache" where
  "BAN_Insert ban_dups t0 s b req lump =
     (let spec = mk_spec req lump;
          new = \<lparr>ban_refcount = 0, ban_gone = False, ban_req = req, ban_lurk = 0, ban_objcore = [], ban_when = t0, ban_spec = spec\<rparr>;
          older = ban_head s;
          s = s\<lparr>ban_head := b # ban_head s, bmem := (bmem s)(b \<mapsto> new), ban_start := b\<rparr>
      in if ban_dups
         then s\<lparr>bmem := (\<lambda>x. if x \<in> set older then map_option (mark_dup spec) (bmem s x) else bmem s x)\<rparr>
         else s)"

text \<open>The first ban: it has no test and is gone from the start.\<close>

definition BAN_Init :: "bool \<Rightarrow> rat \<Rightarrow> cache \<Rightarrow> addr \<Rightarrow> cache" where
  "BAN_Init ban_dups t0 s b = upd_ban b (\<lambda>b. b\<lparr>ban_gone := True\<rparr>) (BAN_Insert ban_dups t0 s b False [])"

definition BAN_NewObjCore :: "cache \<Rightarrow> addr \<Rightarrow> cache option" where
  "BAN_NewObjCore s oc = do {
     c \<leftarrow> core s oc;
     vassert (oc_ban c = None);
     Some (upd_ban (ban_start s) (\<lambda>b. b\<lparr>ban_refcount := ban_refcount b + 1, ban_objcore := ban_objcore b @ [oc]\<rparr>)
       (upd_core oc (\<lambda>c. c\<lparr>oc_ban := Some (ban_start s)\<rparr>) s))
   }"

definition ban_unlink :: "cache \<Rightarrow> addr \<Rightarrow> addr \<Rightarrow> cache option" where
  "ban_unlink s b oc = do {
     bn \<leftarrow> bmem s b;
     l \<leftarrow> tailq_remove oc (ban_objcore bn);
     Some (upd_ban b (\<lambda>b. b\<lparr>ban_refcount := ban_refcount b - 1, ban_objcore := l\<rparr>) s)
   }"

definition BAN_DestroyObj :: "cache \<Rightarrow> addr \<Rightarrow> cache option" where
  "BAN_DestroyObj s oc = do {
     c \<leftarrow> core s oc;
     (case oc_ban c of
        None \<Rightarrow> Some s
      | Some b \<Rightarrow> do {
          bn \<leftarrow> bmem s b;
          vassert (ban_refcount bn > 0);
          s \<leftarrow> ban_unlink s b oc;
          Some (upd_core oc (\<lambda>c. c\<lparr>oc_ban := None\<rparr>) s)
        })
   }"

text \<open>
  The walk from \<open>ban_start\<close> to the core's own ban: where it stops and how many
  bans it could not test.  The end of the list before that is a NULL pointer.
\<close>

fun ban_scan :: "(string \<Rightarrow> bool option) \<Rightarrow> (addr \<Rightarrow> ban option) \<Rightarrow> nat \<Rightarrow> bool \<Rightarrow> addr \<Rightarrow> addr list \<Rightarrow> nat \<Rightarrow> (addr \<times> nat) option" where
  "ban_scan eval m lurk has_req ocb [] skipped = None"
| "ban_scan eval m lurk has_req ocb (b # bs) skipped =
     (if b = ocb then Some (b, skipped)
      else do {
        bn \<leftarrow> m b;
        if ban_gone bn then ban_scan eval m lurk has_req ocb bs skipped
        else if ban_lurk bn \<noteq> 0 \<and> ban_lurk bn = lurk then do {
          vassert (\<not> ban_req bn);
          ban_scan eval m lurk has_req ocb bs skipped
        }
        else if \<not> has_req \<and> ban_req bn then ban_scan eval m lurk has_req ocb bs (skipped + 1)
        else do {
          r \<leftarrow> eval (ban_spec bn);
          if r then Some (b, skipped) else ban_scan eval m lurk has_req ocb bs skipped
        }
      })"

definition ban_check_object ::
  "exp_params \<Rightarrow> (string \<Rightarrow> bool option) \<Rightarrow> cache \<Rightarrow> addr \<Rightarrow> bool \<Rightarrow> (cache \<times> int) option" where
  "ban_check_object params eval s oc has_req = do {
     c \<leftarrow> core s oc;
     ocb \<leftarrow> oc_ban c;
     let b0 = ban_start s;
     if b0 = ocb then Some (s, 0)
     else do {
       (b, skipped) \<leftarrow> ban_scan eval (bmem s) (oc_lurk c) has_req ocb (ban_head s) 0;
       if b = ocb \<and> skipped > 0 then do { vassert (\<not> has_req); Some (s, -1) }
       else do {
         s \<leftarrow> ban_unlink s ocb oc;
         if b = ocb then do {
           let s = upd_ban b (\<lambda>b. b\<lparr>ban_lurk := 0\<rparr>) s;
           let s = upd_ban b0 (\<lambda>b. b\<lparr>ban_refcount := ban_refcount b + 1, ban_objcore := ban_objcore b @ [oc]\<rparr>) s;
           let s = upd_core oc (\<lambda>c. c\<lparr>oc_ban := Some b0\<rparr>) s;
           oc_updatemeta s oc;
           Some (s, 0)
         } else do {
           let s = upd_core oc (\<lambda>c. c\<lparr>o_exp := EXP_Clr, oc_ban := None\<rparr>) s;
           oc_updatemeta s oc;
           s \<leftarrow> EXP_Rearm params s (Some oc);
           Some (s, 1)
         }
       }
     }
   }"

definition BAN_CheckObject :: "exp_params \<Rightarrow> (string \<Rightarrow> bool option) \<Rightarrow> cache \<Rightarrow> addr \<Rightarrow> (cache \<times> bool) option" where
  "BAN_CheckObject params eval s oc = map_option (\<lambda>(s, r). (s, r > 0)) (ban_check_object params eval s oc True)"

definition ban_CheckLast :: "cache \<Rightarrow> cache \<times> addr option" where
  "ban_CheckLast s =
     (let b = last (ban_head s)
      in if b \<noteq> hd (ban_head s) \<and> (\<exists>bn. bmem s b = Some bn \<and> ban_refcount bn = 0)
         then (s\<lparr>ban_head := remove1 b (ban_head s)\<rparr>, Some b) else (s, None))"

definition BAN_Free :: "cache \<Rightarrow> addr \<Rightarrow> cache option" where
  "BAN_Free s b = do {
     bn \<leftarrow> bmem s b;
     vassert (ban_refcount bn = 0);
     vassert (ban_objcore bn = []);
     Some (s\<lparr>bmem := (bmem s)(b := None)\<rparr>)
   }"

section \<open>The invariant\<close>

definition bans_of :: "cache \<Rightarrow> addr \<Rightarrow> addr set" where
  "bans_of s b = {oc. \<exists>c. core s oc = Some c \<and> oc_ban c = Some b}"

definition ban_inv :: "cache \<Rightarrow> bool" where
  "ban_inv s \<longleftrightarrow> ban_head s \<noteq> [] \<and> ban_start s = hd (ban_head s) \<and> distinct (ban_head s) \<and>
     (\<forall>b \<in> set (ban_head s). \<exists>bn. bmem s b = Some bn \<and> distinct (ban_objcore bn) \<and>
        set (ban_objcore bn) = bans_of s b \<and> length (ban_objcore bn) \<le> ban_refcount bn) \<and>
     (\<forall>oc c b. core s oc = Some c \<longrightarrow> oc_ban c = Some b \<longrightarrow> b \<in> set (ban_head s))"

text \<open>A ban that is gone has the same specification as a newer one that is not, except for the first ban.\<close>

definition magic_spec :: string where
  "magic_spec = mk_spec False []"

definition spec_of :: "cache \<Rightarrow> addr \<Rightarrow> string" where
  "spec_of s b = (case bmem s b of Some bn \<Rightarrow> ban_spec bn | None \<Rightarrow> [])"

definition is_gone :: "cache \<Rightarrow> addr \<Rightarrow> bool" where
  "is_gone s b \<longleftrightarrow> (\<exists>bn. bmem s b = Some bn \<and> ban_gone bn)"

fun gone_dups :: "cache \<Rightarrow> addr list \<Rightarrow> addr list \<Rightarrow> bool" where
  "gone_dups s newer [] = True"
| "gone_dups s newer (b # bs) \<longleftrightarrow>
     (is_gone s b \<and> spec_of s b \<noteq> magic_spec \<longrightarrow> (\<exists>b' \<in> set newer. \<not> is_gone s b' \<and> spec_of s b' = spec_of s b)) \<and> gone_dups s (b # newer) bs"

lemma ban_invD:
  assumes "ban_inv s" and "b \<in> set (ban_head s)"
  obtains bn where "bmem s b = Some bn" "distinct (ban_objcore bn)" "set (ban_objcore bn) = bans_of s b"
    "length (ban_objcore bn) \<le> ban_refcount bn"
  using assms unfolding ban_inv_def by blast

lemma ban_inv_start: "ban_inv s \<Longrightarrow> ban_start s \<in> set (ban_head s)"
  by (auto simp: ban_inv_def)

text \<open>Only the lists of the bans a core leaves and enters change.\<close>

lemma ban_inv_upd:
  assumes inv: "ban_inv s" and h: "ban_head s' = ban_head s" "ban_start s' = ban_start s"
    and old: "\<And>b bn. b \<in> set (ban_head s) \<Longrightarrow> bmem s b = Some bn \<Longrightarrow> \<exists>bn'. bmem s' b = Some bn' \<and>
      (distinct (ban_objcore bn) \<longrightarrow> set (ban_objcore bn) = bans_of s b \<longrightarrow> length (ban_objcore bn) \<le> ban_refcount bn \<longrightarrow>
       distinct (ban_objcore bn') \<and> set (ban_objcore bn') = bans_of s' b \<and> length (ban_objcore bn') \<le> ban_refcount bn')"
    and c: "\<And>oc c b. core s' oc = Some c \<Longrightarrow> oc_ban c = Some b \<Longrightarrow> b \<in> set (ban_head s)"
  shows "ban_inv s'"
  unfolding ban_inv_def h
proof (intro conjI allI ballI impI)
  show "ban_head s \<noteq> []" "ban_start s = hd (ban_head s)" "distinct (ban_head s)" using inv by (simp_all add: ban_inv_def)
  show "b \<in> set (ban_head s)" if "core s' oc = Some c" "oc_ban c = Some b" for oc c b using c that .
  fix b
  assume b: "b \<in> set (ban_head s)"
  from ban_invD [OF inv b] obtain bn where bn: "bmem s b = Some bn" "distinct (ban_objcore bn)" "set (ban_objcore bn) = bans_of s b"
    "length (ban_objcore bn) \<le> ban_refcount bn" .
  from old [OF b bn(1)] bn(2-4) show "\<exists>bn. bmem s' b = Some bn \<and> distinct (ban_objcore bn) \<and> set (ban_objcore bn) = bans_of s' b \<and>
    length (ban_objcore bn) \<le> ban_refcount bn" by blast
qed

lemma ban_inv_cong:
  assumes "ban_inv s" and "ban_head s' = ban_head s" "ban_start s' = ban_start s" "bmem s' = bmem s"
    and c: "\<And>x. map_option oc_ban (core s' x) = map_option oc_ban (core s x)"
  shows "ban_inv s'"
proof -
  have "(\<exists>c. core s' x = Some c \<and> oc_ban c = Some b) \<longleftrightarrow> (\<exists>c. core s x = Some c \<and> oc_ban c = Some b)" for x b
    using c [of x] by (cases "core s x"; cases "core s' x") auto
  then have b: "bans_of s' b = bans_of s b" for b by (simp add: bans_of_def)
  show ?thesis
  proof (rule ban_inv_upd [OF assms(1-3)])
    fix oc c' b
    assume a: "core s' oc = Some c'" "oc_ban c' = Some b"
    with c [of oc] obtain c0 where "core s oc = Some c0" "oc_ban c0 = Some b" by (cases "core s oc") auto
    then show "b \<in> set (ban_head s)" using assms(1) unfolding ban_inv_def by blast
  qed (simp add: assms(4) b)
qed

text \<open>Taking a core off the list of its ban.\<close>

definition leave_ban :: "addr \<Rightarrow> addr \<Rightarrow> cache \<Rightarrow> cache" where
  "leave_ban b oc = upd_ban b (\<lambda>b. b\<lparr>ban_refcount := ban_refcount b - 1, ban_objcore := remove1 oc (ban_objcore b)\<rparr>)"

lemma ban_unlink_spec:
  assumes inv: "ban_inv s" and c: "core s oc = Some c" "oc_ban c = Some b" and f: "\<And>c. oc_ban (f c) = None"
  shows "ban_unlink s b oc = Some (leave_ban b oc s)" "ban_inv (upd_core oc f (leave_ban b oc s))"
    "\<exists>bn. bmem s b = Some bn \<and> ban_refcount bn > 0"
proof -
  have b: "b \<in> set (ban_head s)" using inv c unfolding ban_inv_def by blast
  from ban_invD [OF inv b] obtain bn where bn: "bmem s b = Some bn" "distinct (ban_objcore bn)" "set (ban_objcore bn) = bans_of s b"
    "length (ban_objcore bn) \<le> ban_refcount bn" .
  have oc: "oc \<in> set (ban_objcore bn)" using bn(3) c by (simp add: bans_of_def)
  then have pos: "ban_refcount bn > 0" using bn(4) length_pos_if_in_set [OF oc] by linarith
  let ?s = "upd_core oc f (leave_ban b oc s)"
  have bo: "bans_of ?s x = (if x = b then bans_of s b - {oc} else bans_of s x)" for x
    using c f by (auto simp: bans_of_def leave_ban_def split: if_splits)
  show "ban_inv ?s"
  proof (rule ban_inv_upd [OF inv])
    fix x bx
    assume x: "x \<in> set (ban_head s)" "bmem s x = Some bx"
    show "\<exists>bn'. bmem ?s x = Some bn' \<and>
       (distinct (ban_objcore bx) \<longrightarrow> set (ban_objcore bx) = bans_of s x \<longrightarrow> length (ban_objcore bx) \<le> ban_refcount bx \<longrightarrow>
        distinct (ban_objcore bn') \<and> set (ban_objcore bn') = bans_of ?s x \<and> length (ban_objcore bn') \<le> ban_refcount bn')"
      unfolding bo using x bn oc by (auto simp: length_remove1 leave_ban_def)
  next
    show "x \<in> set (ban_head s)" if "core ?s oc' = Some c'" "oc_ban c' = Some x" for oc' c' x
      using that inv f unfolding ban_inv_def by (auto simp: leave_ban_def split: if_splits)
  qed (simp_all add: leave_ban_def)
  show "ban_unlink s b oc = Some (leave_ban b oc s)"
    using bn oc by (simp add: ban_unlink_def tailq_remove_def leave_ban_def upd_ban_def)
  show "\<exists>bn. bmem s b = Some bn \<and> ban_refcount bn > 0" using bn(1) pos by blast
qed

text \<open>And putting it on the list of the newest ban.\<close>

lemma ban_link_spec:
  assumes inv: "ban_inv s" and c: "core s oc = Some c" "oc_ban c = None" and f: "\<And>c. oc_ban (f c) = Some (ban_start s)"
  shows "ban_inv (upd_core oc f (upd_ban (ban_start s) (\<lambda>b. b\<lparr>ban_refcount := ban_refcount b + 1, ban_objcore := ban_objcore b @ [oc]\<rparr>) s))"
    (is "ban_inv ?s")
proof (rule ban_inv_upd [OF inv])
  have bo: "bans_of ?s x = (if x = ban_start s then insert oc (bans_of s x) else bans_of s x)" for x
    using c f by (auto simp: bans_of_def)
  have new: "oc \<notin> bans_of s x" for x using c by (simp add: bans_of_def)
  fix x bx
  assume x: "x \<in> set (ban_head s)" "bmem s x = Some bx"
  show "\<exists>bn'. bmem ?s x = Some bn' \<and>
     (distinct (ban_objcore bx) \<longrightarrow> set (ban_objcore bx) = bans_of s x \<longrightarrow> length (ban_objcore bx) \<le> ban_refcount bx \<longrightarrow>
      distinct (ban_objcore bn') \<and> set (ban_objcore bn') = bans_of ?s x \<and> length (ban_objcore bn') \<le> ban_refcount bn')"
    unfolding bo using x new [of x] by (cases "x = ban_start s") auto
next
  show "x \<in> set (ban_head s)" if "core ?s oc' = Some c'" "oc_ban c' = Some x" for oc' c' x
    using that inv f ban_inv_start [OF inv] unfolding ban_inv_def by (auto split: if_splits)
qed simp_all

lemma ban_inv_lurk:
  assumes "ban_inv s" and "\<And>b. ban_objcore (f b) = ban_objcore b \<and> ban_refcount (f b) = ban_refcount b"
  shows "ban_inv (upd_ban b f s)"
proof (rule ban_inv_upd [OF assms(1)])
  have bo: "bans_of (upd_ban b f s) x = bans_of s x" for x by (simp add: bans_of_def)
  show "\<exists>bn'. bmem (upd_ban b f s) x = Some bn' \<and>
     (distinct (ban_objcore bx) \<longrightarrow> set (ban_objcore bx) = bans_of s x \<longrightarrow> length (ban_objcore bx) \<le> ban_refcount bx \<longrightarrow>
      distinct (ban_objcore bn') \<and> set (ban_objcore bn') = bans_of (upd_ban b f s) x \<and> length (ban_objcore bn') \<le> ban_refcount bn')"
    if "bmem s x = Some bx" for x bx
    unfolding bo using that assms(2) by auto
  show "x \<in> set (ban_head s)" if "core (upd_ban b f s) oc = Some c" "oc_ban c = Some x" for oc c x
    using that assms(1) unfolding ban_inv_def by auto
qed simp_all

section \<open>New bans\<close>

lemma BAN_Insert_inv:
  assumes inv: "ban_inv s" and new: "b \<notin> set (ban_head s)"
  shows "ban_inv (BAN_Insert dups t0 s b req lump)"
proof -
  let ?s = "BAN_Insert dups t0 s b req lump"
  have h: "ban_head ?s = b # ban_head s" "ban_start ?s = b" "core ?s = core s" by (simp_all add: BAN_Insert_def Let_def)
  have bo: "bans_of ?s x = bans_of s x" for x by (simp add: bans_of_def h)
  have free: "bans_of s b = {}" using inv new unfolding ban_inv_def bans_of_def by blast
  have "\<exists>bn. bmem ?s x = Some bn \<and> distinct (ban_objcore bn) \<and> set (ban_objcore bn) = bans_of s x \<and>
      length (ban_objcore bn) \<le> ban_refcount bn" if x: "x \<in> set (ban_head s)" for x
  proof -
    obtain bn where bn: "bmem s x = Some bn" "distinct (ban_objcore bn)" "set (ban_objcore bn) = bans_of s x"
      "length (ban_objcore bn) \<le> ban_refcount bn" using ban_invD [OF inv x] .
    have "x \<noteq> b" using x new by auto
    then have "bmem ?s x = Some bn \<or> bmem ?s x = Some (mark_dup (mk_spec req lump) bn)" using bn(1) by (simp add: BAN_Insert_def Let_def)
    then show ?thesis using bn by (auto simp: mark_dup_def)
  qed
  moreover have "\<exists>bn. bmem ?s b = Some bn \<and> distinct (ban_objcore bn) \<and> set (ban_objcore bn) = bans_of s b \<and>
      length (ban_objcore bn) \<le> ban_refcount bn" using new free by (auto simp: BAN_Insert_def Let_def)
  ultimately show ?thesis
    using inv new unfolding ban_inv_def h bo by auto
qed

lemma gone_dups_mono:
  "gone_dups s N bs \<Longrightarrow> (\<And>x. x \<in> set N \<union> set bs \<Longrightarrow> is_gone s' x = is_gone s x \<and> spec_of s' x = spec_of s x) \<Longrightarrow> set N \<subseteq> set N' \<Longrightarrow>
   gone_dups s' N' bs"
proof (induction bs arbitrary: N N')
  case (Cons b bs)
  have "gone_dups s' (b # N') bs" using Cons by (intro Cons.IH [of "b # N"]) auto
  then show ?case using Cons.prems by fastforce
qed simp

text \<open>The head of the list is not gone, and after marking the duplicates every gone ban still has a newer one like it.\<close>

lemma gone_dups_insert:
  assumes "gone_dups s N bs" and spec: "\<And>x. x \<in> set N \<union> set bs \<Longrightarrow> spec_of s' x = spec_of s x"
    and gone: "\<And>x. x \<in> set N \<union> set bs \<Longrightarrow> is_gone s' x \<longleftrightarrow> is_gone s x \<or> dups \<and> spec_of s x = spec_of s' b"
    and b: "\<not> is_gone s' b"
  shows "gone_dups s' (N @ [b]) bs"
  using assms(1-3)
proof (induction bs arbitrary: N)
  case (Cons a bs)
  have "gone_dups s' ((a # N) @ [b]) bs" using Cons by (intro Cons.IH) auto
  moreover have "\<exists>b' \<in> set (N @ [b]). \<not> is_gone s' b' \<and> spec_of s' b' = spec_of s' a" if g: "is_gone s' a" "spec_of s' a \<noteq> magic_spec"
  proof (cases "dups \<and> spec_of s a = spec_of s' b")
    case True
    then show ?thesis using b Cons.prems(2) by auto
  next
    case False
    then have "is_gone s a" "spec_of s a \<noteq> magic_spec" using g Cons.prems(2,3) by auto
    then obtain b' where b': "b' \<in> set N" "\<not> is_gone s b'" "spec_of s b' = spec_of s a" using Cons.prems(1) by auto
    then show ?thesis using Cons.prems(2,3) False by (intro bexI [of _ b']) auto
  qed
  ultimately show ?case by simp
qed simp

lemma BAN_Insert_gone:
  assumes inv: "ban_inv s" and new: "b \<notin> set (ban_head s)" and g: "gone_dups s [] (ban_head s)"
  shows "gone_dups (BAN_Insert dups t0 s b req lump) [] (ban_head (BAN_Insert dups t0 s b req lump))"
proof -
  let ?s = "BAN_Insert dups t0 s b req lump"
  have h: "ban_head ?s = b # ban_head s" by (simp add: BAN_Insert_def Let_def)
  have b: "\<not> is_gone ?s b" "spec_of ?s b = mk_spec req lump" using new by (simp_all add: BAN_Insert_def Let_def is_gone_def spec_of_def)
  have x: "spec_of ?s x = spec_of s x" "is_gone ?s x \<longleftrightarrow> is_gone s x \<or> dups \<and> spec_of s x = spec_of ?s b" if xin: "x \<in> set (ban_head s)" for x
  proof -
    obtain bn where bn: "bmem s x = Some bn" using ban_invD [OF inv xin] by metis
    have "x \<noteq> b" using xin new by auto
    then have m: "bmem ?s x = Some (if dups then mark_dup (mk_spec req lump) bn else bn)"
      using xin bn by (simp add: BAN_Insert_def Let_def)
    show "spec_of ?s x = spec_of s x" "is_gone ?s x \<longleftrightarrow> is_gone s x \<or> dups \<and> spec_of s x = spec_of ?s b"
      unfolding b(2) using m bn by (auto simp: spec_of_def is_gone_def mark_dup_def)
  qed
  have "gone_dups ?s ([] @ [b]) (ban_head s)" by (rule gone_dups_insert [OF g _ _ b(1)]) (use x in auto)
  then show ?thesis unfolding h using b(1) by simp
qed

section \<open>The walk\<close>

text \<open>The bans newer than a core's own.\<close>

definition newer :: "cache \<Rightarrow> addr \<Rightarrow> addr list" where
  "newer s b = takeWhile (\<lambda>x. x \<noteq> b) (ban_head s)"

text \<open>Every specification can be evaluated, and the lurker has tested what carries the core's colour.\<close>

definition evaluable :: "(string \<Rightarrow> bool option) \<Rightarrow> (addr \<Rightarrow> ban option) \<Rightarrow> nat \<Rightarrow> addr \<Rightarrow> bool" where
  "evaluable eval m lurk b \<longleftrightarrow> (\<exists>bn. m b = Some bn \<and> eval (ban_spec bn) \<noteq> None \<and>
     (ban_lurk bn \<noteq> 0 \<and> ban_lurk bn = lurk \<longrightarrow> \<not> ban_req bn \<and> eval (ban_spec bn) = Some False))"

definition hits :: "(string \<Rightarrow> bool option) \<Rightarrow> (addr \<Rightarrow> ban option) \<Rightarrow> addr \<Rightarrow> bool" where
  "hits eval m b \<longleftrightarrow> (\<exists>bn. m b = Some bn \<and> \<not> ban_gone bn \<and> eval (ban_spec bn) = Some True)"

lemma gone_dups_newer:
  assumes "gone_dups s N bs" and "b \<in> set (takeWhile P bs)" and "is_gone s b" and "spec_of s b \<noteq> magic_spec"
  shows "\<exists>b' \<in> set N \<union> set (takeWhile P bs). \<not> is_gone s b' \<and> spec_of s b' = spec_of s b"
  using assms(1,2)
proof (induction bs arbitrary: N)
  case (Cons a bs)
  then show ?case
  proof (cases "a = b")
    case False
    then have "b \<in> set (takeWhile P bs)" "gone_dups s (a # N) bs" "P a" using Cons.prems by (auto split: if_splits)
    then show ?thesis using Cons.IH [of "a # N"] by auto
  qed (use Cons.prems assms(3,4) in \<open>auto split: if_splits\<close>)
qed simp

text \<open>Dropping the duplicates loses nothing.\<close>

lemma hits_all:
  assumes inv: "ban_inv s" and g: "gone_dups s [] (ban_head s)" and m: "\<forall>b \<in> set (ban_head s). spec_of s b = magic_spec \<longrightarrow> is_gone s b"
  shows "(\<exists>b \<in> set (newer s ocb). hits eval (bmem s) b) \<longleftrightarrow> (\<exists>b \<in> set (newer s ocb). spec_of s b \<noteq> magic_spec \<and> eval (spec_of s b) = Some True)"
proof -
  have sub: "b \<in> set (ban_head s)" if "b \<in> set (newer s ocb)" for b using that by (auto simp: newer_def dest: set_takeWhileD)
  have h: "hits eval (bmem s) b \<longleftrightarrow> \<not> is_gone s b \<and> eval (spec_of s b) = Some True" if b: "b \<in> set (newer s ocb)" for b
    by (rule ban_invD [OF inv sub [OF b]]) (simp add: hits_def is_gone_def spec_of_def)
  show ?thesis
  proof
    assume "\<exists>b \<in> set (newer s ocb). hits eval (bmem s) b"
    then show "\<exists>b \<in> set (newer s ocb). spec_of s b \<noteq> magic_spec \<and> eval (spec_of s b) = Some True" using h m sub by blast
  next
    assume "\<exists>b \<in> set (newer s ocb). spec_of s b \<noteq> magic_spec \<and> eval (spec_of s b) = Some True"
    then obtain b where b: "b \<in> set (newer s ocb)" "spec_of s b \<noteq> magic_spec" "eval (spec_of s b) = Some True" by blast
    show "\<exists>b \<in> set (newer s ocb). hits eval (bmem s) b"
    proof (cases "is_gone s b")
      case True
      then obtain b' where "b' \<in> set (newer s ocb)" "\<not> is_gone s b'" "spec_of s b' = spec_of s b"
        using gone_dups_newer [OF g, of b "\<lambda>x. x \<noteq> ocb"] b by (auto simp: newer_def)
      then show ?thesis using h b(3) by metis
    qed (use h b in blast)
  qed
qed

lemma ban_scan_req:
  assumes "ocb \<in> set bs" and "\<forall>b \<in> set (takeWhile (\<lambda>x. x \<noteq> ocb) bs). evaluable eval m lurk b"
  shows "\<exists>b. ban_scan eval m lurk True ocb bs k = Some (b, k) \<and>
    (b = ocb \<longleftrightarrow> (\<forall>x \<in> set (takeWhile (\<lambda>x. x \<noteq> ocb) bs). \<not> hits eval m x))"
  using assms
proof (induction bs)
  case (Cons b bs)
  show ?case
  proof (cases "b = ocb")
    case True
    then show ?thesis by simp
  next
    case False
    with Cons.prems obtain bn r where bn: "m b = Some bn" "eval (ban_spec bn) = Some r"
      "ban_lurk bn \<noteq> 0 \<and> ban_lurk bn = lurk \<longrightarrow> \<not> ban_req bn \<and> r = False"
      by (auto simp: evaluable_def)
    from Cons False obtain b' where IH: "ban_scan eval m lurk True ocb bs k = Some (b', k)"
      "b' = ocb \<longleftrightarrow> (\<forall>x \<in> set (takeWhile (\<lambda>x. x \<noteq> ocb) bs). \<not> hits eval m x)" by auto
    have hb: "hits eval m b \<longleftrightarrow> \<not> ban_gone bn \<and> r" using bn by (simp add: hits_def)
    show ?thesis using False bn IH hb by auto
  qed
qed simp

section \<open>Checking an object\<close>

text \<open>What the reference counting of the cache looks at.\<close>

definition core_refs :: "objcore \<Rightarrow> nat \<times> bool \<times> u64 \<times> bool \<times> string option option \<times> addr \<times> string option \<times> nat" where
  "core_refs c = (oc_refcnt c, oc_methods c, oc_objhead c, oc_busy c, oc_busyobj c, oc_lru c, o_vary c, oc_lurk c)"

definition same_refs :: "cache \<Rightarrow> cache \<Rightarrow> bool" where
  "same_refs s s' \<longleftrightarrow> hidx s' = hidx s \<and> objcs s' = objcs s \<and> waitinglist s' = waitinglist s \<and> hash_objhead s' = hash_objhead s \<and>
     on_heap s' = on_heap s \<and> (\<forall>x. map_option core_refs (core s' x) = map_option core_refs (core s x))"

text \<open>The bans themselves stay, except that one loses the lurker's colour.\<close>

definition ban_view :: "ban \<Rightarrow> string \<times> bool \<times> bool" where
  "ban_view b = (ban_spec b, ban_gone b, ban_req b)"

definition bans_keep :: "cache \<Rightarrow> cache \<Rightarrow> bool" where
  "bans_keep s s' \<longleftrightarrow> ban_head s' = ban_head s \<and> ban_start s' = ban_start s \<and>
     (\<forall>b. map_option ban_view (bmem s' b) = map_option ban_view (bmem s b)) \<and>
     (\<forall>b bn bn'. bmem s' b = Some bn' \<longrightarrow> bmem s b = Some bn \<longrightarrow> ban_lurk bn' = ban_lurk bn \<or> ban_lurk bn' = 0)"

lemma bans_keep_refl [simp]: "bans_keep s s"
  by (simp add: bans_keep_def)

lemma bans_keep_trans: "bans_keep s s1 \<Longrightarrow> bans_keep s1 s2 \<Longrightarrow> bans_keep s s2"
  unfolding bans_keep_def by (metis option.map_disc_iff option.exhaust)

lemma bans_keep_hits: "bans_keep s s' \<Longrightarrow> hits eval (bmem s') b = hits eval (bmem s) b"
  unfolding bans_keep_def hits_def
  by (drule conjunct2, drule conjunct2, drule conjunct1, drule spec [of _ b])
    (cases "bmem s b"; cases "bmem s' b"; simp add: ban_view_def)

lemma bans_keep_newer: "bans_keep s s' \<Longrightarrow> newer s' b = newer s b"
  by (simp add: bans_keep_def newer_def)

lemma same_refs_refl [simp]: "same_refs s s"
  by (simp add: same_refs_def)

lemma same_refs_trans: "same_refs s s1 \<Longrightarrow> same_refs s1 s2 \<Longrightarrow> same_refs s s2"
  by (simp add: same_refs_def)

lemma same_refs_upd_core:
  assumes "\<And>c. core_refs (f c) = core_refs c"
  shows "same_refs s (upd_core oc f s)"
  using assms by (auto simp: same_refs_def on_heap_def option.map_comp comp_def)

lemma same_refs_upd_ban: "same_refs s (upd_ban b f s)"
  by (simp add: same_refs_def on_heap_def)

lemma timers_only_fields:
  assumes "timers_only s S s'"
  shows "hidx s' = hidx s" "objcs s' = objcs s" "waitinglist s' = waitinglist s" "hash_objhead s' = hash_objhead s"
    "ban_head s' = ban_head s" "bmem s' = bmem s" "ban_start s' = ban_start s" "exp_inv s'" "on_heap s' = S"
    "map_option core_refs (core s' x) = map_option core_refs (core s x)"
    "map_option oc_ban (core s' x) = map_option oc_ban (core s x)"
    "map_option o_exp (core s' x) = map_option o_exp (core s x)"
proof -
  have s: "s = s'\<lparr>core := core s, exp_heap := exp_heap s, lru_head := lru_head s\<rparr>" using assms by (simp add: timers_only_def)
  show "hidx s' = hidx s" "objcs s' = objcs s" "waitinglist s' = waitinglist s" "hash_objhead s' = hash_objhead s"
    "ban_head s' = ban_head s" "bmem s' = bmem s" "ban_start s' = ban_start s" by (subst s, simp)+
  show "exp_inv s'" "on_heap s' = S" using assms by (simp_all add: timers_only_def)
  let ?n = "\<lambda>c. c\<lparr>timer_when := 0, o_last_lru := 0\<rparr>"
  have n: "map_option ?n (core s' x) = map_option ?n (core s x)" using assms by (simp add: timers_only_def)
  have g: "map_option (\<lambda>c. g (?n c)) (core s' x) = map_option (\<lambda>c. g (?n c)) (core s x)" for g :: "objcore \<Rightarrow> 'b"
    using arg_cong [OF n, of "map_option g"] by (simp add: option.map_comp comp_def)
  have "core_refs (?n c) = core_refs c" for c by (simp add: core_refs_def)
  then show "map_option core_refs (core s' x) = map_option core_refs (core s x)" using g [of core_refs] by simp
  show "map_option oc_ban (core s' x) = map_option oc_ban (core s x)" using g [of oc_ban] by simp
  show "map_option o_exp (core s' x) = map_option o_exp (core s x)" using g [of o_exp] by simp
qed

lemma timers_only_refs: "timers_only s (on_heap s) s' \<Longrightarrow> same_refs s s'"
  using timers_only_fields [of s "on_heap s" s'] by (simp add: same_refs_def)

lemma timers_only_ban:
  assumes "timers_only s S s'" and "ban_inv s"
  shows "ban_inv s'"
  by (rule ban_inv_cong [OF assms(2)]) (rule timers_only_fields [OF assms(1)])+

lemma leave_ban_simps [simp]:
  "hidx (leave_ban b oc s) = hidx s" "objcs (leave_ban b oc s) = objcs s" "waitinglist (leave_ban b oc s) = waitinglist s"
  "hash_objhead (leave_ban b oc s) = hash_objhead s" "exp_heap (leave_ban b oc s) = exp_heap s" "lru_head (leave_ban b oc s) = lru_head s"
  "ban_head (leave_ban b oc s) = ban_head s" "core (leave_ban b oc s) = core s" "ban_start (leave_ban b oc s) = ban_start s"
  by (simp_all add: leave_ban_def)

text \<open>Whatever changes no core but one, and of that nothing the timers or the references look at.\<close>

lemma one_core_keeps:
  assumes ei: "exp_inv s" and c: "core s oc = Some c" "core s' oc = Some c'" "\<And>x. x \<noteq> oc \<Longrightarrow> core s' x = core s x"
    and r: "core_refs c' = core_refs c" and t: "timer_when c' = timer_when c"
    and f: "hidx s' = hidx s" "objcs s' = objcs s" "waitinglist s' = waitinglist s" "hash_objhead s' = hash_objhead s"
      "exp_heap s' = exp_heap s" "lru_head s' = lru_head s"
  shows "exp_inv s'" "same_refs s s'"
proof -
  have e: "timer s' x = timer s x \<and> lru_of s' x = lru_of s x \<and> has_obj s' x = has_obj s x" for x
    using c r t by (cases "x = oc") (auto simp: timer_def lru_of_def has_obj_def core_refs_def)
  have h: "has_obj s x" if "x \<in> on_heap s" for x using ei that by (simp add: exp_inv_def)
  show "exp_inv s'" by (rule exp_inv_cong [OF ei f(5,6)]) (use e h in simp)
  have "map_option core_refs (core s' x) = map_option core_refs (core s x)" for x
    using c r by (cases "x = oc") simp_all
  then show "same_refs s s'" using f by (simp add: same_refs_def on_heap_def)
qed

lemma ban_check_clean:
  assumes ei: "exp_inv s" and bi: "ban_inv s" and c: "core s oc = Some c" "oc_methods c" "oc_ban c = Some ocb"
    and sc: "ban_scan eval (bmem s) (oc_lurk c) True ocb (ban_head s) 0 = Some (ocb, 0)" and ne: "ban_start s \<noteq> ocb"
  shows "\<exists>s'. ban_check_object params eval s oc True = Some (s', 0) \<and> exp_inv s' \<and> ban_inv s' \<and> same_refs s s' \<and>
    core s' = (core s)(oc \<mapsto> c\<lparr>oc_ban := Some (ban_start s)\<rparr>) \<and> bans_keep s s'"
proof -
  note un = ban_unlink_spec [OF bi c(1,3), of "\<lambda>c. c\<lparr>oc_ban := None\<rparr>"]
  define s1 where "s1 = leave_ban ocb oc s"
  define s2 where "s2 = upd_ban ocb (\<lambda>b. b\<lparr>ban_lurk := 0\<rparr>) (upd_core oc (\<lambda>c. c\<lparr>oc_ban := None\<rparr>) s1)"
  have i2: "ban_inv s2" unfolding s2_def using un(2) by (intro ban_inv_lurk) (simp_all add: s1_def)
  have c2: "core s2 oc = Some (c\<lparr>oc_ban := None\<rparr>)" "ban_start s2 = ban_start s" using c by (simp_all add: s1_def s2_def)
  define s3 where "s3 = upd_core oc (\<lambda>c. c\<lparr>oc_ban := Some (ban_start s)\<rparr>)
    (upd_ban (ban_start s) (\<lambda>b. b\<lparr>ban_refcount := ban_refcount b + 1, ban_objcore := ban_objcore b @ [oc]\<rparr>) s2)"
  have i3: "ban_inv s3" unfolding s3_def c2(2) [symmetric] by (rule ban_link_spec [OF i2 c2(1)]) simp_all
  have e3: "s3 = upd_core oc (\<lambda>c. c\<lparr>oc_ban := Some (ban_start s)\<rparr>)
    (upd_ban (ban_start s) (\<lambda>b. b\<lparr>ban_refcount := ban_refcount b + 1, ban_objcore := ban_objcore b @ [oc]\<rparr>)
      (upd_ban ocb (\<lambda>b. b\<lparr>ban_lurk := 0\<rparr>) s1))"
    using c by (simp add: s3_def s2_def s1_def upd_core_def upd_ban_def leave_ban_def)
  have c3: "core s3 = (core s)(oc \<mapsto> c\<lparr>oc_ban := Some (ban_start s)\<rparr>)" using c by (simp add: s3_def s2_def s1_def)
  have "ban_check_object params eval s oc True = Some (s3, 0)"
    using c ne sc un(1) e3 c3 by (simp add: ban_check_object_def s1_def oc_updatemeta_def Let_def)
  moreover have c3': "core s3 oc = Some (c\<lparr>oc_ban := Some (ban_start s)\<rparr>)" "\<And>x. x \<noteq> oc \<Longrightarrow> core s3 x = core s x" by (simp_all add: c3)
  have "exp_inv s3" "same_refs s s3"
    by (rule one_core_keeps [OF ei c(1) c3']; simp add: core_refs_def s3_def s2_def s1_def)+
  moreover have "bans_keep s s3" by (auto simp: bans_keep_def ban_view_def [abs_def] s3_def s2_def s1_def leave_ban_def option.map_comp comp_def split: if_splits)
  ultimately show ?thesis using i3 c3 by blast
qed

lemma ban_check_banned:
  assumes ei: "exp_inv s" and bi: "ban_inv s" and c: "core s oc = Some c" "oc_methods c" "oc_ban c = Some ocb"
    and sc: "ban_scan eval (bmem s) (oc_lurk c) True ocb (ban_head s) 0 = Some (b, 0)" and ne: "ban_start s \<noteq> ocb" "b \<noteq> ocb"
  shows "\<exists>s' c'. ban_check_object params eval s oc True = Some (s', 1) \<and> exp_inv s' \<and> ban_inv s' \<and> same_refs s s' \<and>
    core s' = (core s)(oc \<mapsto> c') \<and> o_exp c' = EXP_Clr \<and> oc_ban c' = None \<and> bans_keep s s'"
proof -
  note un = ban_unlink_spec [OF bi c(1,3), of "\<lambda>c. c\<lparr>o_exp := EXP_Clr, oc_ban := None\<rparr>"]
  define s2 where "s2 = upd_core oc (\<lambda>c. c\<lparr>o_exp := EXP_Clr, oc_ban := None\<rparr>) (leave_ban ocb oc s)"
  have c2: "core s2 oc = Some (c\<lparr>o_exp := EXP_Clr, oc_ban := None\<rparr>)" "\<And>x. x \<noteq> oc \<Longrightarrow> core s2 x = core s x" using c by (simp_all add: s2_def)
  have e2: "exp_inv s2" "same_refs s s2"
    by (rule one_core_keeps [OF ei c(1) c2]; simp add: core_refs_def s2_def)+
  obtain s3 where s3: "EXP_Rearm params s2 (Some oc) = Some s3" "timers_only s2 (on_heap s2) s3" "\<forall>x. x \<noteq> oc \<longrightarrow> core s3 x = core s2 x"
    using EXP_Rearm_spec [OF e2(1) c2(1), of params] c(2) by auto
  note f3 = timers_only_fields [OF s3(2)]
  have "ban_check_object params eval s oc True = Some (s3, 1)"
    using c ne sc un(1) s3(1) c2(1) by (simp add: ban_check_object_def s2_def oc_updatemeta_def Let_def)
  moreover have "ban_inv s3" using timers_only_ban [OF s3(2)] un(2) by (simp add: s2_def)
  moreover have "same_refs s s3" using timers_only_refs [OF s3(2)] same_refs_trans e2(2) by blast
  moreover obtain c3 where c3: "core s3 oc = Some c3" "o_exp c3 = EXP_Clr" "oc_ban c3 = None"
    using f3(11,12) [of oc] c2(1) by auto
  moreover have "core s3 = (core s)(oc \<mapsto> c3)" using c3(1) s3(3) c2(2) by auto
  moreover have "bans_keep s s3" using f3(5-7)
    by (auto simp: bans_keep_def ban_view_def [abs_def] s2_def leave_ban_def option.map_comp comp_def split: if_splits)
  ultimately show ?thesis using f3(8) by blast
qed

text \<open>
  Checking an object against the bans newer than its own: it is banned exactly when one of them that is
  not gone matches; then its timers are cleared, otherwise it moves to the newest ban.
\<close>

lemma ban_check_spec:
  assumes ei: "exp_inv s" and bi: "ban_inv s" and c: "core s oc = Some c" "oc_methods c" "oc_ban c = Some ocb"
    and ev: "\<forall>b \<in> set (newer s ocb). evaluable eval (bmem s) (oc_lurk c) b"
  shows "\<exists>s' c'. ban_check_object params eval s oc True = Some (s', if \<exists>b \<in> set (newer s ocb). hits eval (bmem s) b then 1 else 0) \<and>
    exp_inv s' \<and> ban_inv s' \<and> same_refs s s' \<and> core s' oc = Some c' \<and> bans_keep s s' \<and>
    (\<forall>x. x \<noteq> oc \<longrightarrow> core s' x = core s x) \<and>
    (if \<exists>b \<in> set (newer s ocb). hits eval (bmem s) b then o_exp c' = EXP_Clr \<and> oc_ban c' = None
     else o_exp c' = o_exp c \<and> oc_ban c' = Some (ban_start s))"
proof -
  have ob: "ocb \<in> set (ban_head s)" using bi c unfolding ban_inv_def by blast
  have st: "ban_start s = hd (ban_head s)" "ban_head s \<noteq> []" using bi by (simp_all add: ban_inv_def)
  obtain b where b: "ban_scan eval (bmem s) (oc_lurk c) True ocb (ban_head s) 0 = Some (b, 0)"
    "b = ocb \<longleftrightarrow> (\<forall>x \<in> set (newer s ocb). \<not> hits eval (bmem s) x)"
    using ban_scan_req [OF ob, of eval "bmem s" "oc_lurk c" 0] ev unfolding newer_def by blast
  show ?thesis
  proof (cases "ban_start s = ocb")
    case True
    then have "newer s ocb = []" using st by (cases "ban_head s") (auto simp: newer_def)
    moreover have "ban_check_object params eval s oc True = Some (s, 0)" using True c by (simp add: ban_check_object_def)
    ultimately show ?thesis using ei bi c True by auto
  next
    case ne: False
    show ?thesis
    proof (cases "b = ocb")
      case True
      then have "\<not> (\<exists>x \<in> set (newer s ocb). hits eval (bmem s) x)" using b(2) by blast
      then show ?thesis using ban_check_clean [OF ei bi c _ ne, of eval params] b(1) True by auto
    next
      case False
      then have "\<exists>x \<in> set (newer s ocb). hits eval (bmem s) x" using b(2) by blast
      then show ?thesis using ban_check_banned [OF ei bi c b(1) ne False, of params] by auto
    qed
  qed
qed

end
