(* ===== verification/Hash.thy ===== *)
theory Hash
  imports Ban Vary
begin

text \<open>
  bin/varnishd/cache_hash.c: from the digest of a request to an object.  A lookup takes a reference to the
  object head of the digest; on a hit it is given back, on a miss the new busy core inherits it, and a session that
  waits for a busy object keeps it in \<open>hash_objhead\<close>.  What a session brings to a lookup is the record
  \<open>lreq\<close>; how a vary string matches its request (\<open>VRY_Match\<close>), whether its director is healthy and how a ban
  is evaluated on an object and the request are functions in it.  In the code \<open>VRY_Match\<close> also writes to the session's
  \<open>vary_b\<close> and \<open>vary_l\<close>: it keeps the request's own string there to compare the next object with.  The answer does not depend
  on what an earlier match left in the buffer (theory Vary), so here a match is a function of the stored string, and \<open>vary_b\<close>, \<open>vary_l\<close>
  of \<open>lreq\<close> are the buffer as the walk leaves it, which a miss hands to the busy core.  A match that aborts is \<open>None\<close>.  Calls are atomic.  Statistics, the log and
  the debugging hook \<open>hsh_testmagic\<close> are left out.
\<close>

section \<open>Preallocation\<close>

record wprealloc =
  nobjcore :: "addr option"
  nobjhead :: "u64 option"
  nwaitinglist :: bool
  nbusyobj :: bool

text \<open>What \<open>ALLOC_OBJ\<close> returns: zeroed memory; the fields of the object come with \<open>STV_NewObject\<close>.\<close>

definition zero_core :: objcore where
  "zero_core = \<lparr>oc_refcnt = 0, oc_methods = False, oc_objhead = 0, oc_busyobj = None, timer_when = 0, oc_busy = False, oc_pass = False,
     oc_lrudontmove = False, oc_lurk = 0, oc_lru = 0, oc_ban = None, o_exp = EXP_Clr, o_last_lru = 0, o_vary = None, o_hits = 0\<rparr>"

text \<open>\<open>a\<close>, \<open>h\<close> and \<open>y\<close> are the addresses the allocator would return.\<close>

definition HSH_Prealloc :: "addr \<Rightarrow> u64 \<Rightarrow> u64 \<Rightarrow> cache \<Rightarrow> wprealloc \<Rightarrow> cache \<times> wprealloc" where
  "HSH_Prealloc a h y s w =
     (let (s, w) = (case nobjcore w of None \<Rightarrow> (s\<lparr>core := (core s)(a \<mapsto> zero_core\<lparr>oc_busy := True\<rparr>)\<rparr>, w\<lparr>nobjcore := Some a\<rparr>)
                    | Some _ \<Rightarrow> (s, w));
          (s, w) = (case nobjhead w of
                      None \<Rightarrow> (s\<lparr>hidx := (hidx s)\<lparr>hcb_refcnt := (hcb_refcnt (hidx s))(h := 1)\<rparr>,
                                 objcs := (objcs s)(h := []), waitinglist := (waitinglist s)(h := None)\<rparr>, w\<lparr>nobjhead := Some h\<rparr>)
                    | Some _ \<Rightarrow> (s, w));
          w = w\<lparr>nwaitinglist := True, nbusyobj := True\<rparr>
      in (s\<lparr>hidx := hcb_prep (hidx s) y\<rparr>, w))"

definition HSH_Cleanup :: "cache \<Rightarrow> wprealloc \<Rightarrow> cache \<times> wprealloc" where
  "HSH_Cleanup s w =
     (let s = (case nobjcore w of None \<Rightarrow> s | Some a \<Rightarrow> s\<lparr>core := (core s)(a := None)\<rparr>);
          i = hidx s;
          i = (case nhashpriv i of None \<Rightarrow> i | Some y \<Rightarrow> i\<lparr>ymem := (ymem i)(y := None), nhashpriv := None\<rparr>)
      in (s\<lparr>hidx := i\<rparr>, w\<lparr>nobjcore := None, nobjhead := None, nwaitinglist := False, nbusyobj := False\<rparr>))"

section \<open>Lookup\<close>

record lreq =
  r_sess :: addr
  r_digest :: digest
  r_exp :: exp_t
  t_req :: rat
  hash_ignore_busy :: bool
  hash_always_miss :: bool
  esi_level :: nat
  vary_b :: string
  vary_l :: bool
  vmatch :: "string \<Rightarrow> bool option"
  vhealthy :: bool
  beval :: "addr \<Rightarrow> string \<Rightarrow> bool option"

definition vary_ok :: "lreq \<Rightarrow> string option \<Rightarrow> bool option" where
  "vary_ok q v = (case v of None \<Rightarrow> Some True | Some v \<Rightarrow> vmatch q v)"

text \<open>The least expired of the objects in grace, with its time of expiry.\<close>

definition better_grace :: "(addr \<times> rat) option \<Rightarrow> addr \<Rightarrow> exp_t \<Rightarrow> (addr \<times> rat) option" where
  "better_grace g oc e = (case g of
       None \<Rightarrow> Some (oc, entered e + ttl e)
     | Some (_, t) \<Rightarrow> if t < entered e + ttl e then Some (oc, entered e + ttl e) else g)"

text \<open>The walk over the cores of the head: the fresh object found, a busy core seen, the best object in grace.\<close>

fun lookup_loop :: "exp_params \<Rightarrow> lreq \<Rightarrow> u64 \<Rightarrow> cache \<Rightarrow> addr list \<Rightarrow> addr option \<Rightarrow> (addr \<times> rat) option \<Rightarrow>
    (cache \<times> addr option \<times> addr option \<times> (addr \<times> rat) option) option" where
  "lookup_loop params q oh s [] busy_oc gr = Some (s, None, busy_oc, gr)"
| "lookup_loop params q oh s (oc # ocs) busy_oc gr = do {
     vassert (hcb_refcnt (hidx s) oh > 1);
     c \<leftarrow> core s oc;
     vassert (oc_objhead c = oh);
     if oc_busy c then do {
       bo \<leftarrow> oc_busyobj c;
       if hash_ignore_busy q \<or> hash_always_miss q then lookup_loop params q oh s ocs busy_oc gr
       else do {
         m \<leftarrow> vary_ok q bo;
         lookup_loop params q oh s ocs (if m then Some oc else busy_oc) gr
       }
     } else do {
       c \<leftarrow> oc_getobj s oc;
       if ttl (o_exp c) \<le> 0 then lookup_loop params q oh s ocs busy_oc gr
       else do {
         (s, banned) \<leftarrow> BAN_CheckObject params (beval q oc) s oc;
         if banned then lookup_loop params q oh s ocs busy_oc gr
         else do {
           m \<leftarrow> vary_ok q (o_vary c);
           if \<not> m then lookup_loop params q oh s ocs busy_oc gr
           else if EXP_Ttl (Some (r_exp q)) (o_exp c) \<ge> t_req q then Some (s, Some oc, busy_oc, gr)
           else if EXP_Grace params (Some (r_exp q)) (o_exp c) \<ge> t_req q
           then lookup_loop params q oh s ocs busy_oc (better_grace gr oc (o_exp c))
           else lookup_loop params q oh s ocs busy_oc gr
         }
       }
     }
   }"

datatype lookup_res = LHit addr u64 | LWait | LMiss addr u64

definition INT_MAX :: nat where "INT_MAX = 2 ^ 31 - 1"

text \<open>The head: the one a session off the waiting list brings along, or the one the index finds.\<close>

definition lookup_head :: "lreq \<Rightarrow> cache \<Rightarrow> wprealloc \<Rightarrow> (cache \<times> wprealloc \<times> u64) option" where
  "lookup_head q s w = do {
     noh \<leftarrow> nobjhead w;
     let s = s\<lparr>hidx := (hidx s)\<lparr>hcb_digest := (hcb_digest (hidx s))(noh := r_digest q)\<rparr>\<rparr>;
     (case hash_objhead s (r_sess q) of
        Some oh \<Rightarrow> Some (s\<lparr>hash_objhead := (hash_objhead s)(r_sess q := None)\<rparr>, w, oh)
      | None \<Rightarrow> do {
          (i, oh) \<leftarrow> hcb_lookup (hidx s) noh;
          Some (s\<lparr>hidx := i\<rparr>, if oh = noh then w\<lparr>nobjhead := None\<rparr> else w, oh)
        })
   }"

definition lookup_hit :: "cache \<Rightarrow> u64 \<Rightarrow> addr \<Rightarrow> cache option" where
  "lookup_hit s oh oc = do {
     c \<leftarrow> oc_getobj s oc;
     vassert (oc_objhead c = oh);
     let s = upd_core oc (\<lambda>c. c\<lparr>oc_refcnt := oc_refcnt c + 1, o_hits := if o_hits c < INT_MAX then o_hits c + 1 else o_hits c\<rparr>) s;
     vassert (hcb_refcnt (hidx s) oh > 1);
     (i, r) \<leftarrow> hcb_deref (hidx s) oh;
     vassert r;
     Some (s\<lparr>hidx := i\<rparr>)
   }"

definition lookup_wait :: "lreq \<Rightarrow> cache \<Rightarrow> wprealloc \<Rightarrow> u64 \<Rightarrow> (cache \<times> wprealloc) option" where
  "lookup_wait q s w oh = do {
     (s, w) \<leftarrow> (if esi_level q = 0 then do {
                  vassert (nwaitinglist w);
                  let wl = (case waitinglist s oh of None \<Rightarrow> [] | Some l \<Rightarrow> l);
                  Some (s\<lparr>waitinglist := (waitinglist s)(oh \<mapsto> wl @ [r_sess q])\<rparr>,
                        if waitinglist s oh = None then w\<lparr>nwaitinglist := False\<rparr> else w)
                } else Some (s, w));
     Some (s\<lparr>hash_objhead := (hash_objhead s)(r_sess q \<mapsto> oh)\<rparr>, w)
   }"

definition lookup_miss :: "lreq \<Rightarrow> cache \<Rightarrow> wprealloc \<Rightarrow> u64 \<Rightarrow> (cache \<times> wprealloc \<times> addr) option" where
  "lookup_miss q s w oh = do {
     oc \<leftarrow> nobjcore w;
     c \<leftarrow> core s oc;
     vassert (oc_busy c);
     VRY_Validate (vary_b q);
     vassert (nbusyobj w);
     let s = upd_core oc (\<lambda>c. c\<lparr>oc_refcnt := 1, oc_busyobj := Some (if vary_l q then Some (vary_b q) else None), oc_objhead := oh\<rparr>) s;
     Some (s\<lparr>objcs := (objcs s)(oh := objcs s oh @ [oc])\<rparr>, w\<lparr>nobjcore := None, nbusyobj := False\<rparr>, oc)
   }"

text \<open>The object in grace is used when no live one was found and a fetch is under way or impossible.\<close>

definition pick_oc :: "lreq \<Rightarrow> addr option \<Rightarrow> addr option \<Rightarrow> (addr \<times> rat) option \<Rightarrow> addr option" where
  "pick_oc q oc busy_oc gr =
     (if oc = None \<and> gr \<noteq> None \<and> (busy_oc \<noteq> None \<or> \<not> vhealthy q) then map_option fst gr else oc)"

definition HSH_Lookup :: "exp_params \<Rightarrow> addr \<Rightarrow> u64 \<Rightarrow> u64 \<Rightarrow> lreq \<Rightarrow> cache \<Rightarrow> wprealloc \<Rightarrow> (cache \<times> wprealloc \<times> lookup_res) option" where
  "HSH_Lookup params a h y q s w = do {
     let (s, w) = HSH_Prealloc a h y s w;
     (s, w, oh) \<leftarrow> lookup_head q s w;
     vassert (hcb_refcnt (hidx s) oh > 0);
     (s, oc, busy_oc, gr) \<leftarrow> lookup_loop params q oh s (objcs s oh) None None;
     let oc = pick_oc q oc busy_oc gr;
     (case (if hash_always_miss q then None else oc) of
        Some oc \<Rightarrow> do { s \<leftarrow> lookup_hit s oh oc; Some (s, w, LHit oc oh) }
      | None \<Rightarrow>
          if busy_oc \<noteq> None then do { (s, w) \<leftarrow> lookup_wait q s w oh; Some (s, w, LWait) }
          else do { (s, w, oc) \<leftarrow> lookup_miss q s w oh; Some (s, w, LMiss oc oh) })
   }"

section \<open>Release\<close>

text \<open>
  Sessions off the waiting list, at most \<open>rush_exponent\<close> of them; \<open>qok\<close> says which ones \<open>WRK_QueueSession\<close> can queue.
  One it cannot queue is deleted with what it holds.  The result is what is left of the list and the deleted session.
\<close>

fun rush_loop :: "(addr \<Rightarrow> bool) \<Rightarrow> nat \<Rightarrow> addr list \<Rightarrow> addr list \<times> addr option" where
  "rush_loop qok 0 l = (l, None)"
| "rush_loop qok (Suc u) [] = ([], None)"
| "rush_loop qok (Suc u) (sp # l) = (if qok sp then rush_loop qok u l else (l, Some sp))"

definition hsh_rush :: "(addr \<Rightarrow> bool) \<Rightarrow> nat \<Rightarrow> cache \<Rightarrow> u64 \<Rightarrow> cache option" where
  "hsh_rush qok rush_exponent s oh = do {
     wl \<leftarrow> waitinglist s oh;
     let (l, dropped) = rush_loop qok rush_exponent wl;
     let s = s\<lparr>waitinglist := (waitinglist s)(oh := if l = [] then None else Some l)\<rparr>;
     Some (case dropped of None \<Rightarrow> s | Some sp \<Rightarrow> s\<lparr>hash_objhead := (hash_objhead s)(sp := None)\<rparr>)
   }"

definition rush_waiting :: "(addr \<Rightarrow> bool) \<Rightarrow> nat \<Rightarrow> cache \<Rightarrow> u64 \<Rightarrow> cache option" where
  "rush_waiting qok rush_exponent s oh = (if waitinglist s oh \<noteq> None then hsh_rush qok rush_exponent s oh else Some s)"

definition HSH_DeleteObjHead :: "cache \<Rightarrow> u64 \<Rightarrow> cache option" where
  "HSH_DeleteObjHead s oh = do { vassert (hcb_refcnt (hidx s) oh = 0); vassert (objcs s oh = []); Some s }"

text \<open>\<open>HSH_Deref\<close> of a core, and of an object, which has no core when it was passed.\<close>

definition HSH_Deref :: "(addr \<Rightarrow> bool) \<Rightarrow> nat \<Rightarrow> cache \<Rightarrow> wprealloc \<Rightarrow> addr \<Rightarrow> (cache \<times> wprealloc \<times> nat) option" where
  "HSH_Deref qok rush_exponent s w oc = do {
     c \<leftarrow> core s oc;
     let oh = oc_objhead c;
     vassert (hcb_refcnt (hidx s) oh > 0);
     vassert (oc_refcnt c > 0);
     let r = oc_refcnt c - 1;
     let s = upd_core oc (\<lambda>c. c\<lparr>oc_refcnt := r\<rparr>) s;
     s \<leftarrow> (if r = 0 then do { l \<leftarrow> tailq_remove oc (objcs s oh); Some (s\<lparr>objcs := (objcs s)(oh := l)\<rparr>) }
           else do { vassert (oc_methods c); Some s });
     s \<leftarrow> rush_waiting qok rush_exponent s oh;
     if r \<noteq> 0 then Some (s, w, r)
     else do {
       s \<leftarrow> BAN_DestroyObj s oc;
       c \<leftarrow> core s oc;
       vassert (oc_ban c = None);
       w \<leftarrow> (if oc_busy c then do { bo \<leftarrow> oc_busyobj c; Some (w\<lparr>nbusyobj := True\<rparr>) }
             else do { vassert (oc_busyobj c = None); Some w });
       let s = s\<lparr>core := (core s)(oc := None)\<rparr>;
       vassert (hcb_refcnt (hidx s) oh > 0);
       (i, kept) \<leftarrow> hcb_deref (hidx s) oh;
       let s = s\<lparr>hidx := i\<rparr>;
       s \<leftarrow> (if kept then Some s else HSH_DeleteObjHead s oh);
       Some (s, w, 0)
     }
   }"

definition HSH_Deref_obj :: "(addr \<Rightarrow> bool) \<Rightarrow> nat \<Rightarrow> cache \<Rightarrow> wprealloc \<Rightarrow> addr option \<Rightarrow> (cache \<times> wprealloc \<times> nat) option" where
  "HSH_Deref_obj qok rush_exponent s w o' = (case o' of None \<Rightarrow> Some (s, w, 0) | Some oc \<Rightarrow> HSH_Deref qok rush_exponent s w oc)"

section \<open>Unbusy, drop and purge\<close>

definition HSH_Unbusy :: "(addr \<Rightarrow> bool) \<Rightarrow> nat \<Rightarrow> cache \<Rightarrow> wprealloc \<Rightarrow> addr \<Rightarrow> (cache \<times> wprealloc) option" where
  "HSH_Unbusy qok rush_exponent s w oc = do {
     c \<leftarrow> core s oc;
     let oh = oc_objhead c;
     vassert (oc_busy c);
     vassert (oc_ban c \<noteq> None);
     vassert (oc_refcnt c > 0);
     vassert (hcb_refcnt (hidx s) oh > 0);
     l \<leftarrow> tailq_remove oc (objcs s oh);
     let s = s\<lparr>objcs := (objcs s)(oh := oc # l)\<rparr>;
     vassert (\<not> nbusyobj w);
     let w = w\<lparr>nbusyobj := oc_busyobj c \<noteq> None\<rparr>;
     let s = upd_core oc (\<lambda>c. c\<lparr>oc_busy := False, oc_busyobj := None\<rparr>) s;
     s \<leftarrow> rush_waiting qok rush_exponent s oh;
     c \<leftarrow> oc_getobj s oc;
     Some (s, w)
   }"

definition HSH_Drop :: "(addr \<Rightarrow> bool) \<Rightarrow> nat \<Rightarrow> cache \<Rightarrow> wprealloc \<Rightarrow> addr option \<Rightarrow> (cache \<times> wprealloc) option" where
  "HSH_Drop qok rush_exponent s w o' = (case o' of
       None \<Rightarrow> Some (s, w)
     | Some oc \<Rightarrow> do {
         c \<leftarrow> core s oc;
         vassert (oc_busy c);
         let s = upd_core oc (\<lambda>c. c\<lparr>o_exp := (o_exp c)\<lparr>ttl := -1\<rparr>\<rparr>) s;
         (s, w) \<leftarrow> HSH_Unbusy qok rush_exponent s w oc;
         (s, w, _) \<leftarrow> HSH_Deref qok rush_exponent s w oc;
         Some (s, w)
       })"

text \<open>
  The first loop of \<open>HSH_Purge\<close> takes a reference to every object that is not busy, as long as the workspace has
  room for a pointer; the second gives the objects their new timers and the references back.
\<close>

fun purge_collect :: "u64 \<Rightarrow> cache \<Rightarrow> nat \<Rightarrow> addr list \<Rightarrow> (cache \<times> addr list) option" where
  "purge_collect oh s spc [] = Some (s, [])"
| "purge_collect oh s spc (oc # ocs) = do {
     c \<leftarrow> core s oc;
     vassert (oc_objhead c = oh);
     if oc_busy c then purge_collect oh s spc ocs
     else do {
       c \<leftarrow> oc_getobj s oc;
       vassert (spc \<ge> 8);
       (s, l) \<leftarrow> purge_collect oh (upd_core oc (\<lambda>c. c\<lparr>oc_refcnt := oc_refcnt c + 1\<rparr>) s) (spc - 8) ocs;
       Some (s, oc # l)
     }
   }"

fun purge_expire :: "exp_params \<Rightarrow> (addr \<Rightarrow> bool) \<Rightarrow> nat \<Rightarrow> rat \<Rightarrow> rat \<Rightarrow> cache \<Rightarrow> wprealloc \<Rightarrow> addr list \<Rightarrow> (cache \<times> wprealloc) option" where
  "purge_expire params qok rush_exponent t g s w [] = Some (s, w)"
| "purge_expire params qok rush_exponent t g s w (oc # l) = do {
     c \<leftarrow> oc_getobj s oc;
     let s = upd_core oc (\<lambda>c. c\<lparr>o_exp := (o_exp c)\<lparr>ttl := t, grace := g\<rparr>\<rparr>) s;
     s \<leftarrow> EXP_Rearm params s (Some oc);
     (s, w, _) \<leftarrow> HSH_Deref qok rush_exponent s w oc;
     purge_expire params qok rush_exponent t g s w l
   }"

definition HSH_Purge :: "exp_params \<Rightarrow> (addr \<Rightarrow> bool) \<Rightarrow> nat \<Rightarrow> nat \<Rightarrow> cache \<Rightarrow> wprealloc \<Rightarrow> u64 \<Rightarrow> rat \<Rightarrow> rat \<Rightarrow> (cache \<times> wprealloc) option" where
  "HSH_Purge params qok rush_exponent spc s w oh t g = do {
     vassert (hcb_refcnt (hidx s) oh > 0);
     (s, ocp) \<leftarrow> purge_collect oh s spc (objcs s oh);
     let t = (if t > 0 then t else -1);
     let g = (if g > 0 then g else -1);
     purge_expire params qok rush_exponent t g s w ocp
   }"

text \<open>An object off a persistent storage: the preallocated core is not busy then.\<close>

definition HSH_Insert :: "addr \<Rightarrow> u64 \<Rightarrow> u64 \<Rightarrow> cache \<Rightarrow> wprealloc \<Rightarrow> addr \<Rightarrow> (cache \<times> wprealloc \<times> addr) option" where
  "HSH_Insert a h y s w sp = do {
     let (s, w) = HSH_Prealloc a h y s w;
     vassert (hash_objhead s sp = None);
     noh \<leftarrow> nobjhead w;
     (i, oh) \<leftarrow> hcb_lookup (hidx s) noh;
     let s = s\<lparr>hidx := i\<rparr>;
     let w = (if oh = noh then w\<lparr>nobjhead := None\<rparr> else w);
     vassert (hcb_refcnt (hidx s) oh > 0);
     oc \<leftarrow> nobjcore w;
     c \<leftarrow> core s oc;
     vassert (\<not> oc_busy c);
     let s = upd_core oc (\<lambda>c. c\<lparr>oc_refcnt := 1, oc_objhead := oh\<rparr>) s;
     Some (s\<lparr>objcs := (objcs s)(oh := oc # objcs s oh)\<rparr>, w\<lparr>nobjcore := None\<rparr>, oc)
   }"

section \<open>The invariant\<close>

text \<open>
  \<open>own oc\<close> is the number of references sessions hold to a core, \<open>lost h\<close> the number of references to a head
  that went with deleted sessions.  Every reference is accounted for: a head has one for each of its cores and one for each
  session that waits or has been woken; a core has one for the expiry heap and one for each session that uses it.
\<close>

definition holders :: "cache \<Rightarrow> u64 \<Rightarrow> addr set" where
  "holders s h = {sp. hash_objhead s sp = Some h}"

definition wait_ok :: "addr list option \<Rightarrow> addr set \<Rightarrow> bool" where
  "wait_ok wl H \<longleftrightarrow> (\<forall>l. wl = Some l \<longrightarrow> l \<noteq> [] \<and> distinct l \<and> set l \<subseteq> H)"

lemma wait_ok_None [simp]: "wait_ok None H"
  by (simp add: wait_ok_def)

lemma wait_ok_empty [simp]: "wait_ok wl {} \<longleftrightarrow> wl = None"
  by (cases wl) (auto simp: wait_ok_def)

lemma wait_ok_mono: "wait_ok wl H \<Longrightarrow> H \<subseteq> H' \<Longrightarrow> wait_ok wl H'"
  by (auto simp: wait_ok_def)

lemma wait_ok_remove: "wait_ok wl H \<Longrightarrow> (\<And>l. wl = Some l \<Longrightarrow> sp \<notin> set l) \<Longrightarrow> wait_ok wl (H - {sp})"
  by (fastforce simp: wait_ok_def)

lemma wait_ok_add: "wait_ok wl H \<Longrightarrow> sp \<notin> H \<Longrightarrow> wait_ok (Some ((case wl of None \<Rightarrow> [] | Some l \<Rightarrow> l) @ [sp])) (insert sp H)"
  by (auto simp: wait_ok_def split: option.splits)

definition head_ok :: "(u64 \<Rightarrow> nat) \<Rightarrow> cache \<Rightarrow> u64 \<Rightarrow> bool" where
  "head_ok lost s h \<longleftrightarrow> finite (holders s h) \<and> distinct (objcs s h) \<and>
     (if h \<in> hcb_heads (hidx s) then hcb_refcnt (hidx s) h = int (length (objcs s h) + card (holders s h) + lost h)
      else objcs s h = [] \<and> holders s h = {}) \<and>
     wait_ok (waitinglist s h) (holders s h)"

definition core_ok :: "(addr \<Rightarrow> nat) \<Rightarrow> cache \<Rightarrow> u64 \<Rightarrow> addr \<Rightarrow> bool" where
  "core_ok own s h oc \<longleftrightarrow> (\<exists>c. core s oc = Some c \<and> oc_objhead c = h \<and> oc_refcnt c > 0 \<and>
     oc_refcnt c = own oc + (if oc \<in> on_heap s then 1 else 0) \<and> (oc_busy c \<longleftrightarrow> oc_busyobj c \<noteq> None) \<and>
     (\<not> oc_busy c \<longrightarrow> oc_methods c) \<and> (oc_refcnt c > 1 \<longrightarrow> oc_methods c) \<and>
     (\<not> oc_busy c \<and> ttl (o_exp c) > 0 \<longrightarrow> oc_ban c \<noteq> None))"

definition cache_inv :: "(addr \<Rightarrow> nat) \<Rightarrow> (u64 \<Rightarrow> nat) \<Rightarrow> cache \<Rightarrow> bool" where
  "cache_inv own lost s \<longleftrightarrow> exp_inv s \<and> ban_inv s \<and> hcb_inv (hidx s) \<and> (\<forall>h. head_ok lost s h) \<and>
     (\<forall>h. \<forall>oc \<in> set (objcs s h). core_ok own s h oc) \<and> (\<forall>oc \<in> on_heap s. \<exists>h. oc \<in> set (objcs s h))"

end
