(* ===== verification/Hash_Lookup.thy ===== *)
theory Hash_Lookup
  imports Hash
begin

text \<open>
  What a lookup finds, and that every path through it accounts for its references.
\<close>

section \<open>Changes that keep the accounting\<close>

lemma cache_invD:
  assumes "cache_inv own lost s"
  shows "exp_inv s" "ban_inv s" "hcb_inv (hidx s)" "head_ok lost s h" "oc \<in> set (objcs s h) \<Longrightarrow> core_ok own s h oc"
    "oc \<in> on_heap s \<Longrightarrow> \<exists>h. oc \<in> set (objcs s h)"
  using assms by (auto simp: cache_inv_def)

text \<open>The banning condition on a core is the only one \<open>same_refs\<close> does not keep.\<close>

definition ban_cond :: "objcore \<Rightarrow> bool" where
  "ban_cond c \<longleftrightarrow> (\<not> oc_busy c \<and> ttl (o_exp c) > 0 \<longrightarrow> oc_ban c \<noteq> None)"

lemma same_refs_core:
  assumes "same_refs s s'" and "core s x = Some c"
  obtains c' where "core s' x = Some c'" "oc_refcnt c' = oc_refcnt c" "oc_methods c' = oc_methods c" "oc_objhead c' = oc_objhead c"
    "oc_busy c' = oc_busy c" "oc_busyobj c' = oc_busyobj c" "oc_lru c' = oc_lru c" "o_vary c' = o_vary c" "oc_lurk c' = oc_lurk c"
proof -
  have "map_option core_refs (core s' x) = map_option core_refs (core s x)" using assms(1) by (simp add: same_refs_def)
  then show thesis using assms(2) that by (cases "core s' x") (auto simp: core_refs_def)
qed

lemma cache_inv_same_refs:
  assumes inv: "cache_inv own lost s" and sr: "same_refs s s'" and i: "exp_inv s'" "ban_inv s'"
    and b: "\<And>h oc c. oc \<in> set (objcs s h) \<Longrightarrow> core s' oc = Some c \<Longrightarrow> ban_cond c"
  shows "cache_inv own lost s'"
proof -
  have f: "hidx s' = hidx s" "objcs s' = objcs s" "waitinglist s' = waitinglist s" "hash_objhead s' = hash_objhead s" "on_heap s' = on_heap s"
    using sr by (simp_all add: same_refs_def)
  have "holders s' h = holders s h" for h by (simp add: holders_def f)
  then have "head_ok lost s' h" for h using cache_invD(4) [OF inv, of h] by (simp add: head_ok_def f)
  moreover have "core_ok own s' h oc" if oc: "oc \<in> set (objcs s h)" for h oc
  proof -
    from cache_invD(5) [OF inv oc] obtain c where c: "core s oc = Some c" "oc_objhead c = h" "oc_refcnt c > 0"
      "oc_refcnt c = own oc + (if oc \<in> on_heap s then 1 else 0)" "oc_busy c \<longleftrightarrow> oc_busyobj c \<noteq> None"
      "\<not> oc_busy c \<longrightarrow> oc_methods c" "oc_refcnt c > 1 \<longrightarrow> oc_methods c" unfolding core_ok_def by blast
    from same_refs_core [OF sr c(1)] obtain c' where c': "core s' oc = Some c'" "oc_refcnt c' = oc_refcnt c" "oc_methods c' = oc_methods c"
      "oc_objhead c' = oc_objhead c" "oc_busy c' = oc_busy c" "oc_busyobj c' = oc_busyobj c" .
    show ?thesis using c c' b [OF oc c'(1)] f(5) by (auto simp: core_ok_def ban_cond_def)
  qed
  moreover have "\<exists>h. oc \<in> set (objcs s h)" if "oc \<in> on_heap s" for oc using cache_invD(6) [OF inv that] .
  ultimately show ?thesis using i cache_invD(3) [OF inv] by (simp add: cache_inv_def f)
qed

section \<open>What the walk finds\<close>

text \<open>An object a request may be served with: not busy, not banned, of the right variant.\<close>

definition servable :: "lreq \<Rightarrow> cache \<Rightarrow> addr \<Rightarrow> objcore \<Rightarrow> bool" where
  "servable q s oc c \<longleftrightarrow> core s oc = Some c \<and> \<not> oc_busy c \<and> ttl (o_exp c) > 0 \<and>
     (\<exists>ocb. oc_ban c = Some ocb \<and> (\<forall>b \<in> set (newer s ocb). \<not> hits (beval q oc) (bmem s) b)) \<and> vary_ok q (o_vary c) = Some True"

definition fresh :: "lreq \<Rightarrow> cache \<Rightarrow> addr \<Rightarrow> bool" where
  "fresh q s oc \<longleftrightarrow> (\<exists>c. servable q s oc c \<and> EXP_Ttl (Some (r_exp q)) (o_exp c) \<ge> t_req q)"

definition in_grace :: "exp_params \<Rightarrow> lreq \<Rightarrow> cache \<Rightarrow> addr \<Rightarrow> bool" where
  "in_grace params q s oc \<longleftrightarrow> (\<exists>c. servable q s oc c \<and> EXP_Grace params (Some (r_exp q)) (o_exp c) \<ge> t_req q)"

text \<open>A fetch that would give the request what it wants.\<close>

definition fetching :: "lreq \<Rightarrow> cache \<Rightarrow> addr \<Rightarrow> bool" where
  "fetching q s oc \<longleftrightarrow> \<not> hash_ignore_busy q \<and> \<not> hash_always_miss q \<and>
     (\<exists>c v. core s oc = Some c \<and> oc_busy c \<and> oc_busyobj c = Some v \<and> vary_ok q v = Some True)"

text \<open>
  The request can be matched: its vary strings and bans can be evaluated, and what carries the lurker's colour of an object
  has been tested on that object.
\<close>

definition answers :: "lreq \<Rightarrow> cache \<Rightarrow> bool" where
  "answers q s \<longleftrightarrow> (\<forall>v. vmatch q v \<noteq> None) \<and>
     (\<forall>oc b bn. bmem s b = Some bn \<longrightarrow> beval q oc (ban_spec bn) \<noteq> None \<and>
        (\<forall>c. core s oc = Some c \<and> ban_lurk bn \<noteq> 0 \<and> ban_lurk bn = oc_lurk c \<longrightarrow> \<not> ban_req bn \<and> beval q oc (ban_spec bn) = Some False))"

lemma answers_vary: "answers q s \<Longrightarrow> \<exists>m. vary_ok q v = Some m"
  by (auto simp: answers_def vary_ok_def split: option.split)

lemma answers_evaluable:
  assumes "answers q s" and "ban_inv s" and "core s oc = Some c" and "b \<in> set (ban_head s)"
  shows "evaluable (beval q oc) (bmem s) (oc_lurk c) b"
proof -
  from ban_invD [OF assms(2,4)] obtain bn where "bmem s b = Some bn" by metis
  then show ?thesis using assms(1,3) unfolding answers_def evaluable_def by blast
qed

lemma answers_keep:
  assumes a: "answers q s" and sr: "same_refs s s'" and bk: "bans_keep s s'"
  shows "answers q s'"
  unfolding answers_def
proof (intro conjI allI impI)
  show "vmatch q v \<noteq> None" for v using a by (simp add: answers_def)
  fix oc b bn'
  assume bn': "bmem s' b = Some bn'"
  have "map_option ban_view (bmem s' b) = map_option ban_view (bmem s b)" using bk by (simp add: bans_keep_def)
  then obtain bn where bn: "bmem s b = Some bn" "ban_spec bn = ban_spec bn'" "ban_req bn = ban_req bn'"
    using bn' by (cases "bmem s b") (auto simp: ban_view_def)
  have l: "ban_lurk bn' = ban_lurk bn \<or> ban_lurk bn' = 0" using bk bn(1) bn' by (simp add: bans_keep_def)
  have e: "beval q oc (ban_spec bn) \<noteq> None"
    "\<And>c. core s oc = Some c \<and> ban_lurk bn \<noteq> 0 \<and> ban_lurk bn = oc_lurk c \<Longrightarrow> \<not> ban_req bn \<and> beval q oc (ban_spec bn) = Some False"
    using a bn(1) unfolding answers_def by blast+
  show "beval q oc (ban_spec bn') \<noteq> None" using e(1) bn(2) by simp
  fix c'
  assume c': "core s' oc = Some c' \<and> ban_lurk bn' \<noteq> 0 \<and> ban_lurk bn' = oc_lurk c'"
  have "map_option core_refs (core s' oc) = map_option core_refs (core s oc)" using sr by (simp add: same_refs_def)
  then obtain c where c: "core s oc = Some c" "oc_lurk c = oc_lurk c'" using c' by (cases "core s oc") (auto simp: core_refs_def)
  then show "\<not> ban_req bn'" "beval q oc (ban_spec bn') = Some False" using l e(2) [of c] c' bn by auto
qed

lemma servable_keep:
  assumes "bans_keep s s'" and "core s' oc = core s oc"
  shows "servable q s' oc c = servable q s oc c"
  using assms bans_keep_hits [OF assms(1)] bans_keep_newer [OF assms(1)] by (simp add: servable_def)

text \<open>
  What a lookup does to the lifetime and the ban of an object: nothing, or a check against the newer bans, which
  leaves it without lifetime when one of them hits and moves it to the newest ban otherwise.
\<close>

definition recheck :: "lreq \<Rightarrow> cache \<Rightarrow> addr \<Rightarrow> objcore \<Rightarrow> objcore \<Rightarrow> bool" where
  "recheck q s x c c' \<longleftrightarrow> o_exp c' = o_exp c \<and> oc_ban c' = oc_ban c \<or>
     (\<exists>ocb. oc_ban c = Some ocb \<and> (if \<exists>b \<in> set (newer s ocb). hits (beval q x) (bmem s) b
        then o_exp c' = EXP_Clr \<and> oc_ban c' = None else o_exp c' = o_exp c \<and> oc_ban c' = Some (ban_start s)))"

definition rechecks :: "lreq \<Rightarrow> cache \<Rightarrow> cache \<Rightarrow> bool" where
  "rechecks q s s' \<longleftrightarrow> bans_keep s s' \<and> (\<forall>x c. core s x = Some c \<longrightarrow> (\<exists>c'. core s' x = Some c' \<and> recheck q s x c c'))"

lemma recheck_same: "o_exp c' = o_exp c \<Longrightarrow> oc_ban c' = oc_ban c \<Longrightarrow> recheck q s x c c'"
  by (simp add: recheck_def)

lemma recheck_trans:
  assumes "recheck q s x c c1" and "recheck q s1 x c1 c2" and "bans_keep s s1" and "ban_inv s"
  shows "recheck q s x c c2"
proof -
  have "newer s (ban_start s) = []" using assms(4) by (cases "ban_head s") (auto simp: ban_inv_def newer_def)
  moreover have "ban_start s1 = ban_start s" using assms(3) by (simp add: bans_keep_def)
  ultimately show ?thesis
    using assms(1,2) bans_keep_hits [OF assms(3)] bans_keep_newer [OF assms(3)] unfolding recheck_def
    by (auto split: if_splits)
qed

lemma rechecks_refl [simp]: "rechecks q s s"
  by (simp add: rechecks_def recheck_same)

lemma rechecks_trans:
  assumes "rechecks q s s1" and "rechecks q s1 s2" and "ban_inv s"
  shows "rechecks q s s2"
proof -
  have k: "bans_keep s s1" "bans_keep s1 s2" using assms by (simp_all add: rechecks_def)
  have "\<exists>c2. core s2 x = Some c2 \<and> recheck q s x c c2" if "core s x = Some c" for x c
    using assms(1,2) that recheck_trans [OF _ _ k(1) assms(3)] unfolding rechecks_def by meson
  then show ?thesis using bans_keep_trans [OF k] by (simp add: rechecks_def)
qed

text \<open>One core: whether the walk stops there, and what it remembers otherwise.\<close>

definition step_ok :: "exp_params \<Rightarrow> lreq \<Rightarrow> u64 \<Rightarrow> cache \<Rightarrow> addr \<Rightarrow> addr option \<Rightarrow> (addr \<times> rat) option \<Rightarrow>
    cache \<Rightarrow> addr option \<Rightarrow> (addr \<times> rat) option \<Rightarrow> bool" where
  "step_ok params q oh s oc busy gr s1 busy1 gr1 \<longleftrightarrow>
     (\<forall>ocs. lookup_loop params q oh s (oc # ocs) busy gr =
        (if fresh q s oc then Some (s1, Some oc, busy, gr) else lookup_loop params q oh s1 ocs busy1 gr1)) \<and>
     exp_inv s1 \<and> ban_inv s1 \<and> same_refs s s1 \<and> bans_keep s s1 \<and> rechecks q s s1 \<and> (\<forall>x. x \<noteq> oc \<longrightarrow> core s1 x = core s x) \<and>
     (\<forall>c. core s1 oc = Some c \<longrightarrow> ban_cond c) \<and>
     (busy1 \<noteq> None \<longleftrightarrow> busy \<noteq> None \<or> fetching q s oc) \<and>
     (\<forall>x. busy1 = Some x \<longrightarrow> busy = Some x \<or> x = oc \<and> fetching q s oc) \<and>
     (\<not> fresh q s oc \<longrightarrow> (gr1 \<noteq> None \<longleftrightarrow> gr \<noteq> None \<or> in_grace params q s oc)) \<and>
     (\<forall>x t. gr1 = Some (x, t) \<longrightarrow> gr = Some (x, t) \<or> x = oc \<and> in_grace params q s oc)"

lemma step_busy:
  assumes i: "exp_inv s" "ban_inv s" and a: "answers q s" and c: "core s oc = Some c" "oc_objhead c = oh" "oc_busy c" "oc_busyobj c = Some v"
    and r: "hcb_refcnt (hidx s) oh > 1"
  shows "\<exists>busy1. step_ok params q oh s oc busy gr s busy1 gr"
proof -
  have ns: "\<not> servable q s oc c'" for c' using c by (auto simp: servable_def)
  then have nf: "\<not> fresh q s oc" "\<not> in_grace params q s oc" by (auto simp: fresh_def in_grace_def)
  have bc: "\<forall>c. core s oc = Some c \<longrightarrow> ban_cond c" using c by (simp add: ban_cond_def)
  obtain m where m: "vary_ok q v = Some m" using answers_vary [OF a] by blast
  have ft: "fetching q s oc \<longleftrightarrow> \<not> hash_ignore_busy q \<and> \<not> hash_always_miss q \<and> m" using c m by (auto simp: fetching_def)
  show ?thesis
  proof (cases "hash_ignore_busy q \<or> hash_always_miss q")
    case True
    then show ?thesis using c r i nf ft bc by (intro exI [of _ busy]) (auto simp: step_ok_def)
  next
    case False
    then show ?thesis using c r i nf ft m bc by (intro exI [of _ "if m then Some oc else busy"]) (auto simp: step_ok_def)
  qed
qed

lemma step_idle:
  assumes i: "exp_inv s" "ban_inv s" and a: "answers q s" and c: "core s oc = Some c" "oc_objhead c = oh" "\<not> oc_busy c" "oc_methods c" "ban_cond c"
    and r: "hcb_refcnt (hidx s) oh > 1"
  shows "\<exists>s1 gr1. step_ok params q oh s oc busy gr s1 busy gr1"
proof (cases "ttl (o_exp c) \<le> 0")
  case True
  have "\<not> servable q s oc c'" for c' using c True by (auto simp: servable_def)
  then have "\<not> fresh q s oc" "\<not> in_grace params q s oc" "\<not> fetching q s oc" using c by (auto simp: fresh_def in_grace_def fetching_def)
  then show ?thesis using c r i True by (intro exI [of _ s] exI [of _ gr]) (simp add: step_ok_def oc_getobj_def)
next
  case False
  then obtain ocb where ocb: "oc_ban c = Some ocb" using c by (auto simp: ban_cond_def)
  define hit where "hit \<longleftrightarrow> (\<exists>b \<in> set (newer s ocb). hits (beval q oc) (bmem s) b)"
  have "set (newer s ocb) \<subseteq> set (ban_head s)" by (auto simp: newer_def dest: set_takeWhileD)
  then have "\<forall>b \<in> set (newer s ocb). evaluable (beval q oc) (bmem s) (oc_lurk c) b"
    using answers_evaluable [OF a i(2) c(1)] by blast
  from ban_check_spec [OF i c(1,4) ocb this, of params] obtain s1 c1 where
    s1: "ban_check_object params (beval q oc) s oc True = Some (s1, if hit then 1 else 0)" "exp_inv s1" "ban_inv s1" "same_refs s s1"
      "core s1 oc = Some c1" "bans_keep s s1" "\<forall>x. x \<noteq> oc \<longrightarrow> core s1 x = core s x"
    and e: "if hit then o_exp c1 = EXP_Clr \<and> oc_ban c1 = None else o_exp c1 = o_exp c \<and> oc_ban c1 = Some (ban_start s)"
    unfolding hit_def by blast
  have chk: "BAN_CheckObject params (beval q oc) s oc = Some (s1, hit)" using s1(1) by (simp add: BAN_CheckObject_def)
  have bc: "ban_cond c1" using e by (auto simp: ban_cond_def EXP_Clr_def split: if_splits)
  obtain m where m: "vary_ok q (o_vary c) = Some m" using answers_vary [OF a] by blast
  have sv: "servable q s oc c' \<longleftrightarrow> c' = c \<and> \<not> hit \<and> m" for c' using c False ocb m by (auto simp: servable_def hit_def)
  have fr: "fresh q s oc \<longleftrightarrow> \<not> hit \<and> m \<and> EXP_Ttl (Some (r_exp q)) (o_exp c) \<ge> t_req q" by (auto simp: fresh_def sv)
  have gg: "in_grace params q s oc \<longleftrightarrow> \<not> hit \<and> m \<and> EXP_Grace params (Some (r_exp q)) (o_exp c) \<ge> t_req q" by (auto simp: in_grace_def sv)
  have nf: "\<not> fetching q s oc" using c by (simp add: fetching_def)
  define gr1 where "gr1 = (if in_grace params q s oc then better_grace gr oc (o_exp c) else gr)"
  have bg: "better_grace gr oc (o_exp c) \<noteq> None" "better_grace gr oc (o_exp c) = Some (x, t) \<Longrightarrow> gr = Some (x, t) \<or> x = oc" for x t
    by (auto simp: better_grace_def split: option.splits if_splits)
  have "lookup_loop params q oh s (oc # ocs) busy gr =
      (if fresh q s oc then Some (s1, Some oc, busy, gr) else lookup_loop params q oh s1 ocs busy gr1)" for ocs
    using c r False chk m by (auto simp: oc_getobj_def fr gg gr1_def)
  moreover have "recheck q s oc c c1" using e ocb unfolding recheck_def hit_def by blast
  then have "\<exists>c'. core s1 x = Some c' \<and> recheck q s x c0 c'" if "core s x = Some c0" for x c0
    using that s1(5,7) c(1) by (cases "x = oc") (auto simp: recheck_same)
  then have "rechecks q s s1" using s1(6) by (simp add: rechecks_def)
  ultimately show ?thesis using s1 bc nf bg by (intro exI [of _ s1] exI [of _ gr1]) (auto simp: step_ok_def gr1_def)
qed

definition loop_res :: "exp_params \<Rightarrow> lreq \<Rightarrow> cache \<Rightarrow> addr list \<Rightarrow> addr option \<Rightarrow> (addr \<times> rat) option \<Rightarrow>
    addr option \<Rightarrow> addr option \<Rightarrow> (addr \<times> rat) option \<Rightarrow> bool" where
  "loop_res params q s ocs busy gr f b g \<longleftrightarrow>
     (case f of Some oc \<Rightarrow> oc \<in> set ocs \<and> fresh q s oc
      | None \<Rightarrow> (\<forall>oc \<in> set ocs. \<not> fresh q s oc) \<and> (b \<noteq> None \<longleftrightarrow> busy \<noteq> None \<or> (\<exists>oc \<in> set ocs. fetching q s oc)) \<and>
          (g \<noteq> None \<longleftrightarrow> gr \<noteq> None \<or> (\<exists>oc \<in> set ocs. in_grace params q s oc))) \<and>
     (\<forall>x. b = Some x \<longrightarrow> busy = Some x \<or> x \<in> set ocs \<and> fetching q s x) \<and>
     (\<forall>x t. g = Some (x, t) \<longrightarrow> gr = Some (x, t) \<or> x \<in> set ocs \<and> in_grace params q s x)"

lemma loop_res_step:
  assumes "loop_res params q s1 ocs busy1 gr1 f b g" and st: "step_ok params q oh s oc busy gr s1 busy1 gr1" and "\<not> fresh q s oc" and "oc \<notin> set ocs"
  shows "loop_res params q s (oc # ocs) busy gr f b g"
proof -
  have e: "fresh q s1 x = fresh q s x \<and> in_grace params q s1 x = in_grace params q s x \<and> fetching q s1 x = fetching q s x" if "x \<in> set ocs" for x
  proof -
    have "x \<noteq> oc" using that assms(4) by auto
    then have cx: "core s1 x = core s x" "bans_keep s s1" using st by (simp_all add: step_ok_def)
    show ?thesis using servable_keep [OF cx(2,1)] cx(1) by (simp add: fresh_def in_grace_def fetching_def)
  qed
  have b: "busy1 \<noteq> None \<longleftrightarrow> busy \<noteq> None \<or> fetching q s oc" "gr1 \<noteq> None \<longleftrightarrow> gr \<noteq> None \<or> in_grace params q s oc"
    "\<forall>x t. gr1 = Some (x, t) \<longrightarrow> gr = Some (x, t) \<or> x = oc \<and> in_grace params q s oc"
    "\<forall>x. busy1 = Some x \<longrightarrow> busy = Some x \<or> x = oc \<and> fetching q s oc"
    using st assms(3) unfolding step_ok_def by blast+
  have L: "case f of Some x \<Rightarrow> x \<in> set ocs \<and> fresh q s1 x
      | None \<Rightarrow> (\<forall>x \<in> set ocs. \<not> fresh q s1 x) \<and> (b \<noteq> None \<longleftrightarrow> busy1 \<noteq> None \<or> (\<exists>x \<in> set ocs. fetching q s1 x)) \<and>
          (g \<noteq> None \<longleftrightarrow> gr1 \<noteq> None \<or> (\<exists>x \<in> set ocs. in_grace params q s1 x))"
    "\<And>x. b = Some x \<Longrightarrow> busy1 = Some x \<or> x \<in> set ocs \<and> fetching q s1 x"
    "\<And>x t. g = Some (x, t) \<Longrightarrow> gr1 = Some (x, t) \<or> x \<in> set ocs \<and> in_grace params q s1 x"
    using assms(1) unfolding loop_res_def by blast+
  show ?thesis
    unfolding loop_res_def
  proof (intro conjI allI impI)
    show "busy = Some x \<or> x \<in> set (oc # ocs) \<and> fetching q s x" if "b = Some x" for x using L(2) [OF that] b(4) e by auto
    show "gr = Some (x, t) \<or> x \<in> set (oc # ocs) \<and> in_grace params q s x" if "g = Some (x, t)" for x t using L(3) [OF that] b(3) e by auto
    show "case f of Some x \<Rightarrow> x \<in> set (oc # ocs) \<and> fresh q s x
      | None \<Rightarrow> (\<forall>x \<in> set (oc # ocs). \<not> fresh q s x) \<and> (b \<noteq> None \<longleftrightarrow> busy \<noteq> None \<or> (\<exists>x \<in> set (oc # ocs). fetching q s x)) \<and>
          (g \<noteq> None \<longleftrightarrow> gr \<noteq> None \<or> (\<exists>x \<in> set (oc # ocs). in_grace params q s x))"
    proof (cases f)
      case None
      have "(\<exists>x \<in> set ocs. fetching q s1 x) = (\<exists>x \<in> set ocs. fetching q s x)" "(\<exists>x \<in> set ocs. in_grace params q s1 x) = (\<exists>x \<in> set ocs. in_grace params q s x)"
        "(\<forall>x \<in> set ocs. \<not> fresh q s1 x) = (\<forall>x \<in> set ocs. \<not> fresh q s x)" using e by (simp_all cong: bex_cong ball_cong)
      then show ?thesis using L(1) None assms(3) unfolding b(1,2) by simp
    qed (use L(1) e in auto)
  qed
qed

lemma lookup_loop_spec:
  assumes "cache_inv own lost s" and "answers q s" and "distinct ocs" and "set ocs \<subseteq> set (objcs s oh)" and "ocs \<noteq> [] \<longrightarrow> hcb_refcnt (hidx s) oh > 1"
  shows "\<exists>s' f b g. lookup_loop params q oh s ocs busy gr = Some (s', f, b, g) \<and> loop_res params q s ocs busy gr f b g \<and>
    cache_inv own lost s' \<and> same_refs s s' \<and> bans_keep s s' \<and> rechecks q s s'"
  using assms
proof (induction ocs arbitrary: s busy gr)
  case Nil
  then show ?case by (simp add: loop_res_def)
next
  case (Cons oc ocs)
  note i = cache_invD [OF Cons.prems(1)]
  have oc: "oc \<in> set (objcs s oh)" using Cons.prems(4) by simp
  from i(5) [OF oc] obtain c where c: "core s oc = Some c" "oc_objhead c = oh" "oc_busy c \<longleftrightarrow> oc_busyobj c \<noteq> None" "\<not> oc_busy c \<longrightarrow> oc_methods c" "ban_cond c"
    unfolding core_ok_def ban_cond_def by blast
  have r: "hcb_refcnt (hidx s) oh > 1" using Cons.prems(5) by simp
  have "\<exists>s1 busy1 gr1. step_ok params q oh s oc busy gr s1 busy1 gr1"
    using step_busy [OF i(1,2) Cons.prems(2) c(1,2)] step_idle [OF i(1,2) Cons.prems(2) c(1,2)] c(3-5) r by (cases "oc_busy c") blast+
  then obtain s1 busy1 gr1 where st: "step_ok params q oh s oc busy gr s1 busy1 gr1" by blast
  have k: "exp_inv s1" "ban_inv s1" "same_refs s s1" "bans_keep s s1" "\<forall>x. x \<noteq> oc \<longrightarrow> core s1 x = core s x" "\<forall>c. core s1 oc = Some c \<longrightarrow> ban_cond c"
    "rechecks q s s1"
    using st by (simp_all add: step_ok_def)
  have "ban_cond c'" if "x \<in> set (objcs s h)" "core s1 x = Some c'" for h x c'
    using i(5) [OF that(1)] k(5,6) that(2) unfolding core_ok_def ban_cond_def by (cases "x = oc") auto
  then have i1: "cache_inv own lost s1" by (intro cache_inv_same_refs [OF Cons.prems(1) k(3,1,2)]) blast
  show ?case
  proof (cases "fresh q s oc")
    case True
    then have "lookup_loop params q oh s (oc # ocs) busy gr = Some (s1, Some oc, busy, gr)" using st by (simp add: step_ok_def)
    then show ?thesis using True i1 k by (auto simp: loop_res_def)
  next
    case False
    have f1: "hidx s1 = hidx s" "objcs s1 = objcs s" using k(3) by (simp_all add: same_refs_def)
    have eq: "lookup_loop params q oh s (oc # ocs) busy gr = lookup_loop params q oh s1 ocs busy1 gr1" using st False by (simp add: step_ok_def)
    have "\<exists>s' f b g. lookup_loop params q oh s1 ocs busy1 gr1 = Some (s', f, b, g) \<and> loop_res params q s1 ocs busy1 gr1 f b g \<and>
      cache_inv own lost s' \<and> same_refs s1 s' \<and> bans_keep s1 s' \<and> rechecks q s1 s'"
      using Cons.prems(3,4) r by (intro Cons.IH [OF i1 answers_keep [OF Cons.prems(2) k(3,4)]]) (simp_all add: f1)
    then obtain s' f b g where IH: "lookup_loop params q oh s1 ocs busy1 gr1 = Some (s', f, b, g)" "loop_res params q s1 ocs busy1 gr1 f b g"
      "cache_inv own lost s'" "same_refs s1 s'" "bans_keep s1 s'" "rechecks q s1 s'" by blast
    have "loop_res params q s (oc # ocs) busy gr f b g" using loop_res_step [OF IH(2) st False] Cons.prems(3) by simp
    then show ?thesis using eq IH same_refs_trans [OF k(3)] bans_keep_trans [OF k(4)] rechecks_trans [OF k(7) IH(6) i(2)] by auto
  qed
qed

end
