(* ===== verification/Hash_Refs.thy ===== *)
theory Hash_Refs
  imports Hash_Lookup
begin

text \<open>
  The reference counts of heads and cores over every path of a lookup.  While a lookup runs, the reference it
  holds to the head is counted in \<open>lost\<close>.
\<close>

section \<open>The index with a spare head\<close>

lemma cb_ok_cong: "\<forall>h \<in> ohs T. dg' h = dg h \<Longrightarrow> cb_ok dg' T = cb_ok dg T"
  by (induction T) auto

lemma hcb_inv_spare:
  assumes inv: "hcb_inv r" and n: "noh \<notin> hcb_heads r"
    and e: "origo r' = origo r" "ymem r' = ymem r" "nhashpriv r' = nhashpriv r" "cool_y r' = cool_y r" "dead_y r' = dead_y r"
      "\<And>h. h \<noteq> noh \<Longrightarrow> hcb_digest r' h = hcb_digest r h \<and> hcb_refcnt r' h = hcb_refcnt r h"
  shows "hcb_inv r'" "hcb_heads r' = hcb_heads r"
proof -
  show "hcb_heads r' = hcb_heads r" by (simp add: hcb_heads_def e)
  have p: "y_pool r' = y_pool r" by (simp add: y_pool_def e)
  show "hcb_inv r'" using inv
  proof (cases rule: hcb_inv_cases)
    case 1
    then show ?thesis using inv by (simp add: hcb_inv_def e p)
  next
    case (2 T)
    then have "noh \<notin> ohs T" using n by simp
    then have d: "\<forall>h \<in> ohs T. hcb_digest r' h = hcb_digest r h \<and> hcb_refcnt r' h = hcb_refcnt r h" using e(6) by metis
    then have "hcb_holds r' T" using 2(1) cb_ok_cong [of T "hcb_digest r'" "hcb_digest r"] by (simp add: hcb_holds_def e p)
    then show ?thesis using inv by (auto simp: hcb_inv_def e p)
  qed
qed

lemma hcb_ready_cong: "ymem r' = ymem r \<Longrightarrow> nhashpriv r' = nhashpriv r \<Longrightarrow> hcb_ready r' h = hcb_ready r h"
  by (simp add: hcb_ready_def)

section \<open>Heads\<close>

abbreviation plus1 :: "('a \<Rightarrow> nat) \<Rightarrow> 'a \<Rightarrow> 'a \<Rightarrow> nat" where
  "plus1 f x \<equiv> f(x := Suc (f x))"

lemma cache_inv_heads:
  assumes inv: "cache_inv own lost s" and f: "exp_heap s' = exp_heap s" "lru_head s' = lru_head s" "core s' = core s" "objcs s' = objcs s"
      "ban_head s' = ban_head s" "bmem s' = bmem s" "ban_start s' = ban_start s"
    and i: "hcb_inv (hidx s')" and h: "\<And>h. head_ok lost' s' h"
  shows "cache_inv own lost' s'"
proof -
  have on: "on_heap s' = on_heap s" by (simp add: on_heap_def f)
  have e: "timer s' = timer s" "lru_of s' = lru_of s" "has_obj s' = has_obj s" by (simp_all add: fun_eq_iff timer_def lru_of_def has_obj_def f)
  have "exp_inv s'" using cache_invD(1) [OF inv] by (simp add: exp_inv_def on e f)
  moreover have "ban_inv s'" by (rule ban_inv_cong [OF cache_invD(2) [OF inv]]) (simp_all add: f)
  moreover have "core_ok own s' h oc = core_ok own s h oc" for h oc by (simp add: core_ok_def f on)
  ultimately show ?thesis using inv i h by (simp add: cache_inv_def on f)
qed

text \<open>What a worker has ready before a lookup.\<close>

definition prealloc_ok :: "(u64 \<Rightarrow> nat) \<Rightarrow> cache \<Rightarrow> wprealloc \<Rightarrow> bool" where
  "prealloc_ok lost s w \<longleftrightarrow> nwaitinglist w \<and> nbusyobj w \<and>
     (\<exists>noh. nobjhead w = Some noh \<and> noh \<notin> hcb_heads (hidx s) \<and> hcb_refcnt (hidx s) noh = 1 \<and> hcb_ready (hidx s) noh \<and>
        lost noh = 0 \<and> waitinglist s noh = None) \<and>
     (\<exists>noc c. nobjcore w = Some noc \<and> core s noc = Some c \<and> oc_busy c \<and> (\<forall>h. noc \<notin> set (objcs s h)))"

text \<open>Taking a woken session's reference over, and taking one for a digest.\<close>

lemma take_from_session:
  assumes inv: "cache_inv own lost s" and sp: "hash_objhead s sp = Some oh" and off: "\<And>l. waitinglist s oh = Some l \<Longrightarrow> sp \<notin> set l"
    and r: "hcb_inv r" "hcb_heads r = hcb_heads (hidx s)" "\<And>h. h \<in> hcb_heads r \<Longrightarrow> hcb_refcnt r h = hcb_refcnt (hidx s) h"
  shows "cache_inv own (plus1 lost oh) (s\<lparr>hidx := r, hash_objhead := (hash_objhead s)(sp := None)\<rparr>)" "oh \<in> hcb_heads r"
proof -
  let ?s = "s\<lparr>hidx := r, hash_objhead := (hash_objhead s)(sp := None)\<rparr>"
  note hk = cache_invD(4) [OF inv, unfolded head_ok_def]
  have spin: "sp \<in> holders s oh" using sp by (simp add: holders_def)
  show "oh \<in> hcb_heads r" using hk [of oh] spin r(2) by (auto split: if_splits)
  have hs: "holders ?s h = holders s h - (if h = oh then {sp} else {})" for h using sp by (auto simp: holders_def)
  have "Suc (card (holders s oh - {sp})) = card (holders s oh)" using hk [of oh] spin by (intro card_Suc_Diff1) simp_all
  then have "head_ok (plus1 lost oh) ?s h" for h
    using hk [of h] wait_ok_remove [of "waitinglist s oh" "holders s oh" sp, OF _ off] r(3) [of h] unfolding head_ok_def hs by (cases "h = oh") (auto simp: r(2) split: if_splits)
  then show "cache_inv own (plus1 lost oh) ?s" using r(1) by (intro cache_inv_heads [OF inv]) simp_all
qed

lemma take_from_index:
  assumes inv: "cache_inv own lost s" and a: "hcb_inv r" "noh \<notin> hcb_heads r" "hcb_refcnt r noh = 1" "length (hcb_digest r noh) = DIGEST_LEN" "hcb_ready r noh"
    and r: "hcb_heads r = hcb_heads (hidx s)" "\<And>h. h \<in> hcb_heads r \<Longrightarrow> hcb_refcnt r h = hcb_refcnt (hidx s) h"
    and noh: "lost noh = 0" "waitinglist s noh = None"
  shows "\<exists>i oh. hcb_lookup r noh = Some (i, oh) \<and> oh \<in> hcb_heads i \<and> hcb_digest i oh = hcb_digest r noh \<and>
    cache_inv own (plus1 lost oh) (s\<lparr>hidx := i\<rparr>)"
proof -
  note hk = cache_invD(4) [OF inv, unfolded head_ok_def]
  have ho: "holders (s\<lparr>hidx := i\<rparr>) h = holders s h" for i h by (simp add: holders_def)
  have "\<exists>i oh. hcb_lookup r noh = Some (i, oh) \<and> hcb_inv i \<and> oh \<in> hcb_heads i \<and> hcb_digest i oh = hcb_digest r noh \<and>
    (\<forall>h. head_ok (plus1 lost oh) (s\<lparr>hidx := i\<rparr>) h)"
  proof (cases "\<exists>oh \<in> hcb_heads r. hcb_digest r oh = hcb_digest r noh")
    case True
    then obtain oh where oh: "oh \<in> hcb_heads r" "hcb_digest r oh = hcb_digest r noh" by blast
    obtain i where i: "hcb_lookup r noh = Some (i, oh)" "hcb_inv i" "hcb_heads i = hcb_heads r" "hcb_digest i = hcb_digest r"
      "hcb_refcnt i = (hcb_refcnt r)(oh := hcb_refcnt r oh + 1)" using hcb.hit [OF a oh] by blast
    have "head_ok (plus1 lost oh) (s\<lparr>hidx := i\<rparr>) h" for h
      using hk [of h] oh(1) r(2) [of h] unfolding head_ok_def ho by (cases "h = oh") (auto simp: i(3,5) r(1) split: if_splits)
    then show ?thesis using i oh by auto
  next
    case False
    then have "\<forall>oh \<in> hcb_heads r. hcb_digest r oh \<noteq> hcb_digest r noh" by blast
    from hcb.miss [OF a this] obtain i where i: "hcb_lookup r noh = Some (i, noh)" "hcb_inv i" "hcb_heads i = insert noh (hcb_heads r)"
      "hcb_digest i = hcb_digest r" "hcb_refcnt i = hcb_refcnt r" by blast
    have "head_ok (plus1 lost noh) (s\<lparr>hidx := i\<rparr>) h" for h
      using hk [of h] noh r(2) [of h] a(2,3) unfolding head_ok_def ho by (cases "h = noh") (auto simp: i(3,5) r(1) split: if_splits)
    then show ?thesis using i by auto
  qed
  then obtain i oh where i: "hcb_lookup r noh = Some (i, oh)" "hcb_inv i" "oh \<in> hcb_heads i" "hcb_digest i oh = hcb_digest r noh"
    "\<forall>h. head_ok (plus1 lost oh) (s\<lparr>hidx := i\<rparr>) h" by blast
  then have "cache_inv own (plus1 lost oh) (s\<lparr>hidx := i\<rparr>)" by (intro cache_inv_heads [OF inv]) simp_all
  then show ?thesis using i by blast
qed

lemma lookup_head_spec:
  assumes inv: "cache_inv own lost s" and w: "prealloc_ok lost s w" and len: "length (r_digest q) = DIGEST_LEN"
    and off: "\<forall>h l. waitinglist s h = Some l \<longrightarrow> r_sess q \<notin> set l"
  shows "\<exists>i w' oh. lookup_head q s w = Some (s\<lparr>hidx := i, hash_objhead := (hash_objhead s)(r_sess q := None)\<rparr>, w', oh) \<and>
    cache_inv own (plus1 lost oh) (s\<lparr>hidx := i, hash_objhead := (hash_objhead s)(r_sess q := None)\<rparr>) \<and> oh \<in> hcb_heads i \<and>
    nobjcore w' = nobjcore w \<and> nwaitinglist w' \<and> nbusyobj w' \<and>
    (case hash_objhead s (r_sess q) of None \<Rightarrow> hcb_digest i oh = r_digest q | Some h \<Rightarrow> oh = h)"
proof -
  obtain noh where noh: "nobjhead w = Some noh" "noh \<notin> hcb_heads (hidx s)" "hcb_refcnt (hidx s) noh = 1" "hcb_ready (hidx s) noh"
    "lost noh = 0" "waitinglist s noh = None" and w': "nwaitinglist w" "nbusyobj w" using w unfolding prealloc_ok_def by blast
  define r where "r = (hidx s)\<lparr>hcb_digest := (hcb_digest (hidx s))(noh := r_digest q)\<rparr>"
  have r: "hcb_inv r" "hcb_heads r = hcb_heads (hidx s)" "hcb_refcnt r = hcb_refcnt (hidx s)" "hcb_digest r noh = r_digest q" "hcb_ready r noh"
    using hcb_inv_spare [OF cache_invD(3) [OF inv] noh(2), of r] noh(4) by (simp_all add: r_def hcb_ready_def)
  show ?thesis
  proof (cases "hash_objhead s (r_sess q)")
    case (Some oh)
    have "lookup_head q s w = Some (s\<lparr>hidx := r, hash_objhead := (hash_objhead s)(r_sess q := None)\<rparr>, w, oh)"
      using noh Some by (simp add: lookup_head_def r_def)
    then show ?thesis using take_from_session [OF inv Some _ r(1,2)] off r(3) Some w' by auto
  next
    case None
    then have se: "s\<lparr>hidx := i, hash_objhead := (hash_objhead s)(r_sess q := None)\<rparr> = s\<lparr>hidx := i\<rparr>" for i
      by (cases s) (simp add: fun_upd_idem)
    obtain i oh where i: "hcb_lookup r noh = Some (i, oh)" "oh \<in> hcb_heads i" "hcb_digest i oh = r_digest q" "cache_inv own (plus1 lost oh) (s\<lparr>hidx := i\<rparr>)"
      using take_from_index [OF inv r(1) _ _ _ r(5,2)] r(2-4) noh len by auto
    have "lookup_head q s w = Some (s\<lparr>hidx := i\<rparr>, if oh = noh then w\<lparr>nobjhead := None\<rparr> else w, oh)"
      using noh(1) None i(1) by (simp add: lookup_head_def r_def)
    then show ?thesis unfolding se using i None w' by auto
  qed
qed

lemma head_ok_cong:
  assumes "hidx s' = hidx s" "objcs s' = objcs s" "waitinglist s' = waitinglist s" "hash_objhead s' = hash_objhead s"
  shows "head_ok lost s' h = head_ok lost s h"
proof -
  have "holders s' h = holders s h" using assms(4) by (simp add: holders_def)
  then show ?thesis using assms by (simp add: head_ok_def)
qed

section \<open>Cores\<close>

lemma cache_inv_core:
  assumes inv: "cache_inv own lost s"
    and f: "\<And>c. timer_when (f c) = timer_when c \<and> oc_lru (f c) = oc_lru c \<and> oc_methods (f c) = oc_methods c \<and> oc_ban (f c) = oc_ban c"
    and ok: "\<And>h. oc \<in> set (objcs s h) \<Longrightarrow> core_ok own' (upd_core oc f s) h oc" and own: "\<And>x. x \<noteq> oc \<Longrightarrow> own' x = own x"
  shows "cache_inv own' lost (upd_core oc f s)"
proof -
  let ?s = "upd_core oc f s"
  have e: "exp_inv ?s" "on_heap ?s = on_heap s" using exp_inv_upd_core [OF cache_invD(1) [OF inv]] f by simp_all
  have "ban_inv ?s" by (rule ban_inv_cong [OF cache_invD(2) [OF inv]]) (simp_all add: f option.map_comp comp_def)
  moreover have "head_ok lost ?s h" for h using cache_invD(4) [OF inv, of h] head_ok_cong [of ?s s] by simp
  moreover have "core_ok own' ?s h x" if "x \<in> set (objcs s h)" for h x
  proof (cases "x = oc")
    case True
    then show ?thesis using ok that by simp
  next
    case False
    then show ?thesis using cache_invD(5) [OF inv that] own [OF False] e(2) by (simp add: core_ok_def)
  qed
  ultimately show ?thesis using e cache_invD(3,6) [OF inv] by (simp add: cache_inv_def)
qed

text \<open>A head with a core is in the index.\<close>

lemma head_in_index: "cache_inv own lost s \<Longrightarrow> oc \<in> set (objcs s h) \<Longrightarrow> h \<in> hcb_heads (hidx s)"
  using cache_invD(4) [of own lost s h] by (auto simp: head_ok_def split: if_splits)

lemma head_refcnt:
  assumes "cache_inv own lost s" and "h \<in> hcb_heads (hidx s)"
  shows "hcb_refcnt (hidx s) h = int (length (objcs s h) + card (holders s h) + lost h)"
  using cache_invD(4) [OF assms(1), of h] assms(2) by (simp add: head_ok_def)

text \<open>Giving a reference to a head back that is not its last.\<close>

lemma deref_not_last:
  assumes inv: "cache_inv own (plus1 lost oh) s" and h: "oh \<in> hcb_heads (hidx s)" and r: "hcb_refcnt (hidx s) oh > 1"
  shows "\<exists>i. hcb_deref (hidx s) oh = Some (i, True) \<and> cache_inv own lost (s\<lparr>hidx := i\<rparr>) \<and> hcb_digest i = hcb_digest (hidx s)"
proof -
  obtain i where i: "hcb_deref (hidx s) oh = Some (i, True)" "hcb_inv i" "hcb_refcnt i = (hcb_refcnt (hidx s))(oh := hcb_refcnt (hidx s) oh - 1)"
    "hcb_heads i = hcb_heads (hidx s)" "hcb_digest i = hcb_digest (hidx s)" using hcb.release [OF cache_invD(3) [OF inv] h] r by (auto split: if_splits)
  have "head_ok lost (s\<lparr>hidx := i\<rparr>) x" for x
    using cache_invD(4) [OF inv, of x] h unfolding head_ok_def holders_def by (cases "x = oh") (auto simp: i(3,4) split: if_splits)
  then show ?thesis using i by (auto intro!: cache_inv_heads [OF inv])
qed

lemma lookup_hit_spec:
  assumes inv: "cache_inv own (plus1 lost oh) s" and oc: "oc \<in> set (objcs s oh)" "core s oc = Some c" "\<not> oc_busy c"
  shows "\<exists>s'. lookup_hit s oh oc = Some s' \<and> cache_inv (plus1 own oc) lost s' \<and> hcb_digest (hidx s') = hcb_digest (hidx s) \<and>
    (\<exists>c'. core s' oc = Some c' \<and> oc_refcnt c' = oc_refcnt c + 1 \<and> o_exp c' = o_exp c)"
proof -
  define f :: "objcore \<Rightarrow> objcore" where "f = (\<lambda>c. c\<lparr>oc_refcnt := oc_refcnt c + 1, o_hits := if o_hits c < INT_MAX then o_hits c + 1 else o_hits c\<rparr>)"
  have m: "oc_methods c" "oc_objhead c = oh" using cache_invD(5) [OF inv oc(1)] oc(2,3) by (auto simp: core_ok_def)
  have ok: "core_ok (plus1 own oc) (upd_core oc f s) h oc" if "oc \<in> set (objcs s h)" for h
    using cache_invD(5) [OF inv that] oc(2) m(1) by (auto simp: core_ok_def f_def on_heap_def)
  have i1: "cache_inv (plus1 own oc) (plus1 lost oh) (upd_core oc f s)"
    by (rule cache_inv_core [OF inv _ ok]) (simp_all add: f_def)
  have h: "oh \<in> hcb_heads (hidx s)" by (rule head_in_index [OF inv oc(1)])
  have "length (objcs s oh) > 0" using oc(1) by (cases "objcs s oh") auto
  then have r: "hcb_refcnt (hidx s) oh > 1" unfolding head_refcnt [OF inv h] fun_upd_same by linarith
  from deref_not_last [OF i1] h r obtain i where i: "hcb_deref (hidx s) oh = Some (i, True)" "cache_inv (plus1 own oc) lost ((upd_core oc f s)\<lparr>hidx := i\<rparr>)"
    "hcb_digest i = hcb_digest (hidx s)" by auto
  have "lookup_hit s oh oc = Some ((upd_core oc f s)\<lparr>hidx := i\<rparr>)"
    using oc m r i(1) by (simp add: lookup_hit_def oc_getobj_def f_def)
  then show ?thesis using i(2,3) oc(2) by (auto simp: f_def)
qed

lemma lookup_wait_spec:
  assumes inv: "cache_inv own (plus1 lost oh) s" and h: "oh \<in> hcb_heads (hidx s)" and sp: "hash_objhead s (r_sess q) = None" and w: "nwaitinglist w"
  shows "\<exists>s' w'. lookup_wait q s w oh = Some (s', w') \<and> cache_inv own lost s' \<and> hash_objhead s' (r_sess q) = Some oh \<and> hidx s' = hidx s \<and>
    (esi_level q = 0 \<longrightarrow> (\<exists>l. waitinglist s' oh = Some (l @ [r_sess q])))"
proof -
  let ?sp = "r_sess q"
  let ?wl = "case waitinglist s oh of None \<Rightarrow> [] | Some l \<Rightarrow> l"
  define s' where "s' = (if esi_level q = 0 then s\<lparr>waitinglist := (waitinglist s)(oh \<mapsto> ?wl @ [?sp])\<rparr> else s)\<lparr>hash_objhead := (hash_objhead s)(?sp \<mapsto> oh)\<rparr>"
  have hs: "holders s' x = (if x = oh then insert ?sp (holders s x) else holders s x)" for x using sp by (auto simp: s'_def holders_def)
  have new: "?sp \<notin> holders s x" for x using sp by (simp add: holders_def)
  have "wait_ok (waitinglist s oh) (holders s oh)" using cache_invD(4) [OF inv, of oh] by (simp add: head_ok_def)
  note wl = wait_ok_add [OF this new] wait_ok_mono [OF this subset_insertI]
  have f: "hidx s' = hidx s" "objcs s' = objcs s" "waitinglist s' = (if esi_level q = 0 then (waitinglist s)(oh \<mapsto> ?wl @ [?sp]) else waitinglist s)"
    by (simp_all add: s'_def)
  have "head_ok lost s' x" for x
    using cache_invD(4) [OF inv, of x] h new [of x] wl unfolding head_ok_def hs f by (cases "x = oh") (auto split: if_splits)
  then have "cache_inv own lost s'" using cache_invD(3) [OF inv] by (intro cache_inv_heads [OF inv]) (simp_all add: s'_def)
  moreover define w' where "w' = (if esi_level q = 0 \<and> waitinglist s oh = None then w\<lparr>nwaitinglist := False\<rparr> else w)"
  have "lookup_wait q s w oh = Some (s', w')" using w by (auto simp: lookup_wait_def s'_def w'_def Let_def)
  moreover have "hash_objhead s' ?sp = Some oh" by (simp add: s'_def)
  moreover have "esi_level q = 0 \<longrightarrow> (\<exists>l. waitinglist s' oh = Some (l @ [?sp]))" unfolding f(3) by auto
  ultimately show ?thesis using f(1) by (intro exI [of _ s'] exI [of _ w']) simp
qed

lemma lookup_miss_spec:
  assumes inv: "cache_inv own (plus1 lost oh) s" and h: "oh \<in> hcb_heads (hidx s)"
    and w: "nobjcore w = Some oc" "core s oc = Some c" "oc_busy c" "\<And>h. oc \<notin> set (objcs s h)" "nbusyobj w"
    and v: "VRY_Validate (vary_b q) = Some ()"
  shows "\<exists>s' w' c'. lookup_miss q s w oh = Some (s', w', oc) \<and> cache_inv (own(oc := 1)) lost s' \<and> core s' oc = Some c' \<and> oc_busy c' \<and>
    oc_refcnt c' = 1 \<and> oc_objhead c' = oh \<and> objcs s' oh = objcs s oh @ [oc] \<and> hidx s' = hidx s"
proof -
  define f :: "objcore \<Rightarrow> objcore" where "f = (\<lambda>c. c\<lparr>oc_refcnt := 1, oc_busyobj := Some (if vary_l q then Some (vary_b q) else None), oc_objhead := oh\<rparr>)"
  define s1 where "s1 = upd_core oc f s"
  have i1: "cache_inv (own(oc := 1)) (plus1 lost oh) s1"
    unfolding s1_def by (rule cache_inv_core [OF inv]) (use w(4) in \<open>simp_all add: f_def\<close>)
  let ?s = "s1\<lparr>objcs := (objcs s1)(oh := objcs s1 oh @ [oc])\<rparr>"
  have o: "objcs s1 = objcs s" "hidx s1 = hidx s" "on_heap s1 = on_heap s" by (simp_all add: s1_def on_heap_def)
  have noh: "oc \<notin> on_heap s" using cache_invD(6) [OF inv] w(4) by blast
  have ck: "core_ok (own(oc := 1)) ?s x y = core_ok (own(oc := 1)) s1 x y" for x y by (simp add: core_ok_def on_heap_def)
  have new: "core_ok (own(oc := 1)) s1 oh oc" using w noh o(3) by (simp add: core_ok_def s1_def f_def)
  have "head_ok lost ?s x" for x
    using cache_invD(4) [OF i1, of x] h w(4) unfolding head_ok_def holders_def by (cases "x = oh") (auto simp: o split: if_splits)
  moreover have "exp_inv ?s" "ban_inv ?s" "on_heap ?s = on_heap s1"
    using cache_invD(1) [OF i1] exp_inv_cong [of s1 ?s] ban_inv_cong [OF cache_invD(2) [OF i1], of ?s]
    by (auto simp: timer_def lru_of_def has_obj_def exp_inv_def on_heap_def)
  moreover have "core_ok (own(oc := 1)) ?s x y" if "y \<in> set (objcs ?s x)" for x y
    using that new cache_invD(5) [OF i1, of y x] unfolding ck by (cases "x = oh") auto
  moreover have "\<exists>x. y \<in> set (objcs ?s x)" if "y \<in> on_heap s1" for y using cache_invD(6) [OF i1 that] by auto
  ultimately have "cache_inv (own(oc := 1)) lost ?s" using cache_invD(3) [OF i1] by (simp add: cache_inv_def)
  moreover have "lookup_miss q s w oh = Some (?s, w\<lparr>nobjcore := None, nbusyobj := False\<rparr>, oc)"
    using w v by (simp add: lookup_miss_def s1_def f_def)
  moreover have "core ?s oc = Some (f c)" using w(2) by (simp add: s1_def)
  moreover have "objcs ?s oh = objcs s oh @ [oc]" by (simp add: o)
  ultimately show ?thesis using w(3) by (intro exI [of _ ?s] exI [of _ "w\<lparr>nobjcore := None, nbusyobj := False\<rparr>"] exI [of _ "f c"]) (simp add: f_def o)
qed

section \<open>A whole lookup\<close>

text \<open>What the worker has left over, and the addresses the allocator may return.\<close>

definition worker_ok :: "(u64 \<Rightarrow> nat) \<Rightarrow> cache \<Rightarrow> wprealloc \<Rightarrow> bool" where
  "worker_ok lost s w \<longleftrightarrow>
     (\<forall>noc. nobjcore w = Some noc \<longrightarrow> (\<exists>c. core s noc = Some c \<and> oc_busy c) \<and> (\<forall>h. noc \<notin> set (objcs s h))) \<and>
     (\<forall>noh. nobjhead w = Some noh \<longrightarrow> noh \<notin> hcb_heads (hidx s) \<and> hcb_refcnt (hidx s) noh = 1 \<and> aligned noh \<and> lost noh = 0 \<and> waitinglist s noh = None) \<and>
     (\<forall>y. nhashpriv (hidx s) = Some y \<longrightarrow> aligned y \<and> ymem (hidx s) y \<noteq> None)"

definition unused :: "(u64 \<Rightarrow> nat) \<Rightarrow> cache \<Rightarrow> addr \<Rightarrow> u64 \<Rightarrow> u64 \<Rightarrow> bool" where
  "unused lost s a h y \<longleftrightarrow> core s a = None \<and> aligned h \<and> h \<notin> hcb_heads (hidx s) \<and> lost h = 0 \<and>
     aligned y \<and> ymem (hidx s) y = None \<and> y \<notin> y_pool (hidx s)"

lemma hcb_prep_ready:
  assumes "hcb_inv r" and "aligned y" and "ymem r y = None" and "y \<notin> y_pool r" and "\<And>y. nhashpriv r = Some y \<Longrightarrow> aligned y \<and> ymem r y \<noteq> None" and "aligned noh"
  shows "hcb_inv (hcb_prep r y)" "hcb_heads (hcb_prep r y) = hcb_heads r" "hcb_ready (hcb_prep r y) noh" "hcb_refcnt (hcb_prep r y) = hcb_refcnt r"
  using hcb_prep_keeps [OF assms(1,3,4)] assms by (auto simp: hcb_prep_def hcb_ready_def split: option.splits)

lemma cache_inv_new_core:
  assumes inv: "cache_inv own lost s" and a: "core s a = None" and z: "oc_ban z = None"
  shows "cache_inv own lost (s\<lparr>core := (core s)(a \<mapsto> z)\<rparr>)"
proof -
  let ?s = "s\<lparr>core := (core s)(a \<mapsto> z)\<rparr>"
  note i = cache_invD [OF inv]
  have an: "\<And>x. x \<in> on_heap s \<Longrightarrow> x \<noteq> a" "\<And>x h. x \<in> set (objcs s h) \<Longrightarrow> x \<noteq> a" using i(1) i(5) [of a] a by (auto simp: exp_inv_def has_obj_def core_ok_def)
  have "exp_inv ?s" using an(1) i(1) by (intro exp_inv_cong [OF i(1)]) (auto simp: timer_def lru_of_def has_obj_def exp_inv_def)
  moreover have "bans_of ?s b = bans_of s b" for b using a z by (auto simp: bans_of_def)
  then have "ban_inv ?s"
    by (intro ban_inv_upd [OF i(2)]) (use i(2) z in \<open>auto simp: ban_inv_def split: if_splits\<close>)
  moreover have "head_ok lost ?s h" for h using i(4) [of h] head_ok_cong [of ?s s] by simp
  moreover have "core_ok own ?s h x" if "x \<in> set (objcs s h)" for h x using i(5) [OF that] an(2) [OF that] by (simp add: core_ok_def on_heap_def)
  ultimately show ?thesis using i(3,6) by (simp add: cache_inv_def on_heap_def)
qed

lemma no_head_no_wait:
  assumes "cache_inv own lost s" and "h \<notin> hcb_heads (hidx s)"
  shows "waitinglist s h = None" "objcs s h = []"
  using cache_invD(4) [OF assms(1), of h] assms(2) by (auto simp: head_ok_def)

text \<open>Preparing a worker adds at most an unlinked core; nothing that is in use changes.\<close>

definition extends :: "cache \<Rightarrow> cache \<Rightarrow> bool" where
  "extends s s1 \<longleftrightarrow> objcs s1 = objcs s \<and> waitinglist s1 = waitinglist s \<and> hcb_heads (hidx s1) = hcb_heads (hidx s) \<and> bmem s1 = bmem s \<and>
     ban_head s1 = ban_head s \<and> (\<forall>x c. core s1 x = Some c \<longrightarrow> core s x = Some c \<or> core s x = None \<and> oc_lurk c = 0) \<and>
     (\<forall>x. core s x \<noteq> None \<longrightarrow> core s1 x = core s x)"

lemma HSH_Prealloc_spec:
  assumes inv: "cache_inv own lost s" and w: "worker_ok lost s w" and u: "unused lost s a h y"
  shows "\<exists>s1 w1. HSH_Prealloc a h y s w = (s1, w1) \<and> cache_inv own lost s1 \<and> prealloc_ok lost s1 w1 \<and> extends s s1 \<and> hash_objhead s1 = hash_objhead s"
proof -
  note u' = u [unfolded unused_def] and w' = w [unfolded worker_ok_def] and i = cache_invD [OF inv]
  define noh where "noh = (case nobjhead w of None \<Rightarrow> h | Some n \<Rightarrow> n)"
  define noc where "noc = (case nobjcore w of None \<Rightarrow> a | Some n \<Rightarrow> n)"
  define cr where "cr = (if nobjcore w = None then (core s)(a \<mapsto> zero_core\<lparr>oc_busy := True\<rparr>) else core s)"
  define rc where "rc = (hidx s)\<lparr>hcb_refcnt := (hcb_refcnt (hidx s))(noh := 1)\<rparr>"
  have noh: "noh \<notin> hcb_heads (hidx s)" "aligned noh" "lost noh = 0" using u' w' by (auto simp: noh_def split: option.splits)
  note free = no_head_no_wait [OF inv noh(1)]
  have rc: "hcb_inv rc" "hcb_heads rc = hcb_heads (hidx s)"
    using hcb_inv_spare [OF i(3) noh(1), of rc] by (simp_all add: rc_def)
  have pr: "hcb_inv (hcb_prep rc y)" "hcb_heads (hcb_prep rc y) = hcb_heads rc" "hcb_ready (hcb_prep rc y) noh" "hcb_refcnt (hcb_prep rc y) = hcb_refcnt rc"
    by (rule hcb_prep_ready [OF rc(1)]; use u' w' noh in \<open>simp add: rc_def y_pool_def\<close>)+
  have rr: "hcb_refcnt (hcb_prep rc y) = (hcb_refcnt (hidx s))(noh := 1)" unfolding pr(4) by (simp add: rc_def)
  define s1 where "s1 = s\<lparr>core := cr, hidx := hcb_prep rc y\<rparr>"
  define w1 where "w1 = \<lparr>nobjcore = Some noc, nobjhead = Some noh, nwaitinglist = True, nbusyobj = True\<rparr>"
  have "HSH_Prealloc a h y s w = (s1, w1)"
    using w' free no_head_no_wait [OF inv, of h] u'
    by (cases w; cases s; cases "nobjcore w"; cases "nobjhead w")
      (auto simp: HSH_Prealloc_def s1_def w1_def cr_def rc_def noh_def noc_def fun_upd_idem)
  moreover have "cache_inv own lost (s\<lparr>core := cr\<rparr>)"
    using cache_inv_new_core [OF inv, of a "zero_core\<lparr>oc_busy := True\<rparr>"] u' inv by (simp add: cr_def zero_core_def)
  then have "cache_inv own lost s1"
    unfolding s1_def
  proof (rule cache_inv_heads)
    fix x
    show "head_ok lost (s\<lparr>core := cr, hidx := hcb_prep rc y\<rparr>) x"
      using i(4) [of x] noh(1) unfolding head_ok_def holders_def by (cases "x = noh") (auto simp: pr(2) rc(2) rr split: if_splits)
  qed (use pr in simp_all)
  moreover have "prealloc_ok lost s1 w1"
  proof -
    have "\<exists>c. cr noc = Some c \<and> oc_busy c" using w' by (auto simp: cr_def noc_def zero_core_def split: option.splits)
    moreover have "noc \<notin> set (objcs s x)" for x using w' u' i(5) [of noc x] by (auto simp: noc_def core_ok_def split: option.splits)
    ultimately show ?thesis using noh pr(2,3) rc(2) free rr by (auto simp: prealloc_ok_def s1_def w1_def)
  qed
  moreover have "extends s s1" using u' pr rc by (auto simp: extends_def s1_def cr_def zero_core_def)
  moreover have "hash_objhead s1 = hash_objhead s" by (simp add: s1_def)
  ultimately show ?thesis by blast
qed

text \<open>
  The answer of a lookup.  A hit is a fresh object, or, when there is none, one in grace while somebody else fetches or
  the backend is sick.  A session waits only for a fetch that would serve it.  Otherwise there is a new busy core at the
  tail of the head's list.
\<close>

definition lookup_ok :: "exp_params \<Rightarrow> lreq \<Rightarrow> cache \<Rightarrow> (addr \<Rightarrow> nat) \<Rightarrow> (u64 \<Rightarrow> nat) \<Rightarrow> u64 \<Rightarrow> cache \<Rightarrow> lookup_res \<Rightarrow> bool" where
  "lookup_ok params q s own lost h s' res \<longleftrightarrow> (case res of
       LHit oc oh \<Rightarrow> oh = h \<and> cache_inv (plus1 own oc) lost s' \<and> \<not> hash_always_miss q \<and> oc \<in> set (objcs s h) \<and>
         (fresh q s oc \<or> (\<forall>x \<in> set (objcs s h). \<not> fresh q s x) \<and> in_grace params q s oc \<and>
            (\<not> vhealthy q \<or> (\<exists>x \<in> set (objcs s h). fetching q s x)))
     | LWait \<Rightarrow> cache_inv own lost s' \<and> hash_objhead s' (r_sess q) = Some h \<and> (\<exists>x \<in> set (objcs s h). fetching q s x) \<and>
         (\<forall>x \<in> set (objcs s h). \<not> fresh q s x \<and> \<not> in_grace params q s x)
     | LMiss oc oh \<Rightarrow> oh = h \<and> cache_inv (own(oc := 1)) lost s' \<and> objcs s' h = objcs s h @ [oc] \<and>
         (\<exists>c. core s' oc = Some c \<and> oc_busy c \<and> oc_refcnt c = 1) \<and>
         (hash_always_miss q \<or> (\<forall>x \<in> set (objcs s h). \<not> fresh q s x \<and> \<not> fetching q s x \<and> (in_grace params q s x \<longrightarrow> vhealthy q))))"

lemma lookup_ok_cong:
  assumes "objcs s1 = objcs s" "bmem s1 = bmem s" "ban_head s1 = ban_head s" "\<And>x. x \<in> set (objcs s h) \<Longrightarrow> core s1 x = core s x"
  shows "lookup_ok params q s1 own lost h s' res = lookup_ok params q s own lost h s' res"
proof -
  have "servable q s1 x c = servable q s x c" if "x \<in> set (objcs s h)" for x c
    using assms(4) [OF that] assms(2,3) by (simp add: servable_def newer_def)
  then have "fresh q s1 x = fresh q s x" "in_grace params q s1 x = in_grace params q s x" "fetching q s1 x = fetching q s x" if "x \<in> set (objcs s h)" for x
    using assms(4) that by (simp_all add: fresh_def in_grace_def fetching_def)
  then show ?thesis by (cases res) (simp_all add: lookup_ok_def assms(1) cong: ball_cong bex_cong conj_cong)
qed

text \<open>The rest of a lookup leaves the bans and every lifetime alone.\<close>

definition same_life :: "cache \<Rightarrow> cache \<Rightarrow> bool" where
  "same_life s s' \<longleftrightarrow> bmem s' = bmem s \<and> ban_head s' = ban_head s \<and> ban_start s' = ban_start s \<and>
     (\<forall>x c. core s x = Some c \<longrightarrow> (\<exists>c'. core s' x = Some c' \<and> o_exp c' = o_exp c \<and> oc_ban c' = oc_ban c))"

lemma rechecks_frame:
  assumes "rechecks q s s1" and "same_life s1 s'"
  shows "rechecks q s s'"
proof -
  have "recheck q s x c c'" if "recheck q s x c c1" "o_exp c' = o_exp c1" "oc_ban c' = oc_ban c1" for x c c1 c'
    using that unfolding recheck_def by presburger
  moreover have "bans_keep s s'" using assms by (simp add: rechecks_def same_life_def bans_keep_def)
  ultimately show ?thesis using assms unfolding rechecks_def same_life_def by meson
qed

lemma lookup_hit_keeps: "lookup_hit s oh oc = Some s' \<Longrightarrow> same_life s s'"
  by (auto simp: lookup_hit_def oc_getobj_def Let_def bind_eq_Some_conv vassert_eq_Some same_life_def split: if_splits)

lemma lookup_wait_keeps: "lookup_wait q s w oh = Some (s', w') \<Longrightarrow> same_life s s'"
  by (auto simp: lookup_wait_def Let_def bind_eq_Some_conv same_life_def split: if_splits)

lemma lookup_miss_keeps: "lookup_miss q s w oh = Some (s', w', oc) \<Longrightarrow> same_life s s'"
  by (auto simp: lookup_miss_def Let_def bind_eq_Some_conv same_life_def split: if_splits)

text \<open>After the head has been found.\<close>

lemma lookup_tail_spec:
  assumes inv: "cache_inv own (plus1 lost oh) s" and h: "oh \<in> hcb_heads (hidx s)" and a: "answers q s" and sp: "hash_objhead s (r_sess q) = None"
    and w: "nobjcore w = Some noc" "core s noc = Some c" "oc_busy c" "\<And>h. noc \<notin> set (objcs s h)" "nwaitinglist w" "nbusyobj w"
    and v: "VRY_Validate (vary_b q) = Some ()"
  shows "\<exists>s1 f b g s' w' res. lookup_loop params q oh s (objcs s oh) None None = Some (s1, f, b, g) \<and>
    (case (if hash_always_miss q then None else pick_oc q f b g) of
        Some oc \<Rightarrow> do { s \<leftarrow> lookup_hit s1 oh oc; Some (s, w, LHit oc oh) }
      | None \<Rightarrow>
          if b \<noteq> None then do { (s, w) \<leftarrow> lookup_wait q s1 w oh; Some (s, w, LWait) }
          else do { (s, w, oc) \<leftarrow> lookup_miss q s1 w oh; Some (s, w, LMiss oc oh) }) = Some (s', w', res) \<and>
    lookup_ok params q s own lost oh s' res \<and> hcb_digest (hidx s') = hcb_digest (hidx s) \<and> rechecks q s s'"
proof -
  have "hcb_refcnt (hidx s) oh > 1" if "objcs s oh \<noteq> []"
    using that unfolding head_refcnt [OF inv h] fun_upd_same by (cases "objcs s oh") simp_all
  moreover have "distinct (objcs s oh)" using cache_invD(4) [OF inv, of oh] by (simp add: head_ok_def)
  ultimately obtain s1 f b g where lp: "lookup_loop params q oh s (objcs s oh) None None = Some (s1, f, b, g)"
    "loop_res params q s (objcs s oh) None None f b g" "cache_inv own (plus1 lost oh) s1" "same_refs s s1" "rechecks q s s1"
    using lookup_loop_spec [OF inv a _ order_refl, of oh params None None] by blast
  have f1: "objcs s1 = objcs s" "hash_objhead s1 = hash_objhead s" "hidx s1 = hidx s" using lp(4) by (simp_all add: same_refs_def)
  note kp = rechecks_frame [OF lp(5)]
  define sel where "sel = (if hash_always_miss q then None else pick_oc q f b g)"
  let ?R = "\<lambda>r. \<exists>s' w' res. r = Some (s', w', res) \<and> lookup_ok params q s own lost oh s' res \<and> hcb_digest (hidx s') = hcb_digest (hidx s) \<and> rechecks q s s'"
  have "?R (case sel of Some oc \<Rightarrow> do { s \<leftarrow> lookup_hit s1 oh oc; Some (s, w, LHit oc oh) }
      | None \<Rightarrow> if b \<noteq> None then do { (s, w) \<leftarrow> lookup_wait q s1 w oh; Some (s, w, LWait) }
          else do { (s, w, oc) \<leftarrow> lookup_miss q s1 w oh; Some (s, w, LMiss oc oh) })"
  proof (cases sel)
    case (Some oc)
    have am: "\<not> hash_always_miss q" using Some by (auto simp: sel_def pick_oc_def)
    have oc: "oc \<in> set (objcs s oh)" "fresh q s oc \<or> (\<forall>x \<in> set (objcs s oh). \<not> fresh q s x) \<and> in_grace params q s oc \<and>
        (\<not> vhealthy q \<or> (\<exists>x \<in> set (objcs s oh). fetching q s x))"
      using Some lp(2) unfolding sel_def pick_oc_def loop_res_def by (auto split: if_splits option.splits)
    then obtain c0 where c0: "core s oc = Some c0" "\<not> oc_busy c0" by (auto simp: fresh_def in_grace_def servable_def)
    from same_refs_core [OF lp(4) c0(1)] obtain c1 where "core s1 oc = Some c1" "\<not> oc_busy c1" using c0(2) by metis
    with lookup_hit_spec [OF lp(3)] oc(1) f1(1) obtain s' where "lookup_hit s1 oh oc = Some s'" "cache_inv (plus1 own oc) lost s'"
      "hcb_digest (hidx s') = hcb_digest (hidx s)" using f1(3) by metis
    then show ?thesis using Some am oc kp [OF lookup_hit_keeps] by (simp add: lookup_ok_def)
  next
    case None
    show ?thesis
    proof (cases "b = None")
      case False
      have am: "\<not> hash_always_miss q"
      proof
        assume "hash_always_miss q"
        then have "b = None" using lp(2) by (auto simp: loop_res_def fetching_def split: option.splits)
        then show False using False by simp
      qed
      have fr: "f = None" "g = None" using None False am by (cases g; auto simp: sel_def pick_oc_def split: if_splits)+
      have "(\<exists>x \<in> set (objcs s oh). fetching q s x)" "\<forall>x \<in> set (objcs s oh). \<not> fresh q s x \<and> \<not> in_grace params q s x"
        using lp(2) fr False unfolding loop_res_def by auto
      moreover obtain s' w' where "lookup_wait q s1 w oh = Some (s', w')" "cache_inv own lost s'" "hash_objhead s' (r_sess q) = Some oh" "hidx s' = hidx s"
        using lookup_wait_spec [OF lp(3), of q w] h sp w(5) f1 by auto
      ultimately show ?thesis using None False kp [OF lookup_wait_keeps] by (simp add: lookup_ok_def)
    next
      case True
      from same_refs_core [OF lp(4) w(2)] obtain c1 where c1: "core s1 noc = Some c1" "oc_busy c1" using w(3) by metis
      obtain s' w' c' where "lookup_miss q s1 w oh = Some (s', w', noc)" "cache_inv (own(noc := 1)) lost s'" "core s' noc = Some c'" "oc_busy c'" "oc_refcnt c' = 1"
        "objcs s' oh = objcs s oh @ [noc]" "hidx s' = hidx s"
        using lookup_miss_spec [OF lp(3) _ w(1) c1 _ w(6) v] h w(4) f1 by auto
      moreover have "hash_always_miss q \<or> (\<forall>x \<in> set (objcs s oh). \<not> fresh q s x \<and> \<not> fetching q s x \<and> (in_grace params q s x \<longrightarrow> vhealthy q))"
        using lp(2) None True unfolding sel_def pick_oc_def loop_res_def by (cases f) (auto split: if_splits)
      ultimately show ?thesis using None True kp [OF lookup_miss_keeps] by (simp add: lookup_ok_def)
    qed
  qed
  then show ?thesis using lp(1) unfolding sel_def by blast
qed

text \<open>The hypotheses of a lookup: a well-formed cache, a worker with what it has left over, and a session off every waiting list.\<close>

definition lookup_pre :: "(addr \<Rightarrow> nat) \<Rightarrow> (u64 \<Rightarrow> nat) \<Rightarrow> cache \<Rightarrow> wprealloc \<Rightarrow> addr \<Rightarrow> u64 \<Rightarrow> u64 \<Rightarrow> lreq \<Rightarrow> bool" where
  "lookup_pre own lost s w a h y q \<longleftrightarrow> cache_inv own lost s \<and> worker_ok lost s w \<and> unused lost s a h y \<and> answers q s \<and>
     length (r_digest q) = DIGEST_LEN \<and> VRY_Validate (vary_b q) = Some () \<and>
     (\<forall>h l. waitinglist s h = Some l \<longrightarrow> r_sess q \<notin> set l)"

lemma answers_cong: "bmem s' = bmem s \<Longrightarrow> core s' = core s \<Longrightarrow> answers q s' = answers q s"
  by (simp only: answers_def)

lemma answers_extends:
  assumes "answers q s" and "extends s s1"
  shows "answers q s1"
  unfolding answers_def
proof (intro conjI allI impI)
  show "vmatch q v \<noteq> None" for v using assms(1) by (simp add: answers_def)
  fix oc b bn
  assume "bmem s1 b = Some bn"
  then have bn: "bmem s b = Some bn" using assms(2) by (simp add: extends_def)
  then show "beval q oc (ban_spec bn) \<noteq> None" using assms(1) unfolding answers_def by blast
  fix c
  assume c: "core s1 oc = Some c \<and> ban_lurk bn \<noteq> 0 \<and> ban_lurk bn = oc_lurk c"
  then have "core s oc = Some c" using assms(2) unfolding extends_def by fastforce
  then show "\<not> ban_req bn" "beval q oc (ban_spec bn) = Some False" using assms(1) bn c unfolding answers_def by blast+
qed

lemma HSH_Lookup_full:
  assumes pre: "lookup_pre own lost s w a h y q"
  shows "\<exists>s' w' res oh. HSH_Lookup params a h y q s w = Some (s', w', res) \<and> lookup_ok params q s own lost oh s' res \<and>
    (case hash_objhead s (r_sess q) of Some x \<Rightarrow> oh = x | None \<Rightarrow> hcb_digest (hidx s') oh = r_digest q) \<and> rechecks q s s'"
proof -
  note p = pre [unfolded lookup_pre_def]
  obtain s1 w1 where 1: "HSH_Prealloc a h y s w = (s1, w1)" "cache_inv own lost s1" "prealloc_ok lost s1 w1" "extends s s1" "hash_objhead s1 = hash_objhead s"
    using HSH_Prealloc_spec p by blast
  have off: "\<forall>x l. waitinglist s1 x = Some l \<longrightarrow> r_sess q \<notin> set l" using p 1(4) by (simp add: extends_def)
  have len: "length (r_digest q) = DIGEST_LEN" using p by blast
  from lookup_head_spec [OF 1(2,3) len off] obtain i w2 oh where
    2: "lookup_head q s1 w1 = Some (s1\<lparr>hidx := i, hash_objhead := (hash_objhead s1)(r_sess q := None)\<rparr>, w2, oh)"
      "cache_inv own (plus1 lost oh) (s1\<lparr>hidx := i, hash_objhead := (hash_objhead s1)(r_sess q := None)\<rparr>)" "oh \<in> hcb_heads i"
      "nobjcore w2 = nobjcore w1" "nwaitinglist w2" "nbusyobj w2"
    and dg: "case hash_objhead s1 (r_sess q) of None \<Rightarrow> hcb_digest i oh = r_digest q | Some h \<Rightarrow> oh = h" by (elim exE conjE)
  define s2 where "s2 = s1\<lparr>hidx := i, hash_objhead := (hash_objhead s1)(r_sess q := None)\<rparr>"
  have h2: "oh \<in> hcb_heads (hidx s2)" "hash_objhead s2 (r_sess q) = None" using 2(3) by (simp_all add: s2_def)
  have "answers q s" using p by blast
  from answers_extends [OF this 1(4)] answers_cong [of s2 s1] have a2: "answers q s2" by (simp add: s2_def)
  obtain noc c where noc: "nobjcore w2 = Some noc" "core s2 noc = Some c" "oc_busy c" "\<And>h. noc \<notin> set (objcs s2 h)"
    using 1(3) 2(4) by (auto simp: prealloc_ok_def s2_def)
  have pos: "hcb_refcnt (hidx s2) oh > 0" using head_refcnt [OF 2(2) [folded s2_def] h2(1)] by simp
  have vv: "VRY_Validate (vary_b q) = Some ()" using p by blast
  from lookup_tail_spec [OF 2(2) [folded s2_def] h2(1) a2 h2(2) noc 2(5,6) vv, of params] obtain s3 f b g s' w' res where
    3: "lookup_loop params q oh s2 (objcs s2 oh) None None = Some (s3, f, b, g)"
    and 4: "(case (if hash_always_miss q then None else pick_oc q f b g) of
        Some oc \<Rightarrow> do { s \<leftarrow> lookup_hit s3 oh oc; Some (s, w2, LHit oc oh) }
      | None \<Rightarrow>
          if b \<noteq> None then do { (s, w) \<leftarrow> lookup_wait q s3 w2 oh; Some (s, w, LWait) }
          else do { (s, w, oc) \<leftarrow> lookup_miss q s3 w2 oh; Some (s, w, LMiss oc oh) }) = Some (s', w', res)"
    and 5: "lookup_ok params q s2 own lost oh s' res" "hcb_digest (hidx s') = hcb_digest (hidx s2)" "rechecks q s2 s'" by (elim exE conjE)
  have "HSH_Lookup params a h y q s w = Some (s', w', res)"
    unfolding 4 [symmetric] HSH_Lookup_def using 1(1) 2(1) 3 pos by (simp add: s2_def Let_def split del: if_split)
  moreover have "lookup_ok params q s own lost oh s' res"
  proof -
    have "core s2 x = core s x" if x: "x \<in> set (objcs s oh)" for x
    proof -
      have "core s x \<noteq> None" using cache_invD(5) [OF _ x] p by (fastforce simp: core_ok_def)
      then show ?thesis using 1(4) by (simp add: extends_def s2_def)
    qed
    then show ?thesis using 5(1) lookup_ok_cong [of s2 s oh] 1(4) by (simp add: s2_def extends_def)
  qed
  moreover have "case hash_objhead s (r_sess q) of Some x \<Rightarrow> oh = x | None \<Rightarrow> hcb_digest (hidx s') oh = r_digest q"
    using dg 5(2) 1(5) by (simp add: s2_def split: option.splits)
  moreover have "rechecks q s s'"
  proof (rule rechecks_trans [OF _ 5(3)])
    show "ban_inv s" using p cache_invD(2) by blast
    moreover have "ban_inv s2" using cache_invD(2) [OF 2(2)] by (simp add: s2_def)
    ultimately have "ban_start s2 = ban_start s" using 1(4) by (simp add: ban_inv_def extends_def s2_def)
    then show "rechecks q s s2" using 1(4) by (auto simp: rechecks_def recheck_same bans_keep_def extends_def s2_def)
  qed
  ultimately show ?thesis by blast
qed

lemma HSH_Lookup_spec:
  assumes "lookup_pre own lost s w a h y q"
  shows "\<exists>s' w' res oh. HSH_Lookup params a h y q s w = Some (s', w', res) \<and> lookup_ok params q s own lost oh s' res \<and>
    (case hash_objhead s (r_sess q) of Some x \<Rightarrow> oh = x | None \<Rightarrow> hcb_digest (hidx s') oh = r_digest q)"
  using HSH_Lookup_full [OF assms, of params] by blast

end
