(* ===== verification/Hash_Release.thy ===== *)
theory Hash_Release
  imports Hash_Refs
begin

text \<open>
  Giving references back: \<open>HSH_Deref\<close>, \<open>HSH_Unbusy\<close>, \<open>HSH_Drop\<close> and \<open>HSH_Purge\<close> keep the accounts; the
  last reference frees the core, and with the last core of a head the head leaves the index.
\<close>

section \<open>Waking sessions\<close>

lemma rush_loop_split:
  assumes "rush_loop qok u l = (l', d)"
  shows "\<exists>pre. l = pre @ (case d of None \<Rightarrow> [] | Some sp \<Rightarrow> [sp]) @ l' \<and> (\<forall>sp. d = Some sp \<longrightarrow> \<not> qok sp)"
  using assms
proof (induction qok u l rule: rush_loop.induct)
  case (3 qok u sp l)
  show ?case
  proof (cases "qok sp")
    case True
    then obtain pre where "l = pre @ (case d of None \<Rightarrow> [] | Some sp \<Rightarrow> [sp]) @ l'" "\<forall>sp. d = Some sp \<longrightarrow> \<not> qok sp" using 3 by auto
    then show ?thesis by (intro exI [of _ "sp # pre"]) simp
  next
    case False
    then show ?thesis using 3 by auto
  qed
qed auto

lemma rush_waiting_spec:
  assumes inv: "cache_inv own lost s"
  shows "\<exists>wl hh lost'. rush_waiting qok n s oh = Some (s\<lparr>waitinglist := wl, hash_objhead := hh\<rparr>) \<and>
    cache_inv own lost' (s\<lparr>waitinglist := wl, hash_objhead := hh\<rparr>) \<and> (lost' = lost \<or> lost' = plus1 lost oh \<and> (\<exists>sp. \<not> qok sp))"
proof (cases "waitinglist s oh")
  case None
  then have "rush_waiting qok n s oh = Some (s\<lparr>waitinglist := waitinglist s, hash_objhead := hash_objhead s\<rparr>)" by (simp add: rush_waiting_def)
  moreover have "cache_inv own lost (s\<lparr>waitinglist := waitinglist s, hash_objhead := hash_objhead s\<rparr>)" using inv by simp
  ultimately show ?thesis by blast
next
  case (Some l)
  note hk = cache_invD(4) [OF inv, unfolded head_ok_def]
  obtain l' d where rl: "rush_loop qok n l = (l', d)" by (cases "rush_loop qok n l")
  from rush_loop_split [OF rl] obtain pre where l: "l = pre @ (case d of None \<Rightarrow> [] | Some sp \<Rightarrow> [sp]) @ l'" "\<forall>sp. d = Some sp \<longrightarrow> \<not> qok sp" by blast
  have wo: "distinct l" "set l \<subseteq> holders s oh" "finite (holders s oh)" using hk [of oh] Some by (auto simp: wait_ok_def)
  define wl where "wl = (waitinglist s)(oh := if l' = [] then None else Some l')"
  define hh where "hh = (case d of None \<Rightarrow> hash_objhead s | Some sp \<Rightarrow> (hash_objhead s)(sp := None))"
  define lost' where "lost' = (case d of None \<Rightarrow> lost | Some sp \<Rightarrow> plus1 lost oh)"
  let ?s = "s\<lparr>waitinglist := wl, hash_objhead := hh\<rparr>"
  have hs: "holders ?s x = holders s x - (case d of None \<Rightarrow> {} | Some sp \<Rightarrow> if x = oh then {sp} else {})" for x
    using wo(2) l by (auto simp: holders_def hh_def split: option.splits)
  have "head_ok lost' ?s x" for x
  proof (cases "x = oh")
    case False
    then show ?thesis using hk [of x] unfolding head_ok_def hs by (auto simp: wl_def lost'_def split: option.splits)
  next
    case True
    have w: "wait_ok (wl oh) (holders ?s oh)" using wo l unfolding hs by (auto simp: wl_def wait_ok_def split: option.splits)
    have ohin: "oh \<in> hcb_heads (hidx s)" using hk [of oh] Some by (auto split: if_splits)
    have "card (holders ?s oh) + lost' oh = card (holders s oh) + lost oh"
    proof (cases d)
      case None
      then show ?thesis unfolding hs by (simp add: lost'_def)
    next
      case d: (Some sp)
      have "sp \<in> holders s oh" using wo(2) l d by auto
      then show ?thesis unfolding hs using d wo(3) card_Suc_Diff1 [of "holders s oh" sp] by (simp add: lost'_def)
    qed
    then show ?thesis using hk [of oh] w ohin True wo(3) unfolding head_ok_def hs by auto
  qed
  then have "cache_inv own lost' ?s" using cache_invD(3) [OF inv] by (intro cache_inv_heads [OF inv]) simp_all
  moreover have "rush_waiting qok n s oh = Some ?s"
    using Some rl by (simp add: rush_waiting_def hsh_rush_def wl_def hh_def split: option.splits)
  moreover have "lost' = lost \<or> lost' = plus1 lost oh \<and> (\<exists>sp. \<not> qok sp)" using l(2) by (auto simp: lost'_def split: option.splits)
  ultimately show ?thesis by blast
qed

section \<open>Freeing a core\<close>

lemma cache_inv_free_core:
  assumes inv: "cache_inv own lost s" and oc: "\<And>h. oc \<notin> set (objcs s h)" and c: "core s oc = Some c" "oc_ban c = None"
  shows "cache_inv own lost (s\<lparr>core := (core s)(oc := None)\<rparr>)"
proof -
  let ?s = "s\<lparr>core := (core s)(oc := None)\<rparr>"
  note i = cache_invD [OF inv]
  have an: "\<And>x. x \<in> on_heap s \<Longrightarrow> x \<noteq> oc" using i(6) oc by blast
  have "exp_inv ?s" using an i(1) by (intro exp_inv_cong [OF i(1)]) (auto simp: timer_def lru_of_def has_obj_def exp_inv_def)
  moreover have "bans_of ?s b = bans_of s b" for b using c by (auto simp: bans_of_def)
  then have "ban_inv ?s" by (intro ban_inv_upd [OF i(2)]) (use i(2) in \<open>auto simp: ban_inv_def split: if_splits\<close>)
  moreover have "head_ok lost ?s h" for h using i(4) [of h] head_ok_cong [of ?s s] by simp
  moreover have "core_ok own ?s h x" if "x \<in> set (objcs s h)" for h x
  proof -
    have "x \<noteq> oc" using oc that by blast
    then show ?thesis using i(5) [OF that] by (simp add: core_ok_def on_heap_def)
  qed
  ultimately show ?thesis using i(3,6) by (simp add: cache_inv_def on_heap_def)
qed

lemma BAN_DestroyObj_spec:
  assumes inv: "cache_inv own lost s" and oc: "\<And>h. oc \<notin> set (objcs s h)" and c: "core s oc = Some c"
  shows "\<exists>s'. BAN_DestroyObj s oc = Some s' \<and> cache_inv own lost s' \<and> core s' = (core s)(oc \<mapsto> c\<lparr>oc_ban := None\<rparr>) \<and> same_refs s s'"
proof (cases "oc_ban c")
  case None
  then have "c\<lparr>oc_ban := None\<rparr> = c" by (cases c) simp
  then show ?thesis using None c inv by (auto simp: BAN_DestroyObj_def)
next
  case (Some b)
  note i = cache_invD [OF inv]
  note un = ban_unlink_spec [OF i(2) c Some, of "\<lambda>c. c\<lparr>oc_ban := None\<rparr>"]
  let ?s = "upd_core oc (\<lambda>c. c\<lparr>oc_ban := None\<rparr>) (leave_ban b oc s)"
  have c': "core ?s oc = Some (c\<lparr>oc_ban := None\<rparr>)" "\<And>x. x \<noteq> oc \<Longrightarrow> core ?s x = core s x" using c by simp_all
  have k: "exp_inv ?s" "same_refs s ?s" by (rule one_core_keeps [OF i(1) c c']; simp add: core_refs_def)+
  have "ban_cond c2" if x: "x \<in> set (objcs s h)" and cx: "core ?s x = Some c2" for h x c2
  proof -
    have "x \<noteq> oc" using oc x by blast
    then show ?thesis using i(5) [OF x] cx by (auto simp: core_ok_def ban_cond_def)
  qed
  then have "cache_inv own lost ?s" using un(2) by (intro cache_inv_same_refs [OF inv k(2,1)]) simp_all
  moreover have "BAN_DestroyObj s oc = Some ?s" using c Some un(1,3) by (auto simp: BAN_DestroyObj_def)
  moreover have "core ?s = (core s)(oc \<mapsto> c\<lparr>oc_ban := None\<rparr>)" using c by simp
  ultimately show ?thesis using k(2) by blast
qed

text \<open>Giving a reference to a head back, whether or not it is the last.\<close>

lemma head_deref_spec:
  assumes inv: "cache_inv own (plus1 lost oh) s" and h: "oh \<in> hcb_heads (hidx s)"
  shows "\<exists>i. hcb_deref (hidx s) oh = Some (i, True) \<and> cache_inv own lost (s\<lparr>hidx := i\<rparr>) \<and> hcb_digest i = hcb_digest (hidx s) \<and>
    (oh \<in> hcb_heads i \<longleftrightarrow> hcb_refcnt (hidx s) oh > 1)"
proof (cases "hcb_refcnt (hidx s) oh = 1")
  case False
  then have gt: "hcb_refcnt (hidx s) oh > 1" using head_refcnt [OF inv h] by simp
  obtain i where i: "hcb_deref (hidx s) oh = Some (i, True)" "hcb_heads i = hcb_heads (hidx s)"
    using hcb.release [OF cache_invD(3) [OF inv] h] gt by (auto split: if_splits)
  then show ?thesis using deref_not_last [OF inv h gt] h gt by auto
next
  case True
  obtain i b where i: "hcb_deref (hidx s) oh = Some (i, b)" "hcb_inv i" "hcb_refcnt i = (hcb_refcnt (hidx s))(oh := 0)"
    "hcb_heads i = hcb_heads (hidx s) - {oh}" "hcb_digest i = hcb_digest (hidx s)"
    using hcb.release [OF cache_invD(3) [OF inv] h] True by (auto split: if_splits)
  have b: "b" using i(1) by (auto simp: hcb_deref_def Let_def bind_eq_Some_conv split: if_splits)
  have z: "length (objcs s oh) + card (holders s oh) + lost oh = 0"
    using head_refcnt [OF inv h, unfolded fun_upd_same] True by linarith
  have "finite (holders s oh)" using cache_invD(4) [OF inv, of oh] by (simp add: head_ok_def)
  then have "objcs s oh = []" "holders s oh = {}" using z by simp_all
  then have "head_ok lost (s\<lparr>hidx := i\<rparr>) x" for x
    using cache_invD(4) [OF inv, of x] unfolding head_ok_def holders_def by (cases "x = oh") (auto simp: i(3,4) split: if_splits)
  then have "cache_inv own lost (s\<lparr>hidx := i\<rparr>)" using i(2) by (intro cache_inv_heads [OF inv]) simp_all
  then show ?thesis using i b True by auto
qed

section \<open>HSH_Deref\<close>

lemma core_okD:
  assumes "core_ok own s h oc" and "core s oc = Some c"
  shows "oc_objhead c = h" "oc_refcnt c > 0" "oc_refcnt c = own oc + (if oc \<in> on_heap s then 1 else 0)"
    "oc_busy c \<longleftrightarrow> oc_busyobj c \<noteq> None" "\<not> oc_busy c \<Longrightarrow> oc_methods c" "oc_refcnt c > 1 \<Longrightarrow> oc_methods c" "ban_cond c"
proof -
  obtain c' where c': "core s oc = Some c'" "oc_objhead c' = h" "oc_refcnt c' > 0" "oc_refcnt c' = own oc + (if oc \<in> on_heap s then 1 else 0)"
    "oc_busy c' \<longleftrightarrow> oc_busyobj c' \<noteq> None" "\<not> oc_busy c' \<longrightarrow> oc_methods c'" "oc_refcnt c' > 1 \<longrightarrow> oc_methods c'" "ban_cond c'"
    using assms(1) unfolding core_ok_def ban_cond_def by blast
  have "c' = c" using c'(1) assms(2) by simp
  then show "oc_objhead c = h" "oc_refcnt c > 0" "oc_refcnt c = own oc + (if oc \<in> on_heap s then 1 else 0)"
    "oc_busy c \<longleftrightarrow> oc_busyobj c \<noteq> None" "\<not> oc_busy c \<Longrightarrow> oc_methods c" "oc_refcnt c > 1 \<Longrightarrow> oc_methods c" "ban_cond c"
    using c'(2-) by blast+
qed

abbreviation minus1 :: "('a \<Rightarrow> nat) \<Rightarrow> 'a \<Rightarrow> 'a \<Rightarrow> nat" where
  "minus1 f x \<equiv> f(x := f x - 1)"

text \<open>A reference that is not the last: only the count changes, and sessions may be woken.\<close>

lemma HSH_Deref_more:
  assumes inv: "cache_inv own lost s" and oc: "oc \<in> set (objcs s oh)" "core s oc = Some c" "oc_refcnt c > 1" "own oc > 0"
  shows "\<exists>wl hh lost'. HSH_Deref qok n s w oc = Some ((upd_core oc (\<lambda>c. c\<lparr>oc_refcnt := oc_refcnt c - 1\<rparr>) s)\<lparr>waitinglist := wl, hash_objhead := hh\<rparr>, w, oc_refcnt c - 1) \<and>
    cache_inv (minus1 own oc) lost' ((upd_core oc (\<lambda>c. c\<lparr>oc_refcnt := oc_refcnt c - 1\<rparr>) s)\<lparr>waitinglist := wl, hash_objhead := hh\<rparr>) \<and>
    (lost' = lost \<or> lost' = plus1 lost oh \<and> (\<exists>sp. \<not> qok sp))"
proof -
  define s1 where "s1 = upd_core oc (\<lambda>c. c\<lparr>oc_refcnt := oc_refcnt c - 1\<rparr>) s"
  have ok: "oc_objhead c = oh" "oc_methods c" using cache_invD(5) [OF inv oc(1)] oc(2,3) by (auto simp: core_ok_def)
  have k: "core_ok (minus1 own oc) (upd_core oc (\<lambda>c. c\<lparr>oc_refcnt := oc_refcnt c - 1\<rparr>) s) h oc" if "oc \<in> set (objcs s h)" for h
    using cache_invD(5) [OF inv that] oc(2-4) by (auto simp: core_ok_def on_heap_def)
  have i1: "cache_inv (minus1 own oc) lost s1" unfolding s1_def by (rule cache_inv_core [OF inv _ k]) simp_all
  have r: "hcb_refcnt (hidx s) oh > 0"
    using hcb.held [OF cache_invD(3) [OF inv] head_in_index [OF inv oc(1)]] .
  obtain wl hh lost' where w: "rush_waiting qok n s1 oh = Some (s1\<lparr>waitinglist := wl, hash_objhead := hh\<rparr>)"
    "cache_inv (minus1 own oc) lost' (s1\<lparr>waitinglist := wl, hash_objhead := hh\<rparr>)" "lost' = lost \<or> lost' = plus1 lost oh \<and> (\<exists>sp. \<not> qok sp)"
    using rush_waiting_spec [OF i1] by blast
  have s1': "upd_core oc (\<lambda>x. x\<lparr>oc_refcnt := oc_refcnt c - 1\<rparr>) s = s1" using oc(2) by (simp add: s1_def upd_core_def)
  have "HSH_Deref qok n s w oc = Some (s1\<lparr>waitinglist := wl, hash_objhead := hh\<rparr>, w, oc_refcnt c - 1)"
    using oc(2,3) ok r w(1) s1' by (simp add: HSH_Deref_def Let_def)
  then show ?thesis using w(2,3) unfolding s1_def by blast
qed

lemma exp_inv_core_cong:
  assumes "exp_heap s' = exp_heap s" "lru_head s' = lru_head s" "core s' = core s"
  shows "exp_inv s' = exp_inv s"
proof -
  have "timer s' = timer s" "lru_of s' = lru_of s" "has_obj s' = has_obj s" "on_heap s' = on_heap s"
    using assms by (simp_all add: fun_eq_iff timer_def lru_of_def has_obj_def on_heap_def)
  then show ?thesis using assms by (simp add: exp_inv_def)
qed

text \<open>The core off its head's list; the head's reference is the caller's now.\<close>

lemma unlink_core:
  assumes inv: "cache_inv own lost s" and oc: "oc \<in> set (objcs s oh)" and off: "oc \<notin> on_heap s"
    and f: "\<And>c. timer_when (f c) = timer_when c \<and> oc_lru (f c) = oc_lru c \<and> oc_methods (f c) = oc_methods c \<and> oc_ban (f c) = oc_ban c"
  defines "s1 \<equiv> (upd_core oc f s)\<lparr>objcs := (objcs s)(oh := remove1 oc (objcs s oh))\<rparr>"
  shows "cache_inv (own(oc := k)) (plus1 lost oh) s1" "\<And>h. oc \<notin> set (objcs s1 h)"
proof -
  note i = cache_invD [OF inv]
  have d: "distinct (objcs s h)" for h using i(4) [of h] by (simp add: head_ok_def)
  have only: "h = oh" if "oc \<in> set (objcs s h)" for h using i(5) [OF that] i(5) [OF oc] by (auto simp: core_ok_def)
  show no: "oc \<notin> set (objcs s1 h)" for h using only [of h] d [of oh] by (auto simp: s1_def)
  have e: "exp_inv (upd_core oc f s)" "on_heap (upd_core oc f s) = on_heap s" using exp_inv_upd_core [OF i(1), of f oc] f by simp_all
  have on: "on_heap s1 = on_heap s" by (simp add: s1_def on_heap_def)
  have "exp_inv s1" using e(1) exp_inv_core_cong [of s1 "upd_core oc f s"] by (simp add: s1_def)
  moreover have "ban_inv s1" by (rule ban_inv_cong [OF i(2)]) (simp_all add: s1_def f option.map_comp comp_def)
  moreover have "head_ok (plus1 lost oh) s1 h" for h
  proof -
    have "length (objcs s oh) = Suc (length (remove1 oc (objcs s oh)))" using oc by (simp add: length_remove1) (metis length_pos_if_in_set Suc_pred)
    moreover have "holders s1 h = holders s h" by (simp add: holders_def s1_def)
    ultimately show ?thesis using i(4) [of h] oc unfolding head_ok_def by (cases "h = oh") (auto simp: s1_def split: if_splits)
  qed
  moreover have "core_ok (own(oc := k)) s1 h x" if x: "x \<in> set (objcs s1 h)" for h x
  proof -
    have "x \<noteq> oc" using no x by blast
    moreover have "x \<in> set (objcs s h)" using x by (auto simp: s1_def dest: set_remove1_subset [THEN subsetD] split: if_splits)
    ultimately show ?thesis using i(5) [of x h] on by (simp add: core_ok_def s1_def)
  qed
  moreover have "\<exists>h. x \<in> set (objcs s1 h)" if "x \<in> on_heap s" for x
  proof -
    have "x \<noteq> oc" using that off by blast
    then show ?thesis using i(6) [OF that] by (auto simp: s1_def)
  qed
  ultimately show "cache_inv (own(oc := k)) (plus1 lost oh) s1" using i(3) on by (simp add: cache_inv_def s1_def)
qed

lemma HSH_Deref_last:
  assumes inv: "cache_inv own lost s" and oc: "oc \<in> set (objcs s oh)" "core s oc = Some c" "oc_refcnt c = 1" "own oc > 0"
  shows "\<exists>s' w' lost'. HSH_Deref qok n s w oc = Some (s', w', 0) \<and> cache_inv (own(oc := 0)) lost' s' \<and> core s' = (core s)(oc := None) \<and>
    objcs s' = (objcs s)(oh := remove1 oc (objcs s oh)) \<and> (lost' = lost \<or> lost' = plus1 lost oh \<and> (\<exists>sp. \<not> qok sp)) \<and>
    on_heap s' = on_heap s"
proof -
  note cd = core_okD [OF cache_invD(5) [OF inv oc(1)] oc(2)]
  have "oc \<notin> on_heap s"
  proof
    assume "oc \<in> on_heap s"
    then show False using cd(3) oc(3,4) by simp
  qed
  note ok = cd(1) this cd(4)
  define s1 where "s1 = (upd_core oc (\<lambda>c. c\<lparr>oc_refcnt := 0\<rparr>) s)\<lparr>objcs := (objcs s)(oh := remove1 oc (objcs s oh))\<rparr>"
  have i1: "cache_inv (own(oc := 0)) (plus1 lost oh) s1" "\<And>h. oc \<notin> set (objcs s1 h)"
    unfolding s1_def by (rule unlink_core [OF inv oc(1) ok(2)]; simp)+
  have c1: "core s1 oc = Some (c\<lparr>oc_refcnt := 0\<rparr>)" using oc(2) by (simp add: s1_def)
  have h: "oh \<in> hcb_heads (hidx s)" "hcb_refcnt (hidx s) oh > 0"
    using head_in_index [OF inv oc(1)] hcb.held [OF cache_invD(3) [OF inv]] by blast+
  obtain wl hh l1 where w: "rush_waiting qok n s1 oh = Some (s1\<lparr>waitinglist := wl, hash_objhead := hh\<rparr>)"
    "cache_inv (own(oc := 0)) l1 (s1\<lparr>waitinglist := wl, hash_objhead := hh\<rparr>)" "l1 = plus1 lost oh \<or> l1 = plus1 (plus1 lost oh) oh \<and> (\<exists>sp. \<not> qok sp)"
    using rush_waiting_spec [OF i1(1)] by blast
  define s2 where "s2 = s1\<lparr>waitinglist := wl, hash_objhead := hh\<rparr>"
  have n2: "\<And>h. oc \<notin> set (objcs s2 h)" and c2: "core s2 oc = Some (c\<lparr>oc_refcnt := 0\<rparr>)" using i1(2) c1 by (simp_all add: s2_def)
  obtain s3 where 3: "BAN_DestroyObj s2 oc = Some s3" "cache_inv (own(oc := 0)) l1 s3" "core s3 = (core s2)(oc \<mapsto> c\<lparr>oc_refcnt := 0, oc_ban := None\<rparr>)" "same_refs s2 s3"
    using BAN_DestroyObj_spec [OF w(2) [folded s2_def] n2 c2] by auto
  have f3: "objcs s3 = objcs s1" "hidx s3 = hidx s" "on_heap s3 = on_heap s" using 3(4) by (simp_all add: same_refs_def s2_def s1_def on_heap_def)
  define s4 where "s4 = s3\<lparr>core := (core s3)(oc := None)\<rparr>"
  have c3: "core s3 oc = Some (c\<lparr>oc_refcnt := 0, oc_ban := None\<rparr>)" "oc_ban (c\<lparr>oc_refcnt := 0, oc_ban := None\<rparr>) = None" using 3(3) by simp_all
  have i4: "cache_inv (own(oc := 0)) l1 s4" unfolding s4_def by (rule cache_inv_free_core [OF 3(2) _ c3]) (simp add: f3(1) i1(2))
  obtain l2 where l2: "l1 = plus1 l2 oh" "l2 = lost \<or> l2 = plus1 lost oh \<and> (\<exists>sp. \<not> qok sp)" using w(3) by blast
  have h4: "oh \<in> hcb_heads (hidx s4)" using h(1) f3(2) by (simp add: s4_def)
  from head_deref_spec [OF i4 [unfolded l2(1)] h4] obtain i where i: "hcb_deref (hidx s) oh = Some (i, True)" "cache_inv (own(oc := 0)) l2 (s4\<lparr>hidx := i\<rparr>)"
    using f3(2) by (auto simp: s4_def)
  have "\<exists>w'. HSH_Deref qok n s w oc = Some (s4\<lparr>hidx := i\<rparr>, w', 0)"
    using oc(1-3) ok h(2) w(1) 3(1,3) i(1) f3(2)
    by (auto simp: HSH_Deref_def Let_def tailq_remove_def s1_def [symmetric] s2_def [symmetric] s4_def)
  moreover have "core (s4\<lparr>hidx := i\<rparr>) = (core s)(oc := None)" using 3(3) by (auto simp: s4_def s2_def s1_def)
  moreover have "objcs (s4\<lparr>hidx := i\<rparr>) = (objcs s)(oh := remove1 oc (objcs s oh))" "on_heap (s4\<lparr>hidx := i\<rparr>) = on_heap s"
    using f3 by (simp_all add: s4_def s1_def on_heap_def)
  ultimately show ?thesis using i(2) l2(2) by blast
qed

lemma HSH_Deref_spec:
  assumes inv: "cache_inv own lost s" and oc: "oc \<in> set (objcs s oh)" "core s oc = Some c" "own oc > 0"
  shows "\<exists>s' w' lost'. HSH_Deref qok n s w oc = Some (s', w', oc_refcnt c - 1) \<and> cache_inv (minus1 own oc) lost' s' \<and>
    (lost' = lost \<or> lost' = plus1 lost oh \<and> (\<exists>sp. \<not> qok sp)) \<and> on_heap s' = on_heap s \<and>
    core s' = (core s)(oc := if oc_refcnt c = 1 then None else Some (c\<lparr>oc_refcnt := oc_refcnt c - 1\<rparr>)) \<and>
    objcs s' = (if oc_refcnt c = 1 then (objcs s)(oh := remove1 oc (objcs s oh)) else objcs s)"
proof (cases "oc_refcnt c = 1")
  case True
  have "own oc = 1" using core_okD(3) [OF cache_invD(5) [OF inv oc(1)] oc(2)] True oc(3) by (simp split: if_splits)
  then show ?thesis using HSH_Deref_last [OF inv oc(1,2) True oc(3), of qok n w] True by fastforce
next
  case False
  then have gt: "oc_refcnt c > 1" using core_okD(2) [OF cache_invD(5) [OF inv oc(1)] oc(2)] by linarith
  show ?thesis using HSH_Deref_more [OF inv oc(1,2) gt oc(3), of qok n w] oc(2) False
    by (elim exE conjE) (rule exI, rule exI, rule exI, rule conjI, assumption, auto simp: on_heap_def)
qed

section \<open>Unbusy\<close>

lemma cache_inv_reorder:
  assumes inv: "cache_inv own lost s" and l: "distinct l" "set l = set (objcs s oh)"
  shows "cache_inv own lost (s\<lparr>objcs := (objcs s)(oh := l)\<rparr>)"
proof -
  let ?s = "s\<lparr>objcs := (objcs s)(oh := l)\<rparr>"
  note i = cache_invD [OF inv]
  have d: "distinct (objcs s oh)" using i(4) [of oh] by (simp add: head_ok_def)
  have len: "length l = length (objcs s oh)" using l d by (metis distinct_card)
  have st: "set (objcs ?s h) = set (objcs s h)" for h using l(2) by simp
  have "l = [] \<longleftrightarrow> objcs s oh = []" using l(2) by (metis set_empty)
  then have hd: "head_ok lost ?s h" for h
    using i(4) [of h] l(1) len unfolding head_ok_def holders_def by (cases "h = oh") (auto split: if_splits)
  have "\<forall>h. head_ok lost ?s h" using hd by (rule allI)
  moreover have "core_ok own ?s h x = core_ok own s h x" for h x by (simp add: core_ok_def on_heap_def)
  moreover have "exp_inv ?s = exp_inv s" by (rule exp_inv_core_cong) simp_all
  moreover have "ban_inv ?s" by (rule ban_inv_cong [OF i(2)]) simp_all
  ultimately show ?thesis using i(1,3,5,6) unfolding cache_inv_def st by (simp add: on_heap_def)
qed

lemma HSH_Unbusy_spec:
  assumes inv: "cache_inv own lost s" and oc: "oc \<in> set (objcs s oh)" "core s oc = Some c" "oc_busy c" "oc_methods c" "oc_ban c \<noteq> None" and w: "\<not> nbusyobj w"
  shows "\<exists>s' w' lost'. HSH_Unbusy qok n s w oc = Some (s', w') \<and> cache_inv own lost' s' \<and> (lost' = lost \<or> lost' = plus1 lost oh \<and> (\<exists>sp. \<not> qok sp)) \<and>
    core s' = (core s)(oc \<mapsto> c\<lparr>oc_busy := False, oc_busyobj := None\<rparr>) \<and> objcs s' = (objcs s)(oh := oc # remove1 oc (objcs s oh)) \<and> on_heap s' = on_heap s"
proof -
  note cd = core_okD [OF cache_invD(5) [OF inv oc(1)] oc(2)]
  have d: "distinct (objcs s oh)" using cache_invD(4) [OF inv, of oh] by (simp add: head_ok_def)
  define s1 where "s1 = s\<lparr>objcs := (objcs s)(oh := oc # remove1 oc (objcs s oh))\<rparr>"
  have i1: "cache_inv own lost s1" unfolding s1_def using d oc(1) by (intro cache_inv_reorder [OF inv]) (auto simp: set_remove1_eq)
  define s2 where "s2 = upd_core oc (\<lambda>c. c\<lparr>oc_busy := False, oc_busyobj := None\<rparr>) s1"
  have i2: "cache_inv own lost s2"
    unfolding s2_def
  proof (rule cache_inv_core [OF i1])
    fix h
    assume h: "oc \<in> set (objcs s1 h)"
    have c1: "core s1 oc = Some c" using oc(2) by (simp add: s1_def)
    note cd1 = core_okD [OF cache_invD(5) [OF i1 h] c1]
    show "core_ok own (upd_core oc (\<lambda>c. c\<lparr>oc_busy := False, oc_busyobj := None\<rparr>) s1) h oc"
      using c1 cd1(1-3) oc(4,5) by (simp add: core_ok_def on_heap_def)
  qed simp_all
  obtain wl hh lost' where 3: "rush_waiting qok n s2 oh = Some (s2\<lparr>waitinglist := wl, hash_objhead := hh\<rparr>)"
    "cache_inv own lost' (s2\<lparr>waitinglist := wl, hash_objhead := hh\<rparr>)" "lost' = lost \<or> lost' = plus1 lost oh \<and> (\<exists>sp. \<not> qok sp)"
    using rush_waiting_spec [OF i2] by blast
  have r: "hcb_refcnt (hidx s) oh > 0" using hcb.held [OF cache_invD(3) [OF inv] head_in_index [OF inv oc(1)]] .
  obtain w' where "HSH_Unbusy qok n s w oc = Some (s2\<lparr>waitinglist := wl, hash_objhead := hh\<rparr>, w')"
    using oc cd(1,2) r w 3(1) by (auto simp: HSH_Unbusy_def Let_def tailq_remove_def s1_def [symmetric] s2_def [symmetric])
      (auto simp: oc_getobj_def s2_def s1_def)
  then show ?thesis using 3(2,3) oc(2)
    by (intro exI [of _ "s2\<lparr>waitinglist := wl, hash_objhead := hh\<rparr>"] exI [of _ w'] exI [of _ lost']) (simp add: s2_def s1_def on_heap_def)
qed

end
