(* ===== verification/Expire_Timer.thy ===== *)
theory Expire_Timer
  imports Hash_Release
begin

text \<open>
  The second half of bin/varnishd/cache_expire.c: the thread that takes expired objects off the heap and
  \<open>EXP_NukeOne\<close>, which makes space.  \<open>now k\<close> is what \<open>TIM_real\<close> returns in round \<open>k\<close> of the thread's loop,
  \<open>locked lru\<close> that another thread holds the lock of an LRU list.  A pass is what the thread does between
  two sleeps; the thread is the endless repetition of passes.
\<close>

section \<open>The thread\<close>

definition exp_timer_step :: "(addr \<Rightarrow> bool) \<Rightarrow> nat \<Rightarrow> rat \<Rightarrow> (addr \<Rightarrow> bool) \<Rightarrow> cache \<Rightarrow> wprealloc \<Rightarrow> rat \<Rightarrow> (cache \<times> wprealloc \<times> rat \<times> bool) option" where
  "exp_timer_step qok rush_exponent now locked s w t = do {
     r \<leftarrow> binheap_root (exp_heap s);
     (case r of
        None \<Rightarrow> Some (s, w, t, False)
      | Some oc \<Rightarrow> do {
          c \<leftarrow> core s oc;
          let t = (if timer_when c > t then now else t);
          if timer_when c > t then Some (s, w, t, False)
          else if oc_busy c then Some (s, w, t, False)
          else do {
            lru \<leftarrow> oc_getlru s oc;
            if locked lru then Some (s, w, t, False)
            else do {
              vassert (bh_idx (exp_heap s) oc \<noteq> BINHEAP_NOIDX);
              h \<leftarrow> binheap_delete (object_cmp s) (exp_heap s) (bh_idx (exp_heap s) oc);
              vassert (bh_idx h oc = BINHEAP_NOIDX);
              let s = s\<lparr>exp_heap := h\<rparr>;
              lru \<leftarrow> oc_getlru s oc;
              l \<leftarrow> tailq_remove oc (lru_head s lru);
              let s = s\<lparr>lru_head := (lru_head s)(lru := l)\<rparr>;
              c \<leftarrow> oc_getobj s oc;
              (s, w, _) \<leftarrow> HSH_Deref qok rush_exponent s w oc;
              Some (s, w, t, True)
            }
          }
        })
   }"

partial_function (option) exp_pass :: "(addr \<Rightarrow> bool) \<Rightarrow> nat \<Rightarrow> (nat \<Rightarrow> rat) \<Rightarrow> (addr \<Rightarrow> bool) \<Rightarrow> nat \<Rightarrow> cache \<Rightarrow> wprealloc \<Rightarrow> rat \<Rightarrow> (cache \<times> wprealloc \<times> rat) option" where
  [code]: "exp_pass qok rush_exponent now locked k s w t = do {
     (s, w, t, killed) \<leftarrow> exp_timer_step qok rush_exponent (now k) locked s w t;
     if killed then exp_pass qok rush_exponent now locked (k + 1) s w t else Some (s, w, t)
   }"

section \<open>Making space\<close>

fun nuke_scan :: "cache \<Rightarrow> addr list \<Rightarrow> addr option option" where
  "nuke_scan s [] = Some None"
| "nuke_scan s (oc # l) = do {
     c \<leftarrow> core s oc;
     vassert (bh_idx (exp_heap s) oc \<noteq> BINHEAP_NOIDX);
     if oc_refcnt c = 1 \<and> \<not> oc_busy c then Some (Some oc) else nuke_scan s l
   }"

definition EXP_NukeOne :: "(addr \<Rightarrow> bool) \<Rightarrow> nat \<Rightarrow> cache \<Rightarrow> wprealloc \<Rightarrow> addr \<Rightarrow> (cache \<times> wprealloc \<times> int) option" where
  "EXP_NukeOne qok rush_exponent s w lru = do {
     r \<leftarrow> nuke_scan s (lru_head s lru);
     (case r of
        None \<Rightarrow> Some (s, w, -1)
      | Some oc \<Rightarrow> do {
          l \<leftarrow> tailq_remove oc (lru_head s lru);
          let s = s\<lparr>lru_head := (lru_head s)(lru := l)\<rparr>;
          h \<leftarrow> binheap_delete (object_cmp s) (exp_heap s) (bh_idx (exp_heap s) oc);
          vassert (bh_idx h oc = BINHEAP_NOIDX);
          let s = s\<lparr>exp_heap := h\<rparr>;
          c \<leftarrow> oc_getobj s oc;
          (s, w, _) \<leftarrow> HSH_Deref_obj qok rush_exponent s w (Some oc);
          Some (s, w, 1)
        })
   }"

section \<open>Off the heap and the LRU list\<close>

lemma timer_frame: "core s' = core s \<Longrightarrow> timer s' = timer s \<and> lru_of s' = lru_of s \<and> has_obj s' = has_obj s"
  by (simp add: fun_eq_iff timer_def lru_of_def has_obj_def)

text \<open>The reference the heap had is the caller's then.\<close>

lemma leave_heap:
  assumes inv: "cache_inv own lost s" and on: "oc \<in> on_heap s" and c: "core s oc = Some c"
  shows "\<exists>h. binheap_delete (object_cmp s) (exp_heap s) (bh_idx (exp_heap s) oc) = Some h \<and> bh_idx h oc = BINHEAP_NOIDX \<and>
    bh_idx (exp_heap s) oc \<noteq> BINHEAP_NOIDX \<and> oc \<in> set (lru_head s (oc_lru c)) \<and> elems h = on_heap s - {oc} \<and>
    cache_inv (plus1 own oc) lost (s\<lparr>exp_heap := h, lru_head := (lru_head s)(oc_lru c := remove1 oc (lru_head s (oc_lru c)))\<rparr>)"
proof -
  note i = cache_invD [OF inv]
  have "oc \<in> elems (exp_heap s)" using on by (simp add: on_heap_def)
  from bhq.del_law [OF exp_inv_heap [OF i(1)] this] obtain h where h: "binheap_delete (key_cmp (timer s)) (exp_heap s) (bh_idx (exp_heap s) oc) = Some h"
    "heap_inv (key_cmp (timer s)) h" "elems h = elems (exp_heap s) - {oc}" "bh_idx h oc = BINHEAP_NOIDX"
    "\<forall>x. x \<notin> elems (exp_heap s) \<longrightarrow> (bh_idx h x = BINHEAP_NOIDX) = (bh_idx (exp_heap s) x = BINHEAP_NOIDX)" by blast
  let ?s = "s\<lparr>exp_heap := h, lru_head := (lru_head s)(oc_lru c := remove1 oc (lru_head s (oc_lru c)))\<rparr>"
  have f: "timer ?s = timer s" "lru_of ?s = lru_of s" "has_obj ?s = has_obj s" using timer_frame [of ?s s] by simp_all
  have oh: "on_heap ?s = on_heap s - {oc}" using h(3) by (simp add: on_heap_def)
  have l: "oc \<in> set (lru_head s (oc_lru c))" using exp_inv_lru(2) [OF i(1)] on c by (simp add: lru_of_def)
  have lx: "distinct (lru_head s x)" "set (lru_head s x) = {y \<in> on_heap s. lru_of s y = x}" for x using i(1) by (simp_all add: exp_inv_def)
  have lo: "lru_of s oc = oc_lru c" using c by (simp add: lru_of_def)
  have "distinct (lru_head ?s x) \<and> set (lru_head ?s x) = {y \<in> on_heap s - {oc}. lru_of s y = x}" for x
  proof (cases "x = oc_lru c")
    case True
    then show ?thesis using lx [of x] by (auto simp: set_remove1_eq)
  next
    case False
    then show ?thesis using lx [of x] lo by auto
  qed
  then have "exp_inv ?s" using i(1) h unfolding exp_inv_def f oh by (auto simp: on_heap_def)
  moreover have "ban_inv ?s" by (rule ban_inv_cong [OF i(2)]) simp_all
  moreover have "head_ok lost ?s x" for x using i(4) [of x] head_ok_cong [of ?s s] by simp
  moreover have "core_ok (plus1 own oc) ?s x y" if y: "y \<in> set (objcs s x)" for x y
  proof -
    obtain cy where cy: "core s y = Some cy" using i(5) [OF y] by (auto simp: core_ok_def)
    note d = core_okD [OF i(5) [OF y] cy]
    have "oc_refcnt cy = plus1 own oc y + (if y \<in> on_heap ?s then 1 else 0)" using d(3) on oh by simp
    then show ?thesis using cy d(1,2,4-7) unfolding core_ok_def ban_cond_def by simp
  qed
  moreover have "\<exists>x. y \<in> set (objcs s x)" if "y \<in> on_heap ?s" for y using i(6) [of y] that oh by blast
  ultimately have "cache_inv (plus1 own oc) lost ?s" using i(3) by (simp add: cache_inv_def)
  moreover have "bh_idx (exp_heap s) oc \<noteq> BINHEAP_NOIDX" using exp_inv_idx [OF i(1)] on by blast
  ultimately show ?thesis using h l by (auto simp: object_cmp_def on_heap_def)
qed

text \<open>What is left of an object once the heap's reference is given back.\<close>

definition expired :: "cache \<Rightarrow> cache \<Rightarrow> addr \<Rightarrow> bool" where
  "expired s s' oc \<longleftrightarrow> (\<exists>c. core s oc = Some c \<and> \<not> oc_busy c \<and>
     core s' oc = (if oc_refcnt c = 1 then None else Some (c\<lparr>oc_refcnt := oc_refcnt c - 1\<rparr>)))"

text \<open>Giving it back after the object left the heap.\<close>

lemma kill_object:
  assumes inv: "cache_inv own lost s" and on: "oc \<in> on_heap s" and c: "core s oc = Some c" "\<not> oc_busy c"
  defines "l \<equiv> remove1 oc (lru_head s (oc_lru c))"
  shows "\<exists>h s' w' lost'. binheap_delete (object_cmp s) (exp_heap s) (bh_idx (exp_heap s) oc) = Some h \<and> bh_idx h oc = BINHEAP_NOIDX \<and>
    bh_idx (exp_heap s) oc \<noteq> BINHEAP_NOIDX \<and> oc_methods c \<and> tailq_remove oc (lru_head s (oc_lru c)) = Some l \<and>
    HSH_Deref qok n (s\<lparr>exp_heap := h, lru_head := (lru_head s)(oc_lru c := l)\<rparr>) w oc = Some (s', w', oc_refcnt c - 1) \<and>
    cache_inv own lost' s' \<and> ((\<forall>sp. qok sp) \<longrightarrow> lost' = lost) \<and> on_heap s' = on_heap s - {oc} \<and> expired s s' oc \<and> (\<forall>x. x \<noteq> oc \<longrightarrow> core s' x = core s x)"
proof -
  obtain h where h: "binheap_delete (object_cmp s) (exp_heap s) (bh_idx (exp_heap s) oc) = Some h" "bh_idx h oc = BINHEAP_NOIDX"
    "bh_idx (exp_heap s) oc \<noteq> BINHEAP_NOIDX" "oc \<in> set (lru_head s (oc_lru c))" "elems h = on_heap s - {oc}"
    "cache_inv (plus1 own oc) lost (s\<lparr>exp_heap := h, lru_head := (lru_head s)(oc_lru c := l)\<rparr>)"
    using leave_heap [OF inv on c(1)] unfolding l_def by blast
  let ?s = "s\<lparr>exp_heap := h, lru_head := (lru_head s)(oc_lru c := l)\<rparr>"
  obtain oh where oh: "oc \<in> set (objcs s oh)" using cache_invD(6) [OF inv on] by blast
  note cd = core_okD [OF cache_invD(5) [OF inv oh] c(1)]
  have "oc \<in> set (objcs ?s oh)" "core ?s oc = Some c" "plus1 own oc oc > 0" using oh c by simp_all
  from HSH_Deref_spec [OF h(6) this, of qok n w] obtain s' w' lost' where d: "HSH_Deref qok n ?s w oc = Some (s', w', oc_refcnt c - 1)"
    "cache_inv (minus1 (plus1 own oc) oc) lost' s'" "on_heap s' = on_heap ?s"
    "core s' = (core ?s)(oc := if oc_refcnt c = 1 then None else Some (c\<lparr>oc_refcnt := oc_refcnt c - 1\<rparr>))"
    and ql: "(\<forall>sp. qok sp) \<longrightarrow> lost' = lost" by (elim exE conjE) blast
  have "minus1 (plus1 own oc) oc = own" by simp
  then show ?thesis
    using d h(1-5) c cd(5) ql by (intro exI [of _ h] exI [of _ s'] exI [of _ w'] exI [of _ lost'])
      (simp add: tailq_remove_def l_def expired_def on_heap_def)
qed

text \<open>Why the thread goes to sleep: nothing on the heap, or its first object not due, busy or locked.\<close>

definition resting :: "(addr \<Rightarrow> bool) \<Rightarrow> cache \<Rightarrow> rat \<Rightarrow> bool" where
  "resting locked s t \<longleftrightarrow> on_heap s = {} \<or>
     (\<exists>oc c. oc \<in> on_heap s \<and> core s oc = Some c \<and> (\<forall>x \<in> on_heap s. timer s oc \<le> timer s x) \<and>
        (t < timer s oc \<or> oc_busy c \<or> locked (oc_lru c)))"

lemma exp_timer_step_spec:
  assumes inv: "cache_inv own lost s"
  shows "\<exists>s' w' t' killed lost'. exp_timer_step qok n now locked s w t = Some (s', w', t', killed) \<and> cache_inv own lost' s' \<and> ((\<forall>sp. qok sp) \<longrightarrow> lost' = lost) \<and> t' \<in> {t, now} \<and>
    (\<not> killed \<longrightarrow> s' = s \<and> w' = w \<and> lost' = lost \<and> resting locked s t') \<and>
    (killed \<longrightarrow> (\<exists>oc \<in> on_heap s. on_heap s' = on_heap s - {oc} \<and> timer s oc \<le> t' \<and> expired s s' oc \<and> (\<forall>x. x \<noteq> oc \<longrightarrow> core s' x = core s x)))"
proof -
  note i = cache_invD [OF inv]
  obtain r where r: "binheap_root (exp_heap s) = Some r" "r = None \<longleftrightarrow> on_heap s = {}"
    "\<And>p. r = Some p \<Longrightarrow> p \<in> on_heap s \<and> (\<forall>x \<in> on_heap s. timer s p \<le> timer s x)"
    using bhq.top_law [OF exp_inv_heap [OF i(1)]] by (auto simp: on_heap_def)
  show ?thesis
  proof (cases r)
    case None
    then show ?thesis using r inv by (auto simp: exp_timer_step_def resting_def)
  next
    case (Some oc)
    then have on: "oc \<in> on_heap s" and least: "\<forall>x \<in> on_heap s. timer s oc \<le> timer s x" using r(3) by blast+
    obtain oh where oh: "oc \<in> set (objcs s oh)" using i(6) [OF on] by blast
    obtain c where c: "core s oc = Some c" using i(5) [OF oh] by (auto simp: core_ok_def)
    have tm: "timer s oc = timer_when c" using c by (simp add: timer_def)
    have m: "oc_methods c" using i(1) on c by (auto simp: exp_inv_def has_obj_def)
    define t' where "t' = (if timer_when c > t then now else t)"
    have t': "t' \<in> {t, now}" by (simp add: t'_def)
    show ?thesis
    proof (cases "t' < timer_when c \<or> oc_busy c \<or> locked (oc_lru c)")
      case True
      then have "resting locked s t'" using on c least tm unfolding resting_def by metis
      moreover have "exp_timer_step qok n now locked s w t = Some (s, w, t', False)"
        using True r(1) Some c m by (auto simp: exp_timer_step_def oc_getlru_def Let_def t'_def)
      ultimately show ?thesis using inv t' by blast
    next
      case False
      then have nb: "\<not> oc_busy c" by blast
      obtain h s' w' lost' where k: "binheap_delete (object_cmp s) (exp_heap s) (bh_idx (exp_heap s) oc) = Some h" "bh_idx h oc = BINHEAP_NOIDX"
        "bh_idx (exp_heap s) oc \<noteq> BINHEAP_NOIDX" "tailq_remove oc (lru_head s (oc_lru c)) = Some (remove1 oc (lru_head s (oc_lru c)))"
        "HSH_Deref qok n (s\<lparr>exp_heap := h, lru_head := (lru_head s)(oc_lru c := remove1 oc (lru_head s (oc_lru c)))\<rparr>) w oc = Some (s', w', oc_refcnt c - 1)"
        "cache_inv own lost' s'" "on_heap s' = on_heap s - {oc}" "expired s s' oc" "\<forall>x. x \<noteq> oc \<longrightarrow> core s' x = core s x"
        and ql: "(\<forall>sp. qok sp) \<longrightarrow> lost' = lost"
        using kill_object [OF inv on c nb, of qok n w] by (elim exE conjE)
      have "exp_timer_step qok n now locked s w t = Some (s', w', t', True)"
        using False r(1) Some c m k(1-5) by (simp add: exp_timer_step_def oc_getlru_def oc_getobj_def Let_def t'_def [symmetric])
      moreover have "timer s oc \<le> t'" using False tm by simp
      ultimately show ?thesis using k(6-9) ql on t' by blast
    qed
  qed
qed

lemma expired_cong: "core s1 x = core s x \<Longrightarrow> core s2 x = core s' x \<Longrightarrow> expired s1 s2 x = expired s s' x"
  by (simp add: expired_def)

lemma exp_pass_spec:
  assumes "cache_inv own lost s" and "t \<le> now k" and "mono now"
  shows "\<exists>s' w' t' lost'. exp_pass qok n now locked k s w t = Some (s', w', t') \<and> cache_inv own lost' s' \<and> ((\<forall>sp. qok sp) \<longrightarrow> lost' = lost) \<and> t \<le> t' \<and> resting locked s' t' \<and>
    on_heap s' \<subseteq> on_heap s \<and> (\<forall>x \<in> on_heap s - on_heap s'. timer s x \<le> t' \<and> expired s s' x) \<and>
    (\<forall>x. x \<notin> on_heap s - on_heap s' \<longrightarrow> core s' x = core s x)"
  using assms(1,2)
proof (induction "card (on_heap s)" arbitrary: s w t k lost rule: less_induct)
  case less
  obtain s1 w1 t1 killed l1 where st: "exp_timer_step qok n (now k) locked s w t = Some (s1, w1, t1, killed)" "cache_inv own l1 s1" "t1 \<in> {t, now k}"
    "\<not> killed \<longrightarrow> s1 = s \<and> w1 = w \<and> l1 = lost \<and> resting locked s t1"
    "killed \<longrightarrow> (\<exists>oc \<in> on_heap s. on_heap s1 = on_heap s - {oc} \<and> timer s oc \<le> t1 \<and> expired s s1 oc \<and> (\<forall>x. x \<noteq> oc \<longrightarrow> core s1 x = core s x))"
    and q1: "(\<forall>sp. qok sp) \<longrightarrow> l1 = lost"
    using exp_timer_step_spec [OF less.prems(1), of qok n "now k" locked w t] by (elim exE conjE)
  have t1: "t \<le> t1" "t1 \<le> now (k + 1)" using st(3) less.prems(2) monoD [OF assms(3), of k "k + 1"] by auto
  show ?case
  proof (cases killed)
    case False
    then have "exp_pass qok n now locked k s w t = Some (s, w, t1)" using st(1,4) by (subst exp_pass.simps) simp
    then show ?thesis using st(4) False less.prems(1) t1(1) by blast
  next
    case True
    then obtain oc where oc: "oc \<in> on_heap s" "on_heap s1 = on_heap s - {oc}" "timer s oc \<le> t1" "expired s s1 oc" "\<forall>x. x \<noteq> oc \<longrightarrow> core s1 x = core s x"
      using st(5) by blast
    have "finite (on_heap s)" using bhq.fin [OF exp_inv_heap [OF cache_invD(1) [OF less.prems(1)]]] by (simp add: on_heap_def)
    then have "card (on_heap s1) < card (on_heap s)" using oc(1,2) card_Diff1_less [of "on_heap s" oc] by simp
    from less.hyps [OF this st(2) t1(2), of w1] obtain s' w' t' lost' where r: "exp_pass qok n now locked (k + 1) s1 w1 t1 = Some (s', w', t')" "cache_inv own lost' s'" "t1 \<le> t'"
      "resting locked s' t'" "on_heap s' \<subseteq> on_heap s1" "\<forall>x \<in> on_heap s1 - on_heap s'. timer s1 x \<le> t' \<and> expired s1 s' x"
      "\<forall>x. x \<notin> on_heap s1 - on_heap s' \<longrightarrow> core s' x = core s1 x"
      and q2: "(\<forall>sp. qok sp) \<longrightarrow> lost' = l1" by (elim exE conjE)
    have "exp_pass qok n now locked k s w t = Some (s', w', t')" using st(1) True r(1) by (subst exp_pass.simps) simp
    moreover have "timer s x \<le> t' \<and> expired s s' x" if x: "x \<in> on_heap s - on_heap s'" for x
    proof (cases "x = oc")
      case True
      then have "core s' x = core s1 x" using r(7) oc(2) by blast
      then show ?thesis using True oc(3,4) r(3) expired_cong [of s x s s1 s'] by simp
    next
      case False
      then have "core s1 x = core s x" "x \<in> on_heap s1 - on_heap s'" using oc(2,5) x by blast+
      moreover from this have "timer s1 x \<le> t' \<and> expired s1 s' x" using r(6) by blast
      ultimately show ?thesis using expired_cong [of s1 x s s' s'] by (simp add: timer_def)
    qed
    moreover have "core s' x = core s x" if "x \<notin> on_heap s - on_heap s'" for x
    proof -
      have "x \<noteq> oc" using that oc(1,2) r(5) by blast
      then show ?thesis using r(7) oc(2,5) that by simp
    qed
    ultimately show ?thesis using r(2-5) t1(1) oc(2) q1 q2 by (intro exI [of _ s'] exI [of _ w'] exI [of _ t'] exI [of _ lost']) auto
  qed
qed

section \<open>Making space\<close>

definition idle_core :: "cache \<Rightarrow> addr \<Rightarrow> bool" where
  "idle_core s oc \<longleftrightarrow> (\<exists>c. core s oc = Some c \<and> oc_refcnt c = 1 \<and> \<not> oc_busy c)"

lemma nuke_scan_find:
  assumes "\<forall>oc \<in> set l. core s oc \<noteq> None \<and> bh_idx (exp_heap s) oc \<noteq> BINHEAP_NOIDX"
  shows "nuke_scan s l = Some (find (idle_core s) l)"
  using assms by (induction l) (auto simp: idle_core_def)

lemma EXP_NukeOne_spec:
  assumes inv: "cache_inv own lost s"
  shows "\<exists>s' w' r lost'. EXP_NukeOne qok n s w lru = Some (s', w', r) \<and> cache_inv own lost' s' \<and> ((\<forall>sp. qok sp) \<longrightarrow> lost' = lost) \<and>
    (case find (idle_core s) (lru_head s lru) of
       None \<Rightarrow> r = -1 \<and> s' = s
     | Some oc \<Rightarrow> r = 1 \<and> core s' = (core s)(oc := None) \<and> on_heap s' = on_heap s - {oc})"
proof -
  note i = cache_invD [OF inv]
  have "\<forall>oc \<in> set (lru_head s lru). core s oc \<noteq> None \<and> bh_idx (exp_heap s) oc \<noteq> BINHEAP_NOIDX"
    using exp_inv_lru(2) [OF i(1)] exp_inv_idx [OF i(1)] i(1) by (auto simp: exp_inv_def has_obj_def)
  note sc = nuke_scan_find [OF this]
  show ?thesis
  proof (cases "find (idle_core s) (lru_head s lru)")
    case None
    then show ?thesis using sc inv by (auto simp: EXP_NukeOne_def)
  next
    case (Some oc)
    then have oc: "oc \<in> set (lru_head s lru)" "idle_core s oc" by (auto simp: find_Some_iff)
    then have on: "oc \<in> on_heap s" and lo: "lru_of s oc = lru" using exp_inv_lru(2) [OF i(1)] by blast+
    obtain c where c: "core s oc = Some c" "oc_refcnt c = 1" "\<not> oc_busy c" using oc(2) by (auto simp: idle_core_def)
    have cl: "oc_lru c = lru" using lo c(1) by (simp add: lru_of_def)
    obtain h s' w' lost' where k: "binheap_delete (object_cmp s) (exp_heap s) (bh_idx (exp_heap s) oc) = Some h" "bh_idx h oc = BINHEAP_NOIDX"
      "oc_methods c" "tailq_remove oc (lru_head s (oc_lru c)) = Some (remove1 oc (lru_head s (oc_lru c)))"
      "HSH_Deref qok n (s\<lparr>exp_heap := h, lru_head := (lru_head s)(oc_lru c := remove1 oc (lru_head s (oc_lru c)))\<rparr>) w oc = Some (s', w', oc_refcnt c - 1)"
      "cache_inv own lost' s'" "on_heap s' = on_heap s - {oc}" "expired s s' oc" "\<forall>x. x \<noteq> oc \<longrightarrow> core s' x = core s x"
        and ql: "(\<forall>sp. qok sp) \<longrightarrow> lost' = lost"
      using kill_object [OF inv on c(1,3), of qok n w] by (elim exE conjE)
    have oc': "object_cmp (s\<lparr>lru_head := x\<rparr>) = object_cmp s" for x by (simp add: object_cmp_def timer_def [abs_def])
    have e: "s\<lparr>lru_head := x, exp_heap := h\<rparr> = s\<lparr>exp_heap := h, lru_head := x\<rparr>" for x by simp
    have "EXP_NukeOne qok n s w lru = Some (s', w', 1)"
      using sc Some c k(1-5) by (simp add: EXP_NukeOne_def HSH_Deref_obj_def oc_getobj_def cl oc' e)
    moreover have "core s' = (core s)(oc := None)" using k(8,9) c by (auto simp: expired_def fun_eq_iff)
    ultimately show ?thesis using k(6,7) ql Some by auto
  qed
qed

end
