(* ===== verification/Hash_Life.thy ===== *)
theory Hash_Life
  imports Expire_Timer
begin

text \<open>
  The rest of what happens to an object: it is created (the part of \<open>STV_MkObject\<close>, bin/varnishd/stevedore.c, that
  concerns the core), enters the expiry heap, is touched, gets a new lifetime, is purged; bans are added.
  Each keeps the account of the references.
\<close>

section \<open>New objects\<close>

text \<open>\<open>ep\<close> is the expiry of the new object, \<open>lru\<close> the list of the storage it is in.\<close>

definition STV_MkObject :: "cache \<Rightarrow> addr \<Rightarrow> addr \<Rightarrow> exp_t \<Rightarrow> cache option" where
  "STV_MkObject s oc lru ep = do {
     s \<leftarrow> BAN_NewObjCore s oc;
     Some (upd_core oc (\<lambda>c. c\<lparr>oc_methods := True, oc_lru := lru, o_exp := ep, o_last_lru := 0, o_vary := None, o_hits := 0\<rparr>) s)
   }"

lemma cache_inv_off_heap:
  assumes inv: "cache_inv own lost s" and off: "oc \<notin> on_heap s" and bi: "ban_inv (upd_core oc f s')"
    and s': "hidx s' = hidx s" "objcs s' = objcs s" "waitinglist s' = waitinglist s" "hash_objhead s' = hash_objhead s" "core s' = core s"
      "exp_heap s' = exp_heap s" "lru_head s' = lru_head s"
    and ok: "\<And>h. oc \<in> set (objcs s h) \<Longrightarrow> core_ok own (upd_core oc f s') h oc"
  shows "cache_inv own lost (upd_core oc f s')"
proof -
  note i = cache_invD [OF inv]
  let ?s = "upd_core oc f s'"
  have on: "on_heap s' = on_heap s" "on_heap ?s = on_heap s" by (simp_all add: on_heap_def s')
  have "exp_inv s'" using i(1) exp_inv_core_cong [of s' s] s' by simp
  then have "exp_inv ?s" using off on by (intro exp_inv_set_timer) simp_all
  moreover have "head_ok lost ?s h" for h using i(4) [of h] head_ok_cong [of ?s s] s' by simp
  moreover have "core_ok own ?s h x" if "x \<in> set (objcs s h)" for h x
  proof (cases "x = oc")
    case True
    then show ?thesis using ok that by simp
  next
    case False
    then show ?thesis using i(5) [OF that] on s'(5) by (simp add: core_ok_def)
  qed
  ultimately show ?thesis using bi i(3,6) on s' by (simp add: cache_inv_def)
qed

lemma STV_MkObject_spec:
  assumes inv: "cache_inv own lost s" and oc: "oc \<in> set (objcs s oh)" "core s oc = Some c" "oc_busy c" "oc_ban c = None" "oc \<notin> on_heap s"
  shows "\<exists>s'. STV_MkObject s oc lru ep = Some s' \<and> cache_inv own lost s' \<and> on_heap s' = on_heap s \<and> objcs s' = objcs s \<and>
    core s' = (core s)(oc \<mapsto> c\<lparr>oc_ban := Some (ban_start s), oc_methods := True, oc_lru := lru, o_exp := ep, o_last_lru := 0, o_vary := None, o_hits := 0\<rparr>)"
proof -
  define f :: "objcore \<Rightarrow> objcore" where
    "f = (\<lambda>c. c\<lparr>oc_ban := Some (ban_start s), oc_methods := True, oc_lru := lru, o_exp := ep, o_last_lru := 0, o_vary := None, o_hits := 0\<rparr>)"
  define s' where "s' = upd_ban (ban_start s) (\<lambda>b. b\<lparr>ban_refcount := ban_refcount b + 1, ban_objcore := ban_objcore b @ [oc]\<rparr>) s"
  have e: "STV_MkObject s oc lru ep = Some (upd_core oc f s')"
    using oc by (simp add: STV_MkObject_def BAN_NewObjCore_def upd_core_def upd_ban_def s'_def f_def)
  have "ban_inv (upd_core oc f s')" unfolding s'_def by (rule ban_link_spec [OF cache_invD(2) [OF inv] oc(2,4)]) (simp add: f_def)
  moreover have "core_ok own (upd_core oc f s') h oc" if h: "oc \<in> set (objcs s h)" for h
    using core_okD [OF cache_invD(5) [OF inv h] oc(2)] oc by (simp add: core_ok_def f_def s'_def on_heap_def)
  ultimately have "cache_inv own lost (upd_core oc f s')" by (intro cache_inv_off_heap [OF inv oc(5)]) (simp_all add: s'_def)
  then show ?thesis using e oc(2) by (intro exI [of _ "upd_core oc f s'"]) (simp add: f_def s'_def on_heap_def)
qed

section \<open>Timers\<close>

text \<open>References move between the sessions and the heap.\<close>

lemma cache_inv_timers:
  assumes inv: "cache_inv own lost s" and t: "timers_only s S s'" and S: "\<forall>x \<in> S. \<exists>h. x \<in> set (objcs s h)"
    and own: "\<forall>h. \<forall>x \<in> set (objcs s h). own' x + (if x \<in> S then 1 else 0) = own x + (if x \<in> on_heap s then 1 else 0)"
  shows "cache_inv own' lost s'"
proof -
  note i = cache_invD [OF inv] and f = timers_only_fields [OF t]
  have "head_ok lost s' h" for h using i(4) [of h] head_ok_cong [of s' s] f by simp
  moreover have "core_ok own' s' h x" if x: "x \<in> set (objcs s h)" for h x
  proof -
    obtain c where c: "core s x = Some c" using i(5) [OF x] by (auto simp: core_ok_def)
    obtain c' where c': "core s' x = Some c'" "core_refs c' = core_refs c" "oc_ban c' = oc_ban c" "o_exp c' = o_exp c"
      using f(10,11,12) [of x] c by (cases "core s' x") auto
    note d = core_okD [OF i(5) [OF x] c]
    have "oc_refcnt c = own' x + (if x \<in> on_heap s' then 1 else 0)" using d(3) own x f(9) by simp
    moreover have "own' x + (if x \<in> on_heap s' then 1 else 0) > 0" using calculation d(2) by simp
    ultimately show ?thesis using c' d(1,2,4-7) unfolding core_ok_def ban_cond_def core_refs_def by simp
  qed
  ultimately show ?thesis using f S i(3) timers_only_ban [OF t i(2)] by (simp add: cache_inv_def)
qed

lemma EXP_Insert_keeps:
  assumes inv: "cache_inv own lost s" and oc: "oc \<in> set (objcs s oh)" "core s oc = Some c" "oc_busy c" "oc_methods c" "oc \<notin> on_heap s"
    and e: "entered (o_exp c) \<noteq> 0" and room: "unat (bh_next (exp_heap s)) < 2 ^ 32 - 3 * 65536"
  shows "\<exists>s'. EXP_Insert params junk s oc = Some s' \<and> cache_inv own lost s' \<and> on_heap s' = insert oc (on_heap s) \<and>
    timer s' oc = exp_when params (o_exp c) \<and> last (lru_head s' (oc_lru c)) = oc \<and> objcs s' = objcs s \<and>
    (\<exists>c'. core s' oc = Some c' \<and> oc_refcnt c' = oc_refcnt c + 1 \<and> oc_busy c' \<and> oc_methods c' \<and> oc_ban c' = oc_ban c)"
proof -
  note d = core_okD [OF cache_invD(5) [OF inv oc(1)] oc(2)]
  define s0 where "s0 = upd_core oc (\<lambda>c. c\<lparr>oc_refcnt := oc_refcnt c + 1\<rparr>) s"
  obtain s' where s': "EXP_Insert params junk s oc = Some s'" "timers_only s0 (insert oc (on_heap s)) s'" "timer s' oc = exp_when params (o_exp c)"
    "last (lru_head s' (oc_lru c)) = oc"
    using EXP_Insert_spec [OF cache_invD(1) [OF inv] oc(2,4,3) d(2) e oc(5) room] unfolding s0_def by blast
  have "core_ok (plus1 own oc) s0 h oc" if h: "oc \<in> set (objcs s h)" for h
    using core_okD [OF cache_invD(5) [OF inv h] oc(2)] oc(2,3,4) by (simp add: core_ok_def s0_def on_heap_def)
  then have i0: "cache_inv (plus1 own oc) lost s0" unfolding s0_def by (intro cache_inv_core [OF inv]) simp_all
  have on: "on_heap s0 = on_heap s" "objcs s0 = objcs s" by (simp_all add: s0_def on_heap_def)
  have "cache_inv own lost s'"
  proof (rule cache_inv_timers [OF i0 s'(2)])
    show "\<forall>x \<in> insert oc (on_heap s). \<exists>h. x \<in> set (objcs s0 h)" using oc(1) cache_invD(6) [OF inv] on(2) by auto
    show "\<forall>h. \<forall>x \<in> set (objcs s0 h). own x + (if x \<in> insert oc (on_heap s) then 1 else 0) = plus1 own oc x + (if x \<in> on_heap s0 then 1 else 0)"
      using oc(5) on(1) by simp
  qed
  moreover note f = timers_only_fields [OF s'(2)]
  moreover have "\<exists>c'. core s' oc = Some c' \<and> oc_refcnt c' = oc_refcnt c + 1 \<and> oc_busy c' \<and> oc_methods c' \<and> oc_ban c' = oc_ban c"
    using f(10,11) [of oc] oc by (cases "core s' oc") (auto simp: s0_def core_refs_def)
  ultimately show ?thesis using s'(1,3,4) on by (intro exI [of _ s']) simp
qed

lemma EXP_Touch_keeps:
  assumes inv: "cache_inv own lost s" and oc: "oc \<in> set (objcs s oh)" "core s oc = Some c" "oc_methods c"
  shows "\<exists>s' r. EXP_Touch locked s oc = Some (s', r) \<and> cache_inv own lost s'"
proof -
  obtain s' r where s': "EXP_Touch locked s oc = Some (s', r)" "timers_only s (on_heap s) s'"
    using EXP_Touch_spec [OF cache_invD(1) [OF inv] oc(2,3)] by blast
  have "cache_inv own lost s'" by (rule cache_inv_timers [OF inv s'(2)]) (use cache_invD(6) [OF inv] in auto)
  then show ?thesis using s'(1) by blast
qed

text \<open>A new lifetime: an object that has been banned must not get one again.\<close>

lemma EXP_Rearm_keeps:
  assumes inv: "cache_inv own lost s" and oc: "oc \<in> set (objcs s oh)" "core s oc = Some c" "oc_methods c" and b: "ban_cond (c\<lparr>o_exp := e\<rparr>)"
  shows "\<exists>s' c'. EXP_Rearm params (upd_core oc (\<lambda>c. c\<lparr>o_exp := e\<rparr>) s) (Some oc) = Some s' \<and> cache_inv own lost s' \<and> on_heap s' = on_heap s \<and> objcs s' = objcs s \<and>
    core s' oc = Some c' \<and> core_refs c' = core_refs c \<and> o_exp c' = e \<and> (\<forall>x. x \<noteq> oc \<longrightarrow> core s' x = core s x)"
proof -
  define s1 where "s1 = upd_core oc (\<lambda>c. c\<lparr>o_exp := e\<rparr>) s"
  have "core_ok own s1 h oc" if h: "oc \<in> set (objcs s h)" for h
    using core_okD [OF cache_invD(5) [OF inv h] oc(2)] oc(2) b by (simp add: core_ok_def ban_cond_def s1_def on_heap_def)
  then have i1: "cache_inv own lost s1" unfolding s1_def by (intro cache_inv_core [OF inv]) simp_all
  have c1: "core s1 oc = Some (c\<lparr>o_exp := e\<rparr>)" "oc_methods (c\<lparr>o_exp := e\<rparr>)" "on_heap s1 = on_heap s" "objcs s1 = objcs s" using oc by (simp_all add: s1_def on_heap_def)
  obtain s' where s': "EXP_Rearm params s1 (Some oc) = Some s'" "timers_only s1 (on_heap s1) s'" "\<forall>x. x \<noteq> oc \<longrightarrow> core s' x = core s1 x"
    using EXP_Rearm_spec [OF cache_invD(1) [OF i1] c1(1,2)] by blast
  have "cache_inv own lost s'" by (rule cache_inv_timers [OF i1 s'(2)]) (use cache_invD(6) [OF i1] in auto)
  moreover note f = timers_only_fields [OF s'(2)]
  moreover obtain c' where "core s' oc = Some c'" "core_refs c' = core_refs c" "o_exp c' = e"
    using f(10,12) [of oc] c1(1) by (cases "core s' oc") (auto simp: core_refs_def)
  moreover have "\<forall>x. x \<noteq> oc \<longrightarrow> core s' x = core s x" using s'(3) by (simp add: s1_def)
  ultimately show ?thesis using s'(1) c1(3,4) unfolding s1_def by (intro exI [of _ s'] exI [of _ c']) simp
qed

section \<open>Bans\<close>

lemma BAN_Insert_keeps:
  assumes inv: "cache_inv own lost s" and new: "b \<notin> set (ban_head s)"
  shows "cache_inv own lost (BAN_Insert dups t0 s b req lump)"
proof (rule cache_inv_same_refs [OF inv])
  let ?s = "BAN_Insert dups t0 s b req lump"
  have f: "hidx ?s = hidx s" "objcs ?s = objcs s" "waitinglist ?s = waitinglist s" "hash_objhead ?s = hash_objhead s" "core ?s = core s"
    "exp_heap ?s = exp_heap s" "lru_head ?s = lru_head s" by (simp_all add: BAN_Insert_def Let_def)
  show "same_refs s ?s" by (simp add: same_refs_def f on_heap_def)
  show "exp_inv ?s" using cache_invD(1) [OF inv] exp_inv_core_cong [of ?s s] f by simp
  show "ban_inv ?s" by (rule BAN_Insert_inv [OF cache_invD(2) [OF inv] new])
  show "ban_cond c" if "oc \<in> set (objcs s h)" "core ?s oc = Some c" for h oc c
    using core_okD(7) [OF cache_invD(5) [OF inv that(1)]] that(2) f(5) by simp
qed

section \<open>Purging\<close>

definition idle_obj :: "cache \<Rightarrow> addr \<Rightarrow> bool" where
  "idle_obj s oc \<longleftrightarrow> (\<exists>c. core s oc = Some c \<and> \<not> oc_busy c)"

text \<open>One more reference for everything in a list.\<close>

definition plus_all :: "('a \<Rightarrow> nat) \<Rightarrow> 'a set \<Rightarrow> 'a \<Rightarrow> nat" where
  "plus_all f A x = f x + (if x \<in> A then 1 else 0)"

lemma purge_collect_spec:
  assumes "cache_inv own lost s" and "distinct ocs" and "set ocs \<subseteq> set (objcs s oh)" and "8 * length ocs \<le> spc"
  shows "\<exists>s'. purge_collect oh s spc ocs = Some (s', filter (idle_obj s) ocs) \<and>
    cache_inv (plus_all own {oc \<in> set ocs. idle_obj s oc}) lost s' \<and> objcs s' = objcs s \<and>
    (\<forall>x. map_option (\<lambda>c. c\<lparr>oc_refcnt := 0\<rparr>) (core s' x) = map_option (\<lambda>c. c\<lparr>oc_refcnt := 0\<rparr>) (core s x))"
  using assms
proof (induction ocs arbitrary: s own spc)
  case Nil
  have "plus_all own {} = own" by (simp add: plus_all_def fun_eq_iff)
  then show ?case using Nil by simp
next
  case (Cons oc ocs)
  have oc: "oc \<in> set (objcs s oh)" using Cons.prems(3) by simp
  obtain c where c: "core s oc = Some c" using cache_invD(5) [OF Cons.prems(1) oc] by (auto simp: core_ok_def)
  note d = core_okD [OF cache_invD(5) [OF Cons.prems(1) oc] c]
  show ?case
  proof (cases "oc_busy c")
    case True
    then have ni: "\<not> idle_obj s oc" using c by (simp add: idle_obj_def)
    then have "{x \<in> set (oc # ocs). idle_obj s x} = {x \<in> set ocs. idle_obj s x}" by auto
    then show ?thesis using Cons.IH [of own s spc] Cons.prems c d(1) True ni by simp
  next
    case False
    define f :: "objcore \<Rightarrow> objcore" where "f = (\<lambda>c. c\<lparr>oc_refcnt := oc_refcnt c + 1\<rparr>)"
    define s1 where "s1 = upd_core oc f s"
    have "core_ok (plus1 own oc) s1 h oc" if h: "oc \<in> set (objcs s h)" for h
      using core_okD [OF cache_invD(5) [OF Cons.prems(1) h] c] c False by (simp add: core_ok_def ban_cond_def s1_def f_def on_heap_def)
    then have i1: "cache_inv (plus1 own oc) lost s1" unfolding s1_def by (intro cache_inv_core [OF Cons.prems(1)]) (simp_all add: f_def)
    have id: "idle_obj s1 x = idle_obj s x" for x using c by (auto simp: idle_obj_def s1_def f_def)
    have ob: "objcs s1 = objcs s" by (simp add: s1_def)
    obtain s' where s': "purge_collect oh s1 (spc - 8) ocs = Some (s', filter (idle_obj s1) ocs)"
      "cache_inv (plus_all (plus1 own oc) {x \<in> set ocs. idle_obj s1 x}) lost s'" "objcs s' = objcs s1"
      "\<forall>x. map_option (\<lambda>c. c\<lparr>oc_refcnt := 0\<rparr>) (core s' x) = map_option (\<lambda>c. c\<lparr>oc_refcnt := 0\<rparr>) (core s1 x)"
      using Cons.IH [OF i1, of "spc - 8"] Cons.prems(2-4) ob by (elim meta_impE exE conjE) auto
    have "plus_all (plus1 own oc) {x \<in> set ocs. idle_obj s x} = plus_all own {x \<in> set (oc # ocs). idle_obj s x}"
      using Cons.prems(2) c False by (auto simp: fun_eq_iff plus_all_def idle_obj_def)
    moreover have "map_option (\<lambda>c. c\<lparr>oc_refcnt := 0\<rparr>) (core s1 x) = map_option (\<lambda>c. c\<lparr>oc_refcnt := 0\<rparr>) (core s x)" for x
      by (cases "core s x") (auto simp: s1_def f_def)
    moreover have "idle_obj s1 = idle_obj s" using id by (simp add: fun_eq_iff)
    moreover have "purge_collect oh s spc (oc # ocs) = Some (s', oc # filter (idle_obj s) ocs)"
      using c d(1,5) False Cons.prems(4) s'(1) calculation(3) by (simp add: oc_getobj_def s1_def f_def)
    moreover have "idle_obj s oc" using c False by (simp add: idle_obj_def)
    ultimately show ?thesis using s'(2-4) ob by simp
  qed
qed

text \<open>What the second loop leaves of an object.\<close>

definition purged :: "rat \<Rightarrow> rat \<Rightarrow> cache \<Rightarrow> addr \<Rightarrow> bool" where
  "purged t g s oc \<longleftrightarrow> (\<forall>c. core s oc = Some c \<longrightarrow> ttl (o_exp c) = t \<and> grace (o_exp c) = g)"

lemma purge_expire_spec:
  assumes "cache_inv (plus_all own (set l)) lost s" and "distinct l" and "set l \<subseteq> set (objcs s oh)" and "\<forall>x \<in> set l. idle_obj s x" and t: "t \<le> 0"
  shows "\<exists>s' w' lost'. purge_expire params qok n t g s w l = Some (s', w') \<and> cache_inv own lost' s' \<and> ((\<forall>sp. qok sp) \<longrightarrow> lost' = lost) \<and> on_heap s' = on_heap s \<and>
    (\<forall>x \<in> set l. purged t g s' x) \<and> (\<forall>x. x \<notin> set l \<longrightarrow> core s' x = core s x) \<and> (\<forall>h. set (objcs s' h) \<subseteq> set (objcs s h))"
  using assms(1-4)
proof (induction l arbitrary: s w lost)
  case Nil
  have "plus_all own {} = own" by (simp add: plus_all_def fun_eq_iff)
  then show ?case using Nil by auto
next
  case (Cons oc l)
  have oc: "oc \<in> set (objcs s oh)" using Cons.prems(3) by simp
  obtain c where c: "core s oc = Some c" "\<not> oc_busy c" using Cons.prems(4) by (auto simp: idle_obj_def)
  define e where "e = (o_exp c)\<lparr>ttl := t, grace := g\<rparr>"
  have m: "oc_methods c" using core_okD(5) [OF cache_invD(5) [OF Cons.prems(1) oc] c] .
  have bc: "ban_cond (c\<lparr>o_exp := e\<rparr>)" using t by (simp add: ban_cond_def e_def)
  obtain s1 c1 where 1: "EXP_Rearm params (upd_core oc (\<lambda>c. c\<lparr>o_exp := e\<rparr>) s) (Some oc) = Some s1" "cache_inv (plus_all own (set (oc # l))) lost s1"
    "on_heap s1 = on_heap s" "objcs s1 = objcs s" "core s1 oc = Some c1" "core_refs c1 = core_refs c" "o_exp c1 = e" "\<forall>x. x \<noteq> oc \<longrightarrow> core s1 x = core s x"
    using EXP_Rearm_keeps [OF Cons.prems(1) oc c(1) m bc] by blast
  have oc1: "oc \<in> set (objcs s1 oh)" "plus_all own (set (oc # l)) oc > 0" using oc 1(4) by (simp_all add: plus_all_def)
  obtain s2 w2 lost2 where 2: "HSH_Deref qok n s1 w oc = Some (s2, w2, oc_refcnt c1 - 1)" "cache_inv (minus1 (plus_all own (set (oc # l))) oc) lost2 s2"
    "on_heap s2 = on_heap s1" "core s2 = (core s1)(oc := if oc_refcnt c1 = 1 then None else Some (c1\<lparr>oc_refcnt := oc_refcnt c1 - 1\<rparr>))"
    "objcs s2 = (if oc_refcnt c1 = 1 then (objcs s1)(oh := remove1 oc (objcs s1 oh)) else objcs s1)"
    and q2: "(\<forall>sp. qok sp) \<longrightarrow> lost2 = lost"
    using HSH_Deref_spec [OF 1(2) oc1(1) 1(5) oc1(2), of qok n w] by (elim exE conjE) blast
  have own2: "minus1 (plus_all own (set (oc # l))) oc = plus_all own (set l)" using Cons.prems(2) by (auto simp: plus_all_def fun_eq_iff)
  have sub: "set l \<subseteq> set (objcs s2 oh)"
  proof
    fix x
    assume x: "x \<in> set l"
    then have "x \<noteq> oc" "x \<in> set (objcs s oh)" using Cons.prems(2,3) by auto
    then show "x \<in> set (objcs s2 oh)" using 2(5) 1(4) by auto
  qed
  have fr: "core s2 x = core s x" if "x \<noteq> oc" for x using 1(8) 2(4) that by simp
  have idl: "\<forall>x \<in> set l. idle_obj s2 x"
  proof
    fix x
    assume x: "x \<in> set l"
    then have "x \<noteq> oc" using Cons.prems(2) by auto
    then show "idle_obj s2 x" using Cons.prems(4) x fr [of x] by (simp add: idle_obj_def)
  qed
  have dl: "distinct l" using Cons.prems(2) by simp
  obtain s' w' lost' where 3: "purge_expire params qok n t g s2 w2 l = Some (s', w')" "cache_inv own lost' s'" "on_heap s' = on_heap s2" "\<forall>x \<in> set l. purged t g s' x"
    "\<forall>x. x \<notin> set l \<longrightarrow> core s' x = core s2 x" "\<forall>h. set (objcs s' h) \<subseteq> set (objcs s2 h)"
    and q3: "(\<forall>sp. qok sp) \<longrightarrow> lost' = lost2"
    using Cons.IH [OF 2(2) [unfolded own2] dl sub idl, of w2] by (elim exE conjE)
  have u: "upd_core oc (\<lambda>c. c\<lparr>o_exp := (o_exp c)\<lparr>ttl := t, grace := g\<rparr>\<rparr>) s = upd_core oc (\<lambda>c. c\<lparr>o_exp := e\<rparr>) s" using c by (simp add: upd_core_def e_def)
  have "purge_expire params qok n t g s w (oc # l) = Some (s', w')"
    using c m 1(1) 2(1) 3(1) by (simp add: oc_getobj_def u)
  moreover have "oc \<notin> set l" using Cons.prems(2) by simp
  then have "purged t g s' oc" using 3(5) 2(4) 1(7) by (auto simp: purged_def e_def split: if_splits)
  moreover have "\<forall>x. x \<notin> set (oc # l) \<longrightarrow> core s' x = core s x" using 3(5) fr by simp
  moreover have "set (objcs s' h) \<subseteq> set (objcs s h)" for h
  proof -
    have "set (objcs s2 h) \<subseteq> set (objcs s h)" using 2(5) 1(4) set_remove1_subset [of oc "objcs s oh"] by (cases "h = oh") auto
    then show ?thesis using 3(6) by blast
  qed
  ultimately show ?case using 3(2-4) 2(3) 1(3) q2 q3 by (intro exI [of _ s'] exI [of _ w'] exI [of _ lost']) simp
qed

lemma HSH_Purge_spec:
  assumes inv: "cache_inv own lost s" and oh: "oh \<in> hcb_heads (hidx s)" and room: "8 * length (objcs s oh) \<le> spc" and t: "t \<le> 0"
  shows "\<exists>s' w' lost'. HSH_Purge params qok n spc s w oh t g = Some (s', w') \<and> cache_inv own lost' s' \<and> ((\<forall>sp. qok sp) \<longrightarrow> lost' = lost) \<and>
    (\<forall>h. set (objcs s' h) \<subseteq> set (objcs s h)) \<and> (\<forall>x \<in> set (objcs s oh). idle_obj s x \<longrightarrow> purged (-1) (if g > 0 then g else -1) s' x) \<and>
    (\<forall>x \<in> set (objcs s oh). \<not> idle_obj s x \<longrightarrow> (\<exists>c. core s' x = Some c \<and> oc_busy c))"
proof -
  define l where "l = filter (idle_obj s) (objcs s oh)"
  have d: "distinct (objcs s oh)" using cache_invD(4) [OF inv, of oh] by (simp add: head_ok_def)
  have sl: "{oc \<in> set (objcs s oh). idle_obj s oc} = set l" "distinct l" using d by (auto simp: l_def)
  obtain s1 where 1: "purge_collect oh s spc (objcs s oh) = Some (s1, l)" "cache_inv (plus_all own (set l)) lost s1" "objcs s1 = objcs s"
    "\<forall>x. map_option (\<lambda>c. c\<lparr>oc_refcnt := 0\<rparr>) (core s1 x) = map_option (\<lambda>c. c\<lparr>oc_refcnt := 0\<rparr>) (core s x)"
    using purge_collect_spec [OF inv d subset_refl room] unfolding sl(1) l_def [symmetric] by blast
  have b1: "map_option oc_busy (core s1 x) = map_option oc_busy (core s x)" for x
    using 1(4) [THEN spec, of x] by (cases "core s x"; cases "core s1 x") (auto dest: arg_cong [of _ _ oc_busy])
  have "\<forall>x \<in> set l. idle_obj s1 x"
  proof
    fix x
    assume "x \<in> set l"
    then have "idle_obj s x" by (simp add: l_def)
    then show "idle_obj s1 x" using b1 [of x] by (auto simp: idle_obj_def)
  qed
  moreover have "set l \<subseteq> set (objcs s1 oh)" by (auto simp: l_def 1(3))
  ultimately obtain s' w' lost' where 2: "purge_expire params qok n (-1) (if g > 0 then g else -1) s1 w l = Some (s', w')" "cache_inv own lost' s'"
    "(\<forall>sp. qok sp) \<longrightarrow> lost' = lost" "\<forall>x \<in> set l. purged (-1) (if g > 0 then g else -1) s' x" "\<forall>x. x \<notin> set l \<longrightarrow> core s' x = core s1 x"
    "\<forall>h. set (objcs s' h) \<subseteq> set (objcs s1 h)"
    using purge_expire_spec [OF 1(2) sl(2), of oh "-1" params qok n "if g > 0 then g else -1" w] by (elim meta_impE exE conjE) simp_all
  have "hcb_refcnt (hidx s) oh > 0" using hcb.held [OF cache_invD(3) [OF inv] oh] .
  then have "HSH_Purge params qok n spc s w oh t g = Some (s', w')" using 1(1) 2(1) t by (simp add: HSH_Purge_def Let_def)
  moreover have "\<exists>c. core s' x = Some c \<and> oc_busy c" if x: "x \<in> set (objcs s oh)" "\<not> idle_obj s x" for x
  proof -
    obtain c where "core s x = Some c" using cache_invD(5) [OF inv x(1)] by (auto simp: core_ok_def)
    moreover have "core s' x = core s1 x" using 2(5) x(2) by (simp add: l_def)
    ultimately show ?thesis using b1 [of x] x(2) by (auto simp: idle_obj_def)
  qed
  ultimately show ?thesis using 2(2-4,6) 1(3) by (intro exI [of _ s'] exI [of _ w'] exI [of _ lost']) (simp add: l_def)
qed

text \<open>Nothing under the head can be served any more.\<close>

lemma purged_not_servable:
  assumes "\<forall>h. set (objcs s' h) \<subseteq> set (objcs s h)" and "\<forall>x \<in> set (objcs s oh). idle_obj s x \<longrightarrow> purged (-1) g s' x"
    and "\<forall>x \<in> set (objcs s oh). \<not> idle_obj s x \<longrightarrow> (\<exists>c. core s' x = Some c \<and> oc_busy c)" and x: "x \<in> set (objcs s' oh)"
  shows "\<not> servable q s' x c"
proof
  assume sv: "servable q s' x c"
  have "x \<in> set (objcs s oh)" using assms(1) x by blast
  then have "purged (-1) g s' x \<or> (\<exists>c. core s' x = Some c \<and> oc_busy c)" using assms(2,3) by blast
  then show False using sv by (auto simp: servable_def purged_def)
qed

end
