(* ===== verification/Object_Cache.thy ===== *)
theory Object_Cache
  imports Hash_Life
begin

text \<open>
  The object cache as a whole: the operations of cache_hash.c, cache_expire.c, cache_ban.c and stevedore.c in any order in which
  the callers may call them, and what holds at every moment.
\<close>

section \<open>Every order of calls\<close>

definition empty_cache :: "hcb \<Rightarrow> addr binheap \<Rightarrow> cache" where
  "empty_cache i h = \<lparr>hidx = i, objcs = (\<lambda>_. []), waitinglist = (\<lambda>_. None), hash_objhead = (\<lambda>_. None), core = (\<lambda>_. None), exp_heap = h,
     lru_head = (\<lambda>_. []), ban_head = [], bmem = (\<lambda>_. None), ban_start = 0\<rparr>"

definition may_lookup :: "cache \<Rightarrow> wprealloc \<Rightarrow> addr \<Rightarrow> u64 \<Rightarrow> u64 \<Rightarrow> lreq \<Rightarrow> bool" where
  "may_lookup s w a h y q \<longleftrightarrow> worker_ok (\<lambda>_. 0) s w \<and> unused (\<lambda>_. 0) s a h y \<and> answers q s \<and>
     length (r_digest q) = DIGEST_LEN \<and> VRY_Validate (vary_b q) = Some () \<and>
     (\<forall>h l. waitinglist s h = Some l \<longrightarrow> r_sess q \<notin> set l)"

fun take_ref :: "lookup_res \<Rightarrow> (addr \<Rightarrow> nat) \<Rightarrow> addr \<Rightarrow> nat" where
  "take_ref (LHit oc oh) own = plus1 own oc"
| "take_ref LWait own = own"
| "take_ref (LMiss oc oh) own = own(oc := 1)"

text \<open>\<open>own\<close> counts the references the sessions hold; the premises of a rule are what the caller has to see to.\<close>

inductive reachable :: "exp_params \<Rightarrow> (addr \<Rightarrow> bool) \<Rightarrow> nat \<Rightarrow> (addr \<Rightarrow> nat) \<Rightarrow> cache \<Rightarrow> bool" for params qok n where
  init: "hcb_start r = Some i \<Longrightarrow> nhashpriv r = None \<Longrightarrow> binheap_new 4096 True junk (\<lambda>_. BINHEAP_NOIDX) = Some bh \<Longrightarrow>
    reachable params qok n (\<lambda>_. 0) (BAN_Init dups t0 (empty_cache i bh) b)"
| lookup: "reachable params qok n own s \<Longrightarrow> may_lookup s w a h y q \<Longrightarrow> HSH_Lookup params a h y q s w = Some (s', w', res) \<Longrightarrow>
    reachable params qok n (take_ref res own) s'"
| mkobject: "reachable params qok n own s \<Longrightarrow> oc \<in> set (objcs s oh) \<Longrightarrow> core s oc = Some c \<Longrightarrow> oc_busy c \<Longrightarrow> oc_ban c = None \<Longrightarrow> oc \<notin> on_heap s \<Longrightarrow>
    STV_MkObject s oc lru ep = Some s' \<Longrightarrow> reachable params qok n own s'"
| insert: "reachable params qok n own s \<Longrightarrow> oc \<in> set (objcs s oh) \<Longrightarrow> core s oc = Some c \<Longrightarrow> oc_busy c \<Longrightarrow> oc_methods c \<Longrightarrow> oc \<notin> on_heap s \<Longrightarrow>
    entered (o_exp c) \<noteq> 0 \<Longrightarrow> unat (bh_next (exp_heap s)) < 2 ^ 32 - 3 * 65536 \<Longrightarrow>
    EXP_Insert params junk s oc = Some s' \<Longrightarrow> reachable params qok n own s'"
| unbusy: "reachable params qok n own s \<Longrightarrow> oc \<in> set (objcs s oh) \<Longrightarrow> core s oc = Some c \<Longrightarrow> oc_busy c \<Longrightarrow> oc_methods c \<Longrightarrow> oc_ban c \<noteq> None \<Longrightarrow>
    \<not> nbusyobj w \<Longrightarrow> HSH_Unbusy qok n s w oc = Some (s', w') \<Longrightarrow> reachable params qok n own s'"
| deref: "reachable params qok n own s \<Longrightarrow> oc \<in> set (objcs s oh) \<Longrightarrow> own oc > 0 \<Longrightarrow>
    HSH_Deref qok n s w oc = Some (s', w', r) \<Longrightarrow> reachable params qok n (minus1 own oc) s'"
| touch: "reachable params qok n own s \<Longrightarrow> oc \<in> set (objcs s oh) \<Longrightarrow> core s oc = Some c \<Longrightarrow> oc_methods c \<Longrightarrow>
    EXP_Touch locked s oc = Some (s', r') \<Longrightarrow> reachable params qok n own s'"
| rearm: "reachable params qok n own s \<Longrightarrow> oc \<in> set (objcs s oh) \<Longrightarrow> core s oc = Some c \<Longrightarrow> oc_methods c \<Longrightarrow> ban_cond (c\<lparr>o_exp := e\<rparr>) \<Longrightarrow>
    EXP_Rearm params (upd_core oc (\<lambda>c. c\<lparr>o_exp := e\<rparr>) s) (Some oc) = Some s' \<Longrightarrow> reachable params qok n own s'"
| ban: "reachable params qok n own s \<Longrightarrow> b \<notin> set (ban_head s) \<Longrightarrow> reachable params qok n own (BAN_Insert dups t0 s b req lump)"
| purge: "reachable params qok n own s \<Longrightarrow> oh \<in> hcb_heads (hidx s) \<Longrightarrow> 8 * length (objcs s oh) \<le> spc \<Longrightarrow> t \<le> 0 \<Longrightarrow>
    HSH_Purge params qok n spc s w oh t g = Some (s', w') \<Longrightarrow> reachable params qok n own s'"
| timer: "reachable params qok n own s \<Longrightarrow> exp_timer_step qok n now held s w t = Some (s', w', t', killed) \<Longrightarrow> reachable params qok n own s'"
| nuke: "reachable params qok n own s \<Longrightarrow> EXP_NukeOne qok n s w lru = Some (s', w', i') \<Longrightarrow> reachable params qok n own s'"

text \<open>References lost with a head that left the index no longer matter.\<close>

definition in_index :: "cache \<Rightarrow> (u64 \<Rightarrow> nat) \<Rightarrow> u64 \<Rightarrow> nat" where
  "in_index s lost h = (if h \<in> hcb_heads (hidx s) then lost h else 0)"

lemma cache_inv_in_index: "cache_inv own lost s \<Longrightarrow> cache_inv own (in_index s lost) s"
  by (simp add: cache_inv_def head_ok_def in_index_def)

lemma may_lookup_pre:
  assumes "cache_inv own lost s" and "may_lookup s w a h y q"
  shows "lookup_pre own (in_index s lost) s w a h y q"
  using assms cache_inv_in_index [OF assms(1)] unfolding may_lookup_def lookup_pre_def
  by (auto simp: worker_ok_def unused_def in_index_def)

definition accounted :: "(addr \<Rightarrow> bool) \<Rightarrow> (addr \<Rightarrow> nat) \<Rightarrow> cache \<Rightarrow> bool" where
  "accounted qok own s \<longleftrightarrow> (\<exists>lost. cache_inv own lost s \<and> ((\<forall>sp. qok sp) \<longrightarrow> lost = (\<lambda>_. 0)))"

lemma accounted_step:
  assumes "accounted qok own s" and "\<And>lost. cache_inv own lost s \<Longrightarrow> \<exists>lost'. cache_inv own' lost' s' \<and> ((\<forall>sp. qok sp) \<longrightarrow> lost = (\<lambda>_. 0) \<longrightarrow> lost' = (\<lambda>_. 0))"
  shows "accounted qok own' s'"
proof -
  obtain lost where l: "cache_inv own lost s" "(\<forall>sp. qok sp) \<longrightarrow> lost = (\<lambda>_. 0)" using assms(1) by (auto simp: accounted_def)
  then show ?thesis using assms(2) [OF l(1)] unfolding accounted_def by blast
qed

lemma accounted_start:
  assumes "hcb_start r = Some i" and "nhashpriv r = None" and "binheap_new 4096 True junk (\<lambda>_. BINHEAP_NOIDX) = Some bh"
  shows "accounted qok (\<lambda>_. 0) (BAN_Init dups t0 (empty_cache i bh) b)"
proof -
  let ?s = "BAN_Init dups t0 (empty_cache i bh) b"
  have i: "hcb_inv i" "hcb_heads i = {}" using hcb_start_inv [of r] assms(1,2) by auto
  have p: "4096 div 8 = push_bit 9 (1 :: u32)" by simp
  have "heap_inv (key_cmp (timer ?s)) bh \<and> elems bh = {} \<and> bh_idx bh = (\<lambda>_. BINHEAP_NOIDX)"
    using binheap_new_spec [OF _ _ p, of junk "\<lambda>_. BINHEAP_NOIDX" "key_cmp (timer ?s)"] assms(3) by simp
  moreover have "hidx ?s = i" "objcs ?s = (\<lambda>_. [])" "waitinglist ?s = (\<lambda>_. None)" "hash_objhead ?s = (\<lambda>_. None)" "core ?s = (\<lambda>_. None)" "exp_heap ?s = bh"
    "lru_head ?s = (\<lambda>_. [])" "ban_head ?s = [b]" "ban_start ?s = b" "\<exists>bn. bmem ?s b = Some bn \<and> ban_objcore bn = []"
    by (simp_all add: BAN_Init_def BAN_Insert_def empty_cache_def Let_def)
  ultimately have "cache_inv (\<lambda>_. 0) (\<lambda>_. 0) ?s" using i
    by (auto simp: cache_inv_def exp_inv_def ban_inv_def head_ok_def holders_def on_heap_def bans_of_def)
  then show ?thesis by (auto simp: accounted_def)
qed

lemma HSH_Lookup_keeps:
  assumes "cache_inv own lost s" and "may_lookup s w a h y q" and "HSH_Lookup params a h y q s w = Some (s', w', res)"
  shows "cache_inv (take_ref res own) (in_index s lost) s'"
proof -
  from HSH_Lookup_spec [OF may_lookup_pre [OF assms(1,2)], of params] assms(3) obtain oh where
    "lookup_ok params q s own (in_index s lost) oh s' res" by auto
  then show ?thesis by (cases res) (auto simp: lookup_ok_def)
qed

lemma in_index_0 [simp]: "in_index s (\<lambda>_. 0) = (\<lambda>_. 0)"
  by (simp add: in_index_def fun_eq_iff)

lemma HSH_Deref_keeps:
  assumes "cache_inv own lost s" and "oc \<in> set (objcs s oh)" and "own oc > 0" and "HSH_Deref qok n s w oc = Some (s', w', r)"
  shows "\<exists>lost'. cache_inv (minus1 own oc) lost' s' \<and> ((\<forall>sp. qok sp) \<longrightarrow> lost' = lost)"
proof -
  obtain c where "core s oc = Some c" using cache_invD(5) [OF assms(1,2)] by (auto simp: core_ok_def)
  from HSH_Deref_spec [OF assms(1,2) this assms(3), of qok n w] assms(4) show ?thesis by auto
qed

lemma reachable_accounted:
  assumes "reachable params qok n own s"
  shows "accounted qok own s"
  using assms
proof (induction rule: reachable.induct)
  case init
  then show ?case by (rule accounted_start)
next
  case (lookup own s w a h y q s' w' res)
  show ?case by (rule accounted_step [OF lookup.IH]) (use HSH_Lookup_keeps [OF _ lookup.hyps(2,3)] in fastforce)
next
  case (mkobject own s oc oh c lru ep s')
  show ?case by (rule accounted_step [OF mkobject.IH]) (use STV_MkObject_spec [OF _ mkobject.hyps(2-6), of own _ lru ep] mkobject.hyps(7) in fastforce)
next
  case (insert own s oc oh c junk s')
  show ?case by (rule accounted_step [OF insert.IH]) (use EXP_Insert_keeps [OF _ insert.hyps(2-8), of own _ params junk] insert.hyps(9) in fastforce)
next
  case (unbusy own s oc oh c w s' w')
  show ?case by (rule accounted_step [OF unbusy.IH]) (use HSH_Unbusy_spec [OF _ unbusy.hyps(2-7), of own _ qok n] unbusy.hyps(8) in fastforce)
next
  case (deref own s oc oh w s' w' r)
  show ?case by (rule accounted_step [OF deref.IH]) (use HSH_Deref_keeps [of own _ s, OF _ deref.hyps(2-4)] in fastforce)
next
  case (touch own s oc oh c locked s' r')
  show ?case by (rule accounted_step [OF touch.IH]) (use EXP_Touch_keeps [OF _ touch.hyps(2-4), of own _ locked] touch.hyps(5) in fastforce)
next
  case (rearm own s oc oh c e s')
  show ?case by (rule accounted_step [OF rearm.IH]) (use EXP_Rearm_keeps [OF _ rearm.hyps(2-5), of own _ params] rearm.hyps(6) in fastforce)
next
  case (ban own s b dups t0 req lump)
  show ?case by (rule accounted_step [OF ban.IH]) (use BAN_Insert_keeps [OF _ ban.hyps(2)] in fastforce)
next
  case (purge own s oh spc t w g s' w')
  show ?case by (rule accounted_step [OF purge.IH]) (use HSH_Purge_spec [OF _ purge.hyps(2-4), of own _ params qok n w g] purge.hyps(5) in fastforce)
next
  case (timer own s now held w t s' w' t' killed)
  show ?case by (rule accounted_step [OF timer.IH]) (use exp_timer_step_spec [of own _ s qok n now held w t] timer.hyps(2) in fastforce)
next
  case (nuke own s w lru s' w' i')
  show ?case by (rule accounted_step [OF nuke.IH]) (use EXP_NukeOne_spec [of own _ s qok n w lru] nuke.hyps(2) in fastforce)
qed

section \<open>Properties\<close>

text \<open>A cache with one object: core 20 under head 4, on the heap and on LRU list 1, with ban 30; \<open>n\<close> sessions use it.\<close>

definition wit_bh :: "addr binheap" where
  "wit_bh = the (do { bh \<leftarrow> binheap_new 4096 True (\<lambda>_. None) (\<lambda>_. BINHEAP_NOIDX); binheap_insert (key_cmp (\<lambda>_. 50 :: rat)) (\<lambda>_. None) bh 20 })"

definition wit_core :: "nat \<Rightarrow> objcore" where
  "wit_core n = \<lparr>oc_refcnt = n + 1, oc_methods = True, oc_objhead = 4, oc_busyobj = None, timer_when = 50, oc_busy = False, oc_pass = False,
     oc_lrudontmove = False, oc_lurk = 0, oc_lru = 1, oc_ban = Some 30,
     o_exp = \<lparr>ttl = 10, grace = 0, keep = 0, age = 0, entered = 40\<rparr>, o_last_lru = 40, o_vary = None, o_hits = 0\<rparr>"

definition wit_cache :: "nat \<Rightarrow> cache" where
  "wit_cache n = \<lparr>hidx = wit_hcb 5, objcs = (\<lambda>_. [])(4 := [20]), waitinglist = (\<lambda>_. None), hash_objhead = (\<lambda>_. None), core = [20 \<mapsto> wit_core n],
     exp_heap = wit_bh, lru_head = (\<lambda>_. [])(1 := [20]), ban_head = [30],
     bmem = [30 \<mapsto> \<lparr>ban_refcount = 1, ban_gone = True, ban_req = False, ban_lurk = 0, ban_objcore = [20], ban_when = 0, ban_spec = magic_spec\<rparr>], ban_start = 30\<rparr>"

definition wit_wrk :: wprealloc where
  "wit_wrk = \<lparr>nobjcore = None, nobjhead = None, nwaitinglist = False, nbusyobj = False\<rparr>"

lemma wit_bh_ok: "heap_inv (key_cmp (\<lambda>_. 50 :: rat)) wit_bh" "elems wit_bh = {20}" "p \<noteq> 20 \<Longrightarrow> bh_idx wit_bh p = BINHEAP_NOIDX"
proof -
  have p: "4096 div 8 = push_bit 9 (1 :: u32)" by simp
  obtain bh where bh: "binheap_new 4096 True (\<lambda>_. None) (\<lambda>_. BINHEAP_NOIDX) = Some bh" "heap_inv (key_cmp (\<lambda>_. 50 :: rat)) bh" "elems bh = ({} :: addr set)"
    "bh_next bh = ROOT_IDX" "bh_idx bh = (\<lambda>_. BINHEAP_NOIDX)"
    using binheap_new_spec [OF _ _ p, of "\<lambda>_. None" "\<lambda>_. BINHEAP_NOIDX" "key_cmp (\<lambda>_. 50 :: rat)"] by auto
  have "20 \<notin> elems bh" "unat (bh_next bh) < 2 ^ 32 - 3 * 65536" using bh(3,4) by (simp_all add: ROOT_IDX_def)
  from bhq.ins_law [OF bh(2) this, of "\<lambda>_. None"] obtain h where h: "binheap_insert (key_cmp (\<lambda>_. 50 :: rat)) (\<lambda>_. None) bh 20 = Some h"
    "heap_inv (key_cmp (\<lambda>_. 50 :: rat)) h" "elems h = insert 20 (elems bh)" "\<forall>x. x \<notin> elems h \<longrightarrow> (bh_idx h x = BINHEAP_NOIDX) = (bh_idx bh x = BINHEAP_NOIDX)" by blast
  have "wit_bh = h" using bh(1) h(1) by (simp add: wit_bh_def)
  then show "heap_inv (key_cmp (\<lambda>_. 50 :: rat)) wit_bh" "elems wit_bh = {20}" "p \<noteq> 20 \<Longrightarrow> bh_idx wit_bh p = BINHEAP_NOIDX" using h bh(3,5) by simp_all
qed

lemma wit_cache_inv: "cache_inv ((\<lambda>_. 0)(20 := n)) (\<lambda>_. 0) (wit_cache n)" "on_heap (wit_cache n) = {20}"
proof -
  let ?s = "wit_cache n"
  have f: "hidx ?s = wit_hcb 5" "core ?s = [20 \<mapsto> wit_core n]" "exp_heap ?s = wit_bh" "lru_head ?s = (\<lambda>_. [])(1 := [20])"
    "objcs ?s = (\<lambda>_. [])(4 := [20])" by (simp_all add: wit_cache_def)
  show on: "on_heap ?s = {20}" by (simp add: on_heap_def f wit_bh_ok)
  have "heap_inv (key_cmp (timer ?s)) wit_bh"
    by (rule bhq.key_local [OF wit_bh_ok(1)]) (simp add: wit_bh_ok timer_def f wit_core_def)
  then have "exp_inv ?s" using wit_bh_ok(3) unfolding exp_inv_def on f by (auto simp: has_obj_def lru_of_def f wit_core_def)
  moreover have "ban_inv ?s" by (auto simp: ban_inv_def bans_of_def wit_cache_def wit_core_def split: if_splits)
  moreover have "head_ok (\<lambda>_. 0) ?s h" for h by (auto simp: head_ok_def holders_def f wit_hcb_inv1) (simp_all add: wit_cache_def wit_hcb_def)
  moreover have "core_ok ((\<lambda>_. 0)(20 := n)) ?s h oc" if "oc \<in> set (objcs ?s h)" for h oc
    using that by (auto simp: core_ok_def f on wit_core_def split: if_splits)
  ultimately show "cache_inv ((\<lambda>_. 0)(20 := n)) (\<lambda>_. 0) ?s" using wit_hcb_inv1(1) by (auto simp: cache_inv_def on f)
qed

definition wit_req :: lreq where
  "wit_req = \<lparr>r_sess = 7, r_digest = replicate 32 4, r_exp = EXP_Clr, t_req = 45, hash_ignore_busy = False, hash_always_miss = False, esi_level = 0,
     vary_b = vend, vary_l = False, vmatch = (\<lambda>_. Some True), vhealthy = True, beval = (\<lambda>_ _. Some False)\<rparr>"

lemma wit_may_lookup:
  assumes "core s 21 = None" and "8 \<notin> hcb_heads (hidx s)" and "ymem (hidx s) 24 = None" and "24 \<notin> y_pool (hidx s)"
    and "nhashpriv (hidx s) = None \<or> nhashpriv (hidx s) = Some 16 \<and> ymem (hidx s) 16 \<noteq> None" and "waitinglist s = (\<lambda>_. None)"
    and "\<forall>b bn. bmem s b = Some bn \<longrightarrow> ban_lurk bn = 0"
  shows "may_lookup s wit_wrk 21 8 24 wit_req"
proof -
  have "VRY_Validate vend = Some ()" using validate_vstring [of "[]"] by (simp add: vstring_def)
  moreover have "aligned 24" by (simp add: aligned_def)
  ultimately show ?thesis using assms aligned_lits
    by (auto simp: may_lookup_def worker_ok_def unused_def answers_def wit_req_def wit_wrk_def DIGEST_LEN_def)
qed

lemma wit_cache_lookup: "may_lookup (wit_cache n) wit_wrk 21 8 24 wit_req"
  by (rule wit_may_lookup) (simp_all add: wit_cache_def wit_hcb_inv1, simp_all add: wit_hcb_def y_pool_def)

text \<open>C2. The account of references holds at every moment, whatever the order of calls: as long as every session that is woken
  up can be queued, the reference count of an object head is the number of its object cores plus the sessions that wait for it or have
  been woken, and the count of a core is the number of sessions that use it plus one for the expiry heap; no list has a core that was freed.\<close>

theorem references_accounted:
  assumes "reachable params qok n own s" and "\<forall>sp. qok sp"
  shows "(\<forall>h \<in> hcb_heads (hidx s). hcb_refcnt (hidx s) h = int (length (objcs s h) + card (holders s h))) \<and>
    (\<forall>h. \<forall>oc \<in> set (objcs s h). \<exists>c. core s oc = Some c \<and> oc_refcnt c = own oc + (if oc \<in> on_heap s then 1 else 0) \<and> oc_refcnt c > 0) \<and>
    (\<forall>oc \<in> on_heap s. \<exists>h \<in> hcb_heads (hidx s). oc \<in> set (objcs s h)) \<and>
    (\<forall>l. \<forall>oc \<in> set (lru_head s l). oc \<in> on_heap s) \<and> hcb_inv (hidx s) \<and> ban_inv s"
proof -
  have inv: "cache_inv own (\<lambda>_. 0) s" using reachable_accounted [OF assms(1)] assms(2) by (auto simp: accounted_def)
  note i = cache_invD [OF inv]
  have "hcb_refcnt (hidx s) h = int (length (objcs s h) + card (holders s h))" if "h \<in> hcb_heads (hidx s)" for h
    using head_refcnt [OF inv that] by simp
  moreover have "\<exists>c. core s oc = Some c \<and> oc_refcnt c = own oc + (if oc \<in> on_heap s then 1 else 0) \<and> oc_refcnt c > 0" if "oc \<in> set (objcs s h)" for h oc
    using i(5) [OF that] unfolding core_ok_def by blast
  moreover have "\<exists>h \<in> hcb_heads (hidx s). oc \<in> set (objcs s h)" if "oc \<in> on_heap s" for oc using i(6) [OF that] head_in_index [OF inv] by blast
  moreover have "oc \<in> on_heap s" if "oc \<in> set (lru_head s l)" for oc l using exp_inv_lru(2) [OF i(1)] that by blast
  ultimately show ?thesis using i(2,3) by blast
qed

theorem references_accounted_witness:
  "\<exists>i bh. hcb_start (wit_hcb 0 \<lparr>nhashpriv := None\<rparr>) = Some i \<and> binheap_new 4096 True (\<lambda>_. None) (\<lambda>_. BINHEAP_NOIDX) = Some bh \<and>
    (\<exists>s' w' res. HSH_Lookup \<lparr>default_keep = 0, default_grace = 10\<rparr> 21 8 24 wit_req (BAN_Init True 0 (empty_cache i bh) 30) wit_wrk = Some (s', w', res) \<and>
       hcb_inv (hidx s') \<and> ban_inv s')"
proof -
  let ?p = "\<lparr>default_keep = 0, default_grace = 10\<rparr>"
  have np: "nhashpriv (wit_hcb 0 \<lparr>nhashpriv := None\<rparr>) = None" by (simp add: wit_hcb_def)
  then obtain i where i: "hcb_start (wit_hcb 0 \<lparr>nhashpriv := None\<rparr>) = Some i" "hcb_heads i = {}" using hcb_start_inv [of "wit_hcb 0 \<lparr>nhashpriv := None\<rparr>"] by auto
  have ii: "i = wit_hcb 0 \<lparr>nhashpriv := None\<rparr>" using i(1) by (auto simp: hcb_start_def wit_hcb_def Let_def bind_eq_Some_conv)
  have p: "4096 div 8 = push_bit 9 (1 :: u32)" by simp
  obtain bh :: "addr binheap" where bh: "binheap_new 4096 True (\<lambda>_. None) (\<lambda>_. BINHEAP_NOIDX) = Some bh"
    using binheap_new_spec [OF _ _ p, of "\<lambda>_. None" "\<lambda>_. BINHEAP_NOIDX" "\<lambda>_ _. False"] by auto
  let ?s = "BAN_Init True 0 (empty_cache i bh) 30"
  have r: "reachable ?p (\<lambda>_. True) 3 (\<lambda>_. 0) ?s" by (rule reachable.init [OF i(1) np bh])
  have m: "may_lookup ?s wit_wrk 21 8 24 wit_req"
    by (rule wit_may_lookup) (simp_all add: BAN_Init_def BAN_Insert_def empty_cache_def Let_def i(2), simp_all add: ii wit_hcb_def y_pool_def)
  obtain lost where l: "cache_inv (\<lambda>_. 0) lost ?s" using reachable_accounted [OF r] by (auto simp: accounted_def)
  from HSH_Lookup_spec [OF may_lookup_pre [OF l m], of ?p] obtain s' w' res where lk: "HSH_Lookup ?p 21 8 24 wit_req ?s wit_wrk = Some (s', w', res)" by blast
  have "hcb_inv (hidx s') \<and> ban_inv s'" using references_accounted [OF reachable.lookup [OF r m lk]] by blast
  then show ?thesis using i(1) bh lk by blast
qed

text \<open>C1. What a lookup answers.  The hypotheses (\<open>lookup_pre\<close>) are a cache whose books are in order, so that every object that can be served has a ban; a worker
  and addresses for what it allocates; a session that is on no waiting list, with a digest of the right length and a well-formed Vary string; and that
  matching a Vary string and evaluating a ban for this request give an answer instead of aborting.  Then the lookup returns.
  A hit is an object under the head of the digest that is not busy, matches the request's Vary headers, is
  not banned by any ban newer than the one it was last checked against, and is fresh, or in grace while nothing is fresh and another session is
  fetching it or the backend is sick; the session then holds a reference to it.  A session waits only if a matching fetch is under way and
  nothing can be served.  On a miss it gets a busy core of its own; unless the request asks for a miss (\<open>hash_always_miss\<close>, with which there are only misses), nothing
  was fresh, no matching fetch was under way, and an object in grace was passed over only for a healthy backend.\<close>

theorem lookup_answers:
  assumes "lookup_pre own lost s w a h y q"
  shows "\<exists>s' w' res oh. HSH_Lookup params a h y q s w = Some (s', w', res) \<and> lookup_ok params q s own lost oh s' res \<and>
    (case hash_objhead s (r_sess q) of Some x \<Rightarrow> oh = x | None \<Rightarrow> hcb_digest (hidx s') oh = r_digest q)"
  by (rule HSH_Lookup_spec [OF assms])

theorem lookup_answers_witness:
  "\<exists>s' w' res oh. HSH_Lookup \<lparr>default_keep = 0, default_grace = 10\<rparr> 21 8 24 wit_req (wit_cache 0) wit_wrk = Some (s', w', res) \<and>
    lookup_ok \<lparr>default_keep = 0, default_grace = 10\<rparr> wit_req (wit_cache 0) ((\<lambda>_. 0)(20 := 0)) (in_index (wit_cache 0) (\<lambda>_. 0)) oh s' res \<and>
    hcb_digest (hidx s') oh = replicate 32 4"
  using lookup_answers [OF may_lookup_pre [OF wit_cache_inv(1) wit_cache_lookup], of "\<lparr>default_keep = 0, default_grace = 10\<rparr>" 0]
  by (simp add: wit_cache_def [of 0] wit_req_def)

text \<open>C10. Giving a reference to an object back never fails; the object is freed exactly when the reference was the last one, and
  nothing else is.\<close>

theorem deref_frees_last:
  assumes "cache_inv own lost s" and "oc \<in> set (objcs s oh)" and "core s oc = Some c" and "own oc > 0"
  shows "\<exists>s' w'. HSH_Deref qok n s w oc = Some (s', w', oc_refcnt c - 1) \<and> (core s' oc = None \<longleftrightarrow> oc_refcnt c = 1) \<and>
    (oc \<in> set (objcs s' oh) \<longleftrightarrow> oc_refcnt c > 1) \<and> (\<forall>x. x \<noteq> oc \<longrightarrow> core s' x = core s x) \<and> (\<exists>lost'. cache_inv (minus1 own oc) lost' s')"
proof -
  obtain s' w' lost' where s': "HSH_Deref qok n s w oc = Some (s', w', oc_refcnt c - 1)" "cache_inv (minus1 own oc) lost' s'"
    "core s' = (core s)(oc := if oc_refcnt c = 1 then None else Some (c\<lparr>oc_refcnt := oc_refcnt c - 1\<rparr>))"
    "objcs s' = (if oc_refcnt c = 1 then (objcs s)(oh := remove1 oc (objcs s oh)) else objcs s)"
    using HSH_Deref_spec [OF assms, of qok n w] by (elim exE conjE)
  have "distinct (objcs s oh)" using cache_invD(4) [OF assms(1), of oh] by (simp add: head_ok_def)
  moreover have "oc_refcnt c > 0" using core_okD(2) [OF cache_invD(5) [OF assms(1,2)] assms(3)] .
  ultimately show ?thesis using s' assms(2) by (intro exI [of _ s'] exI [of _ w']) auto
qed

theorem deref_frees_last_witness:
  "\<exists>s' w'. HSH_Deref (\<lambda>_. True) 3 (wit_cache 1) wit_wrk 20 = Some (s', w', 1) \<and> core s' 20 \<noteq> None \<and> 20 \<in> set (objcs s' 4)"
proof -
  have "20 \<in> set (objcs (wit_cache 1) 4)" "core (wit_cache 1) 20 = Some (wit_core 1)" "0 < ((\<lambda>_. 0)(20 := 1 :: nat)) 20" by (simp_all add: wit_cache_def)
  from deref_frees_last [OF wit_cache_inv(1) this, of "\<lambda>_. True" 3 wit_wrk] show ?thesis by (auto simp: wit_core_def)
qed

text \<open>C4. The expiry thread makes progress: as long as no object on the heap is busy and no LRU list locked, the pass that starts with
  the time stamp \<open>t\<close> ends, and then exactly the objects whose time had come at the time \<open>t'\<close> it read last are off the heap; those nobody uses are freed.\<close>

theorem expiry_makes_progress:
  assumes inv: "cache_inv own lost s" and "mono now" and "t \<le> now k" and nb: "\<forall>oc \<in> on_heap s. idle_obj s oc" and nl: "\<forall>l. \<not> locked l"
  shows "\<exists>s' w' t'. exp_pass qok n now locked k s w t = Some (s', w', t') \<and> t \<le> t' \<and> on_heap s' = {oc \<in> on_heap s. timer s oc > t'} \<and>
    (\<forall>oc. core s oc \<noteq> None \<and> core s' oc = None \<longleftrightarrow> oc \<in> on_heap s \<and> timer s oc \<le> t' \<and> own oc = 0) \<and> (\<exists>lost'. cache_inv own lost' s')"
proof -
  obtain s' w' t' lost' where p: "exp_pass qok n now locked k s w t = Some (s', w', t')" "cache_inv own lost' s'" "t \<le> t'" "resting locked s' t'"
    "on_heap s' \<subseteq> on_heap s" "\<forall>x \<in> on_heap s - on_heap s'. timer s x \<le> t' \<and> expired s s' x" "\<forall>x. x \<notin> on_heap s - on_heap s' \<longrightarrow> core s' x = core s x"
    using exp_pass_spec [OF inv assms(3,2), of qok n locked w] by (elim exE conjE)
  have same: "core s' x = core s x" "timer s' x = timer s x" if "x \<in> on_heap s'" for x using p(7) that by (simp_all add: timer_def)
  have late: "t' < timer s x" if x: "x \<in> on_heap s'" for x
  proof -
    obtain oc c where oc: "oc \<in> on_heap s'" "core s' oc = Some c" "\<forall>x \<in> on_heap s'. timer s' oc \<le> timer s' x" "t' < timer s' oc \<or> oc_busy c \<or> locked (oc_lru c)"
      using p(4) x unfolding resting_def by blast
    have "idle_obj s oc" "core s oc = Some c" using nb p(5) oc(1,2) same(1) [OF oc(1)] by auto
    then have "\<not> oc_busy c" by (simp add: idle_obj_def)
    then show ?thesis using oc nl x same(2) by force
  qed
  have freed: "core s' x = None \<longleftrightarrow> own x = 0" if x: "x \<in> on_heap s - on_heap s'" for x
  proof -
    obtain h where h: "x \<in> set (objcs s h)" using cache_invD(6) [OF inv] x by blast
    obtain c where c: "core s x = Some c" "core s' x = (if oc_refcnt c = 1 then None else Some (c\<lparr>oc_refcnt := oc_refcnt c - 1\<rparr>))"
      using p(6) x by (auto simp: expired_def)
    show ?thesis using c core_okD(3) [OF cache_invD(5) [OF inv h] c(1)] x by simp
  qed
  have "on_heap s' = {oc \<in> on_heap s. timer s oc > t'}" using p(5,6) late by force
  moreover have "core s oc \<noteq> None \<and> core s' oc = None \<longleftrightarrow> oc \<in> on_heap s \<and> timer s oc \<le> t' \<and> own oc = 0" for oc
  proof (cases "oc \<in> on_heap s - on_heap s'")
    case True
    then have "core s oc \<noteq> None" "timer s oc \<le> t'" using p(6) by (auto simp: expired_def)
    then show ?thesis using freed [OF True] True by blast
  next
    case False
    then have "core s' oc = core s oc" using p(7) by blast
    then show ?thesis using False late by force
  qed
  ultimately show ?thesis using p(1-3) by blast
qed

theorem expiry_makes_progress_witness:
  "\<exists>s' w' t'. exp_pass (\<lambda>_. True) 3 (\<lambda>k. 60 + of_nat k) (\<lambda>_. False) 0 (wit_cache 0) wit_wrk 55 = Some (s', w', t') \<and> on_heap s' = {} \<and> core s' 20 = None"
proof -
  have m: "mono (\<lambda>k. 60 + of_nat k :: rat)" by (simp add: mono_def)
  have i: "\<forall>oc \<in> on_heap (wit_cache 0). idle_obj (wit_cache 0) oc" by (simp add: wit_cache_inv idle_obj_def) (simp add: wit_cache_def wit_core_def)
  have t: "timer (wit_cache 0) 20 = 50" by (simp add: timer_def wit_cache_def wit_core_def)
  obtain s' w' t' where p: "exp_pass (\<lambda>_. True) 3 (\<lambda>k. 60 + of_nat k) (\<lambda>_. False) 0 (wit_cache 0) wit_wrk 55 = Some (s', w', t')" "55 \<le> t'"
    "on_heap s' = {oc \<in> on_heap (wit_cache 0). timer (wit_cache 0) oc > t'}"
    "\<forall>oc. core (wit_cache 0) oc \<noteq> None \<and> core s' oc = None \<longleftrightarrow> oc \<in> on_heap (wit_cache 0) \<and> timer (wit_cache 0) oc \<le> t' \<and> ((\<lambda>_. 0)(20 := 0 :: nat)) oc = 0"
    using expiry_makes_progress [OF wit_cache_inv(1) m _ i, of 55 0 "\<lambda>_. False" "\<lambda>_. True" 3 wit_wrk] by (elim meta_impE exE conjE) auto
  have "on_heap s' = {}" "core s' 20 = None" using p(2,3) p(4) [THEN spec, of 20] t by (auto simp: wit_cache_inv)
  then show ?thesis using p(1) by blast
qed

text \<open>C15. Making space frees the least recently used object of the storage that nobody uses and nothing else, and gives up, changing nothing,
  exactly when every object on the list is in use.\<close>

theorem nuke_frees_oldest_idle:
  assumes "cache_inv own lost s"
  shows "\<exists>s' w' r. EXP_NukeOne qok n s w lru = Some (s', w', r) \<and> (\<exists>lost'. cache_inv own lost' s') \<and>
    (case find (idle_core s) (lru_head s lru) of
       None \<Rightarrow> r = -1 \<and> s' = s
     | Some oc \<Rightarrow> r = 1 \<and> core s' = (core s)(oc := None) \<and> on_heap s' = on_heap s - {oc})"
  using EXP_NukeOne_spec [OF assms, of qok n w lru] by (elim exE conjE) blast

theorem nuke_frees_oldest_idle_witness:
  "\<exists>s' w'. EXP_NukeOne (\<lambda>_. True) 3 (wit_cache 0) wit_wrk 1 = Some (s', w', 1) \<and> core s' 20 = None \<and> on_heap s' = {}"
proof -
  have "find (idle_core (wit_cache 0)) (lru_head (wit_cache 0) 1) = Some 20" by (simp add: idle_core_def wit_cache_def wit_core_def)
  then show ?thesis using nuke_frees_oldest_idle [OF wit_cache_inv(1) [of 0], of "\<lambda>_. True" 3 wit_wrk 1] by (auto simp: wit_cache_inv)
qed

text \<open>The same object after it expired, while a session still uses it.\<close>

definition wit_bh0 :: "addr binheap" where
  "wit_bh0 = the (binheap_new 4096 True (\<lambda>_. None) (\<lambda>_. BINHEAP_NOIDX))"

definition wit_used :: cache where
  "wit_used = (wit_cache 0)\<lparr>exp_heap := wit_bh0, lru_head := (\<lambda>_. [])\<rparr>"

lemma wit_used_inv: "cache_inv ((\<lambda>_. 0)(20 := 1)) (\<lambda>_. 0) wit_used" "bh_idx wit_bh0 = (\<lambda>_. BINHEAP_NOIDX)"
proof -
  have p: "4096 div 8 = push_bit 9 (1 :: u32)" by simp
  have b: "heap_inv (key_cmp (timer wit_used)) wit_bh0 \<and> elems wit_bh0 = {} \<and> bh_idx wit_bh0 = (\<lambda>_. BINHEAP_NOIDX)"
    using binheap_new_spec [OF _ _ p, of "\<lambda>_. None" "\<lambda>_. BINHEAP_NOIDX" "key_cmp (timer wit_used)"] by (auto simp: wit_bh0_def)
  then show "bh_idx wit_bh0 = (\<lambda>_. BINHEAP_NOIDX)" by simp
  have on: "on_heap wit_used = {}" using b by (simp add: on_heap_def wit_used_def)
  have f: "objcs wit_used = (\<lambda>_. [])(4 := [20])" "core wit_used = [20 \<mapsto> wit_core 0]" "hidx wit_used = wit_hcb 5" by (simp_all add: wit_used_def wit_cache_def)
  have "exp_inv wit_used" using b unfolding exp_inv_def on by (simp add: wit_used_def)
  moreover have "ban_inv wit_used" by (rule ban_inv_cong [OF cache_invD(2) [OF wit_cache_inv(1) [of 0]]]) (simp_all add: wit_used_def)
  moreover have "head_ok (\<lambda>_. 0) wit_used h" for h
    using cache_invD(4) [OF wit_cache_inv(1) [of 0], of h] head_ok_cong [of wit_used "wit_cache 0"] by (simp add: wit_used_def)
  moreover have "core_ok ((\<lambda>_. 0)(20 := 1)) wit_used h oc" if "oc \<in> set (objcs wit_used h)" for h oc
    using that by (auto simp: core_ok_def f on wit_core_def split: if_splits)
  ultimately show "cache_inv ((\<lambda>_. 0)(20 := 1)) (\<lambda>_. 0) wit_used" using wit_hcb_inv1(1) by (auto simp: cache_inv_def on f)
qed

text \<open>C14. After a purge nothing that was under the head is served again: the very next lookup that ends at this head is no hit.\<close>

theorem purge_then_lookup:
  assumes "cache_inv own lost s" and "oh \<in> hcb_heads (hidx s)" and "8 * length (objcs s oh) \<le> spc" and "t \<le> 0"
  shows "\<exists>s' w'. HSH_Purge params qok n spc s w oh t g = Some (s', w') \<and> (\<exists>lost'. cache_inv own lost' s') \<and>
    (\<forall>w a h y q s2 w2 oc. may_lookup s' w a h y q \<longrightarrow> HSH_Lookup params a h y q s' w \<noteq> Some (s2, w2, LHit oc oh))"
proof -
  obtain s' w' lost' where p: "HSH_Purge params qok n spc s w oh t g = Some (s', w')" "cache_inv own lost' s'" "\<forall>h. set (objcs s' h) \<subseteq> set (objcs s h)"
    "\<forall>x \<in> set (objcs s oh). idle_obj s x \<longrightarrow> purged (-1) (if g > 0 then g else -1) s' x"
    "\<forall>x \<in> set (objcs s oh). \<not> idle_obj s x \<longrightarrow> (\<exists>c. core s' x = Some c \<and> oc_busy c)"
    using HSH_Purge_spec [OF assms, of params qok n w g] by (elim exE conjE)
  have "HSH_Lookup params a h y q s' w \<noteq> Some (s2, w2, LHit oc oh)" if m: "may_lookup s' w a h y q" for w a h y q s2 w2 oc
  proof
    assume "HSH_Lookup params a h y q s' w = Some (s2, w2, LHit oc oh)"
    then have "oc \<in> set (objcs s' oh) \<and> (fresh q s' oc \<or> in_grace params q s' oc)"
      using HSH_Lookup_spec [OF may_lookup_pre [OF p(2) m], of params] by (auto simp: lookup_ok_def)
    then show False using purged_not_servable [OF p(3-5)] by (auto simp: fresh_def in_grace_def)
  qed
  then show ?thesis using p(1,2) by blast
qed

theorem purge_then_lookup_witness:
  "\<exists>s' w'. HSH_Purge \<lparr>default_keep = 0, default_grace = 10\<rparr> (\<lambda>_. True) 3 100 wit_used wit_wrk 4 0 0 = Some (s', w') \<and>
    (\<forall>s2 w2 oc. HSH_Lookup \<lparr>default_keep = 0, default_grace = 10\<rparr> 21 8 24 wit_req s' wit_wrk \<noteq> Some (s2, w2, LHit oc 4))"
proof -
  have "4 \<in> hcb_heads (hidx wit_used)" "8 * length (objcs wit_used 4) \<le> 100" by (simp_all add: wit_used_def wit_cache_def wit_hcb_inv1)
  from purge_then_lookup [OF wit_used_inv(1) this, of 0 "\<lparr>default_keep = 0, default_grace = 10\<rparr>" "\<lambda>_. True" 3 wit_wrk 0] obtain s' w' where
    p: "HSH_Purge \<lparr>default_keep = 0, default_grace = 10\<rparr> (\<lambda>_. True) 3 100 wit_used wit_wrk 4 0 0 = Some (s', w')"
      "\<And>w a h y q s2 w2 oc. may_lookup s' w a h y q \<Longrightarrow> HSH_Lookup \<lparr>default_keep = 0, default_grace = 10\<rparr> a h y q s' w \<noteq> Some (s2, w2, LHit oc 4)" by auto
  have "s' = upd_core 20 (\<lambda>c. c\<lparr>o_exp := (o_exp c)\<lparr>ttl := -1, grace := -1\<rparr>\<rparr>) wit_used"
    using p(1) by (simp add: HSH_Purge_def oc_getobj_def EXP_Rearm_def oc_getlru_def oc_updatemeta_def HSH_Deref_def rush_waiting_def wit_used_inv(2) Let_def)
      (auto simp: wit_used_def wit_cache_def wit_core_def wit_hcb_def upd_core_def oc_getobj_def EXP_Rearm_def oc_getlru_def oc_updatemeta_def HSH_Deref_def
        rush_waiting_def wit_used_inv(2) Let_def)
  then have "may_lookup s' wit_wrk 21 8 24 wit_req"
    by (intro wit_may_lookup) (simp_all add: wit_used_def wit_cache_def wit_hcb_inv1, simp_all add: wit_hcb_def y_pool_def)
  then show ?thesis using p by blast
qed

text \<open>C9. An object is banned by a check exactly when one of the bans added since its last check matches it; the bans that were dropped as
  duplicates make no difference.  A banned object has its lifetime cleared, any other is not looked at again for these bans.\<close>

theorem ban_check_complete:
  assumes "exp_inv s" and bi: "ban_inv s" and c: "core s oc = Some c" "oc_methods c" "oc_ban c = Some ocb"
    and "\<forall>b \<in> set (newer s ocb). evaluable eval (bmem s) (oc_lurk c) b"
    and "gone_dups s [] (ban_head s)" and "\<forall>b \<in> set (ban_head s). spec_of s b = magic_spec \<longrightarrow> is_gone s b"
  shows "\<exists>s' c' banned. BAN_CheckObject params eval s oc = Some (s', banned) \<and> core s' oc = Some c' \<and>
    (banned \<longleftrightarrow> (\<exists>b \<in> set (newer s ocb). spec_of s b \<noteq> magic_spec \<and> eval (spec_of s b) = Some True)) \<and>
    (if banned then o_exp c' = EXP_Clr \<and> oc_ban c' = None else o_exp c' = o_exp c \<and> oc_ban c' = Some (ban_start s))"
proof -
  define hit where "hit \<longleftrightarrow> (\<exists>b \<in> set (newer s ocb). hits eval (bmem s) b)"
  obtain s' c' where "ban_check_object params eval s oc True = Some (s', if hit then 1 else 0)" "core s' oc = Some c'"
    "if hit then o_exp c' = EXP_Clr \<and> oc_ban c' = None else o_exp c' = o_exp c \<and> oc_ban c' = Some (ban_start s)"
    using ban_check_spec [OF assms(1,2) c assms(6), of params] unfolding hit_def by blast
  moreover have "hit \<longleftrightarrow> (\<exists>b \<in> set (newer s ocb). spec_of s b \<noteq> magic_spec \<and> eval (spec_of s b) = Some True)"
    unfolding hit_def by (rule hits_all [OF bi assms(7,8)])
  ultimately show ?thesis by (intro exI [of _ s'] exI [of _ c'] exI [of _ hit]) (simp add: BAN_CheckObject_def)
qed

theorem ban_check_complete_witness:
  "\<exists>s' c'. BAN_CheckObject \<lparr>default_keep = 0, default_grace = 10\<rparr> (\<lambda>_. Some True) (BAN_Insert True 60 (wit_cache 0) 31 False ''x'') 20 = Some (s', True) \<and>
    core s' 20 = Some c' \<and> o_exp c' = EXP_Clr \<and> oc_ban c' = None"
proof -
  let ?s = "BAN_Insert True 60 (wit_cache 0) 31 False ''x''"
  have n: "31 \<notin> set (ban_head (wit_cache 0))" by (simp add: wit_cache_def)
  note inv = BAN_Insert_keeps [OF wit_cache_inv(1) n, of True 60 False "''x''"]
  have ms: "mk_spec False ''x'' \<noteq> magic_spec" by (simp add: magic_spec_def mk_spec_def be32_def)
  have g: "gone_dups (wit_cache 0) [] (ban_head (wit_cache 0))" by (simp add: wit_cache_def spec_of_def)
  have f: "core ?s 20 = Some (wit_core 0)" "ban_head ?s = [31, 30]" "newer ?s 30 = [31]" "is_gone ?s 30" "spec_of ?s 31 = mk_spec False ''x''"
    by (simp_all add: BAN_Insert_def Let_def wit_cache_def newer_def is_gone_def spec_of_def mark_dup_def)
  have c: "oc_methods (wit_core 0)" "oc_ban (wit_core 0) = Some 30" by (simp_all add: wit_core_def)
  have ev: "\<forall>b \<in> set (newer ?s 30). evaluable (\<lambda>_. Some True) (bmem ?s) (oc_lurk (wit_core 0)) b"
    unfolding f(3) by (simp add: evaluable_def BAN_Insert_def Let_def wit_cache_def wit_core_def)
  have m: "\<forall>b \<in> set (ban_head ?s). spec_of ?s b = magic_spec \<longrightarrow> is_gone ?s b" using ms by (simp add: f)
  show ?thesis
    using ban_check_complete [OF cache_invD(1,2) [OF inv] f(1) c ev BAN_Insert_gone [OF cache_invD(2) [OF wit_cache_inv(1)] n g] m,
      of "\<lparr>default_keep = 0, default_grace = 10\<rparr>"] ms
    by (elim exE conjE) (simp add: f(3,5))
qed

section \<open>Two ways to lose\<close>

text \<open>
  A session that cannot be queued when it is woken is deleted; its reference to the head stays in the count, although the session
  no longer has it.
\<close>

lemma rush_loses_reference:
  assumes "waitinglist s oh = Some (sp # l)" and "\<not> qok sp"
  shows "\<exists>s'. hsh_rush qok (Suc n) s oh = Some s' \<and> hash_objhead s' sp = None \<and> hidx s' = hidx s \<and>
    holders s' oh = holders s oh - {sp}"
  using assms by (auto simp: hsh_rush_def holders_def)

text \<open>
  An object that has been banned has no ban any more.  When VCL gives it a lifetime again (\<open>obj.ttl\<close> in \<open>vcl_hit\<close>, while the session
  that found it before it was banned still has it), the next lookup that comes across it fails.
\<close>

lemma revived_banned_object_fails:
  assumes "hcb_refcnt (hidx s) oh > 1" and "core s oc = Some c" "oc_objhead c = oh" "\<not> oc_busy c" "oc_methods c" "oc_ban c = None" "ttl (o_exp c) > 0"
  shows "lookup_loop params q oh s (oc # ocs) busy gr = None"
  using assms by (simp add: oc_getobj_def BAN_CheckObject_def ban_check_object_def)

text \<open>A busy object on top of the heap keeps everything behind it from expiring.\<close>

lemma busy_object_blocks_expiry:
  assumes "binheap_root (exp_heap s) = Some (Some oc)" and "core s oc = Some c" "oc_busy c"
  shows "\<exists>t'. exp_pass qok n now locked k s w t = Some (s, w, t')"
  using assms by (subst exp_pass.simps) (auto simp: exp_timer_step_def Let_def)

end
