(* ===== verification/Ban_Spec.thy ===== *)
theory Ban_Spec
  imports Hash
begin

text \<open>
  The conditions of bans (bin/varnishd/cache_ban.c): \<open>BAN_AddTest\<close> compiles a test into bytes, \<open>ban_iter\<close> picks a test
  out of them, \<open>ban_evaluate\<close> decides whether a request and an object meet all of them, \<open>ban_render\<close> prints them.  The bytes of
  a specification are kept from offset 8 on: length, request flag and the tests.  A ban under construction is its request flag and
  the text of its string buffer.  \<open>regc\<close> and \<open>exec\<close> are \<open>pcre_compile\<close> (the bytes of the compiled pattern, or the
  message) and \<open>pcre_exec\<close> (whether it matches).
\<close>

section \<open>Bytes\<close>

definition vbe32dec :: "string \<Rightarrow> nat" where
  "vbe32dec p = 2 ^ 24 * bte (p ! 0) + 2 ^ 16 * bte (p ! 1) + 2 ^ 8 * bte (p ! 2) + bte (p ! 3)"

definition ban_len :: "string \<Rightarrow> nat" where
  "ban_len spec = vbe32dec spec"

definition ban_add_lump :: "string \<Rightarrow> string \<Rightarrow> string" where
  "ban_add_lump vsb p = vsb @ be32 (length p) @ p"

definition ban_get_lump :: "string \<Rightarrow> (string \<times> string) option" where
  "ban_get_lump bs = do {
     vassert (length bs \<ge> 4);
     let ln = vbe32dec bs;
     vassert (length bs \<ge> 4 + ln);
     Some (take ln (drop 4 bs), drop (4 + ln) bs)
   }"

definition BAN_OPER_EQ :: char where "BAN_OPER_EQ = CHR 0x10"
definition BAN_OPER_NEQ :: char where "BAN_OPER_NEQ = CHR 0x11"
definition BAN_OPER_MATCH :: char where "BAN_OPER_MATCH = CHR 0x12"
definition BAN_OPER_NMATCH :: char where "BAN_OPER_NMATCH = CHR 0x13"
definition BAN_ARG_URL :: char where "BAN_ARG_URL = CHR 0x18"
definition BAN_ARG_REQHTTP :: char where "BAN_ARG_REQHTTP = CHR 0x19"
definition BAN_ARG_OBJHTTP :: char where "BAN_ARG_OBJHTTP = CHR 0x1a"
definition BAN_ARG_OBJSTATUS :: char where "BAN_ARG_OBJSTATUS = CHR 0x1b"

lemmas ban_bytes = BAN_OPER_EQ_def BAN_OPER_NEQ_def BAN_OPER_MATCH_def BAN_OPER_NMATCH_def
  BAN_ARG_URL_def BAN_ARG_REQHTTP_def BAN_ARG_OBJHTTP_def BAN_ARG_OBJSTATUS_def

text \<open>A test: \<open>arg1_spec\<close> is the header name with its colon, without the length byte.\<close>

record ban_test =
  bt_arg1 :: char
  bt_arg1_spec :: string
  bt_oper :: char
  bt_arg2 :: string
  bt_arg2_spec :: string

definition ban_iter :: "string \<Rightarrow> (ban_test \<times> string) option" where
  "ban_iter bs = do {
     vassert (bs \<noteq> []);
     let a1 = hd bs;
     let bs = tl bs;
     (sp, bs) \<leftarrow> (if a1 = BAN_ARG_REQHTTP \<or> a1 = BAN_ARG_OBJHTTP then do {
                    vassert (bs \<noteq> []);
                    vassert (length bs \<ge> bte (hd bs) + 2);
                    Some (cstr (take (bte (hd bs) + 1) (tl bs)), drop (bte (hd bs) + 2) bs)
                  } else Some ([], bs));
     (a2, bs) \<leftarrow> ban_get_lump bs;
     vassert (bs \<noteq> []);
     let op = hd bs;
     let bs = tl bs;
     (a2s, bs) \<leftarrow> (if op = BAN_OPER_MATCH \<or> op = BAN_OPER_NMATCH then ban_get_lump bs else Some ([], bs));
     Some (\<lparr>bt_arg1 = a1, bt_arg1_spec = sp, bt_oper = op, bt_arg2 = cstr a2, bt_arg2_spec = a2s\<rparr>, bs)
   }"

lemma ban_get_lump_shorter: "ban_get_lump bs = Some (r, bs') \<Longrightarrow> length bs' < length bs"
  by (auto simp: ban_get_lump_def Let_def vas)

lemma ban_iter_shorter: "ban_iter bs = Some (bt, bs') \<Longrightarrow> length bs' < length bs"
  by (auto simp: ban_iter_def Let_def vas split: if_splits dest!: ban_get_lump_shorter)

section \<open>Evaluation\<close>

definition ban_arg1 :: "http \<Rightarrow> http \<Rightarrow> ban_test \<Rightarrow> string option option" where
  "ban_arg1 objhttp reqhttp bt =
     (if bt_arg1 bt = BAN_ARG_URL then Some (map_option t_s (h_hd reqhttp HTTP_HDR_URL))
      else if bt_arg1 bt = BAN_ARG_REQHTTP then GetHdr_buf reqhttp (bt_arg1_spec bt)
      else if bt_arg1 bt = BAN_ARG_OBJHTTP then GetHdr_buf objhttp (bt_arg1_spec bt)
      else if bt_arg1 bt = BAN_ARG_OBJSTATUS then Some (Some (dec_digits (h_status objhttp)))
      else None)"

definition ban_oper :: "(string \<Rightarrow> string \<Rightarrow> bool) \<Rightarrow> string option \<Rightarrow> ban_test \<Rightarrow> bool option" where
  "ban_oper exec arg1 bt =
     (let arg1 = map_option cstr arg1 in
      if bt_oper bt = BAN_OPER_EQ then Some (arg1 = Some (bt_arg2 bt))
      else if bt_oper bt = BAN_OPER_NEQ then Some (arg1 \<noteq> Some (bt_arg2 bt))
      else if bt_oper bt = BAN_OPER_MATCH then Some (case arg1 of None \<Rightarrow> False | Some s \<Rightarrow> exec (bt_arg2_spec bt) s)
      else if bt_oper bt = BAN_OPER_NMATCH then Some (case arg1 of None \<Rightarrow> True | Some s \<Rightarrow> \<not> exec (bt_arg2_spec bt) s)
      else None)"

definition ban_test_holds :: "(string \<Rightarrow> string \<Rightarrow> bool) \<Rightarrow> http \<Rightarrow> http \<Rightarrow> ban_test \<Rightarrow> bool option" where
  "ban_test_holds exec objhttp reqhttp bt = do { arg1 \<leftarrow> ban_arg1 objhttp reqhttp bt; ban_oper exec arg1 bt }"

function ban_eval_loop :: "(string \<Rightarrow> string \<Rightarrow> bool) \<Rightarrow> http \<Rightarrow> http \<Rightarrow> string \<Rightarrow> nat \<Rightarrow> (bool \<times> nat) option" where
  "ban_eval_loop exec objhttp reqhttp bs tests =
     (if bs = [] then Some (True, tests)
      else (case ban_iter bs of
              None \<Rightarrow> None
            | Some (bt, bs') \<Rightarrow>
                (case ban_test_holds exec objhttp reqhttp bt of
                   None \<Rightarrow> None
                 | Some h \<Rightarrow> if h then ban_eval_loop exec objhttp reqhttp bs' (tests + 1) else Some (False, tests + 1))))"
  by pat_completeness auto

termination by (relation "measure (\<lambda>(_, _, _, bs, _). length bs)") (auto dest: ban_iter_shorter)

declare ban_eval_loop.simps [simp del]

definition ban_evaluate :: "(string \<Rightarrow> string \<Rightarrow> bool) \<Rightarrow> string \<Rightarrow> http \<Rightarrow> http \<Rightarrow> nat \<Rightarrow> (bool \<times> nat) option" where
  "ban_evaluate exec bs objhttp reqhttp tests = ban_eval_loop exec objhttp reqhttp (take (ban_len bs - 13) (drop 5 bs)) tests"

section \<open>Construction\<close>

definition pvars :: "(string \<times> bool \<times> bool \<times> char) list" where
  "pvars = [(''req.url'', True, False, BAN_ARG_URL), (''req.http.'', True, True, BAN_ARG_REQHTTP),
     (''obj.http.'', False, True, BAN_ARG_OBJHTTP), (''obj.status'', False, False, BAN_ARG_OBJSTATUS)]"

datatype ban_err = Unknown_Field string | Bad_Conditional string | Regexp_Error string | Wrong_Number | Expected_And string

definition ban_parse_http :: "string \<Rightarrow> string \<Rightarrow> string option" where
  "ban_parse_http vsb a1 = do {
     let l = length a1 + 1;
     vassert (l \<le> 127);
     Some (vsb @ [char_of l] @ a1 @ '':'' @ [NUL])
   }"

definition ban_parse_regexp :: "(string \<Rightarrow> string + string) \<Rightarrow> string \<Rightarrow> string \<Rightarrow> ban_err + string" where
  "ban_parse_regexp regc vsb a3 = (case regc a3 of Inl e \<Rightarrow> Inl (Regexp_Error e) | Inr re \<Rightarrow> Inr (ban_add_lump vsb re))"

definition BAN_AddTest :: "(string \<Rightarrow> string + string) \<Rightarrow> bool \<times> string \<Rightarrow> string \<Rightarrow> string \<Rightarrow> string \<Rightarrow> (ban_err + bool \<times> string) option" where
  "BAN_AddTest regc b a1 a2 a3 =
     (case find (\<lambda>(name, _). take (length name) a1 = name) pvars of
        None \<Rightarrow> Some (Inl (Unknown_Field a1))
      | Some (name, req, http, tag) \<Rightarrow> do {
          let (r, vsb) = b;
          let r = (r \<or> req);
          let vsb = vsb @ [tag];
          vsb \<leftarrow> (if http then ban_parse_http vsb (drop (length name) a1) else Some vsb);
          let vsb = ban_add_lump vsb (a3 @ [NUL]);
          Some (if a2 = ''~'' then map_sum id (Pair r) (ban_parse_regexp regc (vsb @ [BAN_OPER_MATCH]) a3)
                else if a2 = ''!~'' then map_sum id (Pair r) (ban_parse_regexp regc (vsb @ [BAN_OPER_NMATCH]) a3)
                else if a2 = ''=='' then Inr (r, vsb @ [BAN_OPER_EQ])
                else if a2 = ''!='' then Inr (r, vsb @ [BAN_OPER_NEQ])
                else Inl (Bad_Conditional a2))
        })"

section \<open>The commands\<close>

text \<open>The arguments after the name of the command; \<open>b\<close> is the address of the new ban.\<close>

fun add_tests :: "(string \<Rightarrow> string + string) \<Rightarrow> bool \<times> string \<Rightarrow> string list \<Rightarrow> (ban_err + bool \<times> string) option" where
  "add_tests regc b (a1 # a2 # a3 # rest) = do {
     r \<leftarrow> BAN_AddTest regc b a1 a2 a3;
     (case r of Inl e \<Rightarrow> Some (Inl e) | Inr b \<Rightarrow> (case rest of [] \<Rightarrow> Some (Inr b) | _ # rest \<Rightarrow> add_tests regc b rest))
   }"
| "add_tests regc b _ = Some (Inr b)"

fun check_ands :: "string list \<Rightarrow> ban_err option" where
  "check_ands (a1 # a2 # a3 # a4 # rest) = (if a4 = ''&&'' then check_ands rest else Some (Expected_And a4))"
| "check_ands _ = None"

definition ccf_ban :: "(string \<Rightarrow> string + string) \<Rightarrow> bool \<Rightarrow> rat \<Rightarrow> cache \<Rightarrow> addr \<Rightarrow> string list \<Rightarrow> (cache \<times> ban_err option) option" where
  "ccf_ban regc ban_dups t0 s b av =
     (if length av mod 4 \<noteq> 3 then Some (s, Some Wrong_Number)
      else (case check_ands av of
              Some e \<Rightarrow> Some (s, Some e)
            | None \<Rightarrow> do {
                r \<leftarrow> add_tests regc (False, []) av;
                Some (case r of Inl e \<Rightarrow> (s, Some e) | Inr (req, vsb) \<Rightarrow> (BAN_Insert ban_dups t0 s b req vsb, None))
              }))"

definition ccf_ban_url :: "(string \<Rightarrow> string + string) \<Rightarrow> bool \<Rightarrow> rat \<Rightarrow> cache \<Rightarrow> addr \<Rightarrow> string \<Rightarrow> (cache \<times> ban_err option) option" where
  "ccf_ban_url regc ban_dups t0 s b a = ccf_ban regc ban_dups t0 s b [''req.url'', ''~'', a]"

definition render_arg1 :: "ban_test \<Rightarrow> string option" where
  "render_arg1 bt =
     (if bt_arg1 bt = BAN_ARG_URL then Some ''req.url''
      else if bt_arg1 bt = BAN_ARG_REQHTTP then Some (''req.http.'' @ butlast (bt_arg1_spec bt))
      else if bt_arg1 bt = BAN_ARG_OBJHTTP then Some (''obj.http.'' @ butlast (bt_arg1_spec bt))
      else None)"

definition render_oper :: "ban_test \<Rightarrow> string option" where
  "render_oper bt =
     (if bt_oper bt = BAN_OPER_EQ then Some '' == '' else if bt_oper bt = BAN_OPER_NEQ then Some '' != ''
      else if bt_oper bt = BAN_OPER_MATCH then Some '' ~ '' else if bt_oper bt = BAN_OPER_NMATCH then Some '' !~ '' else None)"

function ban_render_loop :: "string \<Rightarrow> string option" where
  "ban_render_loop bs =
     (if bs = [] then Some []
      else (case ban_iter bs of
              None \<Rightarrow> None
            | Some (bt, bs') \<Rightarrow> do {
                a \<leftarrow> render_arg1 bt;
                op \<leftarrow> render_oper bt;
                r \<leftarrow> ban_render_loop bs';
                Some (a @ op @ bt_arg2 bt @ (if bs' \<noteq> [] then '' && '' else []) @ r)
              }))"
  by pat_completeness auto

termination by (relation "measure length") (auto dest: ban_iter_shorter)

declare ban_render_loop.simps [simp del]

definition ban_render :: "string \<Rightarrow> string option" where
  "ban_render bs = ban_render_loop (take (ban_len bs - 13) (drop 5 bs))"

section \<open>A test and its bytes\<close>

lemma bte_char_mod [simp]: "bte (char_of n) = n mod 256"
  by (simp add: bte_def)

lemma vbe32dec_be32:
  assumes "n < 2 ^ 32"
  shows "vbe32dec (be32 n @ x) = n"
proof -
  have d: "n = 256 * (n div 256) + n mod 256" "n div 256 = 256 * (n div 65536) + n div 256 mod 256" "n div 65536 = 256 * (n div 16777216) + n div 65536 mod 256"
    using div_mult2_eq [of n 256 256] div_mult2_eq [of n 65536 256] by simp_all
  have h: "n div 16777216 mod 256 = n div 16777216" using assms by (simp add: less_mult_imp_div_less)
  have "vbe32dec (be32 n @ x) = 16777216 * (n div 16777216 mod 256) + 65536 * (n div 65536 mod 256) + 256 * (n div 256 mod 256) + n mod 256"
    by (simp add: vbe32dec_def be32_def)
  then show ?thesis using d unfolding h by linarith
qed

lemma get_lump_add:
  assumes "length p < 2 ^ 32"
  shows "ban_get_lump (be32 (length p) @ p @ rest) = Some (p, rest)"
proof -
  have l: "length (be32 (length p)) = 4" by (simp add: be32_def)
  show ?thesis unfolding ban_get_lump_def vbe32dec_be32 [OF assms] using l by (simp add: Let_def)
qed

definition test_ok :: "string \<times> string \<times> string \<Rightarrow> bool" where
  "test_ok t \<longleftrightarrow> (case t of (a1, a2, a3) \<Rightarrow> NUL \<notin> set a1 \<and> NUL \<notin> set a3)"

text \<open>What a compiled test says.\<close>

definition compiled :: "(string \<Rightarrow> string + string) \<Rightarrow> string \<times> string \<times> string \<Rightarrow> ban_test \<Rightarrow> bool" where
  "compiled regc t bt \<longleftrightarrow> (case t of (a1, a2, a3) \<Rightarrow>
     (if take 7 a1 = ''req.url'' then bt_arg1 bt = BAN_ARG_URL
      else if take 9 a1 = ''req.http.'' then bt_arg1 bt = BAN_ARG_REQHTTP \<and> bt_arg1_spec bt = drop 9 a1 @ '':'' \<and> length (drop 9 a1) < 127
      else if take 9 a1 = ''obj.http.'' then bt_arg1 bt = BAN_ARG_OBJHTTP \<and> bt_arg1_spec bt = drop 9 a1 @ '':'' \<and> length (drop 9 a1) < 127
      else take 10 a1 = ''obj.status'' \<and> bt_arg1 bt = BAN_ARG_OBJSTATUS) \<and>
     bt_arg2 bt = a3 \<and>
     (a2 = ''~'' \<and> bt_oper bt = BAN_OPER_MATCH \<and> regc a3 = Inr (bt_arg2_spec bt) \<or> a2 = ''!~'' \<and> bt_oper bt = BAN_OPER_NMATCH \<and> regc a3 = Inr (bt_arg2_spec bt) \<or>
      a2 = ''=='' \<and> bt_oper bt = BAN_OPER_EQ \<or> a2 = ''!='' \<and> bt_oper bt = BAN_OPER_NEQ))"

lemma iter_http:
  assumes "a1 = BAN_ARG_REQHTTP \<or> a1 = BAN_ARG_OBJHTTP" and "length n < 127" and "NUL \<notin> set n"
  shows "ban_iter (a1 # char_of (length n + 1) # n @ '':'' @ NUL # bs) = do {
     (a2, bs) \<leftarrow> ban_get_lump bs;
     vassert (bs \<noteq> []);
     (a2s, bs') \<leftarrow> (if hd bs = BAN_OPER_MATCH \<or> hd bs = BAN_OPER_NMATCH then ban_get_lump (tl bs) else Some ([], tl bs));
     Some (\<lparr>bt_arg1 = a1, bt_arg1_spec = n @ '':'', bt_oper = hd bs, bt_arg2 = cstr a2, bt_arg2_spec = a2s\<rparr>, bs')
   }"
proof -
  have l: "(length n + 1) mod 256 = length n + 1" using assms(2) by simp
  have "cstr (n @ '':'' @ [NUL]) = n @ '':''" using assms(3) by (simp add: cstr_def takeWhile_append)
  then show ?thesis using assms(1) l by (simp add: ban_iter_def Let_def)
qed

lemma iter_plain:
  assumes "a1 \<noteq> BAN_ARG_REQHTTP" "a1 \<noteq> BAN_ARG_OBJHTTP"
  shows "ban_iter (a1 # bs) = do {
     (a2, bs) \<leftarrow> ban_get_lump bs;
     vassert (bs \<noteq> []);
     (a2s, bs') \<leftarrow> (if hd bs = BAN_OPER_MATCH \<or> hd bs = BAN_OPER_NMATCH then ban_get_lump (tl bs) else Some ([], tl bs));
     Some (\<lparr>bt_arg1 = a1, bt_arg1_spec = [], bt_oper = hd bs, bt_arg2 = cstr a2, bt_arg2_spec = a2s\<rparr>, bs')
   }"
  using assms by (simp add: ban_iter_def Let_def)

definition iter_tail :: "char \<Rightarrow> string \<Rightarrow> string \<Rightarrow> (ban_test \<times> string) option" where
  "iter_tail a1 sp bs = do {
     (a2, bs) \<leftarrow> ban_get_lump bs;
     vassert (bs \<noteq> []);
     (a2s, bs') \<leftarrow> (if hd bs = BAN_OPER_MATCH \<or> hd bs = BAN_OPER_NMATCH then ban_get_lump (tl bs) else Some ([], tl bs));
     Some (\<lparr>bt_arg1 = a1, bt_arg1_spec = sp, bt_oper = hd bs, bt_arg2 = cstr a2, bt_arg2_spec = a2s\<rparr>, bs')
   }"

lemmas iter_split = iter_http [folded iter_tail_def] iter_plain [folded iter_tail_def]

lemma cstr_NUL: "NUL \<notin> set a \<Longrightarrow> cstr (a @ [NUL]) = a"
  by (simp add: cstr_def takeWhile_append)

lemma iter_tail_add:
  assumes "length a3 + 1 < 2 ^ 32" and "NUL \<notin> set a3"
  shows "op \<noteq> BAN_OPER_MATCH \<Longrightarrow> op \<noteq> BAN_OPER_NMATCH \<Longrightarrow>
      iter_tail a1 sp (be32 (length (a3 @ [NUL])) @ (a3 @ [NUL]) @ op # rest) =
        Some (\<lparr>bt_arg1 = a1, bt_arg1_spec = sp, bt_oper = op, bt_arg2 = a3, bt_arg2_spec = []\<rparr>, rest)"
    "op = BAN_OPER_MATCH \<or> op = BAN_OPER_NMATCH \<Longrightarrow> length re < 2 ^ 32 \<Longrightarrow>
      iter_tail a1 sp (be32 (length (a3 @ [NUL])) @ (a3 @ [NUL]) @ op # be32 (length re) @ re @ rest) =
        Some (\<lparr>bt_arg1 = a1, bt_arg1_spec = sp, bt_oper = op, bt_arg2 = a3, bt_arg2_spec = re\<rparr>, rest)"
proof -
  have l: "length (a3 @ [NUL]) < 2 ^ 32" using assms(1) by simp
  note g = get_lump_add [OF l] cstr_NUL [OF assms(2)]
  show "op \<noteq> BAN_OPER_MATCH \<Longrightarrow> op \<noteq> BAN_OPER_NMATCH \<Longrightarrow>
      iter_tail a1 sp (be32 (length (a3 @ [NUL])) @ (a3 @ [NUL]) @ op # rest) =
        Some (\<lparr>bt_arg1 = a1, bt_arg1_spec = sp, bt_oper = op, bt_arg2 = a3, bt_arg2_spec = []\<rparr>, rest)"
    unfolding iter_tail_def g(1) by (simp add: g(2))
  show "op = BAN_OPER_MATCH \<or> op = BAN_OPER_NMATCH \<Longrightarrow> length re < 2 ^ 32 \<Longrightarrow>
      iter_tail a1 sp (be32 (length (a3 @ [NUL])) @ (a3 @ [NUL]) @ op # be32 (length re) @ re @ rest) =
        Some (\<lparr>bt_arg1 = a1, bt_arg1_spec = sp, bt_oper = op, bt_arg2 = a3, bt_arg2_spec = re\<rparr>, rest)"
    unfolding iter_tail_def g(1) by (auto simp: g(2) get_lump_add)
qed

text \<open>The part of the bytes after the field, and what is read back from it.\<close>

definition oper_bytes :: "(string \<Rightarrow> string + string) \<Rightarrow> string \<Rightarrow> string \<Rightarrow> string + (char \<times> string)" where
  "oper_bytes regc a2 a3 =
     (if a2 = ''~'' then map_sum id (Pair BAN_OPER_MATCH) (regc a3) else if a2 = ''!~'' then map_sum id (Pair BAN_OPER_NMATCH) (regc a3)
      else if a2 = ''=='' then Inr (BAN_OPER_EQ, []) else if a2 = ''!='' then Inr (BAN_OPER_NEQ, []) else Inl [])"

lemma AddTest_bytes:
  assumes "BAN_AddTest regc (r, v) a1 a2 a3 = Some (Inr (r', v'))"
  shows "\<exists>name req http tag op re p. (name, req, http, tag) \<in> set pvars \<and> take (length name) a1 = name \<and> r' = (r \<or> req) \<and> oper_bytes regc a2 a3 = Inr (op, re) \<and>
    (if http then length (drop (length name) a1) < 127 \<and> p = char_of (length (drop (length name) a1) + 1) # drop (length name) a1 @ '':'' @ [NUL] else p = []) \<and>
    v' = v @ tag # p @ be32 (length (a3 @ [NUL])) @ (a3 @ [NUL]) @ op # (if op = BAN_OPER_MATCH \<or> op = BAN_OPER_NMATCH then be32 (length re) @ re else [])"
proof -
  obtain name req http tag where f: "find (\<lambda>(name, _). take (length name) a1 = name) pvars = Some (name, req, http, tag)"
    using assms by (auto simp: BAN_AddTest_def split: option.splits)
  then have n: "(name, req, http, tag) \<in> set pvars" "take (length name) a1 = name" by (auto simp: find_Some_iff in_set_conv_nth)
  define p where "p = (if http then char_of (length (drop (length name) a1) + 1) # drop (length name) a1 @ '':'' @ [NUL] else [])"
  have hp: "http \<longrightarrow> length (drop (length name) a1) < 127" using assms f by (auto simp: BAN_AddTest_def ban_parse_http_def Let_def vassert_def split: if_splits)
  obtain op re where e: "oper_bytes regc a2 a3 = Inr (op, re)" "r' = (r \<or> req)"
    "v' = v @ tag # p @ be32 (length (a3 @ [NUL])) @ (a3 @ [NUL]) @ op # (if op = BAN_OPER_MATCH \<or> op = BAN_OPER_NMATCH then be32 (length re) @ re else [])"
    using assms f hp unfolding BAN_AddTest_def oper_bytes_def p_def
    by (cases http) (auto simp: ban_parse_http_def ban_parse_regexp_def ban_add_lump_def ban_bytes Let_def split: if_splits sum.splits)
  have "if http then length (drop (length name) a1) < 127 \<and> p = char_of (length (drop (length name) a1) + 1) # drop (length name) a1 @ '':'' @ [NUL] else p = []"
    using hp by (simp add: p_def)
  then show ?thesis using n e by blast
qed

lemma take_shorter: "take n a = s \<Longrightarrow> m \<le> n \<Longrightarrow> take m a = take m s"
  by auto

lemma field_lengths: "length ''req.url'' = 7" "length ''req.http.'' = 9" "length ''obj.http.'' = 9" "length ''obj.status'' = 10"
  by simp_all

lemma pvars_field:
  assumes "(name, req, http, tag) \<in> set pvars" and t: "take (length name) a1 = name"
  shows "req \<and> \<not> http \<and> tag = BAN_ARG_URL \<and> take 7 a1 = ''req.url'' \<and> take 4 a1 = ''req.'' \<or>
    length name = 9 \<and> req \<and> http \<and> tag = BAN_ARG_REQHTTP \<and> take 7 a1 = ''req.htt'' \<and> take 9 a1 = ''req.http.'' \<and> take 4 a1 = ''req.'' \<or>
    length name = 9 \<and> \<not> req \<and> http \<and> tag = BAN_ARG_OBJHTTP \<and> take 7 a1 = ''obj.htt'' \<and> take 9 a1 = ''obj.http.'' \<and> take 4 a1 = ''obj.'' \<or>
    \<not> req \<and> \<not> http \<and> tag = BAN_ARG_OBJSTATUS \<and> take 7 a1 = ''obj.sta'' \<and> take 9 a1 = ''obj.statu'' \<and> take 10 a1 = ''obj.status'' \<and> take 4 a1 = ''obj.''"
proof -
  consider "name = ''req.url''" "req" "\<not> http" "tag = BAN_ARG_URL" | "name = ''req.http.''" "req" "http" "tag = BAN_ARG_REQHTTP"
    | "name = ''obj.http.''" "\<not> req" "http" "tag = BAN_ARG_OBJHTTP" | "name = ''obj.status''" "\<not> req" "\<not> http" "tag = BAN_ARG_OBJSTATUS"
    using assms(1) by (auto simp: pvars_def)
  then show ?thesis
  proof cases
    case 1
    have "take 7 a1 = ''req.url''" using t unfolding 1(1) field_lengths .
    then show ?thesis using 1 take_shorter [of 7 a1 "''req.url''" 4] by simp
  next
    case 2
    have "take 9 a1 = ''req.http.''" using t unfolding 2(1) field_lengths .
    then show ?thesis using 2 take_shorter [of 9 a1 "''req.http.''" 4] take_shorter [of 9 a1 "''req.http.''" 7] by simp
  next
    case 3
    have "take 9 a1 = ''obj.http.''" using t unfolding 3(1) field_lengths .
    then show ?thesis using 3 take_shorter [of 9 a1 "''obj.http.''" 4] take_shorter [of 9 a1 "''obj.http.''" 7] by simp
  next
    case 4
    have "take 10 a1 = ''obj.status''" using t unfolding 4(1) field_lengths .
    then show ?thesis
      using 4 take_shorter [of 10 a1 "''obj.status''" 4] take_shorter [of 10 a1 "''obj.status''" 7] take_shorter [of 10 a1 "''obj.status''" 9] by simp
  qed
qed

lemma AddTest_iter:
  assumes a: "BAN_AddTest regc (r, v) a1 a2 a3 = Some (Inr (r', v'))" and ok: "test_ok (a1, a2, a3)" and len: "length v' < 2 ^ 32"
  shows "\<exists>e bt. v' = v @ e \<and> e \<noteq> [] \<and> (\<forall>rest. ban_iter (e @ rest) = Some (bt, rest)) \<and> compiled regc (a1, a2, a3) bt \<and> r' = (r \<or> take 4 a1 = ''req.'')"
proof -
  obtain name req http tag op re p where b: "(name, req, http, tag) \<in> set pvars" "take (length name) a1 = name" "r' = (r \<or> req)" "oper_bytes regc a2 a3 = Inr (op, re)"
    and p: "if http then length (drop (length name) a1) < 127 \<and> p = char_of (length (drop (length name) a1) + 1) # drop (length name) a1 @ '':'' @ [NUL] else p = []"
    and v': "v' = v @ tag # p @ be32 (length (a3 @ [NUL])) @ (a3 @ [NUL]) @ op # (if op = BAN_OPER_MATCH \<or> op = BAN_OPER_NMATCH then be32 (length re) @ re else [])"
    using AddTest_bytes [OF a] by blast
  define t where "t = be32 (length (a3 @ [NUL])) @ (a3 @ [NUL]) @ op # (if op = BAN_OPER_MATCH \<or> op = BAN_OPER_NMATCH then be32 (length re) @ re else [])"
  define re' where "re' = (if op = BAN_OPER_MATCH \<or> op = BAN_OPER_NMATCH then re else [])"
  have l: "length a3 + 1 < 2 ^ 32" "op = BAN_OPER_MATCH \<or> op = BAN_OPER_NMATCH \<Longrightarrow> length re < 2 ^ 32" using len v' by auto
  have nn: "NUL \<notin> set a3" "NUL \<notin> set (drop (length name) a1)" using ok by (auto simp: test_ok_def dest: in_set_dropD)
  have tl: "iter_tail c sp (t @ rest) = Some (\<lparr>bt_arg1 = c, bt_arg1_spec = sp, bt_oper = op, bt_arg2 = a3, bt_arg2_spec = re'\<rparr>, rest)" for c sp rest
    using iter_tail_add(1) [OF l(1) nn(1), where op = op and rest = rest and sp = sp] iter_tail_add(2) [OF l(1) nn(1), where op = op and re = re and rest = rest and sp = sp] l(2)
    by (auto simp: t_def re'_def)
  define sp where "sp = (if http then drop (length name) a1 @ '':'' else [])"
  define bt where "bt = \<lparr>bt_arg1 = tag, bt_arg1_spec = sp, bt_oper = op, bt_arg2 = a3, bt_arg2_spec = re'\<rparr>"
  have it: "ban_iter ((tag # p @ t) @ rest) = Some (bt, rest)" for rest
  proof (cases http)
    case True
    then have "tag = BAN_ARG_REQHTTP \<or> tag = BAN_ARG_OBJHTTP" using b(1) by (auto simp: pvars_def)
    then show ?thesis using iter_split(1) [of tag "drop (length name) a1" "t @ rest"] True p nn(2) tl by (simp add: bt_def sp_def)
  next
    case False
    then have "tag \<noteq> BAN_ARG_REQHTTP" "tag \<noteq> BAN_ARG_OBJHTTP" using b(1) by (auto simp: pvars_def ban_bytes)
    then show ?thesis using iter_split(2) [of tag "t @ rest"] False p tl by (simp add: bt_def sp_def)
  qed
  have op: "a2 = ''~'' \<and> op = BAN_OPER_MATCH \<and> regc a3 = Inr re' \<or> a2 = ''!~'' \<and> op = BAN_OPER_NMATCH \<and> regc a3 = Inr re' \<or> a2 = ''=='' \<and> op = BAN_OPER_EQ \<or> a2 = ''!='' \<and> op = BAN_OPER_NEQ"
    using b(4) by (cases "regc a3") (auto simp: oper_bytes_def re'_def split: if_splits)
  note fc = pvars_field [OF b(1,2)]
  have "if take 7 a1 = ''req.url'' then tag = BAN_ARG_URL
      else if take 9 a1 = ''req.http.'' then tag = BAN_ARG_REQHTTP \<and> sp = drop 9 a1 @ '':'' \<and> length (drop 9 a1) < 127
      else if take 9 a1 = ''obj.http.'' then tag = BAN_ARG_OBJHTTP \<and> sp = drop 9 a1 @ '':'' \<and> length (drop 9 a1) < 127
      else take 10 a1 = ''obj.status'' \<and> tag = BAN_ARG_OBJSTATUS"
    using fc p by (elim disjE conjE) (simp_all add: sp_def)
  then have "compiled regc (a1, a2, a3) bt" using op by (simp add: compiled_def bt_def del: length_drop)
  moreover have "req = (take 4 a1 = ''req.'')" using fc by (elim disjE conjE) simp_all
  ultimately show ?thesis using it v' b(3) by (intro exI [of _ "tag # p @ t"] exI [of _ bt]) (simp add: t_def)
qed

section \<open>A list of tests\<close>

fun tests_of :: "string list \<Rightarrow> (string \<times> string \<times> string) list" where
  "tests_of (a1 # a2 # a3 # rest) = (a1, a2, a3) # (case rest of [] \<Rightarrow> [] | _ # rest \<Rightarrow> tests_of rest)"
| "tests_of _ = []"

inductive decodes :: "string \<Rightarrow> ban_test list \<Rightarrow> bool" where
  decodes_Nil: "decodes [] []"
| decodes_Cons: "\<forall>rest. ban_iter (e @ rest) = Some (bt, rest) \<Longrightarrow> e \<noteq> [] \<Longrightarrow> decodes es bts \<Longrightarrow> decodes (e @ es) (bt # bts)"

inductive_cases decodes_ConsE: "decodes e (bt # bts)"

lemma add_testsE:
  assumes "add_tests regc b (a1 # a2 # a3 # rest) = Some (Inr b')"
  obtains r1 v1 where "BAN_AddTest regc b a1 a2 a3 = Some (Inr (r1, v1))" "case rest of [] \<Rightarrow> (r1, v1) = b' | _ # rest \<Rightarrow> add_tests regc (r1, v1) rest = Some (Inr b')"
proof -
  obtain y where y: "BAN_AddTest regc b a1 a2 a3 = Some y" using assms by (auto simp: bind_eq_Some_conv)
  then obtain b1 where "y = Inr b1" using assms by (cases y) auto
  then show ?thesis using that assms y by (cases b1; cases rest) auto
qed

lemma add_tests_longer: "add_tests regc (r, v) av = Some (Inr (r', v')) \<Longrightarrow> length v \<le> length v'"
proof (induction regc "(r, v)" av arbitrary: r v rule: add_tests.induct)
  case (1 regc a1 a2 a3 rest)
  obtain r1 v1 where b: "BAN_AddTest regc (r, v) a1 a2 a3 = Some (Inr (r1, v1))" "case rest of [] \<Rightarrow> (r1, v1) = (r', v') | _ # rest \<Rightarrow> add_tests regc (r1, v1) rest = Some (Inr (r', v'))"
    using add_testsE [OF 1(2)] .
  have "length v \<le> length v1" using AddTest_bytes [OF b(1)] by auto
  then show ?case using b 1(1) [OF _ refl] by (cases rest) (fastforce dest: le_trans)+
qed auto

lemma add_tests_decodes:
  assumes "add_tests regc (r, v) av = Some (Inr (r', v'))" and "\<forall>t \<in> set (tests_of av). test_ok t" and "length v' < 2 ^ 32"
  shows "\<exists>e bts. v' = v @ e \<and> decodes e bts \<and> list_all2 (compiled regc) (tests_of av) bts \<and> r' = (r \<or> (\<exists>(a1, _) \<in> set (tests_of av). take 4 a1 = ''req.''))"
  using assms
proof (induction regc "(r, v)" av arbitrary: r v rule: add_tests.induct)
  case (1 regc a1 a2 a3 rest)
  obtain r1 v1 where b: "BAN_AddTest regc (r, v) a1 a2 a3 = Some (Inr (r1, v1))" "case rest of [] \<Rightarrow> (r1, v1) = (r', v') | _ # rest \<Rightarrow> add_tests regc (r1, v1) rest = Some (Inr (r', v'))"
    using add_testsE [OF 1(2)] .
  have l1: "length v1 < 2 ^ 32" using b(2) 1(4) by (cases rest) (auto dest: add_tests_longer)
  have "test_ok (a1, a2, a3)" using 1(3) by simp
  from AddTest_iter [OF b(1) this l1] obtain e bt where e: "v1 = v @ e" "e \<noteq> []" "\<forall>rest. ban_iter (e @ rest) = Some (bt, rest)" "compiled regc (a1, a2, a3) bt"
    "r1 = (r \<or> take 4 a1 = ''req.'')" by blast
  show ?case
  proof (cases rest)
    case Nil
    have "decodes (e @ []) [bt]" using e(2,3) by (intro decodes.intros) auto
    then show ?thesis using b(2) Nil e by (intro exI [of _ e] exI [of _ "[bt]"]) auto
  next
    case (Cons x rest')
    have "\<forall>t \<in> set (tests_of rest'). test_ok t" "add_tests regc (r1, v1) rest' = Some (Inr (r', v'))" using 1(3) b(2) Cons by simp_all
    then obtain e' bts where e': "v' = v1 @ e'" "decodes e' bts" "list_all2 (compiled regc) (tests_of rest') bts" "r' = (r1 \<or> (\<exists>(a1, _) \<in> set (tests_of rest'). take 4 a1 = ''req.''))"
      using 1(1) [OF b(1) refl Cons _ _ 1(4)] by blast
    have "decodes (e @ e') (bt # bts)" using e(2,3) e'(2) by (intro decodes.intros)
    then show ?thesis using e e' Cons by (intro exI [of _ "e @ e'"] exI [of _ "bt # bts"]) auto
  qed
qed (auto intro: decodes.intros)

section \<open>What a ban means\<close>

definition hdr_value :: "http \<Rightarrow> string \<Rightarrow> string option" where
  "hdr_value hp name = (case find (\<lambda>u. hdr_is (name @ '':'') (hd_s hp u)) [HTTP_HDR_FIRST..<h_nhd hp] of
     None \<Rightarrow> None | Some u \<Rightarrow> Some (dropWhile vct_issp (drop (length name + 1) (hd_s hp u))))"

definition field_value :: "http \<Rightarrow> http \<Rightarrow> string \<Rightarrow> string option" where
  "field_value objhttp reqhttp a1 = map_option cstr
     (if take 7 a1 = ''req.url'' then map_option t_s (h_hd reqhttp HTTP_HDR_URL)
      else if take 9 a1 = ''req.http.'' then hdr_value reqhttp (drop 9 a1)
      else if take 9 a1 = ''obj.http.'' then hdr_value objhttp (drop 9 a1)
      else Some (dec_digits (h_status objhttp)))"

fun test_spec :: "(string \<Rightarrow> string + string) \<Rightarrow> (string \<Rightarrow> string \<Rightarrow> bool) \<Rightarrow> http \<Rightarrow> http \<Rightarrow> string \<times> string \<times> string \<Rightarrow> bool" where
  "test_spec regc exec objhttp reqhttp (a1, a2, a3) =
     (let v = field_value objhttp reqhttp a1; matches = (\<exists>x re. v = Some x \<and> regc a3 = Inr re \<and> exec re x) in
      if a2 = ''=='' then v = Some a3 else if a2 = ''!='' then v \<noteq> Some a3 else if a2 = ''~'' then matches else \<not> matches)"

lemma GetHdr_value:
  assumes "filled hp" and "NUL \<notin> set name" and "length name < 127"
  shows "GetHdr_buf hp (name @ '':'') = Some (hdr_value hp name)"
  using GetHdr_find [OF _ assms(1), of "name @ '':''"] assms(2,3) by (simp add: GetHdr_buf_def hdr_value_def good_hdr_def split: option.split)

lemma compiled_holds:
  assumes c: "compiled regc t bt" and "filled objhttp" "filled reqhttp" and ok: "test_ok t"
  shows "ban_test_holds exec objhttp reqhttp bt = Some (test_spec regc exec objhttp reqhttp t)"
proof -
  obtain a1 a2 a3 where t: "t = (a1, a2, a3)" by (cases t)
  have n: "NUL \<notin> set (drop 9 a1)" using ok t by (auto simp: test_ok_def dest: in_set_dropD)
  have a: "map_option (map_option cstr) (ban_arg1 objhttp reqhttp bt) = Some (field_value objhttp reqhttp a1)"
    using c GetHdr_value [OF assms(2) n] GetHdr_value [OF assms(3) n] unfolding t compiled_def prod.case field_value_def ban_arg1_def
    by (auto simp: ban_bytes split: if_splits)
  then obtain v where v: "ban_arg1 objhttp reqhttp bt = Some v" "map_option cstr v = field_value objhttp reqhttp a1" by auto
  have o: "bt_arg2 bt = a3" "a2 = ''~'' \<and> bt_oper bt = BAN_OPER_MATCH \<and> regc a3 = Inr (bt_arg2_spec bt) \<or> a2 = ''!~'' \<and> bt_oper bt = BAN_OPER_NMATCH \<and> regc a3 = Inr (bt_arg2_spec bt) \<or>
      a2 = ''=='' \<and> bt_oper bt = BAN_OPER_EQ \<or> a2 = ''!='' \<and> bt_oper bt = BAN_OPER_NEQ" using c t by (simp_all add: compiled_def)
  have "ban_oper exec v bt = Some (test_spec regc exec objhttp reqhttp t)"
    using o unfolding t ban_oper_def v(2) by (elim disjE conjE) (auto simp: ban_bytes Let_def split: option.splits)
  then show ?thesis using v(1) by (simp add: ban_test_holds_def)
qed

lemma eval_decodes:
  assumes "decodes e bts" and "\<forall>bt \<in> set bts. ban_test_holds exec objhttp reqhttp bt = Some (H bt)"
  shows "\<exists>m. ban_eval_loop exec objhttp reqhttp e n = Some (\<forall>bt \<in> set bts. H bt, m) \<and> m \<le> n + length bts"
  using assms
proof (induction arbitrary: n)
  case decodes_Nil
  then show ?case by (simp add: ban_eval_loop.simps)
next
  case (decodes_Cons e bt es bts)
  show ?case
  proof (cases "H bt")
    case True
    then show ?thesis using decodes_Cons.IH [of "n + 1"] decodes_Cons by (subst ban_eval_loop.simps) auto
  next
    case False
    then show ?thesis using decodes_Cons by (subst ban_eval_loop.simps) auto
  qed
qed

lemma mk_spec_body:
  assumes "length lump + 13 < 2 ^ 32"
  shows "take (ban_len (mk_spec req lump) - 13) (drop 5 (mk_spec req lump)) = lump"
proof -
  have "ban_len (mk_spec req lump) = length lump + 13" unfolding ban_len_def mk_spec_def by (rule vbe32dec_be32 [OF assms])
  moreover have "drop 5 (mk_spec req lump) = lump" by (simp add: mk_spec_def be32_def)
  ultimately show ?thesis by simp
qed

lemma list_all2_ball: "list_all2 P xs zs \<Longrightarrow> (\<And>x y. x \<in> set xs \<Longrightarrow> P x y \<Longrightarrow> Q x = R y) \<Longrightarrow> (\<forall>y \<in> set zs. R y) \<longleftrightarrow> (\<forall>x \<in> set xs. Q x)"
  by (induction rule: list_all2_induct) auto

lemma list_all2_right: "list_all2 P xs zs \<Longrightarrow> y \<in> set zs \<Longrightarrow> \<exists>x \<in> set xs. P x y"
  by (induction rule: list_all2_induct) auto

lemma byte_lits: "char_of (0 :: nat) = NUL" "char_of (Suc (Suc 0)) = CHR 0x02" "char_of (Suc (Suc (Suc 0))) = CHR 0x03" "char_of (Suc (Suc (Suc (Suc 0)))) = CHR 0x04"
  by code_simp+

lemma be32_small: "n < 256 \<Longrightarrow> be32 n = [NUL, NUL, NUL, char_of n]"
  by (simp add: be32_def byte_lits)

text \<open>The ban \<open>obj.status == 200\<close>.\<close>

definition wit_av :: "string list" where
  "wit_av = [''obj.status'', ''=='', ''200'']"

definition wit_lump :: string where
  "wit_lump = [CHR 0x1b, NUL, NUL, NUL, CHR 0x04] @ ''200'' @ [NUL, CHR 0x10]"

lemma wit_ban: "add_tests Inr (False, []) wit_av = Some (Inr (False, wit_lump))" "tests_of wit_av = [(''obj.status'', ''=='', ''200'')]"
  by (simp_all add: wit_av_def wit_lump_def BAN_AddTest_def pvars_def ban_add_lump_def be32_small byte_lits ban_bytes Let_def)

lemma compiled_ban_evaluates:
  assumes add: "add_tests regc (False, []) av = Some (Inr (req, lump))" and ok: "\<forall>t \<in> set (tests_of av). test_ok t" and len: "length lump + 13 < 2 ^ 32"
    and f: "filled objhttp" "filled reqhttp"
  shows "\<exists>n. ban_evaluate exec (mk_spec req lump) objhttp reqhttp 0 = Some (\<forall>t \<in> set (tests_of av). test_spec regc exec objhttp reqhttp t, n) \<and> n \<le> length (tests_of av)"
proof -
  have "length lump < 2 ^ 32" using len by simp
  from add_tests_decodes [OF add ok this] obtain bts where d: "decodes lump bts" "list_all2 (compiled regc) (tests_of av) bts" by auto
  define H where "H bt = the (ban_test_holds exec objhttp reqhttp bt)" for bt
  have h: "ban_test_holds exec objhttp reqhttp bt = Some (test_spec regc exec objhttp reqhttp t)" if "t \<in> set (tests_of av)" "compiled regc t bt" for t bt
    using compiled_holds [OF that(2) f] ok that(1) by blast
  have "\<forall>bt \<in> set bts. ban_test_holds exec objhttp reqhttp bt = Some (H bt)" using list_all2_right [OF d(2)] h unfolding H_def by force
  from eval_decodes [OF d(1) this, of 0] obtain n where "ban_eval_loop exec objhttp reqhttp lump 0 = Some (\<forall>bt \<in> set bts. H bt, n)" "n \<le> length bts" by auto
  moreover have "(\<forall>bt \<in> set bts. H bt) \<longleftrightarrow> (\<forall>t \<in> set (tests_of av). test_spec regc exec objhttp reqhttp t)"
    by (rule list_all2_ball [OF d(2)]) (simp add: h H_def)
  ultimately show ?thesis using list_all2_lengthD [OF d(2)] by (simp add: ban_evaluate_def mk_spec_body [OF len])
qed

text \<open>C5. A ban means what its command says: the bytes compiled from the tests of a ban command evaluate, without reading past their
  end, to true exactly when every test holds for the object and the request; the ban is flagged as needing the request
  exactly when a test looks at it.\<close>

theorem ban_means_its_tests:
  assumes add: "add_tests regc (False, []) av = Some (Inr (req, lump))" and ok: "\<forall>t \<in> set (tests_of av). test_ok t" and len: "length lump + 13 < 2 ^ 32"
    and f: "filled objhttp" "filled reqhttp"
  shows "\<exists>n. ban_evaluate exec (mk_spec req lump) objhttp reqhttp 0 = Some (\<forall>t \<in> set (tests_of av). test_spec regc exec objhttp reqhttp t, n) \<and>
    n \<le> length (tests_of av) \<and> (req \<longleftrightarrow> (\<exists>(a1, _) \<in> set (tests_of av). take 4 a1 = ''req.''))"
proof -
  have "length lump < 2 ^ 32" using len by simp
  from add_tests_decodes [OF add ok this] have "req \<longleftrightarrow> (\<exists>(a1, _) \<in> set (tests_of av). take 4 a1 = ''req.'')" by auto
  then show ?thesis using compiled_ban_evaluates [OF assms] by simp
qed

theorem ban_means_its_tests_witness:
  "\<exists>n. ban_evaluate (\<lambda>_ _. False) (mk_spec False wit_lump) (http_ex\<lparr>h_status := 200\<rparr>) http_ex 0 = Some (True, n) \<and> n \<le> 1"
proof -
  have f: "filled http_ex" "filled (http_ex\<lparr>h_status := 200\<rparr>)" by (auto simp: filled_def http_ex_def HTTP_HDR_FIRST_def)
  have d: "dec_digits 200 = ''200''" "cstr ''200'' = ''200''" by code_simp+
  have "\<forall>t \<in> set (tests_of wit_av). test_ok t" "length wit_lump + 13 < 2 ^ 32" by (simp_all add: wit_ban test_ok_def wit_lump_def)
  from ban_means_its_tests [OF wit_ban(1) this f(2,1), of "\<lambda>_ _. False"] show ?thesis by (auto simp: wit_ban field_value_def d)
qed

section \<open>Printing\<close>

text \<open>The list names the URL \<open>req.url\<close>, whatever follows these letters in the command.  A test on \<open>obj.status\<close> cannot be shown.\<close>

definition shown_field :: "string \<Rightarrow> string" where
  "shown_field a1 = (if take 7 a1 = ''req.url'' then ''req.url'' else a1)"

fun shown_av :: "string list \<Rightarrow> string list" where
  "shown_av (a1 # a2 # a3 # rest) = shown_field a1 # a2 # a3 # (case rest of [] \<Rightarrow> [] | x # rest \<Rightarrow> x # shown_av rest)"
| "shown_av av = av"

definition on_status :: "string \<times> string \<times> string \<Rightarrow> bool" where
  "on_status t \<longleftrightarrow> take 10 (fst t) = ''obj.status''"

fun join_sp :: "string list \<Rightarrow> string" where
  "join_sp [] = []"
| "join_sp [x] = x"
| "join_sp (x # xs) = x @ '' '' @ join_sp xs"

lemma join_sp_Cons: "xs \<noteq> [] \<Longrightarrow> join_sp (x # xs) = x @ '' '' @ join_sp xs"
  by (cases xs) auto

lemma compiled_render:
  assumes "compiled regc (a1, a2, a3) bt"
  shows "render_arg1 bt = (if on_status (a1, a2, a3) then None else Some (shown_field a1))" "render_oper bt = Some ('' '' @ a2 @ '' '')" "bt_arg2 bt = a3"
proof -
  have t: "take 9 a1 @ drop 9 a1 = a1" by simp
  show "render_oper bt = Some ('' '' @ a2 @ '' '')" "bt_arg2 bt = a3" using assms by (auto simp: compiled_def render_oper_def ban_bytes)
  have st: "take 7 a1 = ''obj.sta''" "take 9 a1 = ''obj.statu''" if "take 10 a1 = ''obj.status''"
    using arg_cong [OF that, of "take 7"] arg_cong [OF that, of "take 9"] by (simp_all add: min_def)
  consider "take 7 a1 = ''req.url''" | "take 7 a1 \<noteq> ''req.url''" "take 9 a1 = ''req.http.''" | "take 7 a1 \<noteq> ''req.url''" "take 9 a1 = ''obj.http.''"
    | "take 10 a1 = ''obj.status''"
    using assms by (auto simp: compiled_def split: if_splits)
  then show "render_arg1 bt = (if on_status (a1, a2, a3) then None else Some (shown_field a1))"
  proof cases
    case 1
    then have "take 10 a1 \<noteq> ''obj.status''" using st(1) by fastforce
    then show ?thesis using 1 assms by (simp add: compiled_def render_arg1_def on_status_def shown_field_def)
  next
    case 2
    then have "take 10 a1 \<noteq> ''obj.status''" using st(2) by fastforce
    moreover have "bt_arg1 bt = BAN_ARG_REQHTTP" "bt_arg1_spec bt = drop 9 a1 @ '':''" using assms 2 by (simp_all add: compiled_def)
    ultimately show ?thesis using t 2(1) unfolding 2(2) by (simp add: render_arg1_def ban_bytes on_status_def shown_field_def)
  next
    case 3
    then have "take 10 a1 \<noteq> ''obj.status''" using st(2) by fastforce
    moreover have "bt_arg1 bt = BAN_ARG_OBJHTTP" "bt_arg1_spec bt = drop 9 a1 @ '':''" using assms 3 by (simp_all add: compiled_def)
    ultimately show ?thesis using t 3(1) unfolding 3(2) by (simp add: render_arg1_def ban_bytes on_status_def shown_field_def)
  next
    case 4
    then show ?thesis using st assms by (simp add: compiled_def render_arg1_def on_status_def ban_bytes)
  qed
qed

lemma render_decodes:
  assumes "decodes e bts" and "list_all2 (compiled regc) (tests_of av) bts" and "length av mod 4 = 3" and "check_ands av = None"
  shows "ban_render_loop e = (if \<exists>t \<in> set (tests_of av). on_status t then None else Some (join_sp (shown_av av)))"
  using assms(2-4,1)
proof (induction av arbitrary: e bts rule: tests_of.induct)
  case (1 a1 a2 a3 rest)
  obtain bt bts' where b: "bts = bt # bts'" "compiled regc (a1, a2, a3) bt" "list_all2 (compiled regc) (case rest of [] \<Rightarrow> [] | _ # rest \<Rightarrow> tests_of rest) bts'"
    using 1(2) by (auto simp: list_all2_Cons1)
  obtain e1 es where e: "e = e1 @ es" "\<forall>rest. ban_iter (e1 @ rest) = Some (bt, rest)" "e1 \<noteq> []" "decodes es bts'"
    using 1(5) unfolding b(1) by (auto elim: decodes_ConsE)
  note r = compiled_render [OF b(2)]
  have l: "ban_render_loop e = (if on_status (a1, a2, a3) then None
      else do { r \<leftarrow> ban_render_loop es; Some (shown_field a1 @ ('' '' @ a2 @ '' '') @ a3 @ (if es \<noteq> [] then '' && '' else []) @ r) })"
    using e r by (subst ban_render_loop.simps) simp
  show ?case
  proof (cases rest)
    case Nil
    then have "bts' = []" using b(3) by simp
    then have "es = []" using e(4) by (auto elim: decodes.cases)
    then show ?thesis using Nil l by (simp add: ban_render_loop.simps)
  next
    case (Cons x rest')
    have "length (a1 # a2 # a3 # rest) = length rest' + 4" using Cons by simp
    then have len: "length rest' mod 4 = 3" using 1(3) by (metis mod_add_self2)
    then have ne: "tests_of rest' \<noteq> []" "shown_av rest' \<noteq> []" by (cases rest' rule: tests_of.cases; simp)+
    then have "bts' \<noteq> []" using b(3) Cons by auto
    then have es: "es \<noteq> []" using e(4) by (auto elim: decodes.cases)
    have x: "x = ''&&''" "check_ands rest' = None" using 1(4) Cons by (auto split: if_splits)
    have "ban_render_loop es = (if \<exists>t \<in> set (tests_of rest'). on_status t then None else Some (join_sp (shown_av rest')))"
      using 1(1) [OF Cons] b(3) len x(2) e(4) Cons by simp
    then show ?thesis unfolding l using es Cons x(1) ne(2) by (auto simp: join_sp_Cons)
  qed
qed auto

lemma ccf_ban_spec:
  assumes "ccf_ban regc dups t0 s b av = Some (s', None)"
  obtains req lump where "add_tests regc (False, []) av = Some (Inr (req, lump))" "s' = BAN_Insert dups t0 s b req lump"
    "length av mod 4 = 3" "check_ands av = None"
proof -
  have g: "length av mod 4 = 3" "check_ands av = None" using assms by (auto simp: ccf_ban_def split: if_splits option.splits)
  then obtain r where r: "add_tests regc (False, []) av = Some r" "(case r of Inl e \<Rightarrow> (s, Some e) | Inr (req, vsb) \<Rightarrow> (BAN_Insert dups t0 s b req vsb, None)) = (s', None)"
    using assms by (auto simp: ccf_ban_def bind_eq_Some_conv)
  then obtain x where "r = Inr x" by (cases r) auto
  then show ?thesis using that r g by (cases x) auto
qed

text \<open>C35. The list of bans shows a ban as the command that made it: after an accepted ban command whose arguments are C strings and whose compiled form is below 4 GB, printing the
  new ban gives the arguments of the command joined by blanks, with \<open>req.url\<close> for every first argument that begins so.  The one exception
  is a ban with a test on \<open>obj.status\<close>: printing it aborts.\<close>

theorem ban_list_shows_command:
  assumes "ccf_ban regc dups t0 s b av = Some (s', None)" and "bmem s' b = Some bn" and "length (ban_spec bn) + 8 < 2 ^ 32"
    and "\<forall>t \<in> set (tests_of av). test_ok t"
  shows "ban_render (ban_spec bn) = (if \<exists>t \<in> set (tests_of av). on_status t then None else Some (join_sp (shown_av av)))"
proof -
  obtain req lump where a: "add_tests regc (False, []) av = Some (Inr (req, lump))" "s' = BAN_Insert dups t0 s b req lump"
    "length av mod 4 = 3" "check_ands av = None" using ccf_ban_spec [OF assms(1)] .
  have bn: "ban_spec bn = mk_spec req lump" using assms(2) a(2) by (auto simp: BAN_Insert_def Let_def mark_dup_def split: if_splits)
  then have len: "length lump + 13 < 2 ^ 32" using assms(3) by (simp add: mk_spec_def be32_def)
  then have "length lump < 2 ^ 32" by simp
  from add_tests_decodes [OF a(1) assms(4) this] obtain bts where "decodes lump bts" "list_all2 (compiled regc) (tests_of av) bts" by auto
  from render_decodes [OF this a(3,4)] show ?thesis unfolding bn ban_render_def mk_spec_body [OF len] .
qed

definition wit_av2 :: "string list" where
  "wit_av2 = [''req.url'', ''~'', ''/a'', ''&&'', ''obj.http.x'', ''=='', ''y'']"

lemma wit_av2_lump:
  "add_tests Inr (False, []) wit_av2 = Some (Inr (True, [CHR 0x18, NUL, NUL, NUL, CHR 0x03] @ ''/a'' @ [NUL, CHR 0x12, NUL, NUL, NUL, CHR 0x02] @ ''/a'' @
     [CHR 0x1A, CHR 0x02] @ ''x:'' @ [NUL, NUL, NUL, NUL, CHR 0x02] @ ''y'' @ [NUL, CHR 0x10]))"
  by (simp add: wit_av2_def BAN_AddTest_def pvars_def ban_parse_regexp_def ban_parse_http_def ban_add_lump_def be32_small byte_lits ban_bytes Let_def)

theorem ban_list_shows_command_witness:
  "\<forall>s. \<exists>s' bn. ccf_ban Inr False 60 s 31 wit_av2 = Some (s', None) \<and> bmem s' 31 = Some bn \<and>
     ban_render (ban_spec bn) = Some ''req.url ~ /a && obj.http.x == y''"
proof
  fix s
  have g: "length wit_av2 mod 4 = 3" "check_ands wit_av2 = None" by (simp_all add: wit_av2_def)
  obtain s' bn where c: "ccf_ban Inr False 60 s 31 wit_av2 = Some (s', None)" "bmem s' 31 = Some bn" "length (ban_spec bn) + 8 < 2 ^ 32"
    using wit_av2_lump g by (simp add: ccf_ban_def BAN_Insert_def Let_def mk_spec_def be32_def)
  have "\<forall>t \<in> set (tests_of wit_av2). test_ok t" by (simp add: wit_av2_def test_ok_def)
  from ban_list_shows_command [OF c this] have "ban_render (ban_spec bn) = Some ''req.url ~ /a && obj.http.x == y''"
    by (simp add: wit_av2_def on_status_def shown_field_def)
  then show "\<exists>s' bn. ccf_ban Inr False 60 s 31 wit_av2 = Some (s', None) \<and> bmem s' 31 = Some bn \<and>
     ban_render (ban_spec bn) = Some ''req.url ~ /a && obj.http.x == y''" using c(1,2) by blast
qed

section \<open>Commands that abort\<close>

text \<open>A ban on \<open>obj.status\<close> cannot be printed.\<close>

lemma ban_list_aborts: "ban_render (mk_spec False wit_lump) = None"
proof -
  have "length wit_lump + 13 < 2 ^ 32" by (simp add: wit_lump_def)
  note b = mk_spec_body [OF this, of False]
  have "ban_iter wit_lump = Some (\<lparr>bt_arg1 = BAN_ARG_OBJSTATUS, bt_arg1_spec = [], bt_oper = BAN_OPER_EQ, bt_arg2 = ''200'', bt_arg2_spec = []\<rparr>, [])"
    by (simp add: ban_iter_def ban_get_lump_def vbe32dec_def wit_lump_def cstr_def bte_def ban_bytes Let_def)
  moreover have "wit_lump \<noteq> []" by (simp add: wit_lump_def)
  ultimately show ?thesis unfolding ban_render_def b by (subst ban_render_loop.simps) (simp add: render_arg1_def ban_bytes)
qed

text \<open>Neither can a ban on a header with a name of 127 characters or more be made.\<close>

lemma ban_long_header_aborts:
  assumes "length n \<ge> 127"
  shows "ccf_ban regc dups t0 s b [''req.http.'' @ n, a2, a3] = None"
  using assms by (simp add: ccf_ban_def BAN_AddTest_def pvars_def ban_parse_http_def Let_def)

text \<open>A field is recognised by its beginning: what follows \<open>req.url\<close> is ignored.\<close>

lemma ban_field_prefix: "BAN_AddTest regc b (''req.url'' @ x) a2 a3 = BAN_AddTest regc b ''req.url'' a2 a3"
  by (simp add: BAN_AddTest_def pvars_def Let_def split: prod.split)

end
