(* ===== verification/Htc.thy ===== *)
theory Htc
  imports Rfc2616
begin

text \<open>
  bin/varnishd/cache_httpconn.c: bytes from a socket are collected in the reserved part of a workspace until a
  complete header is there; what was received beyond it is the \<^emph>\<open>pipeline\<close>, which the next header or the body
  starts with.  The socket is the list of the pieces \<open>read\<close> will return, cut where the buffer is too small, and
  whether an error follows them instead of the end.  The bytes in the buffers are kept with them; \<open>rx_b\<close> is the
  address of the receive buffer.  A write behind the reservation, undefined in C, is \<open>None\<close>.
\<close>

section \<open>Sockets\<close>

record sock =
  pieces :: "string list"
  rd_error :: bool

text \<open>\<open>read(2)\<close> of at most \<open>n\<close> bytes: \<open>None\<close> is -1, no bytes the end of the stream.\<close>

fun read_loop :: "bool \<Rightarrow> nat \<Rightarrow> string list \<Rightarrow> string list \<times> string option" where
  "read_loop err n [] = ([], if err then None else Some [])"
| "read_loop err n ([] # fs) = read_loop err n fs"
| "read_loop err n (f # fs) = (if length f \<le> n then fs else drop n f # fs, Some (take n f))"

definition sock_read :: "sock \<Rightarrow> nat \<Rightarrow> sock \<times> string option" where
  "sock_read s n = (let (fs, r) = read_loop (rd_error s) n (pieces s) in (s\<lparr>pieces := fs\<rparr>, r))"

definition unread :: "sock \<Rightarrow> string" where
  "unread s = concat (pieces s)"

section \<open>Connections\<close>

record htc = http_conn +
  htc_ws :: ws
  htc_sock :: sock
  maxbytes :: u32
  pipeline :: "string option"

text \<open>The search for the empty line, in the text from the pointer on; \<open>n\<close> bytes were before it.\<close>

function complete_loop :: "string \<Rightarrow> nat \<Rightarrow> nat" where
  "complete_loop p n =
     (let k = length (takeWhile (\<lambda>c. c \<noteq> LF \<and> c \<noteq> NUL) p) in
      if cchar p k \<noteq> LF then 0
      else (let q = drop (k + 1) p; m = n + k + 1;
                q2 = (if cchar q 0 = CR then drop 1 q else q);
                m2 = (if cchar q 0 = CR then m + 1 else m)
            in if cchar q2 0 = LF then m2 + 1 else complete_loop q2 m2))"
  by pat_completeness auto

termination
proof (relation "measure (\<lambda>(p, n). length p)", goal_cases)
  case (2 p n k q m q2 m2)
  then have "k < length p" by (auto simp: cchar_def split: if_splits)
  then have "length q < length p" using 2(3) by auto
  moreover have "length q2 \<le> length q" using 2(5) by auto
  ultimately show ?case by simp
qed simp

declare complete_loop.simps [simp del]

text \<open>The text is emptied when there is only white space.  The result is the number of bytes of the header, 0 when more are needed.\<close>

definition htc_header_complete :: "string \<Rightarrow> string \<times> nat" where
  "htc_header_complete t =
     (let k = length (takeWhile c_isspace t) in
      if k = length t then ([], 0) else (t, complete_loop (drop k t) k))"

definition HTC_Complete :: "htc \<Rightarrow> (htc \<times> int) option" where
  "HTC_Complete h = (let (t, i) = htc_header_complete (rx_s h); h = h\<lparr>rx_s := t\<rparr> in
     if i = 0 then Some (h, 0)
     else do {
       ws \<leftarrow> WS_ReleaseP (htc_ws h) (rx_b h + length (rx_s h));
       vassert (pipeline h = None);
       let h = h\<lparr>htc_ws := ws\<rparr>;
       if i < length (rx_s h) then Some (h\<lparr>pipeline := Some (drop i (rx_s h)), rx_s := take i (rx_s h)\<rparr>, 1)
       else Some (h, 1)
     })"

text \<open>Storing \<open>t\<close> and its terminating NUL at \<open>rxbuf.b\<close>.\<close>

definition rx_store :: "htc \<Rightarrow> string \<Rightarrow> htc option" where
  "rx_store h t = do {
     r \<leftarrow> ws_r (htc_ws h);
     vassert (rx_b h + length t < r);
     Some (h\<lparr>rx_s := t\<rparr>)
   }"

definition HTC_Init :: "ws \<Rightarrow> sock \<Rightarrow> u32 \<Rightarrow> nat \<Rightarrow> htc option" where
  "HTC_Init ws fd maxbytes' maxhdr' = do {
     (ws, _) \<leftarrow> WS_Reserve ws maxbytes';
     rx_store \<lparr>rx_b = ws_f ws, rx_s = [], maxhdr = maxhdr', htc_ws = ws, htc_sock = fd, maxbytes = maxbytes', pipeline = None\<rparr> []
   }"

definition HTC_Reinit :: "htc \<Rightarrow> (htc \<times> int) option" where
  "HTC_Reinit h = do {
     (ws, _) \<leftarrow> WS_Reserve (htc_ws h) (maxbytes h);
     let h = h\<lparr>htc_ws := ws, rx_b := ws_f ws, rx_s := []\<rparr>;
     h \<leftarrow> (case pipeline h of
             None \<Rightarrow> rx_store h []
           | Some p \<Rightarrow> do { h \<leftarrow> rx_store h p; Some (h\<lparr>pipeline := None\<rparr>) });
     HTC_Complete h
   }"

definition HTC_Rx :: "htc \<Rightarrow> (htc \<times> int) option" where
  "HTC_Rx h = do {
     r \<leftarrow> ws_r (htc_ws h);
     let e = rx_b h + length (rx_s h);
     if r \<le> e + 1 then do { ws \<leftarrow> WS_ReleaseP (htc_ws h) (rx_b h); Some (h\<lparr>htc_ws := ws\<rparr>, -2) }
     else (case sock_read (htc_sock h) (r - e - 1) of
        (fd, Some (c # b)) \<Rightarrow> do { h \<leftarrow> rx_store (h\<lparr>htc_sock := fd\<rparr>) (rx_s h @ c # b); HTC_Complete h }
      | (fd, _) \<Rightarrow> do { ws \<leftarrow> WS_ReleaseP (htc_ws h) (rx_b h); Some (h\<lparr>htc_sock := fd, htc_ws := ws\<rparr>, -1) })
   }"

text \<open>
  The bytes read; \<open>None\<close> is an error.  Pipelined bytes that were copied before \<open>read\<close> failed are gone.
\<close>

definition HTC_Read :: "htc \<Rightarrow> nat \<Rightarrow> htc \<times> string option" where
  "HTC_Read h len =
     (let p = (case pipeline h of None \<Rightarrow> [] | Some p \<Rightarrow> p);
          got = take len p;
          h = (case pipeline h of None \<Rightarrow> h | Some p \<Rightarrow> h\<lparr>pipeline := if drop len p = [] then None else Some (drop len p)\<rparr>)
      in if len - length got = 0 then (h, Some got)
         else (case sock_read (htc_sock h) (len - length got) of
             (fd, None) \<Rightarrow> (h\<lparr>htc_sock := fd\<rparr>, None)
           | (fd, Some b) \<Rightarrow> (h\<lparr>htc_sock := fd\<rparr>, Some (got @ b))))"


section \<open>The end of a header\<close>

lemma complete_loop_eq:
  assumes "length (takeWhile (\<lambda>c. c \<noteq> LF \<and> c \<noteq> NUL) p) = k" and "drop (k + 1) p = q"
    and "(if cchar q 0 = CR then drop 1 q else q) = q2" and "(if cchar q 0 = CR then n + k + 1 + 1 else n + k + 1) = m2"
  shows "complete_loop p n = (if cchar p k \<noteq> LF then 0 else if cchar q2 0 = LF then m2 + 1 else complete_loop q2 m2)"
  by (subst complete_loop.simps, unfold Let_def assms) simp

lemma complete_loop_bounds:
  assumes "complete_loop p n = m" and "m > 0"
  shows "n < m" "m \<le> n + length p"
proof -
  have "complete_loop p n > 0 \<Longrightarrow> n < complete_loop p n \<and> complete_loop p n \<le> n + length p"
  proof (induction p n rule: complete_loop.induct)
    case (1 p n)
    define k where "k = length (takeWhile (\<lambda>c. c \<noteq> LF \<and> c \<noteq> NUL) p)"
    define q where "q = drop (k + 1) p"
    define q2 where "q2 = (if cchar q 0 = CR then drop 1 q else q)"
    define m2 where "m2 = (if cchar q 0 = CR then n + k + 1 + 1 else n + k + 1)"
    have e: "complete_loop p n = (if cchar p k \<noteq> LF then 0 else if cchar q2 0 = LF then m2 + 1 else complete_loop q2 m2)"
      by (rule complete_loop_eq) (simp_all only: k_def q_def q2_def m2_def)
    have lf: "cchar p k = LF" using 1(2) by (simp add: e split: if_splits)
    then have k: "k < length p" by (auto simp: cchar_def split: if_splits)
    have q: "length q = length p - (k + 1)" by (simp add: q_def)
    have q2: "m2 + length q2 \<le> n + length p" "n < m2" "cchar q2 0 = LF \<Longrightarrow> q2 \<noteq> []"
      using k q by (auto simp: q2_def m2_def cchar_def split: if_splits)
    show ?case
    proof (cases "cchar q2 0 = LF")
      case True
      then show ?thesis using q2 lf by (cases q2) (auto simp: e)
    next
      case False
      have "complete_loop q2 m2 > 0" using 1(2) lf False by (simp add: e)
      moreover have "complete_loop q2 m2 > 0 \<Longrightarrow> m2 < complete_loop q2 m2 \<and> complete_loop q2 m2 \<le> m2 + length q2"
        by (rule 1(1) [of k q "n + k + 1"]) (use lf False in \<open>simp_all add: k_def q_def q2_def m2_def\<close>)
      ultimately show ?thesis using q2(1,2) lf False by (simp add: e)
    qed
  qed
  then show "n < m" "m \<le> n + length p" using assms by auto
qed

lemma cchar_append: "i < length p \<Longrightarrow> cchar (p @ x) i = cchar p i"
  by (simp add: cchar_def nth_append)

text \<open>Once a header is complete, more bytes do not change where it ends.\<close>

lemma complete_loop_append: "complete_loop p n > 0 \<Longrightarrow> complete_loop (p @ x) n = complete_loop p n"
proof (induction p n rule: complete_loop.induct)
  case (1 p n)
  define k where "k = length (takeWhile (\<lambda>c. c \<noteq> LF \<and> c \<noteq> NUL) p)"
  define q where "q = drop (k + 1) p"
  define q2 where "q2 = (if cchar q 0 = CR then drop 1 q else q)"
  define m2 where "m2 = (if cchar q 0 = CR then n + k + 1 + 1 else n + k + 1)"
  have e: "complete_loop p n = (if cchar p k \<noteq> LF then 0 else if cchar q2 0 = LF then m2 + 1 else complete_loop q2 m2)"
    by (rule complete_loop_eq) (simp_all only: k_def q_def q2_def m2_def)
  have lf: "cchar p k = LF" using 1(2) by (simp add: e split: if_splits)
  then have k: "k < length p" by (auto simp: cchar_def split: if_splits)
  have "p ! k = LF" using lf k by (simp add: cchar_def)
  then have tw: "takeWhile (\<lambda>c. c \<noteq> LF \<and> c \<noteq> NUL) (p @ x) = takeWhile (\<lambda>c. c \<noteq> LF \<and> c \<noteq> NUL) p"
    using k by (intro takeWhile_append1 [of LF]) (auto simp: in_set_conv_nth)
  have q: "drop (k + 1) (p @ x) = q @ x" using k by (simp add: q_def)
  have nz: "q \<noteq> []"
  proof
    assume "q = []"
    then have "complete_loop p n = complete_loop [] (n + k + 1)" using lf by (simp add: e q2_def m2_def)
    then show False using 1(2) by (simp add: complete_loop.simps [of "[]"])
  qed
  have q0: "cchar (q @ x) 0 = cchar q 0" using nz by (simp add: cchar_append)
  have q2: "(if cchar (q @ x) 0 = CR then drop 1 (q @ x) else q @ x) = q2 @ x" using nz unfolding q0 by (cases q) (simp_all add: q2_def)
  have m2: "(if cchar (q @ x) 0 = CR then n + k + 1 + 1 else n + k + 1) = m2" unfolding q0 m2_def by simp
  have ex: "complete_loop (p @ x) n = (if cchar (q2 @ x) 0 = LF then m2 + 1 else complete_loop (q2 @ x) m2)"
    using complete_loop_eq [OF _ q q2 m2] lf k by (simp add: tw k_def [symmetric] cchar_append)
  show ?case
  proof (cases "q2 = []")
    case True
    then have "complete_loop p n = 0" using lf by (simp add: e complete_loop.simps [of "[]"])
    then show ?thesis using 1(2) by simp
  next
    case False
    then have c0: "cchar (q2 @ x) 0 = cchar q2 0" by (simp add: cchar_append)
    show ?thesis
    proof (cases "cchar q2 0 = LF")
      case True
      then show ?thesis using lf by (simp add: e ex c0)
    next
      case nlf: False
      have "complete_loop q2 m2 > 0" using 1(2) lf nlf by (simp add: e)
      moreover have "complete_loop q2 m2 > 0 \<Longrightarrow> complete_loop (q2 @ x) m2 = complete_loop q2 m2"
        by (rule 1(1) [of k q "n + k + 1"]) (use lf nlf in \<open>simp_all add: k_def q_def q2_def m2_def\<close>)
      ultimately show ?thesis using lf nlf by (simp add: e ex c0)
    qed
  qed
qed

text \<open>A complete header: it does not begin with white space and ends where the search stops.\<close>

definition whole_header :: "string \<Rightarrow> bool" where
  "whole_header t \<longleftrightarrow> t \<noteq> [] \<and> \<not> c_isspace (hd t) \<and> complete_loop t 0 = length t"

lemma header_complete_unspaced: "t \<noteq> [] \<Longrightarrow> \<not> c_isspace (hd t) \<Longrightarrow> htc_header_complete t = (t, complete_loop t 0)"
  by (cases t) (simp_all add: htc_header_complete_def)

lemma whole_header_append:
  assumes "whole_header t"
  shows "htc_header_complete (t @ x) = (t @ x, length t)"
proof -
  have t: "t \<noteq> []" "\<not> c_isspace (hd t)" "complete_loop t 0 = length t" using assms by (auto simp: whole_header_def)
  then have "complete_loop (t @ x) 0 = length t" using complete_loop_append [of t 0 x] by simp
  then show ?thesis using header_complete_unspaced [of "t @ x"] t by simp
qed

lemma whole_header_prefix:
  assumes "whole_header (p @ x)" and "p \<noteq> []" and "x \<noteq> []"
  shows "htc_header_complete p = (p, 0)"
proof -
  have "complete_loop p 0 = 0"
  proof (rule ccontr)
    assume n: "complete_loop p 0 \<noteq> 0"
    then have "complete_loop (p @ x) 0 = complete_loop p 0" by (simp add: complete_loop_append)
    moreover have "complete_loop p 0 \<le> length p" using complete_loop_bounds(2) [OF refl, of p 0] n by simp
    ultimately show False using assms(1,3) by (simp add: whole_header_def)
  qed
  then show ?thesis using header_complete_unspaced [of p] assms by (simp add: whole_header_def)
qed

section \<open>Receiving\<close>

lemma read_loop_spec:
  assumes "read_loop err n fs = (fs', r)" and "n > 0"
  shows "case r of None \<Rightarrow> concat fs = [] \<and> concat fs' = [] \<and> err
    | Some b \<Rightarrow> concat fs = b @ concat fs' \<and> length b \<le> n \<and> (b = [] \<longrightarrow> concat fs = [] \<and> \<not> err)"
  using assms
proof (induction err n fs rule: read_loop.induct)
  case (3 err n c f fs)
  then show ?case by (cases n) (auto split: if_splits simp flip: append_assoc)
qed (auto split: if_splits option.splits)

lemma sock_read_spec:
  assumes "sock_read s n = (s', r)" and "n > 0"
  shows "case r of None \<Rightarrow> unread s = [] \<and> unread s' = [] \<and> rd_error s
    | Some b \<Rightarrow> unread s = b @ unread s' \<and> length b \<le> n \<and> (b = [] \<longrightarrow> unread s = [] \<and> \<not> rd_error s)"
    "rd_error s' = rd_error s"
  using read_loop_spec [of "rd_error s" n "pieces s"] assms
  by (auto simp: sock_read_def unread_def split: prod.splits option.splits)

text \<open>The bytes that are there but not part of a header yet.\<close>

definition pipe_s :: "htc \<Rightarrow> string" where
  "pipe_s h = (case pipeline h of None \<Rightarrow> [] | Some p \<Rightarrow> p)"

text \<open>Receiving a header: the buffer starts where the free part of the workspace does and has room for \<open>R\<close> bytes and a NUL.\<close>

definition receiving :: "nat \<Rightarrow> htc \<Rightarrow> bool" where
  "receiving R h \<longleftrightarrow> ws_inv (htc_ws h) \<and> rx_b h = ws_f (htc_ws h) \<and> ws_r (htc_ws h) = Some (rx_b h + R + 1) \<and>
     length (rx_s h) \<le> R \<and> pipeline h = None"

text \<open>A header is there: the workspace is free again from some point on.\<close>

definition received :: "nat \<Rightarrow> htc \<Rightarrow> htc \<Rightarrow> bool" where
  "received R h h' \<longleftrightarrow> (\<exists>f. htc_ws h' = (htc_ws h)\<lparr>ws_f := f, ws_r := None\<rparr>) \<and> ws_inv (htc_ws h') \<and>
     ws_f (htc_ws h) \<le> ws_f (htc_ws h') \<and> maxbytes h' = maxbytes h \<and> length (rx_s h') + length (pipe_s h') \<le> R"

lemma release_in:
  assumes "receiving R h" and "n \<le> R"
  shows "\<exists>ws. WS_ReleaseP (htc_ws h) (rx_b h + n) = Some ws \<and> ws = (htc_ws h)\<lparr>ws_f := ws_f ws, ws_r := None\<rparr> \<and> ws_inv ws \<and> ws_f (htc_ws h) \<le> ws_f ws"
proof -
  let ?w = "htc_ws h"
  have w: "ws_inv ?w" "ws_r ?w = Some (rx_b h + R + 1)" "rx_b h = ws_f ?w" using assms(1) by (simp_all add: receiving_def)
  have p: "ws_f ?w \<le> rx_b h + n" "rx_b h + n \<le> rx_b h + R + 1" using w(3) assms(2) by simp_all
  note r = WS_ReleaseP_eq [OF w(1,2) p]
  have "ws_inv (?w\<lparr>ws_f := ws_f ?w + prnd (rx_b h + n - ws_f ?w), ws_r := None\<rparr>)"
    using w r(2) by (auto simp: ws_inv_def ws_ok_def)
  then show ?thesis using r(1) by simp
qed

lemma HTC_Complete_more:
  assumes "htc_header_complete (rx_s h) = (rx_s h, 0)"
  shows "HTC_Complete h = Some (h, 0)"
  using assms by (simp add: HTC_Complete_def Let_def)

lemma HTC_Complete_done:
  assumes "receiving R h" and "htc_header_complete (rx_s h) = (rx_s h, n)" and "0 < n" and "n \<le> length (rx_s h)"
  shows "\<exists>h'. HTC_Complete h = Some (h', 1) \<and> rx_s h' = take n (rx_s h) \<and> pipe_s h' = drop n (rx_s h) \<and> htc_sock h' = htc_sock h \<and> received R h h'"
proof -
  have len: "length (rx_s h) \<le> R" "pipeline h = None" using assms(1) by (simp_all add: receiving_def)
  obtain ws where ws: "WS_ReleaseP (htc_ws h) (rx_b h + length (rx_s h)) = Some ws" "ws = (htc_ws h)\<lparr>ws_f := ws_f ws, ws_r := None\<rparr>" "ws_inv ws"
    "ws_f (htc_ws h) \<le> ws_f ws" using release_in [OF assms(1) len(1)] by blast
  have eq: "\<exists>f. ws = (htc_ws h)\<lparr>ws_f := f, ws_r := None\<rparr>" using ws(2) by blast
  show ?thesis
  proof (cases "n < length (rx_s h)")
    case True
    then show ?thesis using ws(1,3,4) assms(2,3) len eq by (auto simp: HTC_Complete_def Let_def pipe_s_def received_def)
  next
    case False
    then have "take n (rx_s h) = rx_s h" "drop n (rx_s h) = []" by simp_all
    then show ?thesis using ws(1,3,4) False assms(2,3) len eq by (auto simp: HTC_Complete_def Let_def pipe_s_def received_def)
  qed
qed

lemma rx_store_in: "receiving R h \<Longrightarrow> length t \<le> R \<Longrightarrow> rx_store h t = Some (h\<lparr>rx_s := t\<rparr>)"
  by (simp add: rx_store_def receiving_def)

lemma HTC_Rx_shorter:
  assumes "HTC_Rx h = Some (h', 0)"
  shows "length (unread (htc_sock h')) < length (unread (htc_sock h))"
proof -
  obtain r where r: "ws_r (htc_ws h) = Some r" "\<not> r \<le> rx_b h + length (rx_s h) + 1"
    using assms by (auto simp: HTC_Rx_def bind_eq_Some_conv Let_def split: if_splits)
  define n where "n = r - (rx_b h + length (rx_s h)) - 1"
  obtain fd b where fd: "sock_read (htc_sock h) n = (fd, b)" by fastforce
  then obtain c x where b: "b = Some (c # x)"
    using assms r by (cases b; cases "the b") (auto simp: HTC_Rx_def Let_def n_def bind_eq_Some_conv split: if_splits)
  have "unread (htc_sock h) = (c # x) @ unread fd" using sock_read_spec(1) [OF fd] r(2) b by (simp add: n_def)
  moreover have "HTC_Complete k = Some (h', i) \<Longrightarrow> htc_sock h' = htc_sock k" for k i
    by (auto simp: HTC_Complete_def Let_def bind_eq_Some_conv split: if_splits prod.splits)
  then have "htc_sock h' = fd"
    using assms r fd b by (fastforce simp: HTC_Rx_def Let_def n_def rx_store_def bind_eq_Some_conv split: if_splits)
  ultimately show ?thesis by simp
qed

text \<open>The loop of \<open>FetchHdr\<close>, and of a session that waits for its request.\<close>

function rx_loop :: "htc \<Rightarrow> (htc \<times> int) option" where
  "rx_loop h = (case HTC_Rx h of None \<Rightarrow> None | Some (h', i) \<Rightarrow> if i = 0 then rx_loop h' else Some (h', i))"
  by pat_completeness auto

termination by (relation "measure (\<lambda>h. length (unread (htc_sock h)))") (auto dest: HTC_Rx_shorter)

declare rx_loop.simps [simp del]

lemma HTC_Rx_step:
  assumes rc: "receiving R h" and u: "rx_s h @ unread (htc_sock h) = t @ rest" and t: "whole_header t" and len: "length t \<le> R"
    and less: "length (rx_s h) < length t"
  shows "(\<exists>h'. HTC_Rx h = Some (h', 0) \<and> receiving R h' \<and> rx_s h' @ unread (htc_sock h') = t @ rest \<and> length (rx_s h') < length t \<and>
      htc_ws h' = htc_ws h \<and> maxbytes h' = maxbytes h) \<or>
    (\<exists>h'. HTC_Rx h = Some (h', 1) \<and> rx_s h' = t \<and> pipe_s h' @ unread (htc_sock h') = rest \<and> received R h h')"
proof -
  define n where "n = R - length (rx_s h)"
  have n: "n > 0" using less len by (simp add: n_def)
  obtain fd b where fd: "sock_read (htc_sock h) n = (fd, b)" by fastforce
  have ne: "unread (htc_sock h) \<noteq> []" using u less by auto
  then obtain c x where b: "b = Some (c # x)" using sock_read_spec(1) [OF fd n] by (cases b; cases "the b") auto
  have uf: "unread (htc_sock h) = (c # x) @ unread fd" "length (c # x) \<le> n" using sock_read_spec(1) [OF fd n] b by simp_all
  have r: "ws_r (htc_ws h) = Some (rx_b h + R + 1)" "length (rx_s h) \<le> R" using rc by (simp_all add: receiving_def)
  define h1 where "h1 = h\<lparr>htc_sock := fd, rx_s := rx_s h @ c # x\<rparr>"
  have l1: "length (rx_s h @ c # x) \<le> R" using uf(2) less len by (simp add: n_def)
  have rc1: "receiving R h1" using rc l1 by (simp add: h1_def receiving_def)
  have rx: "HTC_Rx h = HTC_Complete h1"
    using r less len fd b l1 by (simp add: HTC_Rx_def Let_def n_def h1_def rx_store_def diff_diff_left)
  have u1: "rx_s h1 @ unread (htc_sock h1) = t @ rest" using u uf(1) by (simp add: h1_def)
  show ?thesis
  proof (cases "length (rx_s h1) < length t")
    case True
    then have pre: "t = rx_s h1 @ drop (length (rx_s h1)) t" "drop (length (rx_s h1)) t \<noteq> []"
      using u1 by (auto simp: append_eq_append_conv_if) (metis append_take_drop_id)
    have "htc_header_complete (rx_s h1) = (rx_s h1, 0)"
      using t pre by (intro whole_header_prefix [of _ "drop (length (rx_s h1)) t"]) (auto simp: h1_def)
    then have "HTC_Rx h = Some (h1, 0)" using HTC_Complete_more rx by simp
    then show ?thesis using rc1 u1 True by (auto simp: h1_def)
  next
    case False
    then obtain us where us: "rx_s h1 = t @ us" "us @ unread (htc_sock h1) = rest" using u1 by (auto simp: append_eq_append_conv2)
    have "htc_header_complete (rx_s h1) = (rx_s h1, length t)" using whole_header_append [OF t] us(1) by simp
    then obtain h' where "HTC_Complete h1 = Some (h', 1)" "rx_s h' = take (length t) (rx_s h1)" "pipe_s h' = drop (length t) (rx_s h1)"
      "htc_sock h' = htc_sock h1" "received R h1 h'" using HTC_Complete_done [OF rc1] t False by (force simp: whole_header_def)
    then have "rx_s h' = t" "pipe_s h' = us" using us(1) by simp_all
    moreover have "received R h h'" using \<open>received R h1 h'\<close> by (simp add: received_def h1_def)
    moreover have "unread (htc_sock h') = unread (htc_sock h1)" using \<open>htc_sock h' = htc_sock h1\<close> by simp
    ultimately show ?thesis using us(2) rx \<open>HTC_Complete h1 = Some (h', 1)\<close> by auto
  qed
qed

lemma rx_loop_header:
  assumes "receiving R h" and "rx_s h @ unread (htc_sock h) = t @ rest" and "whole_header t" and "length t \<le> R" and "length (rx_s h) < length t"
  shows "\<exists>h'. rx_loop h = Some (h', 1) \<and> rx_s h' = t \<and> pipe_s h' @ unread (htc_sock h') = rest \<and> received R h h'"
  using assms
proof (induction h rule: rx_loop.induct)
  case (1 h)
  from HTC_Rx_step [OF 1(2-6)] show ?case
  proof (elim disjE exE conjE)
    fix h' assume h': "HTC_Rx h = Some (h', 0)" "receiving R h'" "rx_s h' @ unread (htc_sock h') = t @ rest" "length (rx_s h') < length t"
      "htc_ws h' = htc_ws h" "maxbytes h' = maxbytes h"
    then show ?thesis using 1(1) [OF h'(1) refl _ h'(2,3) 1(4,5) h'(4)] by (subst rx_loop.simps) (auto simp: received_def)
  next
    fix h' assume "HTC_Rx h = Some (h', 1)" "rx_s h' = t" "pipe_s h' @ unread (htc_sock h') = rest" "received R h h'"
    then show ?thesis by (subst rx_loop.simps) simp
  qed
qed

section \<open>Pipelined requests\<close>

text \<open>
  What a session does between two requests (\<open>cnt_done\<close> and \<open>cnt_wait\<close> of cache_center.c): the workspace is reset to
  the watermark of the session, what was pipelined is moved to the front, and more is received if needed.
\<close>

definition next_request :: "addr \<Rightarrow> htc \<Rightarrow> (htc \<times> int) option" where
  "next_request ws_ses h = do {
     ws \<leftarrow> WS_Reset (htc_ws h) (Some ws_ses);
     (h, i) \<leftarrow> HTC_Reinit (h\<lparr>htc_ws := ws\<rparr>);
     if i = 0 then rx_loop h else Some (h, i)
   }"

fun requests :: "addr \<Rightarrow> nat \<Rightarrow> htc \<times> int \<Rightarrow> string list option" where
  "requests ws_ses 0 (h, i) = Some []"
| "requests ws_ses (Suc n) (h, i) = (if i \<noteq> 1 then Some [] else do {
     r \<leftarrow> (if n = 0 then Some (h, 0) else next_request ws_ses h);
     l \<leftarrow> requests ws_ses n r;
     Some (rx_s h # l)
   })"

text \<open>The headers of the first \<open>n\<close> requests on a new connection (\<open>cnt_first\<close>).\<close>

definition connection :: "ws \<Rightarrow> sock \<Rightarrow> u32 \<Rightarrow> nat \<Rightarrow> nat \<Rightarrow> string list option" where
  "connection ws fd req_size hdr_len n = do {
     ws_ses \<leftarrow> WS_Snapshot ws;
     h \<leftarrow> HTC_Init ws fd req_size hdr_len;
     r \<leftarrow> rx_loop h;
     requests ws_ses n r
   }"

lemma WS_Reset_to:
  assumes "ws_inv ws" and "ws_r ws = None" and "ws_s ws \<le> b" and "b < ws_e ws" and "8 dvd b"
  shows "WS_Reset ws (Some b) = Some (ws\<lparr>ws_f := b\<rparr>)" "ws_inv (ws\<lparr>ws_f := b\<rparr>)"
proof -
  show "ws_inv (ws\<lparr>ws_f := b\<rparr>)" using assms by (auto simp: ws_inv_def ws_ok_def)
  then show "WS_Reset ws (Some b) = Some (ws\<lparr>ws_f := b\<rparr>)" using assms by (simp add: WS_Reset_def WS_Assert_ok)
qed

text \<open>Room for the bytes of a header behind a watermark, without the NUL.\<close>

definition rx_room :: "ws \<Rightarrow> addr \<Rightarrow> u32 \<Rightarrow> nat" where
  "rx_room ws b mb = 8 * (min (unat mb) (ws_e ws - b) div 8) - 1"

lemma reserve_room:
  assumes "ws_inv ws" and "ws_r ws = None" and "8 \<le> unat mb" and "8 \<le> ws_e ws - ws_f ws"
  shows "\<exists>n. WS_Reserve ws mb = Some (ws\<lparr>ws_r := Some (ws_f ws + rx_room ws (ws_f ws) mb + 1)\<rparr>, n)"
    "ws_inv (ws\<lparr>ws_r := Some (ws_f ws + rx_room ws (ws_f ws) mb + 1)\<rparr>)"
proof -
  from WS_Reserve_eq [OF assms(1,2), of mb] assms(3) obtain n where
    n: "WS_Reserve ws mb = Some (ws\<lparr>ws_r := Some (ws_f ws + unat n)\<rparr>, n)" "unat n = 8 * (min (unat mb) (ws_e ws - ws_f ws) div 8)"
    by (auto simp: unat_eq_0 split: if_splits)
  have "unat n = rx_room ws (ws_f ws) mb + 1" using n(2) assms(3,4) by (simp add: rx_room_def)
  then show *: "\<exists>n. WS_Reserve ws mb = Some (ws\<lparr>ws_r := Some (ws_f ws + rx_room ws (ws_f ws) mb + 1)\<rparr>, n)" using n(1) by (auto simp: add.assoc)
  then show "ws_inv (ws\<lparr>ws_r := Some (ws_f ws + rx_room ws (ws_f ws) mb + 1)\<rparr>)"
    using WS_Reserve_SomeD(4) assms(1,2) by (fastforce simp: ws_inv_def)
qed

text \<open>Between two requests: the workspace is free and the pipeline would fit in front.\<close>

definition between :: "ws \<Rightarrow> addr \<Rightarrow> u32 \<Rightarrow> htc \<Rightarrow> bool" where
  "between ws b mb h \<longleftrightarrow> (\<exists>f. htc_ws h = ws\<lparr>ws_f := f, ws_r := None\<rparr>) \<and> ws_inv (htc_ws h) \<and> maxbytes h = mb \<and>
     ws_s ws \<le> b \<and> 8 dvd b \<and> 8 \<le> ws_e ws - b \<and> 8 \<le> unat mb \<and> length (pipe_s h) \<le> rx_room ws b mb"

lemma next_request_header:
  assumes b: "between ws b mb h" and u: "pipe_s h @ unread (htc_sock h) = t @ rest" and t: "whole_header t" and len: "length t \<le> rx_room ws b mb"
  shows "\<exists>h'. next_request b h = Some (h', 1) \<and> rx_s h' = t \<and> pipe_s h' @ unread (htc_sock h') = rest \<and> between ws b mb h'"
proof -
  let ?R = "rx_room ws b mb"
  define ws1 where "ws1 = (htc_ws h)\<lparr>ws_f := b\<rparr>"
  obtain f where f: "htc_ws h = ws\<lparr>ws_f := f, ws_r := None\<rparr>" "ws_inv (htc_ws h)" "maxbytes h = mb" "ws_s ws \<le> b" "8 dvd b" "8 \<le> ws_e ws - b" "8 \<le> unat mb"
    "length (pipe_s h) \<le> ?R" using b by (auto simp: between_def)
  have g: "ws_r (htc_ws h) = None" "ws_s (htc_ws h) \<le> b" "b < ws_e (htc_ws h)" using f by simp_all
  note e = WS_Reset_to [OF f(2) g f(5), folded ws1_def]
  have w1: "ws_f ws1 = b" "ws_r ws1 = None" "ws_e ws1 = ws_e ws" "rx_room ws1 b mb = ?R" using f(1) by (simp_all add: ws1_def rx_room_def)
  define ws2 where "ws2 = ws1\<lparr>ws_r := Some (b + ?R + 1)\<rparr>"
  have r: "\<exists>n. WS_Reserve ws1 mb = Some (ws2, n)" "ws_inv ws2" using reserve_room [OF e(2) w1(2) f(7)] f(6) w1 by (simp_all add: ws2_def)
  define h1 where "h1 = h\<lparr>htc_ws := ws2, rx_b := b, rx_s := pipe_s h, pipeline := None\<rparr>"
  have rc: "receiving ?R h1" using r(2) f(8) w1 by (simp add: receiving_def h1_def ws2_def)
  have re: "HTC_Reinit (h\<lparr>htc_ws := ws1\<rparr>) = HTC_Complete h1"
    using r(1) f(3,8) w1 by (cases "pipeline h"; cases h) (auto simp: HTC_Reinit_def h1_def rx_store_def pipe_s_def ws2_def)
  have u1: "rx_s h1 @ unread (htc_sock h1) = t @ rest" using u by (simp add: h1_def)
  have bt: "between ws b mb h'" if "received ?R k h'" "htc_ws k = ws2" "maxbytes k = mb" for k h'
    using that f by (auto simp: received_def between_def ws2_def ws1_def)
  show ?thesis
  proof (cases "length (rx_s h1) < length t")
    case True
    have "HTC_Complete h1 = Some (h1, 0)"
    proof (cases "rx_s h1 = []")
      case True
      then show ?thesis by (simp add: HTC_Complete_def htc_header_complete_def Let_def)
    next
      case ne: False
      then obtain us where us: "t = rx_s h1 @ us" "us \<noteq> []" using u1 True by (auto simp: append_eq_append_conv2)
      have "whole_header (rx_s h1 @ us)" using t us(1) by simp
      from whole_header_prefix [OF this ne us(2)] show ?thesis by (rule HTC_Complete_more)
    qed
    moreover obtain h' where "rx_loop h1 = Some (h', 1)" "rx_s h' = t" "pipe_s h' @ unread (htc_sock h') = rest" "received ?R h1 h'"
      using rx_loop_header [OF rc u1 t len True] by blast
    ultimately show ?thesis using bt [of h1 h'] e(1) re f(3) by (simp add: next_request_def h1_def)
  next
    case False
    then obtain us where us: "rx_s h1 = t @ us" "us @ unread (htc_sock h1) = rest" using u1 by (auto simp: append_eq_append_conv2)
    have "htc_header_complete (rx_s h1) = (rx_s h1, length t)" using whole_header_append [OF t] us(1) by simp
    then obtain h' where "HTC_Complete h1 = Some (h', 1)" "rx_s h' = take (length t) (rx_s h1)" "pipe_s h' = drop (length t) (rx_s h1)"
      "htc_sock h' = htc_sock h1" "received ?R h1 h'" using HTC_Complete_done [OF rc] t False by (force simp: whole_header_def)
    then show ?thesis using bt [of h1 h'] e(1) re f(3) us by (simp add: next_request_def h1_def)
  qed
qed

lemma requests_between:
  assumes "between ws b mb h" and "rx_s h = t" and "pipe_s h @ unread (htc_sock h) = concat ts @ rest"
    and "\<forall>t \<in> set ts. whole_header t \<and> length t \<le> rx_room ws b mb"
  shows "requests b (Suc (length ts)) (h, 1) = Some (t # ts)"
  using assms
proof (induction ts arbitrary: h t)
  case Nil
  then show ?case by simp
next
  case (Cons t' ts)
  have u: "pipe_s h @ unread (htc_sock h) = t' @ concat ts @ rest" using Cons.prems(3) by simp
  from next_request_header [OF Cons.prems(1) u] Cons.prems(4) obtain h' where
    h': "next_request b h = Some (h', 1)" "rx_s h' = t'" "pipe_s h' @ unread (htc_sock h') = concat ts @ rest" "between ws b mb h'" by auto
  then show ?case using Cons.IH [OF h'(4,2,3)] Cons.prems(2,4) by simp
qed

text \<open>C36. However the network cuts the bytes of a connection into pieces, a session receives exactly the headers that were sent, in
  order, provided each of them is complete and fits the receive buffer: what arrives early waits in the pipeline, no byte is lost or seen twice, and nothing is written behind the reservation.\<close>

theorem requests_in_order:
  assumes "ws_inv ws" and "ws_r ws = None" and "8 \<le> unat req_size" and "8 \<le> ws_e ws - ws_f ws"
    and "concat (pieces fd) = concat ts @ rest" and "ts \<noteq> []"
    and "\<forall>t \<in> set ts. whole_header t \<and> length t \<le> rx_room ws (ws_f ws) req_size"
  shows "connection ws fd req_size hdr_len (length ts) = Some ts"
proof -
  let ?b = "ws_f ws" and ?R = "rx_room ws (ws_f ws) req_size"
  obtain t us where ts: "ts = t # us" using assms(6) by (cases ts) auto
  have ok: "ws_s ws \<le> ?b" "8 dvd ?b" "ws_ok ws" using assms(1) by (auto simp: ws_inv_def ws_ok_def)
  note r = reserve_room [OF assms(1,2,3,4)]
  define h where "h = \<lparr>rx_b = ?b, rx_s = [], maxhdr = hdr_len, htc_ws = ws\<lparr>ws_r := Some (?b + ?R + 1)\<rparr>, htc_sock = fd, maxbytes = req_size, pipeline = None\<rparr>"
  have i: "HTC_Init ws fd req_size hdr_len = Some h" using r(1) by (auto simp: HTC_Init_def rx_store_def h_def)
  have rc: "receiving ?R h" using r(2) by (simp add: receiving_def h_def)
  have t: "whole_header t" "length t \<le> ?R" using assms(7) ts by simp_all
  have u: "rx_s h @ unread (htc_sock h) = t @ concat us @ rest" using assms(5) ts by (simp add: h_def unread_def)
  have l: "length (rx_s h) < length t" using t(1) by (simp add: h_def whole_header_def)
  from rx_loop_header [OF rc u t l] obtain h' where
    h': "rx_loop h = Some (h', 1)" "rx_s h' = t" "pipe_s h' @ unread (htc_sock h') = concat us @ rest" "received ?R h h'" by blast
  have "between ws ?b req_size h'" using h'(4) ok assms(3,4) by (auto simp: received_def between_def h_def)
  from requests_between [OF this h'(2,3)] assms(7) ts have "requests ?b (Suc (length us)) (h', 1) = Some ts" by simp
  moreover have "WS_Snapshot ws = Some ?b" using ok(3) assms(2) by (simp add: WS_Snapshot_def WS_Assert_ok)
  ultimately show ?thesis using i h'(1) ts by (simp add: connection_def)
qed

definition wit_get :: string where
  "wit_get = ''GET / HTTP/1.1'' @ [CR, LF, CR, LF]"

theorem requests_in_order_witness:
  "connection \<lparr>ws_overflow = 0, ws_s = 64, ws_f = 64, ws_r = None, ws_e = 320\<rparr>
     \<lparr>pieces = [''GE'', ''T / HTTP/1.1'' @ [CR, LF, CR], [LF] @ wit_get], rd_error = False\<rparr> 128 64 2 = Some [wit_get, wit_get]"
proof -
  let ?ws = "\<lparr>ws_overflow = 0, ws_s = 64, ws_f = 64, ws_r = None, ws_e = 320\<rparr>"
    and ?fd = "\<lparr>pieces = [''GE'', ''T / HTTP/1.1'' @ [CR, LF, CR], [LF] @ wit_get], rd_error = False\<rparr>"
  have w: "whole_header wit_get" "length wit_get = 18" by code_simp+
  have "\<forall>t \<in> set [wit_get, wit_get]. whole_header t \<and> length t \<le> rx_room ?ws (ws_f ?ws) 128" using w by (simp add: rx_room_def)
  moreover have "concat (pieces ?fd) = concat [wit_get, wit_get] @ []" by (simp add: wit_get_def)
  moreover have "ws_inv ?ws" "ws_r ?ws = None" "8 \<le> unat (128 :: u32)" "8 \<le> ws_e ?ws - ws_f ?ws" by (simp_all add: ws_inv_def ws_ok_def)
  ultimately have "connection ?ws ?fd 128 64 (length [wit_get, wit_get]) = Some [wit_get, wit_get]" by (intro requests_in_order [where rest = "[]"]) (assumption | simp)+
  moreover have "length [wit_get, wit_get] = 2" by simp
  ultimately show ?thesis by metis
qed

text \<open>A NUL hides the end of the header from \<open>strchr\<close>: such a request is never complete.\<close>

lemma nul_hides_header: "htc_header_complete (''GET / HTTP/1.1'' @ [NUL, CR, LF, CR, LF]) = (''GET / HTTP/1.1'' @ [NUL, CR, LF, CR, LF], 0)"
  by code_simp

end
