(* ===== verification/Fetch.thy ===== *)
theory Fetch
  imports Htc
begin

text \<open>
  bin/varnishd/cache_fetch.c: the body of a response from the backend into the storage of an object, by length, in
  chunks or until the backend closes.  A fetch processor (\<open>struct vfp\<close>) is a record of three functions;
  \<open>vfp_nop\<close>, which stores the bytes as they are, is modelled, those for gzip and ESI are not.  \<open>STV_alloc\<close>
  is the function \<open>stv_alloc\<close> of the environment: what the \<open>k\<close>-th call returns for a size; \<open>stream_poll\<close> is what
  \<open>RES_StreamPoll\<close> does to the object while it is streamed.
\<close>

section \<open>Storage\<close>

record storage =
  st_space :: nat
  st_data :: string

record fetch =
  f_htc :: htc
  store :: "storage list"
  obj_len :: nat
  fetch_failed :: bool
  n_alloc :: nat
  obj_http :: http

record fetch_env =
  fetchfrag :: nat
  fetch_chunksize :: nat
  stv_alloc :: "nat \<Rightarrow> nat \<Rightarrow> nat option"
  do_stream :: bool
  stream_poll :: "fetch \<Rightarrow> fetch"

definition FetchError :: "fetch \<Rightarrow> fetch \<times> int" where
  "FetchError f = (f\<lparr>fetch_failed := True\<rparr>, -1)"

definition st_room :: "fetch \<Rightarrow> nat" where
  "st_room f = (if store f = [] then 0 else st_space (last (store f)) - length (st_data (last (store f))))"

text \<open>The last segment is the one to fill then; the second component is false for NULL.\<close>

definition FetchStorage :: "fetch_env \<Rightarrow> fetch \<Rightarrow> nat \<Rightarrow> fetch \<times> bool" where
  "FetchStorage e f sz =
     (if st_room f > 0 then (f, True)
      else (let l = (if fetchfrag e = 0 then (if sz = 0 then fetch_chunksize e * 1024 else sz) else fetchfrag e);
                f' = f\<lparr>n_alloc := n_alloc f + 1\<rparr>
            in case stv_alloc e (n_alloc f) l of
                 None \<Rightarrow> (fst (FetchError f'), False)
               | Some spc \<Rightarrow> (f'\<lparr>store := store f @ [\<lparr>st_space = spc, st_data = []\<rparr>]\<rparr>, True)))"

section \<open>Fetch processors\<close>

record vfp =
  vfp_begin :: "fetch_env \<Rightarrow> fetch \<Rightarrow> nat \<Rightarrow> fetch"
  vfp_bytes :: "fetch_env \<Rightarrow> fetch \<Rightarrow> nat \<Rightarrow> fetch \<times> int"
  vfp_end :: "fetch_env \<Rightarrow> fetch \<Rightarrow> fetch \<times> int"

definition VFP_Begin :: "vfp \<Rightarrow> fetch_env \<Rightarrow> fetch \<Rightarrow> nat \<Rightarrow> fetch \<times> int" where
  "VFP_Begin v e f estimate = (let f = vfp_begin v e f estimate in (f, if fetch_failed f then -1 else 0))"

definition VFP_Bytes :: "vfp \<Rightarrow> fetch_env \<Rightarrow> fetch \<Rightarrow> nat \<Rightarrow> (fetch \<times> int) option" where
  "VFP_Bytes v e f sz = do { vassert (\<not> fetch_failed f); Some (vfp_bytes v e f sz) }"

definition VFP_End :: "vfp \<Rightarrow> fetch_env \<Rightarrow> fetch \<Rightarrow> fetch \<times> int" where
  "VFP_End v e f = vfp_end v e f"

definition vfp_nop_begin :: "fetch_env \<Rightarrow> fetch \<Rightarrow> nat \<Rightarrow> fetch" where
  "vfp_nop_begin e f estimate = (if estimate > 0 then fst (FetchStorage e f estimate) else f)"

definition st_append :: "storage list \<Rightarrow> string \<Rightarrow> storage list" where
  "st_append l b = butlast l @ [(last l)\<lparr>st_data := st_data (last l) @ b\<rparr>]"

function vfp_nop_bytes :: "fetch_env \<Rightarrow> fetch \<Rightarrow> nat \<Rightarrow> fetch \<times> int" where
  "vfp_nop_bytes e f bytes =
     (if bytes = 0 then (f, 1)
      else (case FetchStorage e f 0 of
          (f, False) \<Rightarrow> (f, -1)
        | (f, True) \<Rightarrow> (case HTC_Read (f_htc f) (min (st_room f) bytes) of
              (h, None) \<Rightarrow> (f\<lparr>f_htc := h\<rparr>, -1)
            | (h, Some []) \<Rightarrow> (f\<lparr>f_htc := h\<rparr>, 0)
            | (h, Some (c # b)) \<Rightarrow>
                (let f = f\<lparr>f_htc := h, store := st_append (store f) (c # b), obj_len := obj_len f + length (c # b)\<rparr>;
                     f = (if do_stream e then stream_poll e f else f)
                 in vfp_nop_bytes e f (bytes - length (c # b))))))"
  by pat_completeness auto

termination by (relation "measure (\<lambda>(e, f, n). n)") auto

declare vfp_nop_bytes.simps [simp del]

text \<open>\<open>STV_trim\<close> gives back what is unused.\<close>

definition vfp_nop_end :: "fetch_env \<Rightarrow> fetch \<Rightarrow> fetch \<times> int" where
  "vfp_nop_end e f =
     (if store f = [] then (f, 0)
      else if st_data (last (store f)) = [] then (f\<lparr>store := butlast (store f)\<rparr>, 0)
      else if st_room f > 0 then (f\<lparr>store := butlast (store f) @ [(last (store f))\<lparr>st_space := length (st_data (last (store f)))\<rparr>]\<rparr>, 0)
      else (f, 0))"

definition vfp_nop :: vfp where
  "vfp_nop = \<lparr>vfp_begin = vfp_nop_begin, vfp_bytes = vfp_nop_bytes, vfp_end = vfp_nop_end\<rparr>"

section \<open>Numbers\<close>

text \<open>\<open>strtoumax\<close> of the C library: the value and what is behind the number.\<close>

definition strtoumax :: "string \<Rightarrow> nat \<Rightarrow> u64 \<times> string" where
  "strtoumax nbr base =
     (let s0 = cstr nbr; s = dropWhile c_isspace s0;
          neg = (cchar s 0 = CHR ''-'');
          s = (if cchar s 0 = CHR ''-'' \<or> cchar s 0 = CHR ''+'' then drop 1 s else s);
          s = (if base = 16 \<and> cchar s 0 = CHR ''0'' \<and> (cchar s 1 = CHR ''x'' \<or> cchar s 1 = CHR ''X'') \<and> hexval (cchar s 2) < 16 then drop 2 s else s);
          d = takeWhile (\<lambda>c. hexval c < base) s;
          m = digits_val base 0 d
      in if d = [] then (0, s0)
         else (if m > 2 ^ 64 - 1 then - 1 else if neg then - of_nat m else of_nat m, drop (length d) s))"

definition fetch_number :: "string \<Rightarrow> nat \<Rightarrow> int" where
  "fetch_number nbr radix =
     (if cchar nbr 0 = NUL then -1
      else (let (cll, q) = strtoumax nbr radix; cl = sint cll in
            if cchar q 0 \<noteq> NUL then -1
            else if (word_of_int cl :: u64) \<noteq> cll then -1
            else cl))"

section \<open>Bodies\<close>

definition fetch_straight :: "vfp \<Rightarrow> fetch_env \<Rightarrow> fetch \<Rightarrow> int \<Rightarrow> (fetch \<times> int) option" where
  "fetch_straight v e f cl =
     (if cl < 0 then Some (FetchError f)
      else if cl = 0 then Some (f, 0)
      else do {
        (f, i) \<leftarrow> VFP_Bytes v e f (nat cl);
        Some (if i \<le> 0 then FetchError f else (f, 0))
      })"

text \<open>\<open>HTC_Read\<close> of one byte, \<open>None\<close> when it returns 0 or less.\<close>

definition read1 :: "fetch \<Rightarrow> fetch \<times> char option" where
  "read1 f = (case HTC_Read (f_htc f) 1 of
       (h, Some (c # b)) \<Rightarrow> (f\<lparr>f_htc := h\<rparr>, Some c)
     | (h, _) \<Rightarrow> (f\<lparr>f_htc := h\<rparr>, None))"

text \<open>What is still to be read.\<close>

definition pending :: "htc \<Rightarrow> string" where
  "pending h = pipe_s h @ unread (htc_sock h)"

lemma HTC_Read_spec:
  assumes "HTC_Read h n = (h', r)" and "n > 0"
  shows "case r of None \<Rightarrow> rd_error (htc_sock h) \<and> pending h' = [] \<and> length (pending h) < n
    | Some b \<Rightarrow> pending h = b @ pending h' \<and> length b \<le> n \<and> (b = [] \<longrightarrow> pending h = [] \<and> \<not> rd_error (htc_sock h))"
    "rd_error (htc_sock h') = rd_error (htc_sock h)"
proof -
  define p where "p = pipe_s h"
  define h1 where "h1 = (case pipeline h of None \<Rightarrow> h | Some p \<Rightarrow> h\<lparr>pipeline := if drop n p = [] then None else Some (drop n p)\<rparr>)"
  have h1: "pipe_s h1 = drop n p" "htc_sock h1 = htc_sock h" by (auto simp: h1_def pipe_s_def p_def split: option.splits)
  have e: "HTC_Read h n = (if n - length p = 0 then (h1, Some (take n p))
      else (case sock_read (htc_sock h) (n - length p) of (fd, None) \<Rightarrow> (h1\<lparr>htc_sock := fd\<rparr>, None) | (fd, Some b) \<Rightarrow> (h1\<lparr>htc_sock := fd\<rparr>, Some (take n p @ b))))"
  proof -
    have "n - length (take n p) = n - length p" by (simp add: min_def)
    moreover have "(case pipeline h of None \<Rightarrow> [] | Some p \<Rightarrow> p) = p" by (simp add: p_def pipe_s_def)
    ultimately show ?thesis using h1(2) unfolding HTC_Read_def Let_def h1_def [symmetric] by (simp split: option.splits)
  qed
  have "(case r of None \<Rightarrow> rd_error (htc_sock h) \<and> pending h' = [] \<and> length (pending h) < n
    | Some b \<Rightarrow> pending h = b @ pending h' \<and> length b \<le> n \<and> (b = [] \<longrightarrow> pending h = [] \<and> \<not> rd_error (htc_sock h))) \<and> rd_error (htc_sock h') = rd_error (htc_sock h)"
  proof (cases "n \<le> length p")
    case True
    have "h' = h1" "r = Some (take n p)" using True e assms(1) by simp_all
    then show ?thesis using h1 True assms(2) by (auto simp: pending_def p_def [symmetric])
  next
    case False
    obtain fd b where fd: "sock_read (htc_sock h) (n - length p) = (fd, b)" by fastforce
    have p0: "pipe_s (h1\<lparr>htc_sock := fd\<rparr>) = []" using h1(1) False by (simp add: pipe_s_def)
    note sp = sock_read_spec [OF fd]
    show ?thesis
      using sp False e assms fd p0 h1 by (cases b) (auto simp: pending_def p_def [symmetric])
  qed
  then show "case r of None \<Rightarrow> rd_error (htc_sock h) \<and> pending h' = [] \<and> length (pending h) < n
    | Some b \<Rightarrow> pending h = b @ pending h' \<and> length b \<le> n \<and> (b = [] \<longrightarrow> pending h = [] \<and> \<not> rd_error (htc_sock h))"
    "rd_error (htc_sock h') = rd_error (htc_sock h)" by blast+
qed

lemma read1_end: "pending (f_htc f) = [] \<Longrightarrow> \<exists>h. read1 f = (f\<lparr>f_htc := h\<rparr>, None) \<and> pending h = []"
proof -
  obtain h r where r: "HTC_Read (f_htc f) 1 = (h, r)" by fastforce
  show "pending (f_htc f) = [] \<Longrightarrow> ?thesis" using HTC_Read_spec(1) [OF r] r by (auto simp: read1_def split: option.splits list.splits)
qed

lemma read1_byte: "pending (f_htc f) = c # s \<Longrightarrow> \<exists>h. read1 f = (f\<lparr>f_htc := h\<rparr>, Some c) \<and> pending h = s"
proof -
  obtain h r where r: "HTC_Read (f_htc f) 1 = (h, r)" by fastforce
  show "pending (f_htc f) = c # s \<Longrightarrow> ?thesis" using HTC_Read_spec(1) [OF r] r by (auto simp: read1_def split: option.splits list.splits)
qed

lemma read1_shorter: "read1 f = (f', Some c) \<Longrightarrow> length (pending (f_htc f')) < length (pending (f_htc f))"
  using read1_end [of f] read1_byte [of f] by (cases "pending (f_htc f)") auto

text \<open>The three loops that read a chunk header: leading white space, hex digits (leading zeros are skipped), trailing white space.\<close>

function skip_lws :: "fetch \<Rightarrow> fetch \<times> char option" where
  "skip_lws f = (case read1 f of (f, None) \<Rightarrow> (f, None) | (f, Some c) \<Rightarrow> if vct_islws c then skip_lws f else (f, Some c))"
  by pat_completeness auto

termination by (relation "measure (\<lambda>f. length (pending (f_htc f)))") (auto dest: read1_shorter [OF sym])

datatype hexres = HexEnd | HexLong | HexStop string char

definition BUF_SIZE :: nat where "BUF_SIZE = 20"

function hex_loop :: "fetch \<Rightarrow> string \<Rightarrow> fetch \<times> hexres" where
  "hex_loop f buf =
     (if length buf \<ge> BUF_SIZE then (f, HexLong)
      else (case read1 f of
          (f, None) \<Rightarrow> (f, HexEnd)
        | (f, Some c) \<Rightarrow>
            if length buf = 1 \<and> buf ! 0 = CHR ''0'' \<and> c = CHR ''0'' then hex_loop f buf
            else if vct_ishex c then hex_loop f (buf @ [c])
            else (f, HexStop buf c)))"
  by pat_completeness auto

termination by (relation "measure (\<lambda>(f, buf). length (pending (f_htc f)))") (auto dest: read1_shorter [OF sym])

function skip_trailing :: "fetch \<Rightarrow> char \<Rightarrow> fetch \<times> char option" where
  "skip_trailing f c =
     (if vct_islws c \<and> c \<noteq> LF then (case read1 f of (f, None) \<Rightarrow> (f, None) | (f, Some c) \<Rightarrow> skip_trailing f c)
      else (f, Some c))"
  by pat_completeness auto

termination by (relation "measure (\<lambda>(f, c). length (pending (f_htc f)))") (auto dest: read1_shorter [OF sym])

declare skip_lws.simps [simp del] hex_loop.simps [simp del] skip_trailing.simps [simp del]

text \<open>The header of a chunk: its length, or \<open>None\<close> when \<open>fetch_chunked\<close> returns -1.\<close>

definition chunk_header :: "fetch \<Rightarrow> fetch \<times> int option" where
  "chunk_header f = (case skip_lws f of
       (f, None) \<Rightarrow> (f, None)
     | (f, Some c0) \<Rightarrow>
         if \<not> vct_ishex c0 then (fst (FetchError f), None)
         else (case hex_loop f [c0] of
             (f, HexEnd) \<Rightarrow> (f, None)
           | (f, HexLong) \<Rightarrow> (fst (FetchError f), None)
           | (f, HexStop buf c) \<Rightarrow> (case skip_trailing f c of
                 (f, None) \<Rightarrow> (f, None)
               | (f, Some c) \<Rightarrow>
                   if c \<noteq> LF then (fst (FetchError f), None)
                   else (let cl = fetch_number buf 16 in
                         if cl < 0 then (fst (FetchError f), None) else (f, Some cl)))))"

text \<open>The line end behind the bytes of a chunk.\<close>

definition chunk_tail :: "fetch \<Rightarrow> fetch \<times> bool" where
  "chunk_tail f = (case read1 f of
       (f, None) \<Rightarrow> (f, False)
     | (f, Some c) \<Rightarrow> (case (if c = CR then read1 f else (f, Some c)) of
           (f, None) \<Rightarrow> (f, False)
         | (f, Some c) \<Rightarrow> if c \<noteq> LF then (fst (FetchError f), False) else (f, True)))"

partial_function (option) fetch_chunked_f :: "vfp \<Rightarrow> fetch_env \<Rightarrow> fetch \<Rightarrow> (fetch \<times> int) option" where
  "fetch_chunked_f v e f =
     (case chunk_header f of
        (f, None) \<Rightarrow> Some (f, -1)
      | (f, Some cl) \<Rightarrow> do {
          (f, i) \<leftarrow> (if cl > 0 then VFP_Bytes v e f (nat cl) else Some (f, 1));
          if i \<le> 0 then Some (f, -1)
          else (case chunk_tail f of (f, nl) \<Rightarrow>
              if \<not> nl then Some (f, -1)
              else if cl > 0 then fetch_chunked_f v e f
              else Some (f, 0))
        })"

definition SSIZE_MAX :: nat where "SSIZE_MAX = 2 ^ 63 - 1"

definition fetch_eof_f :: "vfp \<Rightarrow> fetch_env \<Rightarrow> fetch \<Rightarrow> (fetch \<times> int) option" where
  "fetch_eof_f v e f = do { (f, i) \<leftarrow> VFP_Bytes v e f SSIZE_MAX; Some (f, if i < 0 then -1 else 0) }"

text \<open>What becomes of the connection to the backend.\<close>

datatype vbc_end = CloseFd | RecycleFd

text \<open>
  The result is the connection's end and what \<open>FetchBody\<close> returns (0 or a line number).  \<open>oc_null\<close> says whether
  \<open>sp->objcore\<close> is NULL or flagged pass.
\<close>

definition with_vfp :: "vfp \<Rightarrow> fetch_env \<Rightarrow> fetch \<Rightarrow> nat \<Rightarrow> (fetch \<Rightarrow> (fetch \<times> int) option) \<Rightarrow> (fetch \<times> int \<times> bool) option" where
  "with_vfp v e f cl get = do {
     let (f, cls) = VFP_Begin v e f cl;
     (f, cls) \<leftarrow> (if cls = 0 then get f else Some (f, cls));
     let (f, i) = VFP_End v e f;
     Some (f, if i \<noteq> 0 then -1 else cls, True)
   }"

text \<open>The switch over the body status: \<open>cls\<close> and \<open>mklen\<close>.\<close>

definition body_fetch :: "vfp \<Rightarrow> fetch_env \<Rightarrow> body_status \<Rightarrow> string option \<Rightarrow> fetch \<Rightarrow> (fetch \<times> int \<times> bool) option" where
  "body_fetch v e bs hcl f = (case bs of
       BS_NONE \<Rightarrow> Some (f, 0, False)
     | BS_ZERO \<Rightarrow> Some (f, 0, True)
     | BS_LENGTH \<Rightarrow> do { hcl \<leftarrow> hcl; let cl = fetch_number hcl 10; with_vfp v e f (nat cl) (\<lambda>f. fetch_straight v e f cl) }
     | BS_CHUNKED \<Rightarrow> with_vfp v e f 0 (fetch_chunked_f v e)
     | BS_EOF \<Rightarrow> with_vfp v e f 0 (fetch_eof_f v e)
     | BS_ERROR \<Rightarrow> Some (f, 1, False))"

definition stored :: "fetch \<Rightarrow> string" where
  "stored f = concat (map st_data (store f))"

definition FetchBody :: "vfp option \<Rightarrow> fetch_env \<Rightarrow> body_status \<Rightarrow> string option \<Rightarrow> bool \<Rightarrow> bool \<Rightarrow> fetch \<Rightarrow> (fetch \<times> vbc_end \<times> bool) option" where
  "FetchBody vo e bs hcl do_close' oc_null f = do {
     let v = (case vo of None \<Rightarrow> vfp_nop | Some v \<Rightarrow> v);
     vassert (store f = []);
     (f, cls, mklen) \<leftarrow> body_fetch v e bs hcl (f\<lparr>fetch_failed := False\<rparr>);
     let (f, i) = vfp_nop_end e f;
     vassert (i = 0);
     if bs = BS_ERROR then Some (f, CloseFd, False)
     else if cls < 0 then Some (f\<lparr>store := [], obj_len := 0\<rparr>, CloseFd, False)
     else do {
       vassert (\<not> fetch_failed f);
       let cls = (if cls = 0 \<and> do_close' then 1 else cls);
       vassert (if oc_null then length (stored f) \<le> obj_len f else length (stored f) = obj_len f);
       h \<leftarrow> (if mklen then do {
               h \<leftarrow> http_Unset (obj_http f) H_Content_Length;
               http_PrintfHeader h (''Content-Length: '' @ dec_digits (obj_len f))
             } else Some (obj_http f));
       Some (f\<lparr>obj_http := h\<rparr>, if cls \<noteq> 0 then CloseFd else RecycleFd, True)
     }
   }"

section \<open>Storing bytes\<close>

text \<open>Storage is to be had, and the object is not streamed.\<close>

definition plain_env :: "fetch_env \<Rightarrow> bool" where
  "plain_env e \<longleftrightarrow> \<not> do_stream e \<and> (\<forall>k l. \<exists>n. stv_alloc e k l = Some n \<and> n > 0)"

text \<open>What only reads, stores and counts: the bytes counted are those stored.\<close>

definition counted :: "fetch \<Rightarrow> fetch \<Rightarrow> bool" where
  "counted f f' \<longleftrightarrow> fetch_failed f' = fetch_failed f \<and> obj_http f' = obj_http f \<and>
     obj_len f' + length (stored f) = obj_len f + length (stored f')"

lemma counted_refl [simp]: "counted f f"
  by (simp add: counted_def)

lemma counted_trans: "counted f g \<Longrightarrow> counted g h \<Longrightarrow> counted f h"
  by (auto simp: counted_def)

lemma FetchStorage_ok:
  assumes "plain_env e"
  shows "\<exists>f'. FetchStorage e f sz = (f', True) \<and> st_room f' > 0 \<and> store f' \<noteq> [] \<and> stored f' = stored f \<and> f_htc f' = f_htc f \<and> counted f f'"
proof (cases "st_room f > 0")
  case True
  then have "store f \<noteq> []" by (auto simp: st_room_def)
  then show ?thesis using True by (simp add: FetchStorage_def)
next
  case False
  define l where "l = (if fetchfrag e = 0 then (if sz = 0 then fetch_chunksize e * 1024 else sz) else fetchfrag e)"
  obtain n where n: "stv_alloc e (n_alloc f) l = Some n" "n > 0" using assms by (auto simp: plain_env_def)
  show ?thesis using False n unfolding FetchStorage_def l_def [symmetric] by (simp add: Let_def st_room_def stored_def counted_def)
qed

lemma stored_append: "store f \<noteq> [] \<Longrightarrow> stored (f\<lparr>f_htc := h, store := st_append (store f) b, obj_len := n\<rparr>) = stored f @ b"
proof -
  assume "store f \<noteq> []"
  then obtain l x where "store f = l @ [x]" by (cases "store f" rule: rev_exhaust) auto
  then show ?thesis by (simp add: stored_def st_append_def)
qed

lemma vfp_nop_bytes_spec:
  assumes "plain_env e" and "vfp_nop_bytes e f n = (f', i)"
  shows "counted f f' \<and> (if n \<le> length (pending (f_htc f))
    then i = 1 \<and> stored f' = stored f @ take n (pending (f_htc f)) \<and> pending (f_htc f') = drop n (pending (f_htc f))
    else i \<le> 0 \<and> pending (f_htc f') = [] \<and> (\<not> rd_error (htc_sock (f_htc f)) \<longrightarrow> i = 0 \<and> stored f' = stored f @ pending (f_htc f)))"
  using assms
proof (induction e f n arbitrary: f' i rule: vfp_nop_bytes.induct)
  case (1 e f n)
  show ?case
  proof (cases "n = 0")
    case True
    then show ?thesis using 1(3) by (simp add: vfp_nop_bytes.simps)
  next
    case False
    obtain g where g: "FetchStorage e f 0 = (g, True)" "st_room g > 0" "store g \<noteq> []" "stored g = stored f" "f_htc g = f_htc f" "counted f g"
      using FetchStorage_ok [OF 1(2)] by blast
    define k where "k = min (st_room g) n"
    have k: "k > 0" "k \<le> n" using g(2) False by (auto simp: k_def)
    obtain h r where r: "HTC_Read (f_htc g) k = (h, r)" by fastforce
    note sp = HTC_Read_spec [OF r k(1)]
    show ?thesis
    proof (cases "r = None \<or> r = Some []")
      case True
      then have "f' = g\<lparr>f_htc := h\<rparr>" "i \<le> 0" "r = Some [] \<longrightarrow> i = 0"
        using 1(3) g(1) r False by (auto simp: vfp_nop_bytes.simps k_def)
      moreover have "stored (g\<lparr>f_htc := h\<rparr>) = stored g" by (simp add: stored_def)
      ultimately show ?thesis using sp g(4,5,6) k True False by (auto simp: counted_def)
    next
      case r': False
      then obtain c b where cb: "r = Some (c # b)" by (cases r; cases "the r") auto
      have pn: "pending (f_htc f) = (c # b) @ pending h" "length (c # b) \<le> n" "rd_error (htc_sock h) = rd_error (htc_sock (f_htc f))"
        using sp cb g(5) k by auto
      define g1 where "g1 = g\<lparr>f_htc := h, store := st_append (store g) (c # b), obj_len := obj_len g + length (c # b)\<rparr>"
      have ns: "\<not> do_stream e" using 1(2) by (simp add: plain_env_def)
      have st: "stored g1 = stored f @ c # b" using stored_append [OF g(3)] g(4) by (simp add: g1_def)
      have e: "vfp_nop_bytes e f n = vfp_nop_bytes e g1 (n - length (c # b))"
        using g(1) r cb False ns by (subst vfp_nop_bytes.simps) (simp add: k_def g1_def Let_def)
      have cg: "counted f g1" using g(6) pn(3) st g(4) by (auto simp: counted_def g1_def)
      have "counted g1 f' \<and> (if n - length (c # b) \<le> length (pending h)
        then i = 1 \<and> stored f' = stored g1 @ take (n - length (c # b)) (pending h) \<and> pending (f_htc f') = drop (n - length (c # b)) (pending h)
        else i \<le> 0 \<and> pending (f_htc f') = [] \<and> (\<not> rd_error (htc_sock h) \<longrightarrow> i = 0 \<and> stored f' = stored g1 @ pending h))"
        using 1(1) [OF False g(1) [symmetric] refl, of h r] 1(2,3) r cb ns e g1_def by (auto simp: k_def)
      moreover have "take n (pending (f_htc f)) = (c # b) @ take (n - length (c # b)) (pending h)" "drop n (pending (f_htc f)) = drop (n - length (c # b)) (pending h)"
        unfolding pn(1) take_append drop_append using pn(2) by simp_all
      moreover have "n \<le> length (pending (f_htc f)) \<longleftrightarrow> n - length (c # b) \<le> length (pending h)" using pn(1,2) by auto
      ultimately show ?thesis using cg counted_trans [of f g1 f'] st pn(1,3) by (auto split: if_splits)
    qed
  qed
qed

section \<open>Chunk headers\<close>

text \<open>The same on a string: the length of the chunk and what is behind the line end.\<close>

definition parse_header :: "string \<Rightarrow> (nat \<times> string) option" where
  "parse_header p = (case dropWhile vct_islws p of
       [] \<Rightarrow> None
     | c # s \<Rightarrow>
         (let r = (if c = CHR ''0'' then dropWhile (\<lambda>x. x = CHR ''0'') s else s);
              n = digits_val 16 0 (c # takeWhile vct_ishex r);
              t = dropWhile (\<lambda>c. vct_islws c \<and> c \<noteq> LF) (dropWhile vct_ishex r)
          in if vct_ishex c \<and> length (takeWhile vct_ishex r) < 19 \<and> n < 2 ^ 63 \<and> t \<noteq> [] \<and> hd t = LF then Some (n, tl t) else None))"

lemma ishex_hexval: "vct_ishex c \<longleftrightarrow> hexval c < 16"
proof -
  have "of_char c < (256 :: nat)" by simp
  then show ?thesis by (auto simp: vct_ishex_def vct_is_HEX hexval_def Let_def)
qed

lemma hex_not_lws: "vct_ishex c \<Longrightarrow> \<not> vct_islws c" "vct_ishex c \<Longrightarrow> c \<noteq> NUL \<and> \<not> c_isspace c \<and> c \<noteq> CHR ''-'' \<and> c \<noteq> CHR ''+'' \<and> c \<noteq> CHR ''x'' \<and> c \<noteq> CHR ''X''"
  by (auto simp: ishex_hexval hexval_def vct_islws_iff vct_issp_iff vct_iscrlf_iff c_isspace_def Let_def)

lemma skip_lws_spec:
  "\<exists>h. skip_lws f = (f\<lparr>f_htc := h\<rparr>, case dropWhile vct_islws (pending (f_htc f)) of [] \<Rightarrow> None | c # _ \<Rightarrow> Some c) \<and>
    pending h = tl (dropWhile vct_islws (pending (f_htc f)))"
proof (induction f rule: skip_lws.induct)
  case (1 f)
  show ?case
  proof (cases "pending (f_htc f)")
    case Nil
    then show ?thesis using read1_end [of f] by (auto simp: skip_lws.simps)
  next
    case (Cons c s)
    then obtain h where h: "read1 f = (f\<lparr>f_htc := h\<rparr>, Some c)" "pending h = s" using read1_byte by blast
    show ?thesis
    proof (cases "vct_islws c")
      case True
      from 1 [OF h(1) [symmetric] refl True] show ?thesis using h Cons True by (subst (1) skip_lws.simps) simp
    next
      case False
      then show ?thesis using h Cons by (auto simp: skip_lws.simps)
    qed
  qed
qed

lemma skip_trailing_spec:
  "\<exists>h. skip_trailing f c = (f\<lparr>f_htc := h\<rparr>, case dropWhile (\<lambda>c. vct_islws c \<and> c \<noteq> LF) (c # pending (f_htc f)) of [] \<Rightarrow> None | c # _ \<Rightarrow> Some c) \<and>
    pending h = tl (dropWhile (\<lambda>c. vct_islws c \<and> c \<noteq> LF) (c # pending (f_htc f)))"
proof (induction f c rule: skip_trailing.induct)
  case (1 f c)
  show ?case
  proof (cases "vct_islws c \<and> c \<noteq> LF")
    case False
    have "skip_trailing f c = (f\<lparr>f_htc := f_htc f\<rparr>, Some c)" using False by (subst skip_trailing.simps) auto
    then show ?thesis using False by (intro exI [of _ "f_htc f"]) auto
  next
    case w: True
    show ?thesis
    proof (cases "pending (f_htc f)")
      case Nil
      then show ?thesis using w read1_end [of f] by (auto simp: skip_trailing.simps)
    next
      case (Cons c' s)
      then obtain h where h: "read1 f = (f\<lparr>f_htc := h\<rparr>, Some c')" "pending h = s" using read1_byte by blast
      from 1 [OF w h(1) [symmetric] refl] show ?thesis using h Cons w by (subst (1) skip_trailing.simps) simp
    qed
  qed
qed

text \<open>The digits the loop collects behind \<open>buf\<close>.\<close>

definition more_digits :: "string \<Rightarrow> string \<Rightarrow> string" where
  "more_digits buf p = (if buf = ''0'' then dropWhile (\<lambda>x. x = CHR ''0'') p else p)"

definition hex_outcome :: "string \<Rightarrow> string \<Rightarrow> hexres \<Rightarrow> string \<Rightarrow> bool" where
  "hex_outcome buf r res rest \<longleftrightarrow>
    (if length buf + length (takeWhile vct_ishex r) \<ge> BUF_SIZE then res = HexLong
     else case dropWhile vct_ishex r of [] \<Rightarrow> res = HexEnd | c # s \<Rightarrow> res = HexStop (buf @ takeWhile vct_ishex r) c \<and> rest = s)"

lemma hex_loop_spec:
  assumes "buf \<noteq> []"
  shows "\<exists>h res. hex_loop f buf = (f\<lparr>f_htc := h\<rparr>, res) \<and> hex_outcome buf (more_digits buf (pending (f_htc f))) res (pending h)"
  using assms
proof (induction f buf rule: hex_loop.induct)
  case (1 f buf)
  show ?case
  proof (cases "length buf \<ge> BUF_SIZE")
    case True
    have "hex_loop f buf = (f\<lparr>f_htc := f_htc f\<rparr>, HexLong)" using True by (subst hex_loop.simps) simp
    then show ?thesis using True by (intro exI [of _ "f_htc f"] exI [of _ HexLong]) (simp add: hex_outcome_def)
  next
    case short: False
    show ?thesis
    proof (cases "pending (f_htc f)")
      case Nil
      then show ?thesis using short read1_end [of f] by (auto simp: hex_loop.simps more_digits_def hex_outcome_def)
    next
      case (Cons c s)
      then obtain h where h: "read1 f = (f\<lparr>f_htc := h\<rparr>, Some c)" "pending h = s" using read1_byte by blast
      have b0: "length buf = 1 \<and> buf ! 0 = CHR ''0'' \<longleftrightarrow> buf = ''0''" by (cases buf) auto
      consider (zero) "buf = ''0''" "c = CHR ''0''" | (hex) "\<not> (buf = ''0'' \<and> c = CHR ''0'')" "vct_ishex c" | (stop) "\<not> vct_ishex c" by blast
      then show ?thesis
      proof cases
        case zero
        have "hex_loop f buf = hex_loop (f\<lparr>f_htc := h\<rparr>) buf" using h(1) short zero by (subst hex_loop.simps) simp
        moreover have "more_digits buf (pending (f_htc f)) = more_digits buf (pending h)" using zero Cons h(2) by (simp add: more_digits_def)
        ultimately show ?thesis using 1(1) [OF short h(1) [symmetric] refl] zero 1(3) by simp
      next
        case hex
        have e: "hex_loop f buf = hex_loop (f\<lparr>f_htc := h\<rparr>) (buf @ [c])" using h(1) short hex b0 by (subst hex_loop.simps) auto
        have nz: "buf @ [c] \<noteq> ''0''" using 1(3) by simp
        have m: "more_digits buf (pending (f_htc f)) = c # s" "more_digits (buf @ [c]) (pending h) = s"
          using hex(1) Cons h(2) nz 1(3) by (auto simp: more_digits_def)
        have "hex_outcome buf (c # s) = hex_outcome (buf @ [c]) s" using hex(2) by (cases "dropWhile vct_ishex s") (simp_all add: hex_outcome_def fun_eq_iff del: dropWhile_eq_Nil_conv)
        moreover have nb: "\<not> (length buf = 1 \<and> buf ! 0 = CHR ''0'' \<and> c = CHR ''0'')" using hex(1) b0 by blast
        ultimately show ?thesis using 1(2) [OF short h(1) [symmetric] refl nb hex(2)] m h(2) unfolding e by simp
      next
        case stop
        then have "c \<noteq> CHR ''0''" by (auto simp: ishex_hexval hexval_def)
        moreover have "hex_loop f buf = (f\<lparr>f_htc := h\<rparr>, HexStop buf c)" using h(1) short stop \<open>c \<noteq> CHR ''0''\<close> by (subst hex_loop.simps) simp
        ultimately show ?thesis using stop Cons h(2) short by (auto simp: more_digits_def hex_outcome_def)
      qed
    qed
  qed
qed

lemma strtoumax_digits:
  assumes "d \<noteq> []" and "\<forall>c \<in> set d. vct_ishex c" and "\<forall>c \<in> set d. hexval c < base"
  shows "strtoumax d base = (if digits_val base 0 d > 2 ^ 64 - 1 then - 1 else of_nat (digits_val base 0 d), [])" "cchar d 0 \<noteq> NUL"
proof -
  have nn: "cstr d = d" using assms(2) hex_not_lws(2) by (intro cstr_id) blast
  obtain c t where d: "d = c # t" using assms(1) by (cases d) auto
  have c: "vct_ishex c" using assms(2) d by simp
  have x: "cchar d 1 \<noteq> CHR ''x''" "cchar d 1 \<noteq> CHR ''X''"
    using d assms(2) hex_not_lws(2) by (cases t; auto)+
  have c0: "cchar d 0 \<noteq> CHR ''-''" "cchar d 0 \<noteq> CHR ''+''" using d hex_not_lws(2) [OF c] by simp_all
  have dw: "dropWhile c_isspace d = d" "takeWhile (\<lambda>c. hexval c < base) d = d" using d c hex_not_lws(2) assms(3) by (auto simp: takeWhile_eq_all_conv)
  show "strtoumax d base = (if digits_val base 0 d > 2 ^ 64 - 1 then - 1 else of_nat (digits_val base 0 d), [])"
    using x c0 assms(1) unfolding strtoumax_def Let_def nn dw by (simp add: dw)
  show "cchar d 0 \<noteq> NUL" using d hex_not_lws(2) [OF c] by simp
qed

lemma fetch_number_digits:
  assumes "d \<noteq> []" and "\<forall>c \<in> set d. vct_ishex c" and "\<forall>c \<in> set d. hexval c < base"
  shows "digits_val base 0 d < 2 ^ 63 \<Longrightarrow> fetch_number d base = int (digits_val base 0 d)"
    "digits_val base 0 d \<ge> 2 ^ 63 \<Longrightarrow> fetch_number d base < 0"
proof -
  define m where "m = digits_val base 0 d"
  note st = strtoumax_digits [OF assms, folded m_def]
  have *: "fetch_number d base = sint (if m > 2 ^ 64 - 1 then - 1 else of_nat m :: u64)"
    using st by (simp add: fetch_number_def)
  { assume "digits_val base 0 d < 2 ^ 63"
    then have m: "m < 2 ^ 63" by (simp add: m_def)
    have "signed_take_bit 63 (int m) = int m" using m by (intro signed_take_bit_int_eq_self) simp_all
    then show "fetch_number d base = int (digits_val base 0 d)" using m by (simp add: * signed_of_nat m_def [symmetric]) }
  assume "digits_val base 0 d \<ge> 2 ^ 63"
  then have big: "m \<ge> 2 ^ 63" by (simp add: m_def)
  show "fetch_number d base < 0"
  proof (cases "m > 2 ^ 64 - 1")
    case False
    have "int m div 2 ^ 63 = 1" using False big by (intro int_div_pos_eq [of _ _ _ "int m - 2 ^ 63"]) auto
    then have "bit (int m) 63" by (simp add: bit_iff_odd)
    then show ?thesis using False by (simp add: * signed_of_nat)
  qed (simp add: *)
qed

text \<open>Reading a chunk header is parsing the bytes to come.\<close>

lemma chunk_header_spec:
  "case parse_header (pending (f_htc f)) of
     None \<Rightarrow> \<exists>f'. chunk_header f = (f', None)
   | Some (n, r) \<Rightarrow> \<exists>h. chunk_header f = (f\<lparr>f_htc := h\<rparr>, Some (int n)) \<and> pending h = r"
proof -
  obtain h1 where h1: "skip_lws f = (f\<lparr>f_htc := h1\<rparr>, case dropWhile vct_islws (pending (f_htc f)) of [] \<Rightarrow> None | c # _ \<Rightarrow> Some c)"
    "pending h1 = tl (dropWhile vct_islws (pending (f_htc f)))" using skip_lws_spec by blast
  show ?thesis
  proof (cases "dropWhile vct_islws (pending (f_htc f))")
    case Nil
    then show ?thesis using h1 by (simp add: parse_header_def chunk_header_def del: dropWhile_eq_Nil_conv)
  next
    case (Cons c s)
    show ?thesis
    proof (cases "vct_ishex c")
      case False
      then show ?thesis using h1 Cons by (simp add: parse_header_def chunk_header_def Let_def)
    next
      case hex: True
      define r where "r = (if c = CHR ''0'' then dropWhile (\<lambda>x. x = CHR ''0'') s else s)"
      define ds where "ds = takeWhile vct_ishex r"
      obtain h2 res where h2: "hex_loop (f\<lparr>f_htc := h1\<rparr>) [c] = (f\<lparr>f_htc := h2\<rparr>, res)" "hex_outcome [c] r res (pending h2)"
        using hex_loop_spec [of "[c]" "f\<lparr>f_htc := h1\<rparr>"] h1(2) Cons by (auto simp: more_digits_def r_def)
      have dh: "\<forall>x \<in> set (c # ds). vct_ishex x" "\<forall>x \<in> set (c # ds). hexval x < 16" using hex by (auto simp: ds_def ishex_hexval dest: set_takeWhileD)
      note num = fetch_number_digits [OF _ dh]
      have e: "chunk_header f = (case hex_loop (f\<lparr>f_htc := h1\<rparr>) [c] of
             (f, HexEnd) \<Rightarrow> (f, None)
           | (f, HexLong) \<Rightarrow> (fst (FetchError f), None)
           | (f, HexStop buf c) \<Rightarrow> (case skip_trailing f c of
                 (f, None) \<Rightarrow> (f, None)
               | (f, Some c) \<Rightarrow> if c \<noteq> LF then (fst (FetchError f), None)
                   else (let cl = fetch_number buf 16 in if cl < 0 then (fst (FetchError f), None) else (f, Some cl))))"
        using h1(1) Cons hex by (simp add: chunk_header_def)
      have p: "parse_header (pending (f_htc f)) = (let n = digits_val 16 0 (c # ds); t = dropWhile (\<lambda>c. vct_islws c \<and> c \<noteq> LF) (dropWhile vct_ishex r)
          in if length ds < 19 \<and> n < 2 ^ 63 \<and> t \<noteq> [] \<and> hd t = LF then Some (n, tl t) else None)"
        using Cons hex by (simp add: parse_header_def r_def ds_def Let_def)
      show ?thesis
      proof (cases "length ds \<ge> 19 \<or> dropWhile vct_ishex r = []")
        case True
        then have "res = HexLong \<or> res = HexEnd" using h2(2) by (auto simp: hex_outcome_def BUF_SIZE_def ds_def simp del: dropWhile_eq_Nil_conv split: if_splits)
        then have "\<exists>f'. chunk_header f = (f', None)" unfolding e h2(1) by auto
        moreover have "parse_header (pending (f_htc f)) = None" unfolding p Let_def
          using True by (cases "length ds < 19") (simp_all del: digits_val.simps dropWhile_eq_Nil_conv)
        ultimately show ?thesis by simp
      next
        case False
        then obtain c2 s2 where c2: "dropWhile vct_ishex r = c2 # s2" by (cases "dropWhile vct_ishex r") auto
        have res: "res = HexStop (c # ds) c2" "pending h2 = s2" using h2(2) False c2 by (auto simp: hex_outcome_def BUF_SIZE_def ds_def)
        define t where "t = dropWhile (\<lambda>c. vct_islws c \<and> c \<noteq> LF) (c2 # s2)"
        obtain h3 where h3: "skip_trailing (f\<lparr>f_htc := h2\<rparr>) c2 = (f\<lparr>f_htc := h3\<rparr>, case t of [] \<Rightarrow> None | c # _ \<Rightarrow> Some c)" "pending h3 = tl t"
          using skip_trailing_spec [of "f\<lparr>f_htc := h2\<rparr>" c2] res(2) by (auto simp: t_def)
        have n0: "\<not> digits_val 16 0 (c # ds) < 2 ^ 63 \<Longrightarrow> fetch_number (c # ds) 16 < 0" using num(2) by simp
        have n1: "digits_val 16 0 (c # ds) < 2 ^ 63 \<Longrightarrow> fetch_number (c # ds) 16 = int (digits_val 16 0 (c # ds))" using num(1) by simp
        show ?thesis unfolding p c2 Let_def t_def [symmetric] e h2(1) res(1)
          using h3 n0 n1 False by (cases t) (auto simp: Let_def simp del: digits_val.simps)
      qed
    qed
  qed
qed

section \<open>Chunked bodies\<close>

fun parse_tail :: "string \<Rightarrow> string option" where
  "parse_tail (c # s) = (if c = LF then Some s else if c = CR then (case s of [] \<Rightarrow> None | c # s \<Rightarrow> if c = LF then Some s else None) else None)"
| "parse_tail [] = None"

lemma chunk_tail_spec:
  "case parse_tail (pending (f_htc f)) of None \<Rightarrow> \<exists>f'. chunk_tail f = (f', False)
   | Some r \<Rightarrow> \<exists>h. chunk_tail f = (f\<lparr>f_htc := h\<rparr>, True) \<and> pending h = r"
proof (cases "pending (f_htc f)")
  case Nil
  then show ?thesis using read1_end [of f] by (auto simp: chunk_tail_def)
next
  case (Cons c s)
  then obtain h where h: "read1 f = (f\<lparr>f_htc := h\<rparr>, Some c)" "pending h = s" using read1_byte by blast
  show ?thesis
  proof (cases "c = CR")
    case False
    then show ?thesis using h Cons by (auto simp: chunk_tail_def)
  next
    case cr: True
    show ?thesis
    proof (cases s)
      case Nil
      then show ?thesis using h Cons cr read1_end [of "f\<lparr>f_htc := h\<rparr>"] by (auto simp: chunk_tail_def)
    next
      case (Cons c2 s2)
      then obtain h2 where "read1 (f\<lparr>f_htc := h\<rparr>) = (f\<lparr>f_htc := h2\<rparr>, Some c2)" "pending h2 = s2" using read1_byte [of "f\<lparr>f_htc := h\<rparr>"] h(2) by auto
      then show ?thesis using h cr Cons \<open>pending (f_htc f) = c # s\<close> by (auto simp: chunk_tail_def)
    qed
  qed
qed

lemma dropWhile_shorter: "length (dropWhile P xs) \<le> length xs"
  by (rule length_dropWhile_le)

lemma parse_header_shorter: "parse_header p = Some (n, r) \<Longrightarrow> length r < length p"
proof -
  assume a: "parse_header p = Some (n, r)"
  then obtain c s where c: "dropWhile vct_islws p = c # s" by (auto simp: parse_header_def split: list.splits)
  define q where "q = (if c = CHR ''0'' then dropWhile (\<lambda>x. x = CHR ''0'') s else s)"
  have "r = tl (dropWhile (\<lambda>c. vct_islws c \<and> c \<noteq> LF) (dropWhile vct_ishex q))"
    using a c by (auto simp: parse_header_def q_def Let_def split: if_splits)
  moreover have "length (dropWhile (\<lambda>c. vct_islws c \<and> c \<noteq> LF) (dropWhile vct_ishex q)) \<le> length q"
    using dropWhile_shorter [of "\<lambda>c. vct_islws c \<and> c \<noteq> LF" "dropWhile vct_ishex q"] dropWhile_shorter [of vct_ishex q] by linarith
  moreover have "length q \<le> length s" by (simp add: q_def length_dropWhile_le)
  moreover have "length (c # s) \<le> length p" using dropWhile_shorter [of vct_islws p] c by simp
  ultimately show ?thesis by simp
qed

lemma parse_tail_shorter: "parse_tail p = Some r \<Longrightarrow> length r < length p"
  by (cases p) (auto split: if_splits list.splits)

text \<open>A whole body: its bytes and what is behind it.\<close>

function dechunk :: "string \<Rightarrow> (string \<times> string) option" where
  "dechunk p = (case parse_header p of None \<Rightarrow> None | Some (n, r) \<Rightarrow>
      if length r < n then None
      else (case parse_tail (drop n r) of None \<Rightarrow> None | Some t \<Rightarrow>
        if n = 0 then Some ([], t) else map_option (\<lambda>(d, x). (take n r @ d, x)) (dechunk t)))"
  by pat_completeness auto

termination
proof (relation "measure length", goal_cases)
  case (2 p nr n r t)
  then show ?case using parse_header_shorter [of p n r] parse_tail_shorter [of "drop n r" t] by simp
qed simp

declare dechunk.simps [simp del]

lemma fetch_chunked_spec:
  assumes "plain_env e" and "\<not> fetch_failed f"
  shows "case dechunk (pending (f_htc f)) of
     None \<Rightarrow> \<exists>f'. fetch_chunked_f vfp_nop e f = Some (f', -1)
   | Some (d, r) \<Rightarrow> \<exists>f'. fetch_chunked_f vfp_nop e f = Some (f', 0) \<and> counted f f' \<and> stored f' = stored f @ d \<and> pending (f_htc f') = r"
  using assms(2)
proof (induction "pending (f_htc f)" arbitrary: f rule: dechunk.induct)
  case 1
  show ?case
  proof (cases "parse_header (pending (f_htc f))")
    case None
    then show ?thesis using chunk_header_spec [of f] by (auto simp: dechunk.simps fetch_chunked_f.simps)
  next
    case (Some nr)
    then obtain n r where nr: "parse_header (pending (f_htc f)) = Some (n, r)" by (cases nr) auto
    then obtain h where h: "chunk_header f = (f\<lparr>f_htc := h\<rparr>, Some (int n))" "pending h = r" using chunk_header_spec [of f] by auto
    define f1 where "f1 = f\<lparr>f_htc := h\<rparr>"
    have f1: "counted f f1" "stored f1 = stored f" "\<not> fetch_failed f1"
      using 1(2) by (simp_all add: f1_def counted_def stored_def)
    obtain f2 i where b: "(if n > 0 then vfp_nop_bytes e f1 n else (f1, 1)) = (f2, i)" by fastforce
    have b2: "counted f1 f2 \<and> (if n \<le> length r then i = 1 \<and> stored f2 = stored f1 @ take n r \<and> pending (f_htc f2) = drop n r else i \<le> 0)"
      using vfp_nop_bytes_spec [OF assms(1), of f1 n f2 i] b h(2) by (cases "n = 0") (auto simp: f1_def split: if_splits)
    have e1: "fetch_chunked_f vfp_nop e f = (if i \<le> 0 then Some (f2, -1) else case chunk_tail f2 of (f, nl) \<Rightarrow>
        if \<not> nl then Some (f, -1) else if n > 0 then fetch_chunked_f vfp_nop e f else Some (f, 0))"
      using h(1) b f1(3) by (subst fetch_chunked_f.simps) (auto simp: f1_def VFP_Bytes_def vfp_nop_def split: if_splits prod.splits)
    show ?thesis
    proof (cases "length r < n")
      case True
      then show ?thesis using e1 b2 nr by (auto simp: dechunk.simps)
    next
      case len: False
      then have i: "i = 1" "counted f f2" "stored f2 = stored f @ take n r" "pending (f_htc f2) = drop n r"
        using b2 f1 counted_trans by auto
      show ?thesis
      proof (cases "parse_tail (drop n r)")
        case None
        then show ?thesis using e1 i nr len chunk_tail_spec [of f2] by (auto simp: dechunk.simps)
      next
        case (Some t)
        then obtain h3 where h3: "chunk_tail f2 = (f2\<lparr>f_htc := h3\<rparr>, True)" "pending h3 = t" using chunk_tail_spec [of f2] i(4) by auto
        define f3 where "f3 = f2\<lparr>f_htc := h3\<rparr>"
        have f3: "counted f f3" "stored f3 = stored f @ take n r" "pending (f_htc f3) = t" "\<not> fetch_failed f3"
          using i 1(2) h3(2) by (auto simp: f3_def counted_def stored_def)
        show ?thesis
        proof (cases "n = 0")
          case True
          then show ?thesis using e1 i(1) nr Some h3(1) f3 by (auto simp: dechunk.simps f3_def)
        next
          case False
          have ih: "case dechunk t of None \<Rightarrow> \<exists>f'. fetch_chunked_f vfp_nop e f3 = Some (f', -1)
             | Some (d, r) \<Rightarrow> \<exists>f'. fetch_chunked_f vfp_nop e f3 = Some (f', 0) \<and> counted f3 f' \<and> stored f' = stored f3 @ d \<and> pending (f_htc f') = r"
            using 1(1) [OF nr refl len _ False f3(4)] Some f3(3) by simp
          have "fetch_chunked_f vfp_nop e f = fetch_chunked_f vfp_nop e f3" using e1 i(1) h3(1) False by (simp add: f3_def)
          moreover have "dechunk (pending (f_htc f)) = map_option (\<lambda>(d, x). (take n r @ d, x)) (dechunk t)"
            using nr len Some False by (subst dechunk.simps) simp
          ultimately show ?thesis using ih f3(1,2) counted_trans [of f f3] by (cases "dechunk t") auto
        qed
      qed
    qed
  qed
qed

text \<open>More bytes behind a body do not change it.\<close>

lemma dropWhile_more: "dropWhile P xs \<noteq> [] \<Longrightarrow> dropWhile P (xs @ x) = dropWhile P xs @ x"
  by (induction xs) auto

lemma takeWhile_more: "dropWhile P xs \<noteq> [] \<Longrightarrow> takeWhile P (xs @ x) = takeWhile P xs"
  by (induction xs) auto

lemma parse_header_more:
  assumes "parse_header p = Some (n, r)"
  shows "parse_header (p @ x) = Some (n, r @ x)"
proof -
  obtain c s where c: "dropWhile vct_islws p = c # s" using assms by (auto simp: parse_header_def split: list.splits)
  define q where "q = (if c = CHR ''0'' then dropWhile (\<lambda>x. x = CHR ''0'') s else s)"
  define t where "t = dropWhile (\<lambda>c. vct_islws c \<and> c \<noteq> LF) (dropWhile vct_ishex q)"
  have a: "vct_ishex c" "length (takeWhile vct_ishex q) < 19" "digits_val 16 0 (c # takeWhile vct_ishex q) < 2 ^ 63" "t \<noteq> []" "hd t = LF"
    "n = digits_val 16 0 (c # takeWhile vct_ishex q)" "r = tl t"
    using assms c unfolding parse_header_def by (auto simp: q_def t_def Let_def simp del: digits_val.simps dropWhile_eq_Nil_conv split: if_splits)
  have dq: "dropWhile vct_ishex q \<noteq> []" using a(4) by (auto simp: t_def simp del: dropWhile_eq_Nil_conv)
  then have "q \<noteq> []" by auto
  then have qx: "(if c = CHR ''0'' then dropWhile (\<lambda>x. x = CHR ''0'') (s @ x) else s @ x) = q @ x"
    using dropWhile_more [of "\<lambda>x. x = CHR ''0''" s x] by (auto simp: q_def simp del: dropWhile_eq_Nil_conv)
  have tx: "dropWhile (\<lambda>c. vct_islws c \<and> c \<noteq> LF) (dropWhile vct_ishex (q @ x)) = t @ x"
    using a(4) dropWhile_more [OF dq, of x] dropWhile_more [of "\<lambda>c. vct_islws c \<and> c \<noteq> LF" "dropWhile vct_ishex q" x] by (simp add: t_def del: dropWhile_eq_Nil_conv)
  have cx: "dropWhile vct_islws (p @ x) = c # s @ x" using dropWhile_more [of vct_islws p x] c by simp
  show ?thesis using a takeWhile_more [OF dq, of x] unfolding parse_header_def cx list.case qx Let_def tx
    by (simp del: digits_val.simps)
qed

lemma parse_tail_more: "parse_tail p = Some r \<Longrightarrow> parse_tail (p @ x) = Some (r @ x)"
  by (cases p) (auto split: if_splits list.splits)

lemma dechunk_more: "dechunk p = Some (d, r) \<Longrightarrow> dechunk (p @ x) = Some (d, r @ x)"
proof (induction p arbitrary: d r rule: dechunk.induct)
  case (1 p)
  then obtain n q t where q: "parse_header p = Some (n, q)" "\<not> length q < n" "parse_tail (drop n q) = Some t"
    by (subst (asm) (2) dechunk.simps) (auto split: option.splits if_splits)
  have e: "dechunk p = (if n = 0 then Some ([], t) else map_option (\<lambda>(d, x). (take n q @ d, x)) (dechunk t))"
    using q by (subst dechunk.simps) simp
  have ex: "dechunk (p @ x) = (if n = 0 then Some ([], t @ x) else map_option (\<lambda>(d, x). (take n q @ d, x)) (dechunk (t @ x)))"
    using parse_header_more [OF q(1), of x] parse_tail_more [OF q(3), of x] q(2) by (subst dechunk.simps) simp
  show ?case
  proof (cases "n = 0")
    case True
    then show ?thesis using 1(2) e ex by simp
  next
    case False
    then obtain d' where "dechunk t = Some (d', r)" "d = take n q @ d'" using 1(2) e by auto
    then show ?thesis using 1(1) [OF q(1) refl q(2,3) False] ex False by simp
  qed
qed

section \<open>What a backend may send\<close>

text \<open>A chunk size in hex digits of either case; leading zeros are allowed, 19 digits are read besides them.\<close>

definition size_text :: "string \<Rightarrow> nat \<Rightarrow> bool" where
  "size_text h n \<longleftrightarrow> h \<noteq> [] \<and> (\<forall>c \<in> set h. vct_ishex c) \<and> digits_val 16 0 h = n \<and> n < 2 ^ 63 \<and>
     length (more_digits [hd h] (tl h)) < 19"

fun chunks_ok :: "(string \<times> string) list \<Rightarrow> bool" where
  "chunks_ok [] = True"
| "chunks_ok ((h, d) # cs) = (d \<noteq> [] \<and> size_text h (length d) \<and> chunks_ok cs)"

definition chunked_wire :: "(string \<times> string) list \<Rightarrow> string \<Rightarrow> string" where
  "chunked_wire cs z = concat (map (\<lambda>(h, d). h @ [CR, LF] @ d @ [CR, LF]) cs) @ z @ [CR, LF, CR, LF]"

lemma digits_val_zeros: "digits_val 16 0 (CHR ''0'' # dropWhile (\<lambda>x. x = CHR ''0'') t) = digits_val 16 0 (CHR ''0'' # t)"
proof (induction t)
  case (Cons c t)
  then show ?case by (simp add: hexval_def)
qed simp

lemma parse_header_size:
  assumes "size_text h n"
  shows "parse_header (h @ [CR, LF] @ x) = Some (n, x)"
proof -
  obtain c t where h: "h = c # t" using assms by (cases h) (auto simp: size_text_def)
  have hx: "vct_ishex c" "\<forall>c \<in> set t. vct_ishex c" using assms h by (auto simp: size_text_def)
  define q where "q = more_digits [c] t"
  have cr: "\<not> vct_ishex CR" "CR \<noteq> CHR ''0''" "vct_islws CR" "CR \<noteq> LF" by (simp_all add: ishex_hexval hexval_def vct_islws_iff vct_iscrlf_iff)
  have "set q \<subseteq> set t" by (auto simp: q_def more_digits_def dest: set_dropWhileD)
  then have qh: "\<forall>c \<in> set q. vct_ishex c" using hx(2) by blast
  have r: "(if c = CHR ''0'' then dropWhile (\<lambda>x. x = CHR ''0'') (t @ [CR, LF] @ x) else t @ [CR, LF] @ x) = q @ [CR, LF] @ x"
  proof (cases "c = CHR ''0''")
    case True
    show ?thesis using cr(2) True by (cases "dropWhile (\<lambda>x. x = CHR ''0'') t = []") (auto simp: q_def more_digits_def dropWhile_append)
  qed (simp add: q_def more_digits_def)
  have tw: "takeWhile vct_ishex (q @ [CR, LF] @ x) = q" "dropWhile vct_ishex (q @ [CR, LF] @ x) = [CR, LF] @ x"
    using qh cr(1) by (simp_all add: takeWhile_append dropWhile_append)
  have dv: "digits_val 16 0 (c # q) = n"
    using assms h digits_val_zeros [of t] by (cases "c = CHR ''0''") (auto simp: size_text_def q_def more_digits_def simp del: digits_val.simps)
  have nl: "dropWhile vct_islws (h @ [CR, LF] @ x) = c # t @ [CR, LF] @ x" using h hx(1) hex_not_lws(1) by simp
  have n: "n < 2 ^ 63" "length q < 19" using assms h by (simp_all add: size_text_def q_def)
  show ?thesis unfolding parse_header_def nl list.case r Let_def tw dv using hx(1) n cr by simp
qed

lemma dechunk_wire: "chunks_ok cs \<Longrightarrow> size_text z 0 \<Longrightarrow> dechunk (chunked_wire cs z @ x) = Some (concat (map snd cs), x)"
proof (induction cs rule: chunks_ok.induct)
  case 1
  then show ?case using parse_header_size [of z 0 "[CR, LF] @ x"] by (subst dechunk.simps) (simp add: chunked_wire_def)
next
  case (2 h d cs)
  have "parse_header (chunked_wire ((h, d) # cs) z @ x) = Some (length d, d @ [CR, LF] @ chunked_wire cs z @ x)"
    using parse_header_size [of h "length d" "d @ [CR, LF] @ chunked_wire cs z @ x"] 2(2) by (simp add: chunked_wire_def)
  then show ?case using 2 by (subst dechunk.simps) simp
qed

section \<open>FetchBody\<close>

text \<open>How a body of \<open>bs\<close> stands in the bytes to come: \<open>hcl\<close> is the value of Content-Length, \<open>err\<close> whether the stream ends in an error.\<close>

fun framed :: "body_status \<Rightarrow> string option \<Rightarrow> bool \<Rightarrow> string \<Rightarrow> string \<Rightarrow> string \<Rightarrow> bool" where
  "framed BS_LENGTH hcl err bdy p rest \<longleftrightarrow> hcl = Some (dec_digits (length bdy)) \<and> length bdy < 2 ^ 63 \<and> p = bdy @ rest"
| "framed BS_CHUNKED hcl err bdy p rest \<longleftrightarrow> (\<exists>cs z. chunks_ok cs \<and> size_text z 0 \<and> bdy = concat (map snd cs) \<and> p = chunked_wire cs z @ rest)"
| "framed BS_EOF hcl err bdy p rest \<longleftrightarrow> p = bdy \<and> rest = [] \<and> \<not> err \<and> length bdy < SSIZE_MAX"
| "framed BS_ZERO hcl err bdy p rest \<longleftrightarrow> bdy = [] \<and> p = rest"
| "framed BS_NONE hcl err bdy p rest \<longleftrightarrow> bdy = [] \<and> p = rest"
| "framed BS_ERROR hcl err bdy p rest \<longleftrightarrow> False"

lemma vfp_nop_end_spec: "\<exists>g. vfp_nop_end e f = (g, 0) \<and> counted f g \<and> stored g = stored f \<and> f_htc g = f_htc f \<and> obj_len g = obj_len f"
proof (cases "store f" rule: rev_exhaust)
  case Nil
  then show ?thesis by (simp add: vfp_nop_end_def)
next
  case (snoc l x)
  then show ?thesis by (auto simp: vfp_nop_end_def stored_def counted_def)
qed

lemma vfp_nop_begin_spec:
  assumes "plain_env e" and "\<not> fetch_failed f"
  shows "\<exists>g. VFP_Begin vfp_nop e f n = (g, 0) \<and> counted f g \<and> stored g = stored f \<and> f_htc g = f_htc f"
  using FetchStorage_ok [OF assms(1), of f n] assms(2)
  by (auto simp: VFP_Begin_def vfp_nop_def vfp_nop_begin_def counted_def Let_def)

lemma dec_digits_hex: "\<forall>c \<in> set (dec_digits n). vct_ishex c" "dec_digits n \<noteq> []"
  using dec_digits_hexval [of n] dec_digits_hd [of n] by (force simp: ishex_hexval)+

lemma fetch_number_dec: "n < 2 ^ 63 \<Longrightarrow> fetch_number (dec_digits n) 10 = int n"
  using fetch_number_digits(1) [OF dec_digits_hex(2,1) dec_digits_hexval, of n] by (simp add: digits_val_dec)

lemma body_get:
  assumes "plain_env e" and "\<not> fetch_failed f" and "framed bs hcl (rd_error (htc_sock (f_htc f))) bdy (pending (f_htc f)) rest"
  shows "\<exists>g. body_fetch vfp_nop e bs hcl f = Some (g, 0, bs \<noteq> BS_NONE) \<and> counted f g \<and> stored g = stored f @ bdy \<and> pending (f_htc g) = rest"
proof -
  have fin: "\<exists>g. with_vfp vfp_nop e f n get = Some (g, 0, True) \<and> counted f g \<and> stored g = stored f @ bdy \<and> pending (f_htc g) = rest"
    if get: "\<And>g. counted f g \<Longrightarrow> stored g = stored f \<Longrightarrow> f_htc g = f_htc f \<Longrightarrow> \<exists>g'. get g = Some (g', 0) \<and> counted g g' \<and> stored g' = stored g @ bdy \<and> pending (f_htc g') = rest" for n get
  proof -
    obtain g where g: "VFP_Begin vfp_nop e f n = (g, 0)" "counted f g" "stored g = stored f" "f_htc g = f_htc f" using vfp_nop_begin_spec [OF assms(1,2)] by blast
    obtain g1 where g1: "get g = Some (g1, 0)" "counted g g1" "stored g1 = stored g @ bdy" "pending (f_htc g1) = rest" using get [OF g(2-4)] by blast
    obtain g2 where g2: "VFP_End vfp_nop e g1 = (g2, 0)" "counted g1 g2" "stored g2 = stored g1" "f_htc g2 = f_htc g1"
      using vfp_nop_end_spec [of e g1] by (auto simp: VFP_End_def vfp_nop_def)
    have "counted f g2" using counted_trans g(2) g1(2) g2(2) by blast
    then show ?thesis using g g1 g2 by (simp add: with_vfp_def)
  qed
  have ff: "counted f g \<Longrightarrow> \<not> fetch_failed g" for g using assms(2) by (simp add: counted_def)
  show ?thesis
  proof (cases bs)
    case BS_LENGTH
    then have h: "hcl = Some (dec_digits (length bdy))" "fetch_number (dec_digits (length bdy)) 10 = int (length bdy)" "pending (f_htc f) = bdy @ rest"
      using assms(3) fetch_number_dec by auto
    have "\<exists>g'. fetch_straight vfp_nop e g (int (length bdy)) = Some (g', 0) \<and> counted g g' \<and> stored g' = stored g @ bdy \<and> pending (f_htc g') = rest"
      if "counted f g" "stored g = stored f" "f_htc g = f_htc f" for g
    proof (cases "bdy = []")
      case True
      then show ?thesis using h(3) that(3) by (simp add: fetch_straight_def)
    next
      case False
      obtain g1 i where g1: "vfp_nop_bytes e g (length bdy) = (g1, i)" by fastforce
      have "counted g g1 \<and> i = 1 \<and> stored g1 = stored g @ bdy \<and> pending (f_htc g1) = rest"
        using vfp_nop_bytes_spec [OF assms(1) g1] h(3) that(3) by simp
      then show ?thesis using g1 ff [OF that(1)] False by (simp add: fetch_straight_def VFP_Bytes_def vfp_nop_def)
    qed
    note r = fin [OF this, of "length bdy"]
    have e: "body_fetch vfp_nop e bs hcl f = with_vfp vfp_nop e f (length bdy) (\<lambda>f. fetch_straight vfp_nop e f (int (length bdy)))" "(bs \<noteq> BS_NONE) = True"
      unfolding BS_LENGTH h(1) body_fetch_def by (simp_all add: h(2))
    show ?thesis unfolding e by (rule r)
  next
    case BS_CHUNKED
    then obtain cs z where c: "chunks_ok cs" "size_text z 0" "bdy = concat (map snd cs)" "pending (f_htc f) = chunked_wire cs z @ rest" using assms(3) by auto
    have "\<exists>g'. fetch_chunked_f vfp_nop e g = Some (g', 0) \<and> counted g g' \<and> stored g' = stored g @ bdy \<and> pending (f_htc g') = rest"
      if "counted f g" "stored g = stored f" "f_htc g = f_htc f" for g
      using fetch_chunked_spec [OF assms(1) ff [OF that(1)]] dechunk_wire [OF c(1,2), of rest] c(3,4) that(3) by simp
    note r = fin [OF this, of 0]
    have e: "body_fetch vfp_nop e bs hcl f = with_vfp vfp_nop e f 0 (fetch_chunked_f vfp_nop e)" "(bs \<noteq> BS_NONE) = True"
      unfolding BS_CHUNKED body_fetch_def by simp_all
    show ?thesis unfolding e by (rule r)
  next
    case BS_EOF
    then have b: "pending (f_htc f) = bdy" "rest = []" "\<not> rd_error (htc_sock (f_htc f))" "length bdy < SSIZE_MAX" using assms(3) by auto
    have "\<exists>g'. fetch_eof_f vfp_nop e g = Some (g', 0) \<and> counted g g' \<and> stored g' = stored g @ bdy \<and> pending (f_htc g') = rest"
      if "counted f g" "stored g = stored f" "f_htc g = f_htc f" for g
    proof -
      obtain g1 i where g1: "vfp_nop_bytes e g SSIZE_MAX = (g1, i)" by fastforce
      have "counted g g1 \<and> i = 0 \<and> stored g1 = stored g @ bdy \<and> pending (f_htc g1) = []"
        using vfp_nop_bytes_spec [OF assms(1) g1] b that(3) by simp
      then show ?thesis using g1 ff [OF that(1)] b(2) by (simp add: fetch_eof_f_def VFP_Bytes_def vfp_nop_def)
    qed
    note r = fin [OF this, of 0]
    have e: "body_fetch vfp_nop e bs hcl f = with_vfp vfp_nop e f 0 (fetch_eof_f vfp_nop e)" "(bs \<noteq> BS_NONE) = True"
      unfolding BS_EOF body_fetch_def by simp_all
    show ?thesis unfolding e by (rule r)
  qed (use assms(3) in \<open>simp_all add: body_fetch_def Let_def\<close>)
qed

text \<open>Room for one more header line of \<open>n\<close> bytes.\<close>

definition header_room :: "http \<Rightarrow> nat \<Rightarrow> bool" where
  "header_room hp n \<longleftrightarrow> HTTP_HDR_FIRST \<le> h_nhd hp \<and> h_nhd hp < h_shd hp \<and> ws_inv (h_ws hp) \<and> ws_r (h_ws hp) = None \<and>
     n + 1 < ws_e (h_ws hp) - ws_f (h_ws hp)"

lemma PrintfHeader_room:
  assumes "header_room hp (length out)"
  shows "\<exists>ws b. http_PrintfHeader hp out = Some (hp\<lparr>h_ws := ws, h_hd := (h_hd hp)(h_nhd hp \<mapsto> \<lparr>t_b = b, t_s = out\<rparr>),
    h_hdf := (h_hdf hp)(h_nhd hp := 0), h_nhd := h_nhd hp + 1\<rparr>)"
proof -
  let ?w = "h_ws hp"
  have w: "ws_inv ?w" "ws_r ?w = None" "length out + 1 < ws_e ?w - ws_f ?w" "h_nhd hp < h_shd hp" using assms by (simp_all add: header_room_def)
  have lim: "ws_e ?w - ws_f ?w < 2 ^ 32" "8 dvd ws_e ?w - ws_f ?w" using w(1) by (auto simp: ws_inv_def ws_ok_def)
  from WS_Reserve_eq [OF w(1,2), of 0] obtain l where l: "WS_Reserve ?w 0 = Some (?w\<lparr>ws_r := Some (ws_f ?w + unat l)\<rparr>, l)" "unat l = ws_e ?w - ws_f ?w" by auto
  have n: "unat (of_nat (length out) + 1 :: u32) = length out + 1"
  proof -
    have "(of_nat (length out) + 1 :: u32) = of_nat (length out + 1)" by simp
    then show ?thesis using w(3) lim(1) by (simp only: unat_of_nat) simp
  qed
  then have small: "\<not> (of_nat (length out) + 1 :: u32) \<ge> l" using l(2) w(3) by (simp add: word_le_nat_alt)
  have r: "ws_inv (?w\<lparr>ws_r := Some (ws_f ?w + unat l)\<rparr>)" using WS_Reserve_SomeD(4) [OF l(1)] w(1) by (simp add: ws_inv_def)
  have "unat (prndup32 (of_nat (length out) + 1)) \<le> unat l"
    using prnd_le [of "unat l" "length out + 1"] l(2) lim w(3) n by (simp add: unat_prndup32_gen prnd_def)
  then obtain ws where "WS_Release (?w\<lparr>ws_r := Some (ws_f ?w + unat l)\<rparr>) (of_nat (length out) + 1) = Some ws"
    using WS_Release_eq [OF r, of "ws_f ?w + unat l" "of_nat (length out) + 1"] by auto
  then show ?thesis using l(1) small w(4) by (auto simp: http_PrintfHeader_def)
qed

lemma content_length_set:
  assumes "header_room hp (16 + length (dec_digits n))"
  shows "\<exists>h1 h2. http_Unset hp H_Content_Length = Some h1 \<and> http_PrintfHeader h1 (''Content-Length: '' @ dec_digits n) = Some h2 \<and>
    http_GetHdr h2 H_Content_Length = Some (Some (dec_digits n))"
proof -
  let ?out = "''Content-Length: '' @ dec_digits n"
  have g: "good_hdr H_Content_Length" by (simp add: good_hdr_def H_Content_Length_def)
  have nh: "HTTP_HDR_FIRST \<le> h_nhd hp" using assms by (simp add: header_room_def)
  obtain h1 where h1: "http_Unset hp H_Content_Length = Some h1" "HTTP_HDR_FIRST \<le> h_nhd h1" "h_nhd h1 \<le> h_nhd hp"
    "map (slot h1) [HTTP_HDR_FIRST..<h_nhd h1] = filter (Http_Fields.keep H_Content_Length) (map (slot hp) [HTTP_HDR_FIRST..<h_nhd hp])"
    "h_shd h1 = h_shd hp" "h_ws h1 = h_ws hp" using Unset_spec [OF g nh] by blast
  have "header_room h1 (length ?out)" using assms h1(2,3,5,6) by (simp add: header_room_def)
  then obtain ws b where h2: "http_PrintfHeader h1 ?out = Some (h1\<lparr>h_ws := ws, h_hd := (h_hd h1)(h_nhd h1 \<mapsto> \<lparr>t_b = b, t_s = ?out\<rparr>),
    h_hdf := (h_hdf h1)(h_nhd h1 := 0), h_nhd := h_nhd h1 + 1\<rparr>)" (is "_ = Some ?h2") using PrintfHeader_room by blast
  have "http_GetHdr ?h2 H_Content_Length = Some (Some (dropWhile vct_issp (CHR '' '' # dec_digits n)))"
    by (rule snoc_get [OF g h1(2), where t = "\<lparr>t_b = b, t_s = ?out\<rparr>"]) (use slots_kept [OF h1(4)] in \<open>auto simp: H_Content_Length_def\<close>)
  moreover have "dropWhile vct_issp (CHR '' '' # dec_digits n) = dec_digits n"
  proof -
    obtain c t where "dec_digits n = c # t" "hexval c < 10" using dec_digits_hd by blast
    then show ?thesis by (auto simp: vct_issp_iff hexval_def)
  qed
  ultimately show ?thesis using h1(1) h2 by auto
qed

text \<open>C37. For a fetch that is not streamed, finds storage whenever it asks for some, has no processor but \<open>vfp_nop\<close>, and gets chunks without
  extensions and trailers: whatever the framing and however the network and the storage cut the bytes, the body the backend sent is the body that is stored:
  not a byte of the framing is in it, the length is counted right and becomes the Content-Length of the object, and what follows on
  the connection is left for the next response.\<close>

theorem body_stored:
  assumes env: "plain_env e" and new: "store f = []" "obj_len f = 0"
    and fr: "framed bs hcl (rd_error (htc_sock (f_htc f))) bdy (pending (f_htc f)) rest"
    and room: "header_room (obj_http f) (16 + length (dec_digits (length bdy)))"
  shows "\<exists>f'. FetchBody None e bs hcl do_close' oc_null f = Some (f', if do_close' then CloseFd else RecycleFd, True) \<and>
    stored f' = bdy \<and> obj_len f' = length bdy \<and> pending (f_htc f') = rest \<and>
    (bs \<noteq> BS_NONE \<longrightarrow> http_GetHdr (obj_http f') H_Content_Length = Some (Some (dec_digits (length bdy))))"
proof -
  define f0 where "f0 = f\<lparr>fetch_failed := False\<rparr>"
  have f0: "\<not> fetch_failed f0" "stored f0 = []" "obj_len f0 = 0" "f_htc f0 = f_htc f" "obj_http f0 = obj_http f" using new by (simp_all add: f0_def stored_def)
  have fr0: "framed bs hcl (rd_error (htc_sock (f_htc f0))) bdy (pending (f_htc f0)) rest" using fr f0(4) by simp
  obtain g where g: "body_fetch vfp_nop e bs hcl f0 = Some (g, 0, bs \<noteq> BS_NONE)" "counted f0 g" "stored g = stored f0 @ bdy" "pending (f_htc g) = rest"
    using body_get [OF env f0(1) fr0] by blast
  obtain g1 where g1: "vfp_nop_end e g = (g1, 0)" "counted g g1" "stored g1 = stored g" "f_htc g1 = f_htc g" "obj_len g1 = obj_len g" using vfp_nop_end_spec by blast
  have c: "\<not> fetch_failed g1" "stored g1 = bdy" "obj_len g1 = length bdy" "obj_http g1 = obj_http f" using g g1 f0 by (auto simp: counted_def)
  have ne: "bs \<noteq> BS_ERROR" using fr by auto
  obtain h1 h2 where h: "http_Unset (obj_http f) H_Content_Length = Some h1" "http_PrintfHeader h1 (''Content-Length: '' @ dec_digits (length bdy)) = Some h2"
    "http_GetHdr h2 H_Content_Length = Some (Some (dec_digits (length bdy)))" using content_length_set [OF room] by blast
  define f' where "f' = g1\<lparr>obj_http := if bs \<noteq> BS_NONE then h2 else obj_http f\<rparr>"
  have "FetchBody None e bs hcl do_close' oc_null f = Some (f', if do_close' then CloseFd else RecycleFd, True)"
    using new g(1) g1(1) c ne h by (simp add: FetchBody_def f0_def [symmetric] f'_def)
  moreover have "stored f' = bdy" "obj_len f' = length bdy" "pending (f_htc f') = rest" using c g1(4) g(4) by (simp_all add: f'_def stored_def)
  ultimately show ?thesis using h(3) by (intro exI [of _ f']) (simp add: f'_def)
qed

definition wit_conn :: "string list \<Rightarrow> htc" where
  "wit_conn ps = \<lparr>rx_b = 64, rx_s = [], maxhdr = 64, htc_ws = \<lparr>ws_overflow = 0, ws_s = 64, ws_f = 64, ws_r = None, ws_e = 128\<rparr>,
     htc_sock = \<lparr>pieces = ps, rd_error = False\<rparr>, maxbytes = 64, pipeline = Some ''3''\<rparr>"

definition wit_fetch :: "string list \<Rightarrow> fetch" where
  "wit_fetch ps = \<lparr>f_htc = wit_conn ps, store = [], obj_len = 0, fetch_failed = False, n_alloc = 0,
     obj_http = http_ex\<lparr>h_ws := \<lparr>ws_overflow = 0, ws_s = 8, ws_f = 8, ws_r = None, ws_e = 264\<rparr>\<rparr>\<rparr>"

definition wit_env :: fetch_env where
  "wit_env = \<lparr>fetchfrag = 0, fetch_chunksize = 1, stv_alloc = (\<lambda>_ _. Some 2), do_stream = False, stream_poll = (\<lambda>f. f)\<rparr>"

lemma wit_chunks: "chunks_ok [(''3'', ''abc'')]" "size_text ''0'' 0" "chunked_wire [(''3'', ''abc'')] ''0'' = ''3'' @ [CR, LF] @ ''abc'' @ [CR, LF] @ ''0'' @ [CR, LF, CR, LF]"
  by (simp_all add: size_text_def ishex_hexval hexval_def more_digits_def chunked_wire_def)

theorem body_stored_witness:
  "\<exists>f'. FetchBody None wit_env BS_CHUNKED None False True (wit_fetch [[CR], [LF] @ ''ab'', ''c'' @ [CR, LF] @ ''0'' @ [CR, LF, CR, LF] @ ''next'']) = Some (f', RecycleFd, True) \<and>
    stored f' = ''abc'' \<and> obj_len f' = 3 \<and> pending (f_htc f') = ''next'' \<and> http_GetHdr (obj_http f') H_Content_Length = Some (Some ''3'')"
proof -
  let ?f = "wit_fetch [[CR], [LF] @ ''ab'', ''c'' @ [CR, LF] @ ''0'' @ [CR, LF, CR, LF] @ ''next'']"
  have e: "plain_env wit_env" by (simp add: plain_env_def wit_env_def)
  have p: "pending (f_htc ?f) = chunked_wire [(''3'', ''abc'')] ''0'' @ ''next''"
    by (simp add: pending_def pipe_s_def unread_def wit_fetch_def wit_conn_def wit_chunks(3))
  have fr: "framed BS_CHUNKED None (rd_error (htc_sock (f_htc ?f))) ''abc'' (pending (f_htc ?f)) ''next''"
    unfolding p framed.simps using wit_chunks(1,2) by (intro exI [of _ "[(''3'', ''abc'')]"] exI [of _ "''0''"]) simp
  have d: "dec_digits (length ''abc'') = ''3''" by code_simp
  have n: "h_nhd http_ex \<ge> HTTP_HDR_FIRST" "h_nhd http_ex < h_shd http_ex" by code_simp+
  then have r: "header_room (obj_http ?f) (16 + length (dec_digits (length ''abc'')))" unfolding d by (simp add: header_room_def wit_fetch_def ws_inv_def ws_ok_def)
  have s: "store ?f = []" "obj_len ?f = 0" by (simp_all add: wit_fetch_def)
  from body_stored [OF e s fr r, of False True] show ?thesis unfolding d by (simp add: numeral_3_eq_3)
qed

lemma dechunk_truncated:
  assumes "chunks_ok cs" and "size_text z 0" and "p @ x = chunked_wire cs z" and "x \<noteq> []"
  shows "dechunk p = None"
proof (rule ccontr)
  assume "dechunk p \<noteq> None"
  then obtain d r where "dechunk p = Some (d, r)" by auto
  then have "dechunk (chunked_wire cs z @ []) = Some (d, r @ x)" using dechunk_more [of p d r x] assms(3) by simp
  then show False using dechunk_wire [OF assms(1,2), of "[]"] assms(4) by simp
qed

lemma with_vfp_fails:
  assumes "plain_env e" and "\<not> fetch_failed f"
    and get: "\<And>g. \<not> fetch_failed g \<Longrightarrow> f_htc g = f_htc f \<Longrightarrow> \<exists>g'. get g = Some (g', -1)"
  shows "\<exists>g. with_vfp vfp_nop e f n get = Some (g, -1, True)"
proof -
  obtain g where g: "VFP_Begin vfp_nop e f n = (g, 0)" "counted f g" "f_htc g = f_htc f" using vfp_nop_begin_spec [OF assms(1,2)] by blast
  then have "\<not> fetch_failed g" using assms(2) by (simp add: counted_def)
  then obtain g1 where g1: "get g = Some (g1, -1)" using get g(3) by blast
  obtain g2 where "VFP_End vfp_nop e g1 = (g2, 0)" using vfp_nop_end_spec [of e g1] by (auto simp: VFP_End_def vfp_nop_def)
  then have "with_vfp vfp_nop e f n get = Some (g2, -1, True)" using g(1) g1 by (simp add: with_vfp_def)
  then show ?thesis by (rule exI)
qed

lemma truncated_get:
  assumes env: "plain_env e" and f: "\<not> fetch_failed f"
    and bs: "bs = BS_LENGTH \<or> bs = BS_CHUNKED" and fr: "framed bs hcl err bdy (pending (f_htc f) @ x) []" and x: "x \<noteq> []"
  shows "\<exists>g. body_fetch vfp_nop e bs hcl f = Some (g, -1, True)"
proof (cases "bs = BS_LENGTH")
  case True
  then have b: "hcl = Some (dec_digits (length bdy))" "length bdy < 2 ^ 63" "bdy = pending (f_htc f) @ x" using fr by auto
  have "\<exists>g'. fetch_straight vfp_nop e g (int (length bdy)) = Some (g', -1)" if g: "\<not> fetch_failed g" "f_htc g = f_htc f" for g
  proof -
    obtain g1 i where g1: "vfp_nop_bytes e g (length bdy) = (g1, i)" by fastforce
    have i: "i \<le> 0" using vfp_nop_bytes_spec [OF env g1] b(3) x g(2) by simp
    have "length bdy > 0" using b(3) x by simp
    then have "fetch_straight vfp_nop e g (int (length bdy)) = Some (FetchError g1)"
      using g1 g(1) i by (simp add: fetch_straight_def VFP_Bytes_def vfp_nop_def)
    then show ?thesis by (simp add: FetchError_def)
  qed
  note r = with_vfp_fails [where get = "\<lambda>f. fetch_straight vfp_nop e f (int (length bdy))" and n = "length bdy", OF env f this]
  have e: "body_fetch vfp_nop e bs hcl f = with_vfp vfp_nop e f (length bdy) (\<lambda>f. fetch_straight vfp_nop e f (int (length bdy)))"
    unfolding True b(1) body_fetch_def by (simp add: fetch_number_dec [OF b(2)])
  show ?thesis unfolding e by (rule r)
next
  case False
  then have c: "bs = BS_CHUNKED" using bs by simp
  then obtain cs z where "chunks_ok cs" "size_text z 0" "pending (f_htc f) @ x = chunked_wire cs z" using fr by auto
  from dechunk_truncated [OF this x] have "\<exists>g'. fetch_chunked_f vfp_nop e g = Some (g', -1)" if "\<not> fetch_failed g" "f_htc g = f_htc f" for g
    using fetch_chunked_spec [OF env that(1)] that(2) by simp
  note r = with_vfp_fails [where get = "fetch_chunked_f vfp_nop e" and n = 0, OF env f this]
  have e: "body_fetch vfp_nop e bs hcl f = with_vfp vfp_nop e f 0 (fetch_chunked_f vfp_nop e)" unfolding c body_fetch_def by simp
  show ?thesis unfolding e by (rule r)
qed

text \<open>C38. For a fetch that is not streamed, finds storage whenever it asks for some and has no processor but \<open>vfp_nop\<close>: a body that ends too early is never taken for a whole one: when the connection ends before the announced length or inside the
  chunks, \<open>FetchBody\<close> reports a failure, closes the connection and leaves nothing of the body in the object.\<close>

theorem truncated_body_fails:
  assumes env: "plain_env e" and new: "store f = []"
    and bs: "bs = BS_LENGTH \<or> bs = BS_CHUNKED" and fr: "framed bs hcl err bdy (pending (f_htc f) @ x) []" and x: "x \<noteq> []"
  shows "\<exists>f'. FetchBody None e bs hcl do_close' oc_null f = Some (f', CloseFd, False) \<and> stored f' = [] \<and> obj_len f' = 0"
proof -
  define f0 where "f0 = f\<lparr>fetch_failed := False\<rparr>"
  have f0: "\<not> fetch_failed f0" "f_htc f0 = f_htc f" by (simp_all add: f0_def)
  obtain g where g: "body_fetch vfp_nop e bs hcl f0 = Some (g, -1, True)" using truncated_get [OF env f0(1) bs _ x] fr f0(2) by metis
  obtain g1 where g1: "vfp_nop_end e g = (g1, 0)" using vfp_nop_end_spec by blast
  have "FetchBody None e bs hcl do_close' oc_null f = Some (g1\<lparr>store := [], obj_len := 0\<rparr>, CloseFd, False)"
    using new g g1 bs by (auto simp: FetchBody_def f0_def [symmetric])
  then show ?thesis by (intro exI [of _ "g1\<lparr>store := [], obj_len := 0\<rparr>"]) (simp add: stored_def)
qed

theorem truncated_body_fails_witness:
  "\<exists>f'. FetchBody None wit_env BS_CHUNKED None False True (wit_fetch [[CR], [LF] @ ''ab'', ''c'' @ [CR, LF] @ ''0'' @ [CR, LF]]) = Some (f', CloseFd, False) \<and>
    stored f' = [] \<and> obj_len f' = 0"
proof -
  let ?f = "wit_fetch [[CR], [LF] @ ''ab'', ''c'' @ [CR, LF] @ ''0'' @ [CR, LF]]"
  have e: "plain_env wit_env" by (simp add: plain_env_def wit_env_def)
  have p: "pending (f_htc ?f) @ [CR, LF] = chunked_wire [(''3'', ''abc'')] ''0''"
    by (simp add: pending_def pipe_s_def unread_def wit_fetch_def wit_conn_def wit_chunks(3))
  have fr: "framed BS_CHUNKED None False ''abc'' (pending (f_htc ?f) @ [CR, LF]) []"
    unfolding p framed.simps using wit_chunks(1,2) by (intro exI [of _ "[(''3'', ''abc'')]"] exI [of _ "''0''"]) simp
  have s: "store ?f = []" by (simp add: wit_fetch_def)
  from truncated_body_fails [OF e s _ fr, of False True] show ?thesis by simp
qed

end
