(* ===== verification/Spec2Isabelle.thy ===== *)
theory Spec2Isabelle
  imports Workspace Binheap Argv Http_Wire Rfc2616 Vary Critbit_Index Object_Cache Ban_Spec Fetch
begin

text \<open>
  A verification development for Varnish Cache, the caching HTTP reverse proxy (bin/varnishd and lib/libvarnish).

  \<^bold>\<open>The program.\<close>  A worker thread reads a request into a workspace and dissects it (cache_http.c), asks VCL what to do,
  hashes the request and looks its object up in the cache (cache_hash.c over one of the hash_*.c indexes).  A hit must be fresh or in
  grace (cache_expire.c), of the right variant (cache_vary.c) and not banned (cache_ban.c); while somebody else fetches the object the
  session waits; otherwise a busy core is inserted, the response fetched, its lifetime computed (rfc2616.c) and the object put on the
  expiry heap (binary_heap.c) and an LRU list.  An expiry thread removes what is due, a storage that is full has its least
  recently used object removed.  Operators reach the child through the manager's CLI (mgt_cli.c, argv.c, vsb.c).

  \<^bold>\<open>The theories\<close>, each with the code it models and what it shows:

  \<^item> Prelude: C integers as words, \<open>assert\<close> as \<open>vassert\<close> in the option monad (\<open>None\<close> is the abort), C strings, rounding.
  \<^item> Workspace (cache_ws.c): every operation; the locale \<open>arena\<close> with its interpretation \<open>wsa\<close>; blocks stay inside the buffer and apart.
  \<^item> Binheap_Index, Binheap (binary_heap.c): the page-aware index arithmetic and the heap in rows; the locale \<open>heap_cmp\<close> has the
    proofs about any comparison, \<open>prio_queue\<close> the contract the expiry code uses, \<open>bhq\<close> its interpretation.
  \<^item> Vsb, Argv (vsb.c, argv.c, \<open>mcf_askchild\<close>): string buffers, the command line parser, and that a command reaches the child unchanged.
  \<^item> Vct, Http, Http_Fields, Http_Wire (vct.c, cache_http.c, tables of include/): messages, their fields and filters, parsing, printing.
  \<^item> Tim, Exp, Rfc2616 (time.c, the first part of cache_expire.c, rfc2616.c): dates, lifetimes, body framing, conditional requests.
  \<^item> Vary (cache_vary.c): vary strings, and that matching means that the fields agree.
  \<^item> Slinger, Critbit, Critbit_Tree, Critbit_Index (hash_simple_list.c, hash_classic.c, hash_critbit.c): the locale \<open>hash_slinger\<close> is
    the contract of an index; \<open>hsl\<close>, \<open>hcl\<close> and \<open>hcb\<close> interpret it; the crit-bit tree is proved over its tagged words in memory.
  \<^item> Cache_State, Expire, Expire_Timer (cache.h, cache_expire.c): cores, objects, the expiry heap, LRU lists, the expiry thread.
  \<^item> Ban, Ban_Spec (cache_ban.c): the list of bans and the check of an object; ban conditions from the command to bytes to a decision.
  \<^item> Hash, Hash_Lookup, Hash_Refs, Hash_Release, Hash_Life (cache_hash.c, parts of stevedore.c): lookup, waiting lists, release, purge
    and the invariant \<open>cache_inv\<close>, in which every reference count is accounted for.
  \<^item> Object_Cache: all operations of the cache in any order, and what follows.
  \<^item> Htc (cache_httpconn.c): a connection delivers its bytes in pieces of any size; the requests a client sends one after another
    come out of the receive buffer whole and in order.
  \<^item> Fetch (cache_fetch.c): bodies by length, in chunks or up to the end of the connection, stored by the plain fetch processor; a complete
    body is stored byte by byte and a truncated one is an error.  The loop over chunks is a partial function; that it returns is part of the theorems.
  This theory joins the bans to the lookups.

  \<^bold>\<open>Conventions.\<close>  A routine that can abort returns an option and a theorem that it returns \<open>Some\<close> says that no assertion in it
  fails.  What the operating system or an allocator returns is an argument.  Loops are structural recursion or functions with a measure;
  those whose end depends on the state of memory (the walk down the crit-bit tree, the loops over the heap) take fuel or are partial, and
  their termination is a theorem.  Times are rational numbers where the code has doubles.  Object heads are the 64-bit words the crit-bit
  tree tags; other addresses are natural numbers.

  \<^bold>\<open>Not modelled.\<close>  Every call is atomic: locks are held to work.  Only the lock-free walk of the crit-bit index is shown to survive
  a deletion and a round of the cleaner in between; insertions in between are not considered.  Log records, statistics and panic reports have no influence on behaviour and are left out.
  Sockets, threads, process management and shared memory are operating system work.  The VCL compiler, ESI, gzip, storage allocators,
  directors, the persistent storage and the tools beside the daemon are not part of the development; libvgz and libjemalloc are copies of
  other projects.
\<close>

section \<open>Bans and lookups together\<close>

text \<open>How a request decides a ban: with its own headers and those of the object.\<close>

definition ban_decider :: "(string \<Rightarrow> string \<Rightarrow> bool) \<Rightarrow> (addr \<Rightarrow> http) \<Rightarrow> http \<Rightarrow> addr \<Rightarrow> string \<Rightarrow> bool option" where
  "ban_decider exec objhttp reqhttp oc spec = map_option fst (ban_evaluate exec spec (objhttp oc) reqhttp 0)"

lemma BAN_Insert_newer:
  assumes "b \<notin> set (ban_head s)" and "ocb \<in> set (ban_head s)"
  shows "b \<in> set (newer (BAN_Insert dups t0 s b req lump) ocb)"
    "bmem (BAN_Insert dups t0 s b req lump) b = Some \<lparr>ban_refcount = 0, ban_gone = False, ban_req = req, ban_lurk = 0, ban_objcore = [], ban_when = t0, ban_spec = mk_spec req lump\<rparr>"
  using assms by (auto simp: newer_def BAN_Insert_def Let_def)

text \<open>
  The time after a ban command, as far as one object is concerned: lookups for requests that \<open>M\<close> holds of, and other steps
  that leave the object in the cache with its lifetime and its ban, and every ban it has not been checked against.
\<close>

definition lets_be :: "addr \<Rightarrow> cache \<Rightarrow> cache \<Rightarrow> bool" where
  "lets_be oc s s' \<longleftrightarrow> (\<exists>c c'. core s oc = Some c \<and> core s' oc = Some c' \<and> o_exp c' = o_exp c \<and> oc_ban c' = oc_ban c \<and>
     (\<forall>ocb. oc_ban c = Some ocb \<longrightarrow> (\<forall>x \<in> set (newer s ocb). x \<in> set (newer s' ocb) \<and> map_option ban_view (bmem s' x) = map_option ban_view (bmem s x))))"

inductive history :: "exp_params \<Rightarrow> (lreq \<Rightarrow> bool) \<Rightarrow> addr \<Rightarrow> cache \<Rightarrow> cache \<Rightarrow> bool" for params M oc s1 where
  start: "history params M oc s1 s1"
| lookup: "history params M oc s1 s \<Longrightarrow> may_lookup s w a h y q \<Longrightarrow> M q \<Longrightarrow> HSH_Lookup params a h y q s w = Some (s', w', res) \<Longrightarrow>
    history params M oc s1 s'"
| other: "history params M oc s1 s \<Longrightarrow> lets_be oc s s' \<Longrightarrow> cache_inv own lost s' \<Longrightarrow> history params M oc s1 s'"

text \<open>Giving back a reference to another object is such a step.\<close>

lemma rush_waiting_bans: "rush_waiting qok n s oh = Some s' \<Longrightarrow> core s' = core s \<and> bmem s' = bmem s \<and> ban_head s' = ban_head s"
  by (auto simp: rush_waiting_def hsh_rush_def Let_def split: if_splits option.splits prod.splits bind_splits)

lemma BAN_DestroyObj_bans:
  "BAN_DestroyObj s x = Some s' \<Longrightarrow> ban_head s' = ban_head s \<and> (\<forall>b. map_option ban_view (bmem s' b) = map_option ban_view (bmem s b)) \<and>
    (\<forall>oc. oc \<noteq> x \<longrightarrow> core s' oc = core s oc)"
  by (auto simp: BAN_DestroyObj_def ban_unlink_def upd_ban_def ban_view_def bind_eq_Some_conv option.map_comp comp_def split: option.splits)

lemma deref_lets_be:
  assumes d: "HSH_Deref qok n s w x = Some (s', w', r)" and oc: "core s oc = Some c0" "oc \<noteq> x"
  shows "lets_be oc s s'"
proof -
  obtain c where c: "core s x = Some c" using d by (auto simp: HSH_Deref_def bind_eq_Some_conv)
  define s1 where "s1 = (if oc_refcnt c - 1 = 0 then (upd_core x (\<lambda>c. c\<lparr>oc_refcnt := 0\<rparr>) s)\<lparr>objcs := (objcs s)(oc_objhead c := remove1 x (objcs s (oc_objhead c)))\<rparr>
    else upd_core x (\<lambda>y. y\<lparr>oc_refcnt := oc_refcnt c - 1\<rparr>) s)"
  have f1: "core s1 oc = core s oc" "bmem s1 = bmem s" "ban_head s1 = ban_head s" using oc(2) by (simp_all add: s1_def)
  have "\<exists>s2. rush_waiting qok n s1 (oc_objhead c) = Some s2 \<and>
    (s' = s2 \<or> (\<exists>s3. BAN_DestroyObj s2 x = Some s3 \<and> core s' = (core s3)(x := None) \<and> bmem s' = bmem s3 \<and> ban_head s' = ban_head s3))"
  proof (cases "oc_refcnt c - 1 = 0")
    case True
    then obtain l s2 s3 c3 w3 i k s4 where
      g: "tailq_remove x (objcs s (oc_objhead c)) = Some l"
        "rush_waiting qok n ((upd_core x (\<lambda>c. c\<lparr>oc_refcnt := 0\<rparr>) s)\<lparr>objcs := (objcs s)(oc_objhead c := l)\<rparr>) (oc_objhead c) = Some s2"
        "BAN_DestroyObj s2 x = Some s3"
      and h: "(if k then Some (s3\<lparr>core := (core s3)(x := None), hidx := i\<rparr>) else HSH_DeleteObjHead (s3\<lparr>core := (core s3)(x := None), hidx := i\<rparr>) (oc_objhead c)) = Some s4"
        "s' = s4"
      using d c by (auto simp: HSH_Deref_def Let_def bind_eq_Some_conv split del: if_split)
    have "s1 = (upd_core x (\<lambda>c. c\<lparr>oc_refcnt := 0\<rparr>) s)\<lparr>objcs := (objcs s)(oc_objhead c := l)\<rparr>" using g(1) True by (simp add: s1_def tailq_remove_def split: if_splits)
    moreover have "core s4 = (core s3)(x := None) \<and> bmem s4 = bmem s3 \<and> ban_head s4 = ban_head s3"
      using h(1) by (auto simp: HSH_DeleteObjHead_def bind_eq_Some_conv split: if_splits)
    ultimately show ?thesis using g(2,3) h(2) by auto
  next
    case False
    then show ?thesis using d c by (auto simp: s1_def HSH_Deref_def Let_def bind_eq_Some_conv)
  qed
  then obtain s2 where 2: "rush_waiting qok n s1 (oc_objhead c) = Some s2"
    "s' = s2 \<or> (\<exists>s3. BAN_DestroyObj s2 x = Some s3 \<and> core s' = (core s3)(x := None) \<and> bmem s' = bmem s3 \<and> ban_head s' = ban_head s3)" by blast
  note f2 = rush_waiting_bans [OF 2(1)]
  from 2(2) have "core s' oc = core s2 oc \<and> ban_head s' = ban_head s2 \<and> (\<forall>b. map_option ban_view (bmem s' b) = map_option ban_view (bmem s2 b))"
    using BAN_DestroyObj_bans [of s2 x] oc(2) by auto
  then show ?thesis using f1 f2 oc(1) by (simp add: lets_be_def newer_def)
qed

text \<open>
  What holds of the object through such a history: as long as it has a lifetime, the ban \<open>b\<close> is one it has yet to be checked against.
\<close>

definition doomed :: "addr \<Rightarrow> string \<Rightarrow> addr \<Rightarrow> cache \<Rightarrow> bool" where
  "doomed b spec oc s \<longleftrightarrow> (\<exists>c. core s oc = Some c \<and> (ttl (o_exp c) > 0 \<longrightarrow>
     (\<exists>ocb. oc_ban c = Some ocb \<and> b \<in> set (newer s ocb) \<and> (\<exists>bn. bmem s b = Some bn \<and> \<not> ban_gone bn \<and> ban_spec bn = spec))))"

lemma ban_view_hit:
  "map_option ban_view m = map_option ban_view m' \<Longrightarrow> (\<exists>bn. m = Some bn \<and> \<not> ban_gone bn \<and> ban_spec bn = spec) \<longleftrightarrow> (\<exists>bn. m' = Some bn \<and> \<not> ban_gone bn \<and> ban_spec bn = spec)"
  by (cases m; cases m') (auto simp: ban_view_def)

lemma doomed_not_servable:
  assumes "doomed b spec oc s" and "beval q oc spec = Some True"
  shows "\<not> servable q s oc c"
  using assms by (auto simp: doomed_def servable_def hits_def)

lemma doomed_other: "doomed b spec oc s \<Longrightarrow> lets_be oc s s' \<Longrightarrow> doomed b spec oc s'"
  unfolding doomed_def lets_be_def using ban_view_hit [of "bmem s' b" "bmem s b" spec] by fastforce

lemma doomed_lookup:
  assumes "doomed b spec oc s" and "rechecks q s s'" and "beval q oc spec = Some True"
  shows "doomed b spec oc s'"
proof -
  obtain c where c: "core s oc = Some c" "ttl (o_exp c) > 0 \<longrightarrow> (\<exists>ocb. oc_ban c = Some ocb \<and> b \<in> set (newer s ocb) \<and>
    (\<exists>bn. bmem s b = Some bn \<and> \<not> ban_gone bn \<and> ban_spec bn = spec))" using assms(1) unfolding doomed_def by blast
  obtain c' where c': "core s' oc = Some c'" "recheck q s oc c c'" using assms(2) c(1) unfolding rechecks_def by blast
  have k: "bans_keep s s'" using assms(2) by (simp add: rechecks_def)
  have v: "map_option ban_view (bmem s' b) = map_option ban_view (bmem s b)" using k by (simp add: bans_keep_def)
  show ?thesis
  proof (cases "ttl (o_exp c) > 0")
    case False
    then have "\<not> ttl (o_exp c') > 0" using c'(2) by (auto simp: recheck_def EXP_Clr_def split: if_splits)
    then show ?thesis using c'(1) by (simp add: doomed_def)
  next
    case True
    then obtain ocb where o: "oc_ban c = Some ocb" "b \<in> set (newer s ocb)" "\<exists>bn. bmem s b = Some bn \<and> \<not> ban_gone bn \<and> ban_spec bn = spec" using c(2) by blast
    have "hits (beval q oc) (bmem s) b" using o(3) assms(3) unfolding hits_def by blast
    then have "o_exp c' = o_exp c \<and> oc_ban c' = oc_ban c \<or> o_exp c' = EXP_Clr" using c'(2) o unfolding recheck_def by (auto split: if_splits)
    moreover have "newer s' ocb = newer s ocb" using k by (rule bans_keep_newer)
    ultimately show ?thesis using c'(1) o ban_view_hit [OF v, of spec] unfolding doomed_def by (auto simp: EXP_Clr_def)
  qed
qed

lemma history_doomed:
  assumes "history params M oc s1 s" and "cache_inv own lost s1" and "doomed b spec oc s1" and "\<And>q. M q \<Longrightarrow> beval q oc spec = Some True"
  shows "(\<exists>own lost. cache_inv own lost s) \<and> doomed b spec oc s"
  using assms(1)
proof (induction rule: history.induct)
  case start
  then show ?case using assms(2,3) by blast
next
  case (lookup s w a h y q s' w' res)
  obtain own lost where i: "cache_inv own lost s" using lookup.IH by blast
  from HSH_Lookup_full [OF may_lookup_pre [OF i lookup.hyps(2)], of params] lookup.hyps(4) obtain oh where
    l: "lookup_ok params q s own (in_index s lost) oh s' res" "rechecks q s s'" by auto
  have "\<exists>own lost. cache_inv own lost s'" using l(1) by (cases res) (auto simp: lookup_ok_def)
  moreover have "doomed b spec oc s'" using doomed_lookup [OF _ l(2) assms(4) [OF lookup.hyps(3)]] lookup.IH by blast
  ultimately show ?case by blast
next
  case (other s s' own lost)
  then show ?case using doomed_other by blast
qed

text \<open>A request and an object that meet every test of the command.\<close>

definition meets :: "(string \<Rightarrow> string + string) \<Rightarrow> (string \<Rightarrow> string \<Rightarrow> bool) \<Rightarrow> (addr \<Rightarrow> http) \<Rightarrow> string list \<Rightarrow> addr \<Rightarrow> lreq \<Rightarrow> bool" where
  "meets regc exec objhttp av oc q \<longleftrightarrow> (\<exists>reqhttp. filled reqhttp \<and> beval q = ban_decider exec objhttp reqhttp \<and>
     (\<forall>t \<in> set (tests_of av). test_spec regc exec (objhttp oc) reqhttp t))"

text \<open>C3. A ban takes effect at once and for as long as it is asked for: after a ban command has been accepted, take any sequence of lookups for
  requests that, together with the object's headers, meet all tests of the ban, and of other steps that leave the object in the cache with its lifetime and its ban
  and take no newer ban away.  No lookup of such a request then serves the object, if it was in the cache before the
  command, whatever its lifetime and grace.  (A lookup for a request that fails a test on \<open>req.\<close> takes the object past this ban, for all later requests.
  A ban that only tests the object has no such requests.)\<close>

theorem banned_object_not_served:
  assumes inv: "cache_inv own lost s" and new: "b \<notin> set (ban_head s)" and ban: "ccf_ban regc dups t0 s b av = Some (s1, None)"
    and ok: "\<forall>t \<in> set (tests_of av). test_ok t" and len: "\<forall>req lump. add_tests regc (False, []) av = Some (Inr (req, lump)) \<longrightarrow> length lump + 13 < 2 ^ 32"
    and f: "filled (objhttp oc)" and oc: "oc \<in> set (objcs s oh')" "core s oc = Some c" "\<not> oc_busy c"
    and hist: "history params (meets regc exec objhttp av oc) oc s1 s2"
    and lk: "may_lookup s2 w a h y q" and m: "meets regc exec objhttp av oc q"
  shows "HSH_Lookup params a h y q s2 w \<noteq> Some (s3, w3, LHit oc oh)"
proof
  assume l: "HSH_Lookup params a h y q s2 w = Some (s3, w3, LHit oc oh)"
  obtain req lump where s1: "add_tests regc (False, []) av = Some (Inr (req, lump))" "s1 = BAN_Insert dups t0 s b req lump" using ccf_ban_spec [OF ban] .
  have i1: "cache_inv own lost s1" unfolding s1(2) by (rule BAN_Insert_keeps [OF inv new])
  have hit: "beval q oc (mk_spec req lump) = Some True" if "meets regc exec objhttp av oc q" for q
  proof -
    obtain rq where "filled rq" "beval q = ban_decider exec objhttp rq" "\<forall>t \<in> set (tests_of av). test_spec regc exec (objhttp oc) rq t"
      using \<open>meets regc exec objhttp av oc q\<close> unfolding meets_def by blast
    then show ?thesis using compiled_ban_evaluates [OF s1(1) ok _ f, of rq exec] len s1(1) by (auto simp: ban_decider_def)
  qed
  have "doomed b (mk_spec req lump) oc s1"
  proof (cases "oc_ban c")
    case None
    then have "\<not> ttl (o_exp c) > 0" using cache_invD(5) [OF inv oc(1)] oc(2,3) by (auto simp: core_ok_def)
    then show ?thesis using oc(2) by (simp add: doomed_def s1(2) BAN_Insert_def Let_def)
  next
    case (Some ocb)
    then have "ocb \<in> set (ban_head s)" using cache_invD(2) [OF inv] oc(2) unfolding ban_inv_def by blast
    note bn = BAN_Insert_newer [OF new this, of dups t0 req lump, folded s1(2)]
    have "core s1 oc = Some c" using oc(2) by (simp add: s1(2) BAN_Insert_def Let_def)
    then show ?thesis using bn Some by (simp add: doomed_def)
  qed
  from history_doomed [OF hist i1 this hit] obtain own' lost' where i2: "cache_inv own' lost' s2" and d: "doomed b (mk_spec req lump) oc s2" by blast
  have "fresh q s2 oc \<or> in_grace params q s2 oc" using HSH_Lookup_spec [OF may_lookup_pre [OF i2 lk], of params] l by (auto simp: lookup_ok_def)
  then show False using doomed_not_servable [OF d hit [OF m]] by (auto simp: fresh_def in_grace_def)
qed

lemma may_lookup_beval:
  assumes "may_lookup s w a h y q" and "\<forall>b bn. bmem s b = Some bn \<longrightarrow> ban_lurk bn = 0 \<and> (\<forall>oc. ev oc (ban_spec bn) \<noteq> None)"
  shows "may_lookup s w a h y (q\<lparr>beval := ev\<rparr>)"
  using assms by (auto simp: may_lookup_def answers_def)

theorem banned_object_not_served_witness:
  "\<exists>s1. ccf_ban Inr True 60 (wit_cache 0) 31 wit_av = Some (s1, None) \<and>
    (\<forall>s2 w2 oh. HSH_Lookup \<lparr>default_keep = 0, default_grace = 10\<rparr> 21 8 24
       (wit_req\<lparr>beval := ban_decider (\<lambda>_ _. False) (\<lambda>_. http_ex\<lparr>h_status := 200\<rparr>) http_ex\<rparr>) s1 wit_wrk \<noteq> Some (s2, w2, LHit 20 oh))"
proof -
  let ?ev = "ban_decider (\<lambda>_ _. False) (\<lambda>_. http_ex\<lparr>h_status := 200\<rparr>) http_ex"
  define s1 where "s1 = BAN_Insert True 60 (wit_cache 0) 31 False wit_lump"
  have b: "ccf_ban Inr True 60 (wit_cache 0) 31 wit_av = Some (s1, None)" using wit_ban(1) by (simp add: ccf_ban_def s1_def wit_av_def)
  have f: "filled http_ex" "filled (http_ex\<lparr>h_status := 200\<rparr>)" by (auto simp: filled_def http_ex_def HTTP_HDR_FIRST_def)
  have ok: "\<forall>t \<in> set (tests_of wit_av). test_ok t" "length wit_lump + 13 < 2 ^ 32" by (simp_all add: wit_ban test_ok_def wit_lump_def)
  have len: "\<forall>req lump. add_tests Inr (False, []) wit_av = Some (Inr (req, lump)) \<longrightarrow> length lump + 13 < 2 ^ 32" using ok(2) wit_ban(1) by simp
  have d: "dec_digits 200 = ''200''" "cstr ''200'' = ''200''" by code_simp+
  have hit: "\<forall>t \<in> set (tests_of wit_av). test_spec Inr (\<lambda>_ _. False) (http_ex\<lparr>h_status := 200\<rparr>) http_ex t" by (simp add: wit_ban field_value_def d)
  have ev: "?ev oc (mk_spec False wit_lump) \<noteq> None" "?ev oc magic_spec \<noteq> None" for oc
    using compiled_ban_evaluates [OF wit_ban(1) ok f(2,1), of "\<lambda>_ _. False"] mk_spec_body [of "[]" False]
    by (auto simp: ban_decider_def ban_evaluate_def magic_spec_def ban_eval_loop.simps)
  have m: "\<forall>b bn. bmem s1 b = Some bn \<longrightarrow> ban_lurk bn = 0 \<and> (\<forall>oc. ?ev oc (ban_spec bn) \<noteq> None)"
    using ev by (auto simp: s1_def BAN_Insert_def Let_def wit_cache_def mark_dup_def split: if_splits)
  have "may_lookup s1 wit_wrk 21 8 24 wit_req"
    by (rule wit_may_lookup) (use m in \<open>auto simp: s1_def BAN_Insert_def Let_def wit_cache_def wit_hcb_inv1\<close>, auto simp: wit_hcb_def y_pool_def)
  from may_lookup_beval [OF this m] have lk: "may_lookup s1 wit_wrk 21 8 24 (wit_req\<lparr>beval := ?ev\<rparr>)" .
  have n: "31 \<notin> set (ban_head (wit_cache 0))" by (simp add: wit_cache_def)
  let ?m = "meets Inr (\<lambda>_ _. False) (\<lambda>_. http_ex\<lparr>h_status := 200\<rparr>) wit_av 20"
  have m20: "?m (wit_req\<lparr>beval := ?ev\<rparr>)" using f(1) hit unfolding meets_def by (intro exI [of _ http_ex]) simp
  have o: "20 \<in> set (objcs (wit_cache 0) 4)" "core (wit_cache 0) 20 = Some (wit_core 0)" "\<not> oc_busy (wit_core 0)" by (simp_all add: wit_cache_def wit_core_def)
  have "HSH_Lookup \<lparr>default_keep = 0, default_grace = 10\<rparr> 21 8 24 (wit_req\<lparr>beval := ?ev\<rparr>) s1 wit_wrk \<noteq> Some (s2, w2, LHit 20 oh)" for s2 w2 oh
    by (rule banned_object_not_served [where objhttp = "\<lambda>_. http_ex\<lparr>h_status := 200\<rparr>", OF wit_cache_inv(1) n b ok(1) len f(2) o history.start lk m20])
  then show ?thesis using b by blast
qed

end
